(* ===== verification/Prelude.thy ===== *)
theory Prelude
  imports Main "HOL-Library.AList" "HOL-Library.List_Lexorder" "HOL-Library.Char_ord"
begin

text \<open>
  Shared vocabulary of the development.

  Python values: an int is an \<open>int\<close>, a str is a \<open>string\<close> (ordered lexicographically by
  code point, as Python compares str; a \<open>char\<close> is one code point, so texts are restricted to the
  code points below 256), a dict is an association list in insertion order when the
  code iterates over it (\<open>AList.update\<close> is \<open>d[k] = v\<close>, \<open>AList.delete\<close> is
  \<open>del d[k]\<close>) and a partial map when it is only looked up.  A function that may raise returns
  \<open>exn + 'a\<close>; a method that may also have changed its object before it raises returns the
  pair of that result and the object's state at that moment.
\<close>

section \<open>Named collections\<close>

named_theorems keep \<open>each operation preserves its component's invariant\<close>
named_theorems frame \<open>what an operation leaves unchanged\<close>

section \<open>Exceptions\<close>

datatype exn =
    ValueError string
  | KeyError string
  | LookupError string
  | IndexError
  | TypeError string
  | RuntimeError string
  | AssertionError string
  | QuorumUnavailable string
  | UnknownTask string
  | LeadershipConflict string
  | StateMachineError string
  | StaleFenceError string
  | NoScriptError string
  | TaskAlreadyExistsError string
  | TaskNotFoundError string
  | ConditionalWriteFailedError string
  | UnknownVersionError string
  | ContractError string
  | UnschedulableRequestError string
  | LeadershipError string
  | InvalidTransitionError string
  | ConcurrentReservationError string
  | DuplicateNodeError string
  | MissingDependencyError string
  | InvalidParallelismError string
  | AttemptPlanExhaustedError string
  | CycleDetectedError "string list"
  | FrameTooLargeError string
  | BufferFullError string
  | UnexpectedEOFError string
  | ConnectionError string
  | OverflowError string
  | ConfigurationError string
  | PermissionError string
  | AnalysisError string
  | UnicodeDecodeError string
  | TOMLDecodeError string
  | JSONDecodeError string
  | RecursionError string

type_synonym 'a res = "exn + 'a"

text \<open>One call after another: an exception of the first leaves out the second.\<close>

fun and_then :: "'a res \<Rightarrow> ('a \<Rightarrow> 'b res) \<Rightarrow> 'b res" where
  "and_then (Inl er) f = Inl er"
| "and_then (Inr x) f = f x"

lemma and_then_Inr: "and_then r f = Inr y \<longleftrightarrow> (\<exists>x. r = Inr x \<and> f x = Inr y)"
  by (cases r) auto

lemma and_then_Inl: "and_then r f = Inl er \<longleftrightarrow> r = Inl er \<or> (\<exists>x. r = Inr x \<and> f x = Inl er)"
  by (cases r) auto

section \<open>Decimal text\<close>

definition digit_char :: "nat \<Rightarrow> char" where
  "digit_char d = char_of (48 + d)"

fun show_nat :: "nat \<Rightarrow> string" where
  "show_nat n = (if n < 10 then [digit_char n] else show_nat (n div 10) @ [digit_char (n mod 10)])"

declare show_nat.simps [simp del]

definition show_int :: "int \<Rightarrow> string" where
  "show_int i = (if i < 0 then ''-'' @ show_nat (nat (- i)) else show_nat (nat i))"

definition read_nat :: "string \<Rightarrow> nat" where
  "read_nat s = foldl (\<lambda>a c. 10 * a + (of_char c - 48)) 0 s"

lemma of_char_digit_char: "d < 10 \<Longrightarrow> (of_char (digit_char d) :: nat) = 48 + d"
  by (simp add: digit_char_def)

lemma read_show_nat [simp]: "read_nat (show_nat n) = n"
proof (induction n rule: show_nat.induct)
  case (1 n)
  show ?case
  proof (cases "n < 10")
    case True
    then show ?thesis
      by (simp add: show_nat.simps [of n] read_nat_def of_char_digit_char)
  next
    case False
    with "1.IH" have "foldl (\<lambda>a c. 10 * a + (of_char c - 48)) 0 (show_nat (n div 10)) = n div 10"
      by (simp add: read_nat_def)
    with False show ?thesis
      by (simp add: show_nat.simps [of n] read_nat_def of_char_digit_char)
  qed
qed

lemma show_nat_inject [simp]: "show_nat m = show_nat n \<longleftrightarrow> m = n"
  by (metis read_show_nat)

lemma show_int_inject_nonneg: "0 \<le> i \<Longrightarrow> 0 \<le> j \<Longrightarrow> show_int i = show_int j \<longleftrightarrow> i = j"
  by (auto simp: show_int_def eq_nat_nat_iff)

text \<open>\<open>f"{n:08d}"\<close>: at least \<open>w\<close> digits.\<close>

definition zero_pad :: "nat \<Rightarrow> nat \<Rightarrow> string" where
  "zero_pad w n = replicate (w - length (show_nat n)) (CHR ''0'') @ show_nat n"

lemma read_zero_pad [simp]: "read_nat (zero_pad w n) = n"
proof -
  have "foldl (\<lambda>a c. 10 * a + (of_char c - 48)) 0 (replicate k (CHR ''0'')) = (0 :: nat)" for k
    by (induction k) simp_all
  then show ?thesis
    using read_show_nat [of n] by (simp add: zero_pad_def read_nat_def)
qed

lemma zero_pad_inject [simp]: "zero_pad w m = zero_pad w n \<longleftrightarrow> m = n"
  by (metis read_zero_pad)

section \<open>Text and sequences\<close>

text \<open>\<open>", ".join(sorted(xs))\<close> over a finite set of names.\<close>

fun join :: "string \<Rightarrow> string list \<Rightarrow> string" where
  "join sep [] = []"
| "join sep [x] = x"
| "join sep (x # y # ys) = x @ sep @ join sep (y # ys)"

definition join_names :: "string set \<Rightarrow> string" where
  "join_names A = join '', '' (sorted_list_of_set A)"

text \<open>\<open>tuple(dict.fromkeys(xs))\<close>: the distinct elements in order of first occurrence.\<close>

fun from_keys :: "'a list \<Rightarrow> 'a list" where
  "from_keys [] = []"
| "from_keys (x # xs) = x # filter (\<lambda>y. y \<noteq> x) (from_keys xs)"

lemma set_from_keys [simp]: "set (from_keys xs) = set xs"
  by (induction xs) auto

lemma distinct_from_keys [simp]: "distinct (from_keys xs)"
  by (induction xs) auto

lemma from_keys_Nil [simp]: "from_keys xs = [] \<longleftrightarrow> xs = []"
  by (cases xs) auto

text \<open>
  Python's str.strip() test: the text is empty once the whitespace at both ends is gone, so a
  text strips to the empty one exactly when all of it is whitespace.
\<close>

definition is_space :: "char \<Rightarrow> bool" where
  "is_space c \<longleftrightarrow> of_char c \<in> {9, 10, 11, 12, 13, 28, 29, 30, 31, 32, 133, 160 :: nat}"

definition strip :: "string \<Rightarrow> string" where
  "strip s = rev (dropWhile is_space (rev (dropWhile is_space s)))"

lemma strip_Nil_iff: "strip s = [] \<longleftrightarrow> (\<forall>c \<in> set s. is_space c)"
proof -
  have "strip s = [] \<longleftrightarrow> (\<forall>c \<in> set (dropWhile is_space s). is_space c)"
    by (simp add: strip_def)
  also have "\<dots> \<longleftrightarrow> (\<forall>c \<in> set s. is_space c)"
    by (metis dropWhile_eq_Nil_conv set_dropWhileD hd_dropWhile hd_in_set)
  finally show ?thesis .
qed

text \<open>\<open>str.isdigit\<close> below code point 256: the ten digits and the superscripts two, three, one.\<close>

definition is_digit :: "char \<Rightarrow> bool" where
  "is_digit c \<longleftrightarrow> (let n = of_char c :: nat in 48 \<le> n \<and> n \<le> 57 \<or> n \<in> {178, 179, 185})"

section \<open>max and min with a key: the first extremal element\<close>

fun argmax_from :: "('a \<Rightarrow> 'b::linorder) \<Rightarrow> 'a \<Rightarrow> 'a list \<Rightarrow> 'a" where
  "argmax_from f m [] = m"
| "argmax_from f m (x # xs) = argmax_from f (if f m < f x then x else m) xs"

fun argmin_from :: "('a \<Rightarrow> 'b::linorder) \<Rightarrow> 'a \<Rightarrow> 'a list \<Rightarrow> 'a" where
  "argmin_from f m [] = m"
| "argmin_from f m (x # xs) = argmin_from f (if f x < f m then x else m) xs"

text \<open>\<open>max_key\<close> and \<open>min_key\<close> are None on the empty sequence, where Python raises.\<close>

fun max_key :: "('a \<Rightarrow> 'b::linorder) \<Rightarrow> 'a list \<Rightarrow> 'a option" where
  "max_key f [] = None"
| "max_key f (x # xs) = Some (argmax_from f x xs)"

fun min_key :: "('a \<Rightarrow> 'b::linorder) \<Rightarrow> 'a list \<Rightarrow> 'a option" where
  "min_key f [] = None"
| "min_key f (x # xs) = Some (argmin_from f x xs)"

lemma argmax_from_props:
  "argmax_from f m xs \<in> insert m (set xs) \<and> (\<forall>y \<in> insert m (set xs). f y \<le> f (argmax_from f m xs))"
proof (induction xs arbitrary: m)
  case Nil
  show ?case by simp
next
  case (Cons x xs)
  let ?m = "if f m < f x then x else m"
  have mx: "f m \<le> f ?m" "f x \<le> f ?m" by auto
  from Cons.IH [of ?m]
  have "argmax_from f ?m xs \<in> insert ?m (set xs)"
    and le: "\<forall>y \<in> insert ?m (set xs). f y \<le> f (argmax_from f ?m xs)" by auto
  moreover from le have "f ?m \<le> f (argmax_from f ?m xs)" by simp
  ultimately show ?case
    using mx by (auto split: if_splits intro: order_trans)
qed

lemma argmin_from_props:
  "argmin_from f m xs \<in> insert m (set xs) \<and> (\<forall>y \<in> insert m (set xs). f (argmin_from f m xs) \<le> f y)"
proof (induction xs arbitrary: m)
  case Nil
  show ?case by simp
next
  case (Cons x xs)
  let ?m = "if f x < f m then x else m"
  have mx: "f ?m \<le> f m" "f ?m \<le> f x" by auto
  from Cons.IH [of ?m]
  have "argmin_from f ?m xs \<in> insert ?m (set xs)"
    and le: "\<forall>y \<in> insert ?m (set xs). f (argmin_from f ?m xs) \<le> f y" by auto
  moreover from le have "f (argmin_from f ?m xs) \<le> f ?m" by simp
  ultimately show ?case
    using mx by (auto split: if_splits intro: order_trans)
qed

lemma max_key_None [simp]: "max_key f xs = None \<longleftrightarrow> xs = []"
  by (cases xs) auto

lemma max_key_Some:
  "max_key f xs = Some m \<Longrightarrow> m \<in> set xs \<and> (\<forall>y \<in> set xs. f y \<le> f m)"
  by (cases xs) (use argmax_from_props [of f] in auto)

lemma min_key_None [simp]: "min_key f xs = None \<longleftrightarrow> xs = []"
  by (cases xs) auto

lemma min_key_Some:
  "min_key f xs = Some m \<Longrightarrow> m \<in> set xs \<and> (\<forall>y \<in> set xs. f m \<le> f y)"
  by (cases xs) (use argmin_from_props [of f] in auto)

section \<open>Pairwise properties of lists\<close>

lemma sorted_wrt_map_filter:
  "sorted_wrt R (map f xs) \<Longrightarrow> sorted_wrt R (map f (filter P xs))"
  by (induction xs) auto

lemma distinct_map_sorted_wrt: "sorted_wrt (\<lambda>x y. f x \<noteq> f y) xs \<Longrightarrow> distinct (map f xs)"
  by (induction xs) auto

lemma distinct_map_sort_key: "distinct (map f xs) \<Longrightarrow> distinct (map f (sort_key g xs))"
  by (simp add: distinct_map)

lemma sum_list_filter_le:
  "(\<And>x. x \<in> set xs \<Longrightarrow> 0 \<le> f x) \<Longrightarrow> sum_list (map f (filter P xs)) \<le> sum_list (map f (xs :: 'a list) :: int list)"
  by (induction xs) (auto simp: add_increasing)

lemma sorted_wrt_pair:
  assumes "sorted_wrt R xs" "\<And>a b. R a b \<longleftrightarrow> R b a" "a \<in> set xs" "b \<in> set xs" "a \<noteq> b"
  shows "R a b"
  using assms(1,3-5) by (induction xs) (use assms(2) in auto)

section \<open>Dictionaries in insertion order\<close>

abbreviation dict_keys :: "('k \<times> 'v) list \<Rightarrow> 'k list" where
  "dict_keys d \<equiv> map fst d"

abbreviation dict_values :: "('k \<times> 'v) list \<Rightarrow> 'v list" where
  "dict_values d \<equiv> map snd d"

lemma map_of_map_keys:
  "map_of (map (\<lambda>k. (k, f k)) ks) k = (if k \<in> set ks then Some (f k) else None)"
  by (induction ks) auto

lemma map_of_map_entry:
  "map_of (AList.map_entry k f d) = (map_of d)(k := map_option f (map_of d k))"
  by (induction d) (auto simp: fun_eq_iff)

lemma dict_keys_map_entry [simp]: "dict_keys (AList.map_entry k f d) = dict_keys d"
  by (induction d) auto

lemma length_map_entry [simp]: "length (AList.map_entry k f d) = length d"
  by (induction d) auto

lemma dict_values_map_of:
  "distinct (dict_keys d) \<Longrightarrow> v \<in> set (dict_values d) \<longleftrightarrow> (\<exists>k. map_of d k = Some v)"
  by (metis (no_types, lifting) image_iff list.set_map map_of_SomeD map_of_is_SomeI prod.collapse snd_conv)

lemma dict_keys_update_present: "map_of d k = Some c \<Longrightarrow> dict_keys (AList.update k v d) = dict_keys d"
  by (induction d) (auto split: if_splits)

lemma update_fresh: "k \<notin> set (dict_keys d) \<Longrightarrow> AList.update k v d = d @ [(k, v)]"
  by (induction d) auto

lemma set_dict_keys_update: "set (dict_keys (AList.update k v d)) = insert k (set (dict_keys d))"
  by (induction d) auto

lemma set_update_cases: "x \<in> set (AList.update k v d) \<Longrightarrow> x = (k, v) \<or> x \<in> set d"
  by (induction d) (auto split: if_splits)

text \<open>Applying one change to several distinct keys, one after the other.\<close>

fun map_entries :: "'k list \<Rightarrow> ('v \<Rightarrow> 'v) \<Rightarrow> ('k \<times> 'v) list \<Rightarrow> ('k \<times> 'v) list" where
  "map_entries [] f d = d"
| "map_entries (k # ks) f d = map_entries ks f (AList.map_entry k f d)"

lemma dict_keys_map_entries [simp]: "dict_keys (map_entries ks f d) = dict_keys d"
  by (induction ks arbitrary: d) auto

lemma map_of_map_entries:
  "distinct ks \<Longrightarrow>
   map_of (map_entries ks f d) k = (if k \<in> set ks then map_option f (map_of d k) else map_of d k)"
  by (induction ks arbitrary: d) (auto simp: map_of_map_entry)

section \<open>Quorums\<close>

text \<open>Two subsets of a finite set whose sizes add up to more than its size meet.\<close>

lemma quorums_meet:
  assumes "finite N" "A \<subseteq> N" "B \<subseteq> N" "card N < card A + card B"
  shows "A \<inter> B \<noteq> {}"
proof
  assume "A \<inter> B = {}"
  with assms have "card (A \<union> B) = card A + card B"
    by (meson card_Un_disjoint finite_subset)
  moreover have "card (A \<union> B) \<le> card N"
    using assms by (intro card_mono) auto
  ultimately show False using assms by simp
qed

section \<open>Machines: a state, labelled steps, an invariant every step keeps\<close>

locale machine =
  fixes start :: "'s \<Rightarrow> bool"
    and step :: "'e \<Rightarrow> 's \<Rightarrow> 's"
    and ok :: "'s \<Rightarrow> bool"
  assumes ok_start: "start s \<Longrightarrow> ok s"
    and ok_step: "ok s \<Longrightarrow> ok (step e s)"
begin

lemma ok_run:
  assumes "start s"
  shows "ok (fold step es s)"
proof -
  have "ok s \<Longrightarrow> ok (fold step es s)" for s
    by (induction es arbitrary: s) (auto intro: ok_step)
  with assms show ?thesis by (auto intro: ok_start)
qed

lemma ok_prefix:
  assumes "start s"
  shows "ok (fold step (take n es) s)"
  using assms by (rule ok_run)

end

end
