(* ===== verification/Partition.thy ===== *)
theory Partition
  imports Prelude
begin

text \<open>
  The connectivity groups of the simulated network (\<open>PartitionMap\<close>, the same class in labs 23, 24
  and 25), and the interface through which the clusters use it: the nodes one node can reach.
\<close>

section \<open>PartitionMap\<close>

type_synonym node_id = string

record partition_map =
  groups :: "node_id set list"

definition healed :: "node_id list \<Rightarrow> partition_map" where
  "healed nodes = \<lparr>groups = [set nodes]\<rparr>"

text \<open>The loop of \<open>from_groups\<close>: returns the nodes seen, or the error of the first bad group.\<close>

fun check_groups :: "node_id set \<Rightarrow> node_id set \<Rightarrow> node_id set list \<Rightarrow> node_id set res" where
  "check_groups known seen [] = Inr seen"
| "check_groups known seen (g # gs) =
     (if g = {} then Inl (ValueError ''partition groups must not be empty'')
      else if g - known \<noteq> {}
        then Inl (ValueError (''unknown nodes in partition: '' @ join_names (g - known)))
      else if seen \<inter> g \<noteq> {}
        then Inl (ValueError (''nodes may appear in one partition only: '' @ join_names (seen \<inter> g)))
      else check_groups known (seen \<union> g) gs)"

definition from_groups :: "node_id list \<Rightarrow> node_id list list \<Rightarrow> partition_map res" where
  "from_groups nodes gs =
     (let known = set nodes; frozen = map set gs
      in case check_groups known {} frozen of
           Inl e \<Rightarrow> Inl e
         | Inr seen \<Rightarrow>
             if seen \<noteq> known
             then Inl (ValueError (''partition must cover every node: '' @ join_names (known - seen)))
             else Inr \<lparr>groups = frozen\<rparr>)"

definition reachable_from :: "partition_map \<Rightarrow> node_id \<Rightarrow> node_id list res" where
  "reachable_from p n =
     (case find (\<lambda>g. n \<in> g) (groups p) of
        None \<Rightarrow> Inl (ValueError (''unknown node '' @ n))
      | Some g \<Rightarrow> Inr (sorted_list_of_set g))"

section \<open>What a partition of a set of nodes is\<close>

definition partitions :: "partition_map \<Rightarrow> node_id set \<Rightarrow> bool" where
  "partitions p N \<longleftrightarrow>
     \<Union> (set (groups p)) = N \<and> {} \<notin> set (groups p) \<and> (\<forall>g \<in> set (groups p). finite g) \<and>
     sorted_wrt (\<lambda>g h. g \<inter> h = {}) (groups p)"

lemma check_groups_Inr:
  "check_groups known seen gs = Inr s \<Longrightarrow>
     s = seen \<union> \<Union> (set gs) \<and> {} \<notin> set gs \<and> (\<forall>g \<in> set gs. g \<subseteq> known \<and> seen \<inter> g = {}) \<and>
     sorted_wrt (\<lambda>g h. g \<inter> h = {}) gs"
  by (induction known seen gs rule: check_groups.induct) (auto split: if_splits)

lemma check_groups_accepts:
  "\<lbrakk>{} \<notin> set gs; \<forall>g \<in> set gs. g \<subseteq> known \<and> seen \<inter> g = {}; sorted_wrt (\<lambda>g h. g \<inter> h = {}) gs\<rbrakk>
     \<Longrightarrow> check_groups known seen gs = Inr (seen \<union> \<Union> (set gs))"
proof (induction known seen gs rule: check_groups.induct)
  case (1 known seen)
  then show ?case by simp
next
  case (2 known seen g gs)
  from 2 have "g \<noteq> {}" "g - known = {}" "seen \<inter> g = {}" by auto
  moreover from this 2 have "check_groups known (seen \<union> g) gs = Inr (seen \<union> g \<union> \<Union> (set gs))"
    by (auto simp: Int_Un_distrib2)
  ultimately show ?case by (auto simp: Un_assoc)
qed

lemma from_groups_accepts_iff:
  "from_groups nodes gs = Inr p \<longleftrightarrow>
     p = \<lparr>groups = map set gs\<rparr> \<and> partitions \<lparr>groups = map set gs\<rparr> (set nodes)"
proof
  assume "from_groups nodes gs = Inr p"
  then show "p = \<lparr>groups = map set gs\<rparr> \<and> partitions \<lparr>groups = map set gs\<rparr> (set nodes)"
    by (auto simp: from_groups_def partitions_def Let_def dest!: check_groups_Inr
        split: sum.splits if_splits)
next
  assume rhs: "p = \<lparr>groups = map set gs\<rparr> \<and> partitions \<lparr>groups = map set gs\<rparr> (set nodes)"
  then have "check_groups (set nodes) {} (map set gs) = Inr (\<Union> (set (map set gs)))"
    by (subst check_groups_accepts) (auto simp: partitions_def)
  with rhs show "from_groups nodes gs = Inr p"
    by (auto simp: from_groups_def partitions_def)
qed

lemma from_groups_partitions [keep]: "from_groups nodes gs = Inr p \<Longrightarrow> partitions p (set nodes)"
  by (simp add: from_groups_accepts_iff)

lemma healed_partitions [keep]: "nodes \<noteq> [] \<Longrightarrow> partitions (healed nodes) (set nodes)"
  by (simp add: healed_def partitions_def)

section \<open>The interface the clusters rely on\<close>

text \<open>
  A network over a finite set of nodes: a known node reaches a duplicate-free sequence of known
  nodes that contains it, reachability is mutual, and an unknown node reaches nothing.
\<close>

locale network =
  fixes reach :: "'p \<Rightarrow> node_id \<Rightarrow> node_id list res"
    and over :: "'p \<Rightarrow> node_id set \<Rightarrow> bool"
  assumes reach_known: "over p N \<Longrightarrow> n \<in> N \<Longrightarrow> \<exists>ns. reach p n = Inr ns"
    and reach_set: "over p N \<Longrightarrow> reach p n = Inr ns \<Longrightarrow> distinct ns \<and> set ns \<subseteq> N \<and> n \<in> set ns"
    and reach_mutual:
      "over p N \<Longrightarrow> reach p n = Inr ns \<Longrightarrow> m \<in> set ns \<Longrightarrow> reach p m = Inr ns"
begin

lemma reach_unknown: "over p N \<Longrightarrow> n \<notin> N \<Longrightarrow> \<exists>e. reach p n = Inl e"
  by (metis reach_set subsetD obj_sumE)

lemma reach_length: "finite N \<Longrightarrow> over p N \<Longrightarrow> reach p n = Inr ns \<Longrightarrow> length ns \<le> card N"
  by (metis card_mono distinct_card reach_set)

lemma reach_sym:
  "over p N \<Longrightarrow> reach p n = Inr ns \<Longrightarrow> reach p m = Inr ms \<Longrightarrow> m \<in> set ns \<longleftrightarrow> n \<in> set ms"
  by (metis reach_mutual reach_set sum.inject(2))

text \<open>Two sides of a partition cannot both hold a majority of the nodes.\<close>

lemma one_majority_side:
  assumes "finite N" "over p N" "reach p n = Inr ns" "reach p m = Inr ms"
    and "card N < length ns + length ms"
  shows "set ns = set ms"
proof -
  have "card (set ns) = length ns" "card (set ms) = length ms" "set ns \<subseteq> N" "set ms \<subseteq> N"
    using assms reach_set distinct_card by metis+
  with assms have "set ns \<inter> set ms \<noteq> {}"
    by (intro quorums_meet [of N]) auto
  then obtain k where "k \<in> set ns" "k \<in> set ms" by blast
  with assms have "ns = ms"
    by (metis reach_mutual sum.inject(2))
  then show ?thesis by simp
qed

end

lemma find_disjoint:
  "sorted_wrt (\<lambda>g h. g \<inter> h = {}) gs \<Longrightarrow> g \<in> set gs \<Longrightarrow> n \<in> g \<Longrightarrow> find (\<lambda>g. n \<in> g) gs = Some g"
  by (induction gs) auto

lemma reachable_from_Inr_iff:
  assumes "partitions p N"
  shows "reachable_from p n = Inr ns \<longleftrightarrow> (\<exists>g \<in> set (groups p). n \<in> g \<and> ns = sorted_list_of_set g)"
proof -
  from assms have "sorted_wrt (\<lambda>g h. g \<inter> h = {}) (groups p)"
    by (simp add: partitions_def)
  then have found: "find (\<lambda>g. n \<in> g) (groups p) = Some g \<longleftrightarrow> g \<in> set (groups p) \<and> n \<in> g" for g
    by (metis find_Some_iff find_disjoint nth_mem)
  have "reachable_from p n = Inr ns \<longleftrightarrow>
      (\<exists>g. find (\<lambda>g. n \<in> g) (groups p) = Some g \<and> ns = sorted_list_of_set g)"
    by (auto simp: reachable_from_def split: option.splits)
  with found show ?thesis by auto
qed

interpretation net: network reachable_from partitions
proof
  show "\<exists>ns. reachable_from p n = Inr ns" if "partitions p N" "n \<in> N" for p N n
    using that by (auto simp: reachable_from_Inr_iff partitions_def)
  show "distinct ns \<and> set ns \<subseteq> N \<and> n \<in> set ns"
    if "partitions p N" "reachable_from p n = Inr ns" for p N n ns
    using that by (auto simp: reachable_from_Inr_iff partitions_def)
  show "reachable_from p m = Inr ns"
    if "partitions p N" "reachable_from p n = Inr ns" "m \<in> set ns" for p N n ns m
    using that by (auto simp: reachable_from_Inr_iff) (auto simp: partitions_def)
qed

lemma reachable_from_sorted: "reachable_from p n = Inr ns \<Longrightarrow> sorted ns"
  by (auto simp: reachable_from_def split: option.splits)

end
