(* ===== verification/Quorum.thy ===== *)
theory Quorum
  imports Partition
begin

text \<open>
  Lab 23, \<open>lab_23_quorum_basics/simulation.py\<close>: the quorum arithmetic and the replicated task
  register.  The cluster's state is its clock, its replicas in construction order and the current
  partition; \<open>write_task\<close>, \<open>set_partition\<close>, \<open>heal\<close> and the clock are its steps.
\<close>

section \<open>Data\<close>

type_synonym task_key = string

datatype relay_task_status = QUEUED | RUNNING | COMPLETED

record relay_task_record =
  task_id :: string
  shard :: string
  status :: relay_task_status
  assigned_worker :: "string option"
  attempt :: int

text \<open>\<open>Version\<close> is a dataclass with \<open>order=True\<close>: tick first, then the coordinator's name.\<close>

datatype version = Version (v_tick: int) (v_coordinator: node_id)

instantiation version :: linorder
begin

definition less_eq_version :: "version \<Rightarrow> version \<Rightarrow> bool" where
  "less_eq_version v w \<longleftrightarrow>
     v_tick v < v_tick w \<or> v_tick v = v_tick w \<and> v_coordinator v \<le> v_coordinator w"

definition less_version :: "version \<Rightarrow> version \<Rightarrow> bool" where
  "less_version v w \<longleftrightarrow>
     v_tick v < v_tick w \<or> v_tick v = v_tick w \<and> v_coordinator v < v_coordinator w"

instance
  by standard (auto simp: less_eq_version_def less_version_def intro: version.expand)

end

record versioned_task =
  vt_version :: version
  vt_record :: relay_task_record

record register_node =
  rn_node_id :: node_id
  rn_store :: "task_key \<rightharpoonup> versioned_task"

record read_observation =
  ob_node_id :: node_id
  ob_value :: "versioned_task option"

record read_result =
  rr_task_key :: task_key
  rr_value :: versioned_task
  rr_contacted_nodes :: "node_id list"
  rr_observations :: "read_observation list"
  rr_stale :: bool

record quorum_cluster =
  qc_clock :: int
  qc_nodes :: "(node_id \<times> register_node) list"
  qc_partition :: partition_map

section \<open>Clock and quorum arithmetic\<close>

definition advance :: "int \<Rightarrow> int \<Rightarrow> int res" where
  "advance tick steps =
     (if steps < 1 then Inl (ValueError ''steps must be positive'') else Inr (tick + steps))"

definition majority_quorum :: "int \<Rightarrow> int res" where
  "majority_quorum node_count =
     (if node_count < 1 then Inl (ValueError ''node_count must be positive'')
      else Inr (node_count div 2 + 1))"

definition majority_failure_budget :: "int \<Rightarrow> int res" where
  "majority_failure_budget node_count =
     (case majority_quorum node_count of Inl e \<Rightarrow> Inl e | Inr q \<Rightarrow> Inr (node_count - q))"

definition quorums_intersect :: "int \<Rightarrow> int \<Rightarrow> int \<Rightarrow> bool res" where
  "quorums_intersect node_count read_quorum write_quorum =
     (if min node_count (min read_quorum write_quorum) < 1
      then Inl (ValueError ''node_count, read_quorum and write_quorum must be positive'')
      else if node_count < max read_quorum write_quorum
      then Inl (ValueError ''quorums cannot exceed node_count'')
      else Inr (node_count < read_quorum + write_quorum))"

section \<open>One replica\<close>

definition register_read :: "register_node \<Rightarrow> task_key \<Rightarrow> versioned_task option" where
  "register_read node k = rn_store node k"

definition register_write :: "task_key \<Rightarrow> versioned_task \<Rightarrow> register_node \<Rightarrow> register_node" where
  "register_write k value node =
     (case rn_store node k of
        None \<Rightarrow> node\<lparr>rn_store := (rn_store node)(k \<mapsto> value)\<rparr>
      | Some current \<Rightarrow>
          if vt_version current \<le> vt_version value
          then node\<lparr>rn_store := (rn_store node)(k \<mapsto> value)\<rparr>
          else node)"

section \<open>The cluster\<close>

definition new_cluster :: "node_id list \<Rightarrow> int \<Rightarrow> quorum_cluster res" where
  "new_cluster node_ids clock =
     (let unique_nodes = from_keys node_ids
      in if length unique_nodes < 1 then Inl (ValueError ''at least one node is required'')
         else Inr \<lparr>qc_clock = clock,
           qc_nodes = map (\<lambda>n. (n, \<lparr>rn_node_id = n, rn_store = Map.empty\<rparr>)) unique_nodes,
           qc_partition = healed unique_nodes\<rparr>)"

definition node_ids :: "quorum_cluster \<Rightarrow> node_id list" where
  "node_ids c = dict_keys (qc_nodes c)"

definition node_count :: "quorum_cluster \<Rightarrow> int" where
  "node_count c = int (length (qc_nodes c))"

definition set_partition :: "node_id list list \<Rightarrow> quorum_cluster \<Rightarrow> unit res \<times> quorum_cluster" where
  "set_partition gs c =
     (case from_groups (node_ids c) gs of
        Inl e \<Rightarrow> (Inl e, c)
      | Inr p \<Rightarrow> (Inr (), c\<lparr>qc_partition := p\<rparr>))"

definition heal :: "quorum_cluster \<Rightarrow> quorum_cluster" where
  "heal c = c\<lparr>qc_partition := healed (node_ids c)\<rparr>"

definition select_nodes ::
    "quorum_cluster \<Rightarrow> node_id \<Rightarrow> int \<Rightarrow> node_id list option \<Rightarrow> node_id list res" where
  "select_nodes c coordinator required preferred_nodes =
     (if coordinator \<notin> set (node_ids c) then Inl (ValueError (''unknown node '' @ coordinator))
      else if required < 1 \<or> node_count c < required
        then Inl (ValueError ''quorum size must be between 1 and node_count'')
      else case reachable_from (qc_partition c) coordinator of
        Inl e \<Rightarrow> Inl e
      | Inr ordered_reachable \<Rightarrow>
          if int (length ordered_reachable) < required
          then Inl (QuorumUnavailable (coordinator @ '' can reach '' @
                 show_nat (length ordered_reachable) @ '' replicas, needs '' @ show_int required))
          else case preferred_nodes of
            None \<Rightarrow> Inr (take (nat required) ordered_reachable)
          | Some preferred \<Rightarrow>
              let unique_preferred = from_keys preferred;
                  unknown = set unique_preferred - set ordered_reachable
              in if int (length unique_preferred) \<noteq> required
                 then Inl (ValueError ''preferred_nodes must name exactly the requested quorum'')
                 else if unknown \<noteq> {}
                 then Inl (QuorumUnavailable (coordinator @ '' cannot reach '' @ join_names unknown))
                 else Inr unique_preferred)"

text \<open>
  \<open>write_task\<close>: the targets are selected before the clock advances.  Every target is a node of the
  cluster (\<open>select_nodes_known\<close> below), so the look-up \<open>self._nodes[node_id]\<close> of the loop never
  raises; \<open>map_entries\<close> writes to the targets in order.
\<close>

definition write_task ::
    "task_key \<Rightarrow> relay_task_record \<Rightarrow> node_id \<Rightarrow> int \<Rightarrow> node_id list option \<Rightarrow> quorum_cluster
     \<Rightarrow> versioned_task res \<times> quorum_cluster" where
  "write_task k record coordinator write_quorum preferred_nodes c =
     (case select_nodes c coordinator write_quorum preferred_nodes of
        Inl e \<Rightarrow> (Inl e, c)
      | Inr targets \<Rightarrow>
          (case advance (qc_clock c) 1 of
             Inl e \<Rightarrow> (Inl e, c)
           | Inr tick \<Rightarrow>
               let versioned = \<lparr>vt_version = Version tick coordinator, vt_record = record\<rparr>
               in (Inr versioned,
                   c\<lparr>qc_clock := tick,
                     qc_nodes := map_entries targets (register_write k versioned) (qc_nodes c)\<rparr>)))"

definition latest_task :: "quorum_cluster \<Rightarrow> task_key \<Rightarrow> versioned_task option" where
  "latest_task c k =
     max_key vt_version (List.map_filter (\<lambda>node. register_read node k) (dict_values (qc_nodes c)))"

definition replica_value :: "quorum_cluster \<Rightarrow> node_id \<Rightarrow> task_key \<Rightarrow> versioned_task option res" where
  "replica_value c n k =
     (case map_of (qc_nodes c) n of
        None \<Rightarrow> Inl (ValueError (''unknown node '' @ n))
      | Some node \<Rightarrow> Inr (register_read node k))"

definition can_reach_quorum :: "quorum_cluster \<Rightarrow> node_id \<Rightarrow> int \<Rightarrow> bool res" where
  "can_reach_quorum c coordinator quorum_size =
     (if coordinator \<notin> set (node_ids c) then Inl (ValueError (''unknown node '' @ coordinator))
      else if quorum_size < 1 \<or> node_count c < quorum_size
        then Inl (ValueError ''quorum_size must be between 1 and node_count'')
      else case reachable_from (qc_partition c) coordinator of
        Inl e \<Rightarrow> Inl e
      | Inr ns \<Rightarrow> Inr (quorum_size \<le> int (length ns)))"

text \<open>The observation of one target; the look-up of a target never fails, as in \<open>write_task\<close>.\<close>

definition observe :: "quorum_cluster \<Rightarrow> task_key \<Rightarrow> node_id \<Rightarrow> read_observation" where
  "observe c k n =
     \<lparr>ob_node_id = n,
      ob_value = (case map_of (qc_nodes c) n of None \<Rightarrow> None | Some node \<Rightarrow> register_read node k)\<rparr>"

definition read_task ::
    "quorum_cluster \<Rightarrow> task_key \<Rightarrow> node_id \<Rightarrow> int \<Rightarrow> node_id list option \<Rightarrow> read_result res" where
  "read_task c k coordinator read_quorum preferred_nodes =
     (case select_nodes c coordinator read_quorum preferred_nodes of
        Inl e \<Rightarrow> Inl e
      | Inr targets \<Rightarrow>
          let observations = map (observe c k) targets;
              candidates = List.map_filter ob_value observations
          in case max_key vt_version candidates of
               None \<Rightarrow> Inl (UnknownTask (k @ '' has not been written''))
             | Some latest_seen \<Rightarrow>
                 Inr \<lparr>rr_task_key = k, rr_value = latest_seen, rr_contacted_nodes = targets,
                   rr_observations = observations,
                   rr_stale = (case latest_task c k of
                       None \<Rightarrow> False
                     | Some cluster_latest \<Rightarrow> vt_version latest_seen < vt_version cluster_latest)\<rparr>)"

section \<open>Steps and reachable clusters\<close>

text \<open>
  A run of the cluster: writes with a quorum of at least \<open>w\<close> replicas from any coordinator and with
  any preferred nodes, changes of the partition, healing and moves of the shared clock, in any
  order, whether they succeed or raise.
\<close>

inductive q_step :: "int \<Rightarrow> quorum_cluster \<Rightarrow> quorum_cluster \<Rightarrow> bool" for w where
  q_write: "w \<le> wq \<Longrightarrow> q_step w c (snd (write_task k record coordinator wq preferred c))"
| q_partition: "q_step w c (snd (set_partition gs c))"
| q_heal: "q_step w c (heal c)"
| q_clock: "advance (qc_clock c) steps = Inr t \<Longrightarrow> q_step w c (c\<lparr>qc_clock := t\<rparr>)"

inductive q_reachable :: "int \<Rightarrow> quorum_cluster \<Rightarrow> bool" for w where
  q_new: "new_cluster ns clock = Inr c \<Longrightarrow> q_reachable w c"
| q_next: "q_reachable w c \<Longrightarrow> q_step w c d \<Longrightarrow> q_reachable w d"

section \<open>What the replicas hold\<close>

definition stored :: "quorum_cluster \<Rightarrow> node_id \<Rightarrow> task_key \<Rightarrow> versioned_task option" where
  "stored c n k = Option.bind (map_of (qc_nodes c) n) (\<lambda>node. rn_store node k)"

definition holders :: "quorum_cluster \<Rightarrow> task_key \<Rightarrow> version \<Rightarrow> node_id set" where
  "holders c k ver = {n. \<exists>v. stored c n k = Some v \<and> vt_version v = ver}"

definition newest :: "quorum_cluster \<Rightarrow> task_key \<Rightarrow> versioned_task \<Rightarrow> bool" where
  "newest c k v \<longleftrightarrow> (\<exists>n. stored c n k = Some v) \<and>
     (\<forall>n v'. stored c n k = Some v' \<longrightarrow> vt_version v' \<le> vt_version v)"

definition cluster_ok :: "quorum_cluster \<Rightarrow> bool" where
  "cluster_ok c \<longleftrightarrow> qc_nodes c \<noteq> [] \<and> distinct (node_ids c) \<and>
     partitions (qc_partition c) (set (node_ids c)) \<and>
     (\<forall>n k v. stored c n k = Some v \<longrightarrow> v_tick (vt_version v) \<le> qc_clock c)"

definition quorum_held :: "int \<Rightarrow> quorum_cluster \<Rightarrow> bool" where
  "quorum_held w c \<longleftrightarrow>
     (\<forall>k v. newest c k v \<longrightarrow> w \<le> int (card (holders c k (vt_version v))))"

lemma stored_known: "stored c n k = Some v \<Longrightarrow> n \<in> set (node_ids c)"
  by (auto simp: stored_def node_ids_def bind_eq_Some_conv map_of_eq_None_iff
      intro: rev_image_eqI dest!: map_of_SomeD)

lemma holders_known: "holders c k ver \<subseteq> set (node_ids c)"
  by (auto simp: holders_def dest: stored_known)

lemma latest_task_newest:
  assumes "distinct (node_ids c)" "latest_task c k = Some v"
  shows "newest c k v"
proof -
  let ?vs = "List.map_filter (\<lambda>node. register_read node k) (dict_values (qc_nodes c))"
  have vs: "u \<in> set ?vs \<longleftrightarrow> (\<exists>n. stored c n k = Some u)" for u
  proof -
    have "u \<in> set ?vs \<longleftrightarrow> (\<exists>node \<in> set (dict_values (qc_nodes c)). rn_store node k = Some u)"
      by (force simp: List.map_filter_def register_read_def)
    also have "\<dots> \<longleftrightarrow> (\<exists>n node. map_of (qc_nodes c) n = Some node \<and> rn_store node k = Some u)"
      using assms(1) unfolding node_ids_def by (metis dict_values_map_of)
    finally show ?thesis by (auto simp: stored_def bind_eq_Some_conv)
  qed
  from assms(2) have "v \<in> set ?vs \<and> (\<forall>u \<in> set ?vs. vt_version u \<le> vt_version v)"
    unfolding latest_task_def by (rule max_key_Some)
  then show ?thesis
    unfolding newest_def using vs by blast
qed

lemma latest_task_stored:
  "stored c n k = Some v \<Longrightarrow> distinct (node_ids c) \<Longrightarrow> \<exists>l. latest_task c k = Some l"
proof -
  assume st: "stored c n k = Some v" and dis: "distinct (node_ids c)"
  then obtain node where "map_of (qc_nodes c) n = Some node" "rn_store node k = Some v"
    by (auto simp: stored_def bind_eq_Some_conv)
  then have "v \<in> set (List.map_filter (\<lambda>node. register_read node k) (dict_values (qc_nodes c)))"
    by (force simp: List.map_filter_def register_read_def dest!: map_of_SomeD)
  then have "latest_task c k \<noteq> None"
    unfolding latest_task_def max_key_None by (metis empty_iff list.set(1))
  then show ?thesis by blast
qed

section \<open>Selecting nodes\<close>

lemma select_nodes_Inr:
  assumes "cluster_ok c" "select_nodes c coordinator required preferred = Inr ns"
  shows "distinct ns" "set ns \<subseteq> set (node_ids c)" "int (length ns) = required" "1 \<le> required"
    "coordinator \<in> set (node_ids c)"
    "\<exists>rs. reachable_from (qc_partition c) coordinator = Inr rs \<and> set ns \<subseteq> set rs"
proof -
  from assms(2) obtain rs where rs: "reachable_from (qc_partition c) coordinator = Inr rs"
    and len: "required \<le> int (length rs)"
    and ns: "(preferred = None \<and> ns = take (nat required) rs) \<or>
      (\<exists>ps. preferred = Some ps \<and> ns = from_keys ps \<and> int (length ns) = required \<and> set ns \<subseteq> set rs)"
    and req: "1 \<le> required" and co: "coordinator \<in> set (node_ids c)"
    by (auto simp: select_nodes_def Let_def split: if_splits sum.splits option.splits)
  have "distinct rs" "set rs \<subseteq> set (node_ids c)"
    using net.reach_set [OF _ rs] assms(1) by (auto simp: cluster_ok_def)
  with ns len req show "distinct ns" "set ns \<subseteq> set (node_ids c)" "int (length ns) = required"
    by (auto dest: in_set_takeD)
  show "\<exists>rs. reachable_from (qc_partition c) coordinator = Inr rs \<and> set ns \<subseteq> set rs"
    using rs ns by (auto dest: in_set_takeD)
qed (use assms in \<open>auto simp: select_nodes_def split: if_splits\<close>)

lemmas select_nodes_known = select_nodes_Inr(2)

lemma node_ids_write [simp]: "node_ids (snd (write_task k r co wq p c)) = node_ids c"
  by (auto simp: write_task_def node_ids_def Let_def split: sum.splits)

lemma qc_partition_write [simp]: "qc_partition (snd (write_task k r co wq p c)) = qc_partition c"
  by (auto simp: write_task_def Let_def split: sum.splits)

lemma write_task_Inl [frame]: "write_task k r co wq p c = (Inl e, d) \<Longrightarrow> d = c"
  by (auto simp: write_task_def Let_def split: sum.splits)

lemma write_task_Inr:
  assumes "cluster_ok c" "write_task k r co wq p c = (Inr v, d)"
  obtains ns where "select_nodes c co wq p = Inr ns"
    "v = \<lparr>vt_version = Version (qc_clock c + 1) co, vt_record = r\<rparr>"
    "qc_clock d = qc_clock c + 1"
    "\<And>n k'. stored d n k' = (if k' = k \<and> n \<in> set ns then Some v else stored c n k')"
proof -
  from assms(2) obtain ns where ns: "select_nodes c co wq p = Inr ns"
    and v: "v = \<lparr>vt_version = Version (qc_clock c + 1) co, vt_record = r\<rparr>"
    and d: "d = c\<lparr>qc_clock := qc_clock c + 1,
      qc_nodes := map_entries ns (register_write k v) (qc_nodes c)\<rparr>"
    by (auto simp: write_task_def advance_def Let_def split: sum.splits)
  have older: "vt_version u \<le> vt_version v" if "stored c n k = Some u" for n u
  proof -
    from that assms(1) have "v_tick (vt_version u) \<le> qc_clock c" by (auto simp: cluster_ok_def)
    then show ?thesis by (simp add: v less_eq_version_def)
  qed
  have "stored d n k' = (if k' = k \<and> n \<in> set ns then Some v else stored c n k')" for n k'
  proof (cases "map_of (qc_nodes c) n")
    case None
    then have "n \<notin> set ns"
      using select_nodes_Inr(2) [OF assms(1) ns]
      by (auto simp: node_ids_def map_of_eq_None_iff)
    with None show ?thesis
      by (simp add: stored_def d map_of_map_entries select_nodes_Inr(1) [OF assms(1) ns])
  next
    case (Some node)
    then have "vt_version u \<le> vt_version v" if "rn_store node k = Some u" for u
      using older [of n u] that by (simp add: stored_def)
    with Some show ?thesis
      by (auto simp: stored_def d map_of_map_entries select_nodes_Inr(1) [OF assms(1) ns]
          register_write_def split: option.splits)
  qed
  then show thesis using that ns v d by simp
qed

section \<open>Every step keeps the cluster well formed\<close>

lemma cluster_ok_new [keep]:
  assumes "new_cluster ns clock = Inr c"
  shows "cluster_ok c" "stored c n k = None"
proof -
  from assms have ne: "from_keys ns \<noteq> []"
    and c: "c = \<lparr>qc_clock = clock,
      qc_nodes = map (\<lambda>n. (n, \<lparr>rn_node_id = n, rn_store = Map.empty\<rparr>)) (from_keys ns),
      qc_partition = healed (from_keys ns)\<rparr>"
    by (auto simp: new_cluster_def Let_def split: if_splits)
  have ids: "node_ids c = from_keys ns"
    by (simp add: c node_ids_def comp_def)
  show none: "stored c n k = None" for n k
    by (cases "n \<in> set ns") (simp_all add: stored_def c map_of_map_keys map_of_eq_None_iff)
  show "cluster_ok c"
    using ne healed_partitions [OF ne] none ids by (simp add: cluster_ok_def) (simp add: c)
qed

lemma cluster_ok_write [keep]:
  assumes "cluster_ok c"
  shows "cluster_ok (snd (write_task k r co wq p c))"
proof (cases "write_task k r co wq p c")
  case (Pair res d)
  show ?thesis
  proof (cases res)
    case (Inl e)
    with Pair assms show ?thesis by (auto dest: write_task_Inl)
  next
    case (Inr v)
    with Pair have w: "write_task k r co wq p c = (Inr v, d)" by simp
    from write_task_Inr [OF assms w] obtain ns where
      v: "v = \<lparr>vt_version = Version (qc_clock c + 1) co, vt_record = r\<rparr>"
      and clk: "qc_clock d = qc_clock c + 1"
      and st: "\<And>n k'. stored d n k' = (if k' = k \<and> n \<in> set ns then Some v else stored c n k')"
      by metis
    have "node_ids d = node_ids c" "qc_partition d = qc_partition c"
      using w node_ids_write [of k r co wq p c] qc_partition_write [of k r co wq p c] by simp_all
    moreover from this assms have "qc_nodes d \<noteq> []"
      by (metis cluster_ok_def list.map_disc_iff node_ids_def)
    moreover have "v_tick (vt_version u) \<le> qc_clock d" if "stored d n k' = Some u" for n k' u
      using that assms by (force simp: st clk v cluster_ok_def split: if_splits)
    ultimately show ?thesis
      using assms w by (simp add: cluster_ok_def)
  qed
qed

lemma node_ids_partition [simp]:
  "node_ids (snd (set_partition gs c)) = node_ids c" "node_ids (heal c) = node_ids c"
  by (simp_all add: set_partition_def heal_def node_ids_def split: sum.split)

lemma stored_partition [simp]:
  "stored (snd (set_partition gs c)) = stored c" "stored (heal c) = stored c"
  "stored (c\<lparr>qc_clock := t\<rparr>) = stored c"
  by (simp_all add: set_partition_def heal_def stored_def fun_eq_iff split: sum.split)

lemma cluster_ok_partition [keep]:
  "cluster_ok c \<Longrightarrow> cluster_ok (snd (set_partition gs c))"
  "cluster_ok c \<Longrightarrow> cluster_ok (heal c)"
  by (auto simp: cluster_ok_def set_partition_def heal_def node_ids_def stored_def
      from_groups_partitions healed_partitions split: sum.splits
      dest: from_groups_partitions healed_partitions)
    (metis healed_partitions list.map_disc_iff list.set_map)+

lemma cluster_ok_clock [keep]:
  "cluster_ok c \<Longrightarrow> advance (qc_clock c) steps = Inr t \<Longrightarrow> cluster_ok (c\<lparr>qc_clock := t\<rparr>)"
  by (force simp: cluster_ok_def advance_def node_ids_def stored_def split: if_splits)

lemma cluster_ok_step: "q_step w c d \<Longrightarrow> cluster_ok c \<Longrightarrow> cluster_ok d"
  by (induction rule: q_step.induct) (auto intro: keep)

lemma cluster_ok_reachable: "q_reachable w c \<Longrightarrow> cluster_ok c"
  by (induction rule: q_reachable.induct) (auto intro: keep cluster_ok_step)

section \<open>Every step keeps the newest version on a write quorum\<close>

lemma newest_stored_cong: "stored d = stored c \<Longrightarrow> newest d k v = newest c k v"
  by (simp add: newest_def)

lemma quorum_held_stored_cong: "stored d = stored c \<Longrightarrow> quorum_held w d = quorum_held w c"
  by (simp add: quorum_held_def newest_def holders_def)

lemma newest_write:
  assumes "cluster_ok c" "write_task k r co wq p c = (Inr v, d)"
  shows "newest d k u \<longleftrightarrow> u = v" "k' \<noteq> k \<Longrightarrow> newest d k' u = newest c k' u"
    "k' \<noteq> k \<Longrightarrow> holders d k' ver = holders c k' ver"
    "wq \<le> int (card (holders d k (vt_version v)))"
proof -
  from write_task_Inr [OF assms] obtain ns where
    ns: "select_nodes c co wq p = Inr ns"
    and v: "v = \<lparr>vt_version = Version (qc_clock c + 1) co, vt_record = r\<rparr>"
    and st: "\<And>n k'. stored d n k' = (if k' = k \<and> n \<in> set ns then Some v else stored c n k')"
    by metis
  note sel = select_nodes_Inr [OF assms(1) ns]
  from sel(3,4) have ne: "set ns \<noteq> {}" by auto
  have old: "vt_version x < vt_version v" if "stored c n k = Some x" for x n
    using that assms(1) by (force simp: cluster_ok_def v less_version_def)
  show "newest d k u \<longleftrightarrow> u = v"
  proof
    assume u: "newest d k u"
    then obtain n where n: "stored d n k = Some u" by (auto simp: newest_def)
    from ne obtain m where "m \<in> set ns" by (metis all_not_in_conv)
    then have "stored d m k = Some v" by (simp add: st)
    with u have "vt_version v \<le> vt_version u" by (auto simp: newest_def)
    with n old show "u = v" by (force simp: st split: if_splits)
  next
    assume "u = v"
    moreover from ne obtain m where "m \<in> set ns" by (metis all_not_in_conv)
    ultimately have "stored d m k = Some u" by (simp add: st)
    moreover have "vt_version x \<le> vt_version u" if "stored d n k = Some x" for n x
      using that old [of n x] \<open>u = v\<close> by (auto simp: st split: if_splits)
    ultimately show "newest d k u" unfolding newest_def by blast
  qed
  show "k' \<noteq> k \<Longrightarrow> newest d k' u = newest c k' u"
    "k' \<noteq> k \<Longrightarrow> holders d k' ver = holders c k' ver"
    by (simp_all add: newest_def holders_def st)
  have "set ns \<subseteq> holders d k (vt_version v)"
    by (auto simp: holders_def st)
  then have "card (set ns) \<le> card (holders d k (vt_version v))"
    by (meson card_mono finite_set finite_subset holders_known)
  with sel(1,3) show "wq \<le> int (card (holders d k (vt_version v)))"
    by (simp add: distinct_card)
qed

lemma quorum_held_write:
  assumes "cluster_ok c" "quorum_held w c" "w \<le> wq"
  shows "quorum_held w (snd (write_task k r co wq p c))"
proof (cases "write_task k r co wq p c")
  case (Pair res d)
  show ?thesis
  proof (cases res)
    case (Inl e)
    with Pair assms show ?thesis by (auto dest: write_task_Inl)
  next
    case (Inr v)
    with Pair have wr: "write_task k r co wq p c = (Inr v, d)" by simp
    have "w \<le> int (card (holders d k' (vt_version u)))" if "newest d k' u" for k' u
      using that assms(2,3) newest_write [OF assms(1) wr]
      by (cases "k' = k") (auto simp: quorum_held_def)
    with Pair show ?thesis by (simp add: quorum_held_def)
  qed
qed

lemma quorum_held_step: "q_step w c d \<Longrightarrow> cluster_ok c \<Longrightarrow> quorum_held w c \<Longrightarrow> quorum_held w d"
  by (induction rule: q_step.induct)
    (auto intro: quorum_held_write simp: quorum_held_stored_cong [OF stored_partition(1)]
      quorum_held_stored_cong [OF stored_partition(2)]
      quorum_held_stored_cong [OF stored_partition(3)])

lemma quorum_held_reachable: "q_reachable w c \<Longrightarrow> quorum_held w c"
proof (induction rule: q_reachable.induct)
  case (q_new ns clock c)
  then show ?case by (simp add: quorum_held_def newest_def cluster_ok_new)
next
  case (q_next c d)
  then show ?case by (blast intro: quorum_held_step cluster_ok_reachable)
qed

section \<open>Reading\<close>

lemma read_task_Inr:
  assumes "cluster_ok c" "read_task c k co rq p = Inr res"
  obtains ns where "select_nodes c co rq p = Inr ns" "rr_contacted_nodes res = ns"
    "\<exists>n \<in> set ns. stored c n k = Some (rr_value res)"
    "\<And>n v. n \<in> set ns \<Longrightarrow> stored c n k = Some v \<Longrightarrow> vt_version v \<le> vt_version (rr_value res)"
    "rr_stale res = (case latest_task c k of None \<Rightarrow> False
       | Some l \<Rightarrow> vt_version (rr_value res) < vt_version l)"
proof -
  have obs: "ob_value (observe c k n) = stored c n k" for n
    by (simp add: observe_def stored_def register_read_def split: option.split)
  from assms(2) obtain ns where ns: "select_nodes c co rq p = Inr ns"
    and mx: "max_key vt_version (List.map_filter ob_value (map (observe c k) ns)) = Some (rr_value res)"
    and "rr_contacted_nodes res = ns"
    and "rr_stale res = (case latest_task c k of None \<Rightarrow> False
       | Some l \<Rightarrow> vt_version (rr_value res) < vt_version l)"
    by (auto simp: read_task_def Let_def split: sum.splits option.splits)
  moreover from max_key_Some [OF mx]
  have "\<exists>n \<in> set ns. stored c n k = Some (rr_value res)"
    by (force simp: List.map_filter_def obs)
  moreover from max_key_Some [OF mx]
  have "vt_version v \<le> vt_version (rr_value res)" if "n \<in> set ns" "stored c n k = Some v" for n v
    using that by (force simp: List.map_filter_def obs)
  ultimately show thesis using that by blast
qed

text \<open>A read quorum that meets a write quorum sees the newest version of the whole cluster.\<close>

lemma read_sees_newest_at:
  assumes ok: "cluster_ok c" and rd: "read_task c k co rq p = Inr res"
    and meet: "node_count c < rq + w" and nw: "newest c k v"
    and held: "w \<le> int (card (holders c k (vt_version v)))"
  shows "vt_version (rr_value res) = vt_version v"
proof -
  from read_task_Inr [OF ok rd] obtain ns where ns: "select_nodes c co rq p = Inr ns"
    and val: "\<exists>n \<in> set ns. stored c n k = Some (rr_value res)"
    and top: "\<And>n v. n \<in> set ns \<Longrightarrow> stored c n k = Some v \<Longrightarrow> vt_version v \<le> vt_version (rr_value res)"
    by metis
  note sel = select_nodes_Inr [OF ok ns]
  note held
  moreover have "int (card (set ns)) = rq" using sel(1,3) by (simp add: distinct_card)
  moreover have "int (card (set (node_ids c))) = node_count c"
    using ok by (simp add: cluster_ok_def node_count_def distinct_card) (simp add: node_ids_def)
  ultimately have "card (set (node_ids c)) < card (set ns) + card (holders c k (vt_version v))"
    using meet by linarith
  then have "set ns \<inter> holders c k (vt_version v) \<noteq> {}"
    using sel(2) holders_known by (intro quorums_meet [of "set (node_ids c)"]) auto
  then obtain n u where "n \<in> set ns" "stored c n k = Some u" "vt_version u = vt_version v"
    by (auto simp: holders_def)
  with top have "vt_version v \<le> vt_version (rr_value res)" by metis
  moreover from val nw have "vt_version (rr_value res) \<le> vt_version v"
    by (auto simp: newest_def)
  ultimately show ?thesis by (rule antisym [rotated])
qed

lemma quorum_heldD: "quorum_held w c \<Longrightarrow> newest c k v \<Longrightarrow> w \<le> int (card (holders c k (vt_version v)))"
  by (simp add: quorum_held_def)

section \<open>Properties\<close>

definition demo_record :: relay_task_record where
  "demo_record = \<lparr>task_id = ''task-1'', shard = ''s'', status = QUEUED, assigned_worker = None, attempt = 0\<rparr>"

definition demo_start :: quorum_cluster where
  "demo_start = projr (new_cluster [''a'', ''b'', ''c''] 0)"

definition demo_written :: quorum_cluster where
  "demo_written = snd (write_task ''k'' demo_record ''a'' 2 None demo_start)"

lemma demo_start_new: "new_cluster [''a'', ''b'', ''c''] 0 = Inr demo_start"
  by (simp add: demo_start_def new_cluster_def)

lemma demo_written_reachable: "q_reachable 2 demo_written"
  unfolding demo_written_def
  by (rule q_next [OF q_new [OF demo_start_new]], rule q_write) simp

lemma demo_read: "\<exists>res. read_task demo_written ''k'' ''c'' 2 (Some [''b'', ''c'']) = Inr res"
proof -
  have "\<not> isl (read_task demo_written ''k'' ''c'' 2 (Some [''b'', ''c'']))" by code_simp
  then show ?thesis by (metis isl_def obj_sumE)
qed

text \<open>
  Property C1. In every run in which all writes use a write quorum of at least \<open>w\<close>, under any
  partitions, coordinators, preferred nodes and failed calls, a read with a quorum \<open>rq\<close> such that
  \<open>rq + w\<close> exceeds the number of replicas is never stale: it returns the version of the cluster's
  latest value.
\<close>
theorem quorum_read_fresh:
  assumes "q_reachable w c" "node_count c < rq + w"
    and "read_task c k coordinator rq preferred = Inr res"
  shows "\<not> rr_stale res \<and>
    (\<exists>l. latest_task c k = Some l \<and> vt_version (rr_value res) = vt_version l)"
proof -
  note ok = cluster_ok_reachable [OF assms(1)]
  from read_task_Inr [OF ok assms(3)] obtain ns where
    "\<exists>n \<in> set ns. stored c n k = Some (rr_value res)"
    and stale: "rr_stale res = (case latest_task c k of None \<Rightarrow> False
      | Some l \<Rightarrow> vt_version (rr_value res) < vt_version l)" by metis
  then obtain l where l: "latest_task c k = Some l"
    using latest_task_stored [of c _ k] ok unfolding cluster_ok_def by blast
  moreover from l have "newest c k l"
    using ok by (intro latest_task_newest) (auto simp: cluster_ok_def)
  ultimately show ?thesis
    using read_sees_newest_at [OF ok assms(3,2)] quorum_heldD [OF quorum_held_reachable [OF assms(1)]]
      stale by simp
qed

theorem quorum_read_fresh_witness:
  "\<exists>res. read_task demo_written ''k'' ''c'' 2 (Some [''b'', ''c'']) = Inr res \<and> \<not> rr_stale res"
proof -
  have "node_count demo_written < 2 + 2" by code_simp
  with demo_read show ?thesis
    using quorum_read_fresh [OF demo_written_reachable, of 2] by blast
qed

text \<open>
  A read whose quorum overlaps the quorum of the last successful write of the key
  returns exactly that write, even after the network has been partitioned anew and read through
  another coordinator.
\<close>
theorem quorum_read_your_write:
  assumes "q_reachable w c"
    and "write_task k record coordinator wq preferred c = (Inr v, d)"
    and "node_count c < rq + wq"
    and "read_task (snd (set_partition gs d)) k reader rq readers = Inr res"
  shows "rr_value res = v"
proof -
  let ?e = "snd (set_partition gs d)"
  note ok = cluster_ok_reachable [OF assms(1)]
  from cluster_ok_write [OF ok, of k "record" coordinator wq preferred] assms(2)
  have okd: "cluster_ok d" by simp
  then have oke: "cluster_ok ?e" by (rule keep)
  note nw = newest_write [OF ok assms(2)]
  have ids: "node_count ?e = node_count c"
    using node_ids_write [of k "record" coordinator wq preferred c] assms(2)
    by (metis length_map node_count_def node_ids_def node_ids_partition(1) snd_conv)
  have nv: "newest ?e k v"
    using nw(1) by (simp add: newest_def)
  have held: "wq \<le> int (card (holders ?e k (vt_version v)))"
    using nw(4) by (simp add: holders_def)
  have ver: "vt_version (rr_value res) = vt_version v"
    using read_sees_newest_at [OF oke assms(4) _ nv held] assms(3) ids by simp
  moreover from read_task_Inr [OF oke assms(4)] obtain n where
    "stored ?e n k = Some (rr_value res)" by metis
  ultimately have "newest ?e k (rr_value res)" using nv by (auto simp: newest_def)
  then show ?thesis using nw(1) by (simp add: newest_def)
qed

theorem quorum_read_your_write_witness:
  "\<exists>v d res. write_task ''k'' demo_record ''a'' 2 None demo_start = (Inr v, d) \<and>
     read_task (snd (set_partition [[''a''], [''c'', ''b'']] d)) ''k'' ''c'' 2 None = Inr res \<and>
     rr_value res = v"
proof -
  obtain v d where w: "write_task ''k'' demo_record ''a'' 2 None demo_start = (Inr v, d)"
  proof -
    have "\<not> isl (fst (write_task ''k'' demo_record ''a'' 2 None demo_start))" by code_simp
    then show ?thesis using that by (metis isl_def obj_sumE prod.collapse)
  qed
  then have d: "d = demo_written" by (simp add: demo_written_def)
  have "\<not> isl (read_task (snd (set_partition [[''a''], [''c'', ''b'']] demo_written)) ''k'' ''c'' 2 None)"
    by code_simp
  then obtain res where
    r: "read_task (snd (set_partition [[''a''], [''c'', ''b'']] d)) ''k'' ''c'' 2 None = Inr res"
    unfolding d by (metis isl_def obj_sumE)
  have "node_count demo_start < 2 + 2" by code_simp
  from quorum_read_your_write [OF q_new [OF demo_start_new] w this r] w r show ?thesis by blast
qed

text \<open>
  The majority of \<open>n\<close> replicas is the least size whose quorums always intersect each
  other, and losing as many replicas as the failure budget allows still leaves a majority, while
  losing one more does not.
\<close>
theorem majority_is_least_intersecting:
  assumes "majority_quorum n = Inr q" "majority_failure_budget n = Inr f"
  shows "quorums_intersect n q q = Inr True \<and>
    (\<forall>s. quorums_intersect n s s = Inr True \<longrightarrow> q \<le> s) \<and> q \<le> n - f \<and> n - (f + 1) < q \<and> 0 \<le> f"
proof -
  from assms have n: "1 \<le> n" and q: "q = n div 2 + 1" and f: "f = n - q"
    by (auto simp: majority_quorum_def majority_failure_budget_def split: if_splits)
  have "q \<le> s" if "quorums_intersect n s s = Inr True" for s
    using that q by (auto simp: quorums_intersect_def split: if_splits)
  moreover have "quorums_intersect n q q = Inr True"
    using n q by (auto simp: quorums_intersect_def)
  ultimately show ?thesis using n q f by auto
qed

theorem majority_is_least_intersecting_witness:
  "majority_quorum 5 = Inr 3 \<and> majority_failure_budget 5 = Inr 2 \<and> quorums_intersect 5 3 3 = Inr True"
proof -
  have h: "majority_quorum 5 = Inr 3" "majority_failure_budget 5 = Inr 2"
    by (simp_all add: majority_quorum_def majority_failure_budget_def)
  from h majority_is_least_intersecting [OF h] show ?thesis by blast
qed

text \<open>
  In a well-formed cluster a write without preferred nodes succeeds exactly when
  \<open>can_reach_quorum\<close> says that its coordinator reaches the quorum, and a write that raises leaves
  the cluster as it was: no replica and not even the clock has changed.
\<close>
theorem write_succeeds_iff_quorum_reachable:
  assumes "q_reachable w c"
  shows "((\<exists>v d. write_task k record coordinator wq None c = (Inr v, d)) \<longleftrightarrow>
      can_reach_quorum c coordinator wq = Inr True) \<and>
    (\<forall>preferred e d. write_task k record coordinator wq preferred c = (Inl e, d) \<longrightarrow> d = c)"
proof -
  from cluster_ok_reachable [OF assms]
  have "coordinator \<in> set (node_ids c) \<Longrightarrow> \<exists>ns. reachable_from (qc_partition c) coordinator = Inr ns"
    by (auto simp: cluster_ok_def dest: net.reach_known)
  then have "(\<exists>v d. write_task k record coordinator wq None c = (Inr v, d)) \<longleftrightarrow>
      can_reach_quorum c coordinator wq = Inr True"
    by (auto simp: write_task_def select_nodes_def can_reach_quorum_def advance_def Let_def
        split: sum.splits)
  then show ?thesis by (auto dest: write_task_Inl)
qed

theorem write_succeeds_iff_quorum_reachable_witness:
  "can_reach_quorum demo_start ''a'' 2 = Inr True \<and>
   (\<exists>v d. write_task ''k'' demo_record ''a'' 2 None demo_start = (Inr v, d))"
proof -
  have "can_reach_quorum demo_start ''a'' 2 = Inr True" by code_simp
  with write_succeeds_iff_quorum_reachable [OF q_new [OF demo_start_new]] show ?thesis by blast
qed

end
