(* ===== verification/RaftElection.thy ===== *)
theory RaftElection
  imports Partition
begin

text \<open>
  Lab 24, \<open>lab_24_raft_election/simulation.py\<close>: Raft leader election with scripted timeouts.  A node
  is a record with its retained vote state inside; the cluster holds the nodes in construction
  order, the partition and the leader recorded for each term.  Every method of the cluster is a
  function from the cluster to its result and the cluster afterwards.
\<close>

section \<open>Data\<close>

datatype node_role = FOLLOWER | CANDIDATE | LEADER

text \<open>\<open>LogPosition\<close> is a dataclass with \<open>order=True\<close>: term first, then index.\<close>

datatype log_position = LogPosition (lp_term: int) (lp_index: int)

instantiation log_position :: linorder
begin

definition less_eq_log_position :: "log_position \<Rightarrow> log_position \<Rightarrow> bool" where
  "less_eq_log_position p q \<longleftrightarrow> lp_term p < lp_term q \<or> lp_term p = lp_term q \<and> lp_index p \<le> lp_index q"

definition less_log_position :: "log_position \<Rightarrow> log_position \<Rightarrow> bool" where
  "less_log_position p q \<longleftrightarrow> lp_term p < lp_term q \<or> lp_term p = lp_term q \<and> lp_index p < lp_index q"

instance
  by standard (auto simp: less_eq_log_position_def less_log_position_def intro: log_position.expand)

end

record persistent_vote_state =
  ps_current_term :: int
  ps_voted_for :: "node_id option"
  ps_last_log_position :: log_position

record request_vote =
  rv_term :: int
  rv_candidate_id :: node_id
  rv_last_log_position :: log_position

record vote_response =
  vr_term :: int
  vr_voter_id :: node_id
  vr_granted :: bool

record heartbeat =
  hb_term :: int
  hb_leader_id :: node_id

record heartbeat_response =
  hr_term :: int
  hr_follower_id :: node_id
  hr_accepted :: bool

record election_result =
  er_candidate_id :: node_id
  er_term :: int
  er_granted_by :: "node_id list"
  er_role_after :: node_role

definition became_leader :: "election_result \<Rightarrow> bool" where
  "became_leader r \<longleftrightarrow> er_role_after r = LEADER"

record raft_node =
  rn_node_id :: node_id
  rn_peers :: "node_id list"
  rn_persistent_state :: persistent_vote_state
  rn_role :: node_role
  rn_leader_id :: "node_id option"

record raft_cluster =
  rc_partition :: partition_map
  rc_leader_by_term :: "int \<rightharpoonup> node_id"
  rc_nodes :: "(node_id \<times> raft_node) list"

section \<open>One node\<close>

definition current_term :: "raft_node \<Rightarrow> int" where
  "current_term n = ps_current_term (rn_persistent_state n)"

definition voted_for :: "raft_node \<Rightarrow> node_id option" where
  "voted_for n = ps_voted_for (rn_persistent_state n)"

definition last_log_position :: "raft_node \<Rightarrow> log_position" where
  "last_log_position n = ps_last_log_position (rn_persistent_state n)"

definition restart :: "raft_node \<Rightarrow> raft_node" where
  "restart n = n\<lparr>rn_role := FOLLOWER, rn_leader_id := None\<rparr>"

definition observe_higher_term :: "int \<Rightarrow> raft_node \<Rightarrow> raft_node" where
  "observe_higher_term t n =
     (if t \<le> current_term n then n
      else n\<lparr>rn_persistent_state :=
               (rn_persistent_state n)\<lparr>ps_current_term := t, ps_voted_for := None\<rparr>,
             rn_role := FOLLOWER, rn_leader_id := None\<rparr>)"

definition start_election :: "raft_node \<Rightarrow> request_vote \<times> raft_node" where
  "start_election n =
     (let n' = n\<lparr>rn_persistent_state :=
                   (rn_persistent_state n)\<lparr>ps_current_term := current_term n + 1,
                     ps_voted_for := Some (rn_node_id n)\<rparr>,
                 rn_role := CANDIDATE, rn_leader_id := None\<rparr>
      in (\<lparr>rv_term = current_term n', rv_candidate_id = rn_node_id n',
           rv_last_log_position = last_log_position n'\<rparr>, n'))"

definition receive_vote_request :: "request_vote \<Rightarrow> raft_node \<Rightarrow> vote_response \<times> raft_node" where
  "receive_vote_request req n =
     (if rv_term req < current_term n
      then (\<lparr>vr_term = current_term n, vr_voter_id = rn_node_id n, vr_granted = False\<rparr>, n)
      else
        let n1 = (if current_term n < rv_term req then observe_higher_term (rv_term req) n else n);
            can_vote = (voted_for n1 = None \<or> voted_for n1 = Some (rv_candidate_id req));
            up_to_date = (last_log_position n1 \<le> rv_last_log_position req);
            granted = (can_vote \<and> up_to_date);
            n2 = (if granted
                  then n1\<lparr>rn_persistent_state :=
                            (rn_persistent_state n1)\<lparr>ps_voted_for := Some (rv_candidate_id req)\<rparr>,
                          rn_role := FOLLOWER, rn_leader_id := None\<rparr>
                  else n1)
        in (\<lparr>vr_term = current_term n2, vr_voter_id = rn_node_id n2, vr_granted = granted\<rparr>, n2))"

definition receive_heartbeat :: "heartbeat \<Rightarrow> raft_node \<Rightarrow> heartbeat_response \<times> raft_node" where
  "receive_heartbeat hb n =
     (if hb_term hb < current_term n
      then (\<lparr>hr_term = current_term n, hr_follower_id = rn_node_id n, hr_accepted = False\<rparr>, n)
      else
        let n1 = (if current_term n < hb_term hb then observe_higher_term (hb_term hb) n else n);
            n2 = n1\<lparr>rn_role := FOLLOWER, rn_leader_id := Some (hb_leader_id hb)\<rparr>
        in (\<lparr>hr_term = current_term n2, hr_follower_id = rn_node_id n2, hr_accepted = True\<rparr>, n2))"

definition become_leader :: "raft_node \<Rightarrow> raft_node" where
  "become_leader n = n\<lparr>rn_role := LEADER, rn_leader_id := Some (rn_node_id n)\<rparr>"

section \<open>The cluster\<close>

definition new_raft_node :: "node_id list \<Rightarrow> node_id \<Rightarrow> raft_node" where
  "new_raft_node unique_nodes n =
     \<lparr>rn_node_id = n, rn_peers = filter (\<lambda>p. p \<noteq> n) unique_nodes,
      rn_persistent_state = \<lparr>ps_current_term = 0, ps_voted_for = None,
        ps_last_log_position = LogPosition 0 0\<rparr>,
      rn_role = FOLLOWER, rn_leader_id = None\<rparr>"

definition new_raft_cluster :: "node_id list \<Rightarrow> raft_cluster res" where
  "new_raft_cluster node_ids =
     (let unique_nodes = from_keys node_ids
      in if length unique_nodes < 3 then Inl (ValueError ''Raft needs at least three nodes'')
         else Inr \<lparr>rc_partition = healed unique_nodes, rc_leader_by_term = Map.empty,
           rc_nodes = map (\<lambda>n. (n, new_raft_node unique_nodes n)) unique_nodes\<rparr>)"

definition majority :: "raft_cluster \<Rightarrow> nat" where
  "majority c = length (rc_nodes c) div 2 + 1"

definition node_ids :: "raft_cluster \<Rightarrow> node_id list" where
  "node_ids c = dict_keys (rc_nodes c)"

definition node :: "raft_cluster \<Rightarrow> node_id \<Rightarrow> raft_node res" where
  "node c n =
     (case map_of (rc_nodes c) n of
        None \<Rightarrow> Inl (ValueError (''unknown node '' @ n))
      | Some x \<Rightarrow> Inr x)"

text \<open>Changing the object that the cluster's dictionary holds under a name.\<close>

definition modify :: "node_id \<Rightarrow> (raft_node \<Rightarrow> raft_node) \<Rightarrow> raft_cluster \<Rightarrow> raft_cluster" where
  "modify n f c = c\<lparr>rc_nodes := AList.map_entry n f (rc_nodes c)\<rparr>"

definition set_partition :: "node_id list list \<Rightarrow> raft_cluster \<Rightarrow> unit res \<times> raft_cluster" where
  "set_partition gs c =
     (case from_groups (node_ids c) gs of
        Inl e \<Rightarrow> (Inl e, c)
      | Inr p \<Rightarrow> (Inr (), c\<lparr>rc_partition := p\<rparr>))"

definition heal :: "raft_cluster \<Rightarrow> raft_cluster" where
  "heal c = c\<lparr>rc_partition := healed (node_ids c)\<rparr>"

definition restart_node :: "node_id \<Rightarrow> raft_cluster \<Rightarrow> raft_node res \<times> raft_cluster" where
  "restart_node n c =
     (case node c n of
        Inl e \<Rightarrow> (Inl e, c)
      | Inr x \<Rightarrow> (Inr (restart x), modify n restart c))"

definition leader_for_term :: "raft_cluster \<Rightarrow> int \<Rightarrow> node_id option" where
  "leader_for_term c t = rc_leader_by_term c t"

definition reachable_peers :: "raft_cluster \<Rightarrow> node_id \<Rightarrow> node_id list res" where
  "reachable_peers c n =
     (case reachable_from (rc_partition c) n of
        Inl e \<Rightarrow> Inl e
      | Inr ns \<Rightarrow> Inr (filter (\<lambda>p. p \<noteq> n) ns))"

definition record_leader :: "raft_node \<Rightarrow> raft_cluster \<Rightarrow> unit res \<times> raft_cluster" where
  "record_leader x c =
     (case rc_leader_by_term c (current_term x) of
        Some existing \<Rightarrow>
          if existing \<noteq> rn_node_id x
          then (Inl (LeadershipConflict (''term '' @ show_int (current_term x) @
                  '' already led by '' @ existing @ '', not '' @ rn_node_id x)), c)
          else (Inr (), c\<lparr>rc_leader_by_term :=
                  (rc_leader_by_term c)(current_term x \<mapsto> rn_node_id x)\<rparr>)
      | None \<Rightarrow> (Inr (), c\<lparr>rc_leader_by_term :=
                  (rc_leader_by_term c)(current_term x \<mapsto> rn_node_id x)\<rparr>))"

text \<open>
  The vote loop of \<open>trigger_timeout\<close>: it stops at the first response with a higher term, which the
  candidate adopts, and otherwise adds the peers that grant.
\<close>

fun collect_votes ::
    "node_id \<Rightarrow> request_vote \<Rightarrow> node_id list \<Rightarrow> node_id set \<Rightarrow> raft_cluster
     \<Rightarrow> node_id set res \<times> raft_cluster" where
  "collect_votes cand req [] granted_by c = (Inr granted_by, c)"
| "collect_votes cand req (peer_id # peers) granted_by c =
     (case node c peer_id of
        Inl e \<Rightarrow> (Inl e, c)
      | Inr peer \<Rightarrow>
          let (response, peer') = receive_vote_request req peer;
              c1 = modify peer_id (\<lambda>_. peer') c
          in case node c1 cand of
               Inl e \<Rightarrow> (Inl e, c1)
             | Inr x \<Rightarrow>
                 if current_term x < vr_term response
                 then (Inr granted_by, modify cand (observe_higher_term (vr_term response)) c1)
                 else collect_votes cand req peers
                   (if vr_granted response then insert peer_id granted_by else granted_by) c1)"

text \<open>The end of \<open>trigger_timeout\<close>: the result reports the candidate as the cluster now holds it.\<close>

definition election_result :: "node_id \<Rightarrow> node_id set \<Rightarrow> raft_cluster \<Rightarrow> election_result res" where
  "election_result cand granted_by c =
     (case node c cand of
        Inl e \<Rightarrow> Inl e
      | Inr x \<Rightarrow> Inr \<lparr>er_candidate_id = cand, er_term = current_term x,
          er_granted_by = sorted_list_of_set granted_by, er_role_after = rn_role x\<rparr>)"

definition trigger_timeout :: "node_id \<Rightarrow> raft_cluster \<Rightarrow> election_result res \<times> raft_cluster" where
  "trigger_timeout n c =
     (case node c n of
        Inl e \<Rightarrow> (Inl e, c)
      | Inr x \<Rightarrow>
          let (request, x1) = start_election x;
              c1 = modify n (\<lambda>_. x1) c
          in case reachable_peers c1 n of
               Inl e \<Rightarrow> (Inl e, c1)
             | Inr peers \<Rightarrow>
                 (case collect_votes n request peers {n} c1 of
                    (Inl e, c2) \<Rightarrow> (Inl e, c2)
                  | (Inr granted_by, c2) \<Rightarrow>
                      if majority c2 \<le> card granted_by
                      then let c3 = modify n become_leader c2
                           in case node c3 n of
                                Inl e \<Rightarrow> (Inl e, c3)
                              | Inr x3 \<Rightarrow>
                                  (case record_leader x3 c3 of
                                     (Inl e, c4) \<Rightarrow> (Inl e, c4)
                                   | (Inr _, c4) \<Rightarrow> (election_result n granted_by c4, c4))
                      else (election_result n granted_by c2, c2)))"

text \<open>The loop of \<open>send_heartbeat\<close>: the heartbeat is fixed, a higher term is adopted, nothing stops it.\<close>

fun beat_peers ::
    "node_id \<Rightarrow> heartbeat \<Rightarrow> node_id list \<Rightarrow> raft_cluster
     \<Rightarrow> heartbeat_response list res \<times> raft_cluster" where
  "beat_peers leader_id hb [] c = (Inr [], c)"
| "beat_peers leader_id hb (peer_id # peers) c =
     (case node c peer_id of
        Inl e \<Rightarrow> (Inl e, c)
      | Inr peer \<Rightarrow>
          let (response, peer') = receive_heartbeat hb peer;
              c1 = modify leader_id (observe_higher_term (hr_term response))
                     (modify peer_id (\<lambda>_. peer') c)
          in case beat_peers leader_id hb peers c1 of
               (Inl e, c2) \<Rightarrow> (Inl e, c2)
             | (Inr responses, c2) \<Rightarrow> (Inr (response # responses), c2))"

definition send_heartbeat ::
    "node_id \<Rightarrow> raft_cluster \<Rightarrow> heartbeat_response list res \<times> raft_cluster" where
  "send_heartbeat leader_id c =
     (case node c leader_id of
        Inl e \<Rightarrow> (Inl e, c)
      | Inr leader \<Rightarrow>
          if rn_role leader \<noteq> LEADER
          then (Inl (ValueError (leader_id @ '' is not the current leader'')), c)
          else case reachable_peers c leader_id of
            Inl e \<Rightarrow> (Inl e, c)
          | Inr peers \<Rightarrow>
              beat_peers leader_id \<lparr>hb_term = current_term leader, hb_leader_id = leader_id\<rparr> peers c)"

section \<open>Events and runs\<close>

datatype raft_event =
    Timeout node_id
  | SendHeartbeat node_id
  | Restart node_id
  | SetPartition "node_id list list"
  | Heal

fun raft_step :: "raft_event \<Rightarrow> raft_cluster \<Rightarrow> raft_cluster" where
  "raft_step (Timeout n) c = snd (trigger_timeout n c)"
| "raft_step (SendHeartbeat n) c = snd (send_heartbeat n c)"
| "raft_step (Restart n) c = snd (restart_node n c)"
| "raft_step (SetPartition gs) c = snd (set_partition gs c)"
| "raft_step Heal c = heal c"

section \<open>How one node may change\<close>

text \<open>
  A node is pledged to a leader for a term when it voted for it in that term or has moved to a
  later term, in which it can no longer vote for anybody else in the former.
\<close>

definition pledged :: "int \<Rightarrow> node_id \<Rightarrow> raft_node \<Rightarrow> bool" where
  "pledged t l x \<longleftrightarrow> t < current_term x \<or> t = current_term x \<and> voted_for x = Some l"

definition voted :: "int \<Rightarrow> node_id \<Rightarrow> raft_node \<Rightarrow> bool" where
  "voted t l x \<longleftrightarrow> current_term x = t \<and> voted_for x = Some l"

lemma voted_pledged: "voted t l x \<Longrightarrow> pledged t l x"
  by (simp add: voted_def pledged_def)

definition grows :: "raft_node \<Rightarrow> raft_node \<Rightarrow> bool" where
  "grows x y \<longleftrightarrow> rn_node_id y = rn_node_id x \<and> current_term x \<le> current_term y \<and>
     (\<forall>t l. pledged t l x \<longrightarrow> pledged t l y)"

definition follows :: "raft_node \<Rightarrow> raft_node \<Rightarrow> bool" where
  "follows x y \<longleftrightarrow> grows x y \<and>
     (rn_role y = LEADER \<longrightarrow> rn_role x = LEADER \<and> current_term y = current_term x)"

lemmas node_defs = current_term_def voted_for_def last_log_position_def restart_def
  observe_higher_term_def start_election_def receive_vote_request_def receive_heartbeat_def
  become_leader_def

lemma grows_refl [simp]: "grows x x" and follows_refl [simp]: "follows x x"
  by (simp_all add: grows_def follows_def)

lemma grows_trans: "grows x y \<Longrightarrow> grows y z \<Longrightarrow> grows x z"
  by (auto simp: grows_def)

lemma follows_trans: "follows x y \<Longrightarrow> follows y z \<Longrightarrow> follows x z"
  by (auto simp: follows_def intro: grows_trans)

lemma follows_grows: "follows x y \<Longrightarrow> grows x y"
  by (simp add: follows_def)

lemma follows_restart [frame]: "follows x (restart x)"
  by (simp add: follows_def grows_def pledged_def node_defs)

lemma follows_observe [frame]: "follows x (observe_higher_term t x)"
  by (simp add: follows_def grows_def pledged_def node_defs)

lemma follows_start [frame]: "follows x (snd (start_election x))"
  by (auto simp: follows_def grows_def pledged_def node_defs Let_def)

lemma follows_vote [frame]: "follows x (snd (receive_vote_request req x))"
  by (auto simp: follows_def grows_def pledged_def node_defs Let_def)

lemma follows_heartbeat [frame]: "follows x (snd (receive_heartbeat hb x))"
  by (auto simp: follows_def grows_def pledged_def node_defs Let_def)

lemma grows_become_leader [frame]: "grows x (become_leader x)"
  by (simp add: grows_def pledged_def node_defs)

lemma current_term_become_leader [simp]: "current_term (become_leader x) = current_term x"
  by (simp add: node_defs)

lemma granted_voted:
  "vr_granted (fst (receive_vote_request req x)) \<Longrightarrow>
     voted (rv_term req) (rv_candidate_id req) (snd (receive_vote_request req x))"
  by (auto simp: voted_def node_defs Let_def split: if_splits)

lemma start_election_request:
  "fst (start_election x) = \<lparr>rv_term = current_term x + 1, rv_candidate_id = rn_node_id x,
     rv_last_log_position = last_log_position x\<rparr>"
  "pledged (current_term x + 1) (rn_node_id x) (snd (start_election x))"
  "current_term (snd (start_election x)) = current_term x + 1"
  by (simp_all add: pledged_def node_defs Let_def)

section \<open>How the cluster may change\<close>

definition evolves ::
    "(raft_node \<Rightarrow> raft_node \<Rightarrow> bool) \<Rightarrow> raft_cluster \<Rightarrow> raft_cluster \<Rightarrow> bool" where
  "evolves R c d \<longleftrightarrow> node_ids d = node_ids c \<and>
     (\<forall>n x. map_of (rc_nodes c) n = Some x \<longrightarrow> (\<exists>y. map_of (rc_nodes d) n = Some y \<and> R x y))"

definition same_tables :: "raft_cluster \<Rightarrow> raft_cluster \<Rightarrow> bool" where
  "same_tables c d \<longleftrightarrow> rc_partition d = rc_partition c \<and> rc_leader_by_term d = rc_leader_by_term c"

definition raft_wf :: "raft_cluster \<Rightarrow> bool" where
  "raft_wf c \<longleftrightarrow> distinct (node_ids c) \<and> 3 \<le> length (rc_nodes c) \<and>
     partitions (rc_partition c) (set (node_ids c)) \<and>
     (\<forall>n x. map_of (rc_nodes c) n = Some x \<longrightarrow> rn_node_id x = n)"

lemma evolves_refl [simp]: "(\<And>x. R x x) \<Longrightarrow> evolves R c c"
  by (simp add: evolves_def)

lemma same_tables_refl [simp]: "same_tables c c"
  by (simp add: same_tables_def)

lemma same_tables_trans: "same_tables c d \<Longrightarrow> same_tables d e \<Longrightarrow> same_tables c e"
  by (simp add: same_tables_def)

lemma same_tables_modify [simp]: "same_tables c (modify n f c)"
  by (simp add: same_tables_def modify_def)

lemma evolves_follows_trans: "evolves follows c d \<Longrightarrow> evolves follows d e \<Longrightarrow> evolves follows c e"
  by (simp add: evolves_def) (meson follows_trans)

lemma evolves_grows_trans: "evolves grows c d \<Longrightarrow> evolves grows d e \<Longrightarrow> evolves grows c e"
  by (simp add: evolves_def) (meson grows_trans)

lemma evolves_follows_grows: "evolves follows c d \<Longrightarrow> evolves grows c d"
  by (simp add: evolves_def) (meson follows_grows)

lemma map_of_modify:
  "map_of (rc_nodes (modify n f c)) = (map_of (rc_nodes c))(n := map_option f (map_of (rc_nodes c) n))"
  by (simp add: modify_def map_of_map_entry)

lemma node_ids_modify [simp]: "node_ids (modify n f c) = node_ids c"
  by (simp add: modify_def node_ids_def)

lemma evolves_modify:
  "(\<And>x. R x x) \<Longrightarrow> (\<And>x. map_of (rc_nodes c) n = Some x \<Longrightarrow> R x (f x)) \<Longrightarrow> evolves R c (modify n f c)"
  by (auto simp: evolves_def map_of_modify)

lemma known_node: "n \<in> set (node_ids c) \<longleftrightarrow> (\<exists>x. map_of (rc_nodes c) n = Some x)"
  unfolding node_ids_def by (metis map_of_eq_None_iff not_None_eq list.set_map)

lemma node_Inr [simp]: "node c n = Inr x \<longleftrightarrow> map_of (rc_nodes c) n = Some x"
  by (auto simp: node_def split: option.splits)

lemma evolvesD: "evolves R c d \<Longrightarrow> map_of (rc_nodes c) n = Some x \<Longrightarrow> \<exists>y. map_of (rc_nodes d) n = Some y \<and> R x y"
  by (auto simp: evolves_def)

lemma majority_evolves: "evolves R c d \<Longrightarrow> majority d = majority c"
  by (metis evolves_def length_map majority_def node_ids_def)

lemma raft_wf_evolves:
  assumes "evolves grows c d" "raft_wf c" "partitions (rc_partition d) (set (node_ids c))"
  shows "raft_wf d"
proof -
  have ids: "node_ids d = node_ids c" using assms(1) by (simp add: evolves_def)
  have "rn_node_id y = n" if "map_of (rc_nodes d) n = Some y" for n y
  proof -
    from that ids obtain x where "map_of (rc_nodes c) n = Some x" by (metis known_node)
    with that assms show ?thesis by (force simp: evolves_def grows_def raft_wf_def)
  qed
  moreover have "length (rc_nodes d) = length (rc_nodes c)"
    using ids by (metis length_map node_ids_def)
  ultimately show ?thesis using assms ids by (simp add: raft_wf_def)
qed

lemma raft_wf_same_tables: "evolves grows c d \<Longrightarrow> same_tables c d \<Longrightarrow> raft_wf c \<Longrightarrow> raft_wf d"
  by (erule raft_wf_evolves) (auto simp: same_tables_def raft_wf_def)

section \<open>The loops\<close>

lemma reachable_peers_Inr:
  assumes "raft_wf c" "n \<in> set (node_ids c)"
  obtains ps where "reachable_peers c n = Inr ps" "n \<notin> set ps" "set ps \<subseteq> set (node_ids c)" "distinct ps"
proof -
  have part: "partitions (rc_partition c) (set (node_ids c))"
    using assms by (simp add: raft_wf_def)
  then obtain ns where ns: "reachable_from (rc_partition c) n = Inr ns"
    using assms(2) net.reach_known by blast
  then have "reachable_peers c n = Inr (filter (\<lambda>p. p \<noteq> n) ns)" by (simp add: reachable_peers_def)
  with net.reach_set [OF part ns] show thesis by (intro that [of "filter (\<lambda>p. p \<noteq> n) ns"]) auto
qed

lemma collect_votes_spec:
  assumes "cand \<in> set (node_ids c)" "set ps \<subseteq> set (node_ids c)" "cand \<notin> set ps" "distinct ps"
  shows "\<exists>G d. collect_votes cand req ps granted_by c = (Inr G, d) \<and>
    evolves follows c d \<and> same_tables c d \<and> granted_by \<subseteq> G \<and> G \<subseteq> granted_by \<union> set ps \<and>
    (\<forall>g \<in> G - granted_by. \<exists>y. map_of (rc_nodes d) g = Some y \<and>
       voted (rv_term req) (rv_candidate_id req) y) \<and>
    (\<forall>q. q \<noteq> cand \<and> q \<notin> set ps \<longrightarrow> map_of (rc_nodes d) q = map_of (rc_nodes c) q)"
  using assms
proof (induction cand req ps granted_by c rule: collect_votes.induct)
  case (1 cand req granted_by c)
  then show ?case by simp
next
  case (2 cand req p ps granted_by c)
  then obtain peer where peer: "map_of (rc_nodes c) p = Some peer" by (auto simp: known_node)
  obtain resp peer' where rv: "receive_vote_request req peer = (resp, peer')" by fastforce
  let ?c1 = "modify p (\<lambda>_. peer') c"
  have f1: "evolves follows c ?c1"
    using follows_vote [of peer req] by (intro evolves_modify) (auto simp: peer rv)
  from "2.prems" obtain x where x: "map_of (rc_nodes ?c1) cand = Some x"
    by (auto simp: known_node map_of_modify)
  show ?case
  proof (cases "current_term x < vr_term resp")
    case True
    have "evolves follows ?c1 (modify cand (observe_higher_term (vr_term resp)) ?c1)"
      by (intro evolves_modify) (auto intro: frame)
    note ev = evolves_follows_trans [OF f1 this]
    have tabs: "same_tables c (modify cand (observe_higher_term (vr_term resp)) ?c1)"
      by (simp add: same_tables_def modify_def)
    have "collect_votes cand req (p # ps) granted_by c =
        (Inr granted_by, modify cand (observe_higher_term (vr_term resp)) ?c1)"
      using True by (simp add: rv node_Inr [THEN iffD2, OF peer] node_Inr [THEN iffD2, OF x])
    moreover have "map_of (rc_nodes (modify cand (observe_higher_term (vr_term resp)) ?c1)) q =
        map_of (rc_nodes c) q" if "q \<noteq> cand" "q \<notin> set (p # ps)" for q
      using that by (simp add: map_of_modify)
    ultimately show ?thesis using ev tabs by blast
  next
    case False
    let ?g = "if vr_granted resp then insert p granted_by else granted_by"
    have "\<exists>G d. collect_votes cand req ps ?g ?c1 = (Inr G, d) \<and>
      evolves follows ?c1 d \<and> same_tables ?c1 d \<and> ?g \<subseteq> G \<and> G \<subseteq> ?g \<union> set ps \<and>
      (\<forall>g \<in> G - ?g. \<exists>y. map_of (rc_nodes d) g = Some y \<and>
         voted (rv_term req) (rv_candidate_id req) y) \<and>
      (\<forall>q. q \<noteq> cand \<and> q \<notin> set ps \<longrightarrow> map_of (rc_nodes d) q = map_of (rc_nodes ?c1) q)"
      by (rule "2.IH" [OF node_Inr [THEN iffD2, OF peer] rv [symmetric] refl refl
            node_Inr [THEN iffD2, OF x] False]) (use "2.prems" in auto)
    then obtain G d where G: "collect_votes cand req ps ?g ?c1 = (Inr G, d)"
      and d: "evolves follows ?c1 d" "same_tables ?c1 d" "?g \<subseteq> G" "G \<subseteq> ?g \<union> set ps"
        "\<forall>g \<in> G - ?g. \<exists>y. map_of (rc_nodes d) g = Some y \<and>
           voted (rv_term req) (rv_candidate_id req) y"
        "\<forall>q. q \<noteq> cand \<and> q \<notin> set ps \<longrightarrow> map_of (rc_nodes d) q = map_of (rc_nodes ?c1) q"
      by blast
    have "\<exists>y. map_of (rc_nodes d) p = Some y \<and> voted (rv_term req) (rv_candidate_id req) y"
      if "vr_granted resp"
    proof -
      from that rv have "voted (rv_term req) (rv_candidate_id req) peer'"
        using granted_voted [of req peer] by simp
      moreover have "p \<noteq> cand" "p \<notin> set ps" using "2.prems" by auto
      ultimately show ?thesis using d(6) peer by (simp add: map_of_modify)
    qed
    with d have "\<forall>g \<in> G - granted_by. \<exists>y. map_of (rc_nodes d) g = Some y \<and>
        voted (rv_term req) (rv_candidate_id req) y"
      by (metis Diff_iff insertE)
    moreover have "map_of (rc_nodes d) q = map_of (rc_nodes c) q"
      if "q \<noteq> cand" "q \<notin> set (p # ps)" for q
      using that d(6) by (simp add: map_of_modify)
    moreover have "granted_by \<subseteq> G" "G \<subseteq> granted_by \<union> set (p # ps)"
      using d(3,4) by (auto split: if_splits)
    moreover have "collect_votes cand req (p # ps) granted_by c = (Inr G, d)"
      using False G by (simp add: rv node_Inr [THEN iffD2, OF peer] node_Inr [THEN iffD2, OF x])
    ultimately show ?thesis
      using evolves_follows_trans [OF f1 d(1)] same_tables_trans [OF same_tables_modify d(2)] by blast
  qed
qed

lemma beat_peers_spec:
  assumes "set ps \<subseteq> set (node_ids c)"
  shows "\<exists>rs d. beat_peers l hb ps c = (Inr rs, d) \<and> evolves follows c d \<and> same_tables c d \<and>
    map hr_follower_id rs = map (\<lambda>p. rn_node_id (the (map_of (rc_nodes c) p))) ps"
  using assms
proof (induction l hb ps c rule: beat_peers.induct)
  case (1 l hb c)
  then show ?case by simp
next
  case (2 l hb p ps c)
  then obtain peer where peer: "map_of (rc_nodes c) p = Some peer" by (auto simp: known_node)
  obtain resp peer' where rv: "receive_heartbeat hb peer = (resp, peer')" by fastforce
  let ?c0 = "modify p (\<lambda>_. peer') c"
  let ?c1 = "modify l (observe_higher_term (hr_term resp)) ?c0"
  have "evolves follows c ?c0"
    using follows_heartbeat [of peer hb] by (intro evolves_modify) (auto simp: peer rv)
  moreover have "evolves follows ?c0 ?c1"
    by (intro evolves_modify) (auto intro: frame)
  ultimately have f: "evolves follows c ?c1" by (rule evolves_follows_trans)
  obtain rs d where rs: "beat_peers l hb ps ?c1 = (Inr rs, d)"
    and d: "evolves follows ?c1 d" "same_tables ?c1 d"
      "map hr_follower_id rs = map (\<lambda>p. rn_node_id (the (map_of (rc_nodes ?c1) p))) ps"
    using "2.IH" [OF node_Inr [THEN iffD2, OF peer] rv [symmetric] refl] "2.prems" by auto
  have "rn_node_id (the (map_of (rc_nodes ?c1) q)) = rn_node_id (the (map_of (rc_nodes c) q))"
    if "q \<in> set ps" for q
  proof -
    from that "2.prems" have "q \<in> set (node_ids c)" by auto
    then obtain x where "map_of (rc_nodes c) q = Some x" using known_node by blast
    with evolvesD [OF f this] show ?thesis by (auto simp: follows_def grows_def)
  qed
  moreover have "hr_follower_id resp = rn_node_id peer"
    using rv by (auto simp: node_defs Let_def split: if_splits)
  ultimately have "map hr_follower_id (resp # rs) =
      map (\<lambda>p. rn_node_id (the (map_of (rc_nodes c) p))) (p # ps)"
    using d(3) peer by simp
  moreover have "beat_peers l hb (p # ps) c = (Inr (resp # rs), d)"
    using rs by (simp add: rv node_Inr [THEN iffD2, OF peer])
  moreover have "same_tables c d"
    using d(2) by (simp add: same_tables_def modify_def)
  ultimately show ?case
    using evolves_follows_trans [OF f d(1)] by blast
qed

section \<open>Timeouts\<close>

text \<open>
  What a timeout of a known node does: the candidate moves to the next term, the voters in \<open>G\<close> are
  pledged to it in that term, and when they are a majority it becomes the leader of whatever term it
  then is in.
\<close>

definition crown :: "node_id \<Rightarrow> node_id set \<Rightarrow> raft_cluster \<Rightarrow> election_result res \<times> raft_cluster" where
  "crown n G d =
     (let d' = modify n become_leader d; y = become_leader (the (map_of (rc_nodes d) n))
      in case record_leader y d' of
           (Inl e, d2) \<Rightarrow> (Inl e, d2)
         | (Inr _, d2) \<Rightarrow> (election_result n G d2, d2))"

lemma trigger_timeout_known:
  assumes wf: "raft_wf c" and x: "map_of (rc_nodes c) n = Some x"
  obtains G d where "evolves follows c d" "same_tables c d" "n \<in> G" "G \<subseteq> set (node_ids c)"
    "\<And>g. g \<in> G \<Longrightarrow> g \<noteq> n \<Longrightarrow> \<exists>y. map_of (rc_nodes d) g = Some y \<and> voted (current_term x + 1) n y"
    "\<exists>y. map_of (rc_nodes d) n = Some y \<and> pledged (current_term x + 1) n y"
    "\<exists>y. map_of (rc_nodes d) n = Some y \<and> current_term x < current_term y"
    "trigger_timeout n c =
       (if majority c \<le> card G then crown n G d else (election_result n G d, d))"
proof -
  have id: "rn_node_id x = n" using wf x by (simp add: raft_wf_def)
  obtain req x1 where st: "start_election x = (req, x1)" by fastforce
  note se = start_election_request [of x, unfolded st fst_conv snd_conv id]
  let ?c1 = "modify n (\<lambda>_. x1) c"
  have f1: "evolves follows c ?c1"
    using follows_start [of x] by (intro evolves_modify) (auto simp: x st)
  have wf1: "raft_wf ?c1"
    by (rule raft_wf_same_tables [OF evolves_follows_grows [OF f1] _ wf]) simp
  have n: "n \<in> set (node_ids ?c1)" using x by (auto simp: known_node)
  from reachable_peers_Inr [OF wf1 n] obtain ps where
    ps: "reachable_peers ?c1 n = Inr ps" "n \<notin> set ps" "set ps \<subseteq> set (node_ids ?c1)" "distinct ps"
    by metis
  from collect_votes_spec [OF n ps(3,2,4), of req "{n}"] obtain G d where
    cv: "collect_votes n req ps {n} ?c1 = (Inr G, d)"
    and d: "evolves follows ?c1 d" "same_tables ?c1 d" "{n} \<subseteq> G" "G \<subseteq> {n} \<union> set ps"
      "\<forall>g \<in> G - {n}. \<exists>y. map_of (rc_nodes d) g = Some y \<and>
         voted (rv_term req) (rv_candidate_id req) y" by blast
  have x1: "map_of (rc_nodes ?c1) n = Some x1" using x by (simp add: map_of_modify)
  from evolvesD [OF d(1) x1] obtain y where y: "map_of (rc_nodes d) n = Some y" "follows x1 y" by blast
  have vo: "\<exists>y. map_of (rc_nodes d) g = Some y \<and> voted (current_term x + 1) n y"
    if "g \<in> G" "g \<noteq> n" for g
    using that d(5) se by auto
  have maj: "majority d = majority c"
    using majority_evolves [OF d(1)] majority_evolves [OF f1] by simp
  have yd: "map_of (rc_nodes (modify n become_leader d)) n = Some (become_leader y)"
    using y by (simp add: map_of_modify)
  have tt: "trigger_timeout n c =
      (if majority c \<le> card G then crown n G d else (election_result n G d, d))"
    using yd y(1) by (simp add: trigger_timeout_def node_Inr [THEN iffD2, OF x] st ps(1) cv maj
        crown_def node_Inr [THEN iffD2, OF yd] Let_def)
  show thesis
  proof (rule that [OF _ _ _ _ vo _ _ tt])
    show "evolves follows c d" using evolves_follows_trans [OF f1 d(1)] .
    show "same_tables c d" using same_tables_trans [OF same_tables_modify d(2)] .
    show "n \<in> G" "G \<subseteq> set (node_ids c)" using d(3,4) ps(3) n by auto
    show "\<exists>y. map_of (rc_nodes d) n = Some y \<and> pledged (current_term x + 1) n y"
      using y se by (auto simp: follows_def grows_def)
    show "\<exists>y. map_of (rc_nodes d) n = Some y \<and> current_term x < current_term y"
      using y se(3) by (auto simp: follows_def grows_def)
  qed
qed

lemma crown_outcome:
  assumes y: "map_of (rc_nodes d) n = Some y" and id: "rn_node_id y = n"
  shows "evolves grows d (snd (crown n G d))"
    "map_of (rc_nodes (snd (crown n G d))) = (map_of (rc_nodes d))(n \<mapsto> become_leader y)"
    "rc_partition (snd (crown n G d)) = rc_partition d"
    "rc_leader_by_term (snd (crown n G d)) =
       (if rc_leader_by_term d (current_term y) \<in> {None, Some n}
        then (rc_leader_by_term d)(current_term y \<mapsto> n) else rc_leader_by_term d)"
    "(\<exists>e. fst (crown n G d) = Inl e) \<longleftrightarrow> rc_leader_by_term d (current_term y) \<notin> {None, Some n}"
    "fst (crown n G d) = Inr r \<Longrightarrow> became_leader r \<and> er_term r = current_term y"
proof -
  have "rn_node_id (become_leader y) = n" using id by (simp add: become_leader_def)
  note facts = this y current_term_become_leader map_of_modify
  have nd: "map_of (rc_nodes (modify n become_leader d)) n = Some (become_leader y)"
    using y by (simp add: map_of_modify)
  have mono: "evolves grows d (modify n become_leader d)"
    by (intro evolves_modify) (auto intro: frame)
  then show "evolves grows d (snd (crown n G d))"
    by (auto simp: crown_def record_leader_def Let_def evolves_def node_ids_def split: option.splits)
  show "map_of (rc_nodes (snd (crown n G d))) = (map_of (rc_nodes d))(n \<mapsto> become_leader y)"
    using facts by (auto simp: crown_def record_leader_def Let_def split: option.splits)
  show "rc_partition (snd (crown n G d)) = rc_partition d"
    by (auto simp: crown_def record_leader_def Let_def modify_def split: option.splits)
  have lt: "rc_leader_by_term (modify n become_leader d) = rc_leader_by_term d"
    by (simp add: modify_def)
  show "rc_leader_by_term (snd (crown n G d)) =
       (if rc_leader_by_term d (current_term y) \<in> {None, Some n}
        then (rc_leader_by_term d)(current_term y \<mapsto> n) else rc_leader_by_term d)"
    using facts lt by (auto simp: crown_def record_leader_def Let_def split: option.splits)
  show "(\<exists>e. fst (crown n G d) = Inl e) \<longleftrightarrow> rc_leader_by_term d (current_term y) \<notin> {None, Some n}"
    using facts lt nd by (auto simp: crown_def record_leader_def Let_def election_result_def node_def
        split: option.splits)
  show "fst (crown n G d) = Inr r \<Longrightarrow> became_leader r \<and> er_term r = current_term y"
    using facts nd by (auto simp: crown_def record_leader_def Let_def election_result_def node_def
        became_leader_def become_leader_def current_term_def split: option.splits if_splits)
qed

lemma timeout_unknown: "map_of (rc_nodes c) n = None \<Longrightarrow> trigger_timeout n c = (Inl (ValueError (''unknown node '' @ n)), c)"
  by (simp add: trigger_timeout_def node_def)

section \<open>Every step grows every node\<close>

lemma timeout_grows: "raft_wf c \<Longrightarrow> evolves grows c (snd (trigger_timeout n c))"
  and timeout_partition: "raft_wf c \<Longrightarrow> rc_partition (snd (trigger_timeout n c)) = rc_partition c"
proof -
  assume wf: "raft_wf c"
  have "evolves grows c (snd (trigger_timeout n c)) \<and>
      rc_partition (snd (trigger_timeout n c)) = rc_partition c"
  proof (cases "map_of (rc_nodes c) n")
    case None
    then show ?thesis by (simp add: timeout_unknown)
  next
    case (Some x)
    from trigger_timeout_known [OF wf Some] obtain G d where
      d: "evolves follows c d" "same_tables c d"
      and y: "\<exists>y. map_of (rc_nodes d) n = Some y \<and> current_term x < current_term y"
      and tt: "trigger_timeout n c =
        (if majority c \<le> card G then crown n G d else (election_result n G d, d))" by metis
    from y obtain y where y: "map_of (rc_nodes d) n = Some y" by blast
    have "raft_wf d" by (rule raft_wf_same_tables [OF evolves_follows_grows [OF d(1)] d(2) wf])
    with y have "rn_node_id y = n" by (simp add: raft_wf_def)
    note cr = crown_outcome [OF y this]
    show ?thesis
      using evolves_grows_trans [OF evolves_follows_grows [OF d(1)] cr(1)]
        evolves_follows_grows [OF d(1)] cr(3) d(2) by (simp add: tt same_tables_def)
  qed
  then show "evolves grows c (snd (trigger_timeout n c))"
    "rc_partition (snd (trigger_timeout n c)) = rc_partition c" by auto
qed

lemma heartbeat_follows:
  assumes "raft_wf c"
  shows "evolves follows c (snd (send_heartbeat n c)) \<and> same_tables c (snd (send_heartbeat n c))"
proof (cases "map_of (rc_nodes c) n")
  case None
  then show ?thesis by (simp add: send_heartbeat_def node_def)
next
  case (Some x)
  then have n: "n \<in> set (node_ids c)" by (auto simp: known_node)
  from reachable_peers_Inr [OF assms n] obtain ps where
    ps: "reachable_peers c n = Inr ps" "set ps \<subseteq> set (node_ids c)" by metis
  from beat_peers_spec [OF ps(2), of n "\<lparr>hb_term = current_term x, hb_leader_id = n\<rparr>"] ps(1)
  show ?thesis by (auto simp: send_heartbeat_def node_Inr [THEN iffD2, OF Some])
qed

lemma restart_follows:
  "evolves follows c (snd (restart_node n c)) \<and> same_tables c (snd (restart_node n c))"
  by (auto simp: restart_node_def intro: evolves_modify frame split: sum.split)

lemma set_partition_evolves:
  "evolves follows c (snd (set_partition gs c))" "evolves follows c (heal c)"
  "rc_leader_by_term (snd (set_partition gs c)) = rc_leader_by_term c"
  "rc_leader_by_term (heal c) = rc_leader_by_term c"
  by (auto simp: set_partition_def heal_def evolves_def node_ids_def split: sum.split)

lemma set_partition_partitions:
  assumes "raft_wf c"
  shows "partitions (rc_partition (snd (set_partition gs c))) (set (node_ids c))"
    "partitions (rc_partition (heal c)) (set (node_ids c))"
proof -
  from assms have "node_ids c \<noteq> []" by (auto simp: raft_wf_def node_ids_def)
  with assms show "partitions (rc_partition (snd (set_partition gs c))) (set (node_ids c))"
    "partitions (rc_partition (heal c)) (set (node_ids c))"
    by (auto simp: set_partition_def heal_def raft_wf_def intro: keep split: sum.split)
qed

lemma raft_step_grows: "raft_wf c \<Longrightarrow> evolves grows c (raft_step e c)"
  by (cases e) (auto intro: timeout_grows evolves_follows_grows heartbeat_follows [THEN conjunct1]
      restart_follows [THEN conjunct1] set_partition_evolves)

lemma raft_step_wf [keep]:
  assumes "raft_wf c"
  shows "raft_wf (raft_step e c)"
proof (rule raft_wf_evolves [OF raft_step_grows [OF assms] assms])
  have "partitions (rc_partition c) (set (node_ids c))" using assms by (simp add: raft_wf_def)
  then show "partitions (rc_partition (raft_step e c)) (set (node_ids c))"
    using heartbeat_follows [OF assms] restart_follows [of c] set_partition_partitions [OF assms]
    by (cases e) (simp_all add: same_tables_def timeout_partition [OF assms])
qed

lemma new_raft_cluster_wf [keep]:
  assumes "new_raft_cluster ns = Inr c"
  shows "raft_wf c" "rc_leader_by_term c = Map.empty"
    "map_of (rc_nodes c) n = Some x \<Longrightarrow> rn_role x = FOLLOWER"
proof -
  from assms have len: "3 \<le> length (from_keys ns)" and ids: "node_ids c = from_keys ns"
    and c: "c = \<lparr>rc_partition = healed (from_keys ns), rc_leader_by_term = Map.empty,
      rc_nodes = map (\<lambda>n. (n, new_raft_node (from_keys ns) n)) (from_keys ns)\<rparr>"
    by (auto simp: new_raft_cluster_def node_ids_def comp_def Let_def split: if_splits)
  from len have "partitions (healed (from_keys ns)) (set (from_keys ns))" by (intro keep) auto
  with len show "raft_wf c"
    by (auto simp: raft_wf_def ids) (auto simp: c map_of_map_keys new_raft_node_def split: if_splits)
  show "rc_leader_by_term c = Map.empty" by (simp add: c)
  show "map_of (rc_nodes c) n = Some x \<Longrightarrow> rn_role x = FOLLOWER"
    by (auto simp: c map_of_map_keys new_raft_node_def split: if_splits)
qed

interpretation raft: machine "\<lambda>c. \<exists>ns. new_raft_cluster ns = Inr c" raft_step raft_wf
  by unfold_locales (auto intro: keep)

section \<open>Elections that do not change term under the winner\<close>

text \<open>
  \<open>trigger_timeout\<close> counts its votes even after a response with a higher term made the candidate
  step down.  A timeout is clean when a candidate that ends as leader leads in the term in which it
  asked for votes.
\<close>

fun clean :: "raft_event \<Rightarrow> raft_cluster \<Rightarrow> bool" where
  "clean (Timeout n) c =
     (case (map_of (rc_nodes c) n, map_of (rc_nodes (snd (trigger_timeout n c))) n) of
        (Some x, Some y) \<Rightarrow> rn_role y = LEADER \<longrightarrow> current_term y = current_term x + 1
      | _ \<Rightarrow> True)"
| "clean _ c = True"

inductive clean_run :: "raft_cluster \<Rightarrow> bool" where
  clean_start: "new_raft_cluster ns = Inr c \<Longrightarrow> clean_run c"
| clean_next: "clean_run c \<Longrightarrow> clean e c \<Longrightarrow> clean_run (raft_step e c)"

definition backed :: "raft_cluster \<Rightarrow> int \<Rightarrow> node_id \<Rightarrow> bool" where
  "backed c t l \<longleftrightarrow> (\<exists>Q. Q \<subseteq> set (node_ids c) \<and> majority c \<le> card Q \<and>
     (\<forall>q \<in> Q. \<exists>x. map_of (rc_nodes c) q = Some x \<and> pledged t l x))"

definition election_safe :: "raft_cluster \<Rightarrow> bool" where
  "election_safe c \<longleftrightarrow> raft_wf c \<and>
     (\<forall>t l. rc_leader_by_term c t = Some l \<longrightarrow> backed c t l) \<and>
     (\<forall>n x. map_of (rc_nodes c) n = Some x \<and> rn_role x = LEADER \<longrightarrow>
        rc_leader_by_term c (current_term x) = Some n)"

lemma backed_grows: "evolves grows c d \<Longrightarrow> backed c t l \<Longrightarrow> backed d t l"
  unfolding backed_def using majority_evolves [of grows c d]
  by (auto simp: evolves_def grows_def) (metis (no_types, lifting) option.inject)

lemma election_safe_follows:
  assumes "evolves follows c d" "rc_leader_by_term d = rc_leader_by_term c" "raft_wf d" "election_safe c"
  shows "election_safe d"
proof -
  have "rc_leader_by_term d (current_term y) = Some n"
    if y: "map_of (rc_nodes d) n = Some y" "rn_role y = LEADER" for n y
  proof -
    from y(1) assms(1) obtain x where x: "map_of (rc_nodes c) n = Some x"
      by (metis evolves_def known_node)
    with evolvesD [OF assms(1) this] y have "rn_role x = LEADER" "current_term y = current_term x"
      by (auto simp: follows_def)
    with x assms(2,4) show ?thesis by (simp add: election_safe_def)
  qed
  with assms show ?thesis
    using backed_grows [OF evolves_follows_grows [OF assms(1)]] by (simp add: election_safe_def)
qed

lemma majorities_meet:
  assumes "A \<subseteq> set (node_ids c)" "B \<subseteq> set (node_ids c)" "majority c \<le> card A" "majority c \<le> card B"
  shows "\<exists>q. q \<in> A \<and> q \<in> B"
proof -
  have "card (set (node_ids c)) \<le> length (rc_nodes c)"
    by (metis card_length length_map node_ids_def)
  with assms(3,4) have "card (set (node_ids c)) < card A + card B" by (simp add: majority_def)
  with assms(1,2) have "A \<inter> B \<noteq> {}" by (intro quorums_meet) auto
  then show ?thesis by blast
qed

lemma election_safe_timeout:
  assumes safe: "election_safe c" and cl: "clean (Timeout n) c"
  shows "election_safe (snd (trigger_timeout n c)) \<and>
    (map_of (rc_nodes c) n \<noteq> None \<longrightarrow> (\<exists>r. fst (trigger_timeout n c) = Inr r))"
proof (cases "map_of (rc_nodes c) n")
  case None
  with safe show ?thesis by (simp add: timeout_unknown)
next
  case (Some x)
  have wf: "raft_wf c" using safe by (simp add: election_safe_def)
  from trigger_timeout_known [OF wf Some] obtain G d where
    d: "evolves follows c d" "same_tables c d" and nG: "n \<in> G" and G: "G \<subseteq> set (node_ids c)"
    and vo: "\<And>g. g \<in> G \<Longrightarrow> g \<noteq> n \<Longrightarrow> \<exists>y. map_of (rc_nodes d) g = Some y \<and> voted (current_term x + 1) n y"
    and pl: "\<exists>y. map_of (rc_nodes d) n = Some y \<and> pledged (current_term x + 1) n y"
    and tt: "trigger_timeout n c =
      (if majority c \<le> card G then crown n G d else (election_result n G d, d))" by metis
  let ?T = "current_term x + 1"
  have wfd: "raft_wf d" by (rule raft_wf_same_tables [OF evolves_follows_grows [OF d(1)] d(2) wf])
  have sd: "election_safe d"
    using election_safe_follows [OF d(1) _ wfd safe] d(2) by (simp add: same_tables_def)
  from pl obtain y where y: "map_of (rc_nodes d) n = Some y" "pledged ?T n y" by blast
  have id: "rn_node_id y = n" using y wfd by (simp add: raft_wf_def)
  note cr = crown_outcome [OF y(1) id]
  show ?thesis
  proof (cases "majority c \<le> card G")
    case False
    with sd y(1) show ?thesis by (simp add: tt election_result_def node_def)
  next
    case True
    have T: "current_term y = ?T"
      using cl True Some by (simp add: tt cr(2) become_leader_def current_term_def)
    have ids: "node_ids d = node_ids c" "majority d = majority c"
      using d(1) majority_evolves [OF d(1)] by (auto simp: evolves_def)
    have all: "\<exists>z. map_of (rc_nodes d) g = Some z \<and> voted ?T n z" if "g \<in> G" for g
      using vo [OF that] y T by (cases "g = n") (auto simp: voted_def pledged_def)
    have new: "rc_leader_by_term d ?T \<in> {None, Some n}"
    proof (cases "rc_leader_by_term d ?T")
      case None
      then show ?thesis by simp
    next
      case (Some l)
      with sd obtain Q where Q: "Q \<subseteq> set (node_ids d)" "majority d \<le> card Q"
        "\<forall>q \<in> Q. \<exists>z. map_of (rc_nodes d) q = Some z \<and> pledged ?T l z"
        by (force simp: election_safe_def backed_def)
      from majorities_meet [of G d Q] Q G True ids obtain q where "q \<in> G" "q \<in> Q" by auto
      with all Q(3) have "l = n" by (force simp: voted_def pledged_def)
      with Some show ?thesis by simp
    qed
    let ?e = "snd (crown n G d)"
    have wfe: "raft_wf ?e"
      by (rule raft_wf_evolves [OF cr(1) wfd]) (use wfd in \<open>simp add: cr(3) raft_wf_def\<close>)
    have lead: "rc_leader_by_term ?e = (rc_leader_by_term d)(?T \<mapsto> n)"
      using new T by (simp add: cr(4))
    have "backed d ?T n"
      unfolding backed_def using True G ids all by (metis voted_pledged)
    then have "backed ?e t l" if "rc_leader_by_term ?e t = Some l" for t l
      using that sd backed_grows [OF cr(1)] by (auto simp: lead election_safe_def split: if_splits)
    moreover have "rc_leader_by_term ?e (current_term z) = Some m"
      if "map_of (rc_nodes ?e) m = Some z" "rn_role z = LEADER" for m z
    proof (cases "m = n")
      case True
      with that T show ?thesis by (auto simp: cr(2) lead)
    next
      case False
      with that sd have "rc_leader_by_term d (current_term z) = Some m"
        by (simp add: cr(2) election_safe_def)
      with False new show ?thesis by (auto simp: lead)
    qed
    moreover have "\<exists>r. fst (crown n G d) = Inr r"
      using cr(5) new T by (metis obj_sumE)
    ultimately show ?thesis using True wfe by (simp add: tt election_safe_def)
  qed
qed

lemma election_safe_step: "election_safe c \<Longrightarrow> clean e c \<Longrightarrow> election_safe (raft_step e c)"
proof -
  assume safe: "election_safe c" and cl: "clean e c"
  then have wf: "raft_wf (raft_step e c)" by (auto simp: election_safe_def intro: keep)
  from safe have wfc: "raft_wf c" by (simp add: election_safe_def)
  show "election_safe (raft_step e c)"
  proof (cases e)
    case (Timeout n)
    with safe cl show ?thesis using election_safe_timeout by simp
  next
    case (SendHeartbeat n)
    with safe wf heartbeat_follows [OF wfc, of n] show ?thesis
      by (auto intro!: election_safe_follows [OF _ _ _ safe] simp: same_tables_def)
  next
    case (Restart n)
    with safe wf restart_follows [of c n] show ?thesis
      by (auto intro!: election_safe_follows [OF _ _ _ safe] simp: same_tables_def)
  next
    case (SetPartition gs)
    with wf show ?thesis
      by (auto intro!: election_safe_follows [OF _ _ _ safe] simp: set_partition_evolves)
  next
    case Heal
    with wf show ?thesis
      by (auto intro!: election_safe_follows [OF _ _ _ safe] simp: set_partition_evolves)
  qed
qed

lemma election_safe_run: "clean_run c \<Longrightarrow> election_safe c"
proof (induction rule: clean_run.induct)
  case (clean_start ns c)
  then show ?case using new_raft_cluster_wf [OF clean_start] by (auto simp: election_safe_def)
next
  case (clean_next c e)
  then show ?case by (blast intro: election_safe_step)
qed

section \<open>An election nobody objects to\<close>

definition electable :: "raft_cluster \<Rightarrow> raft_node \<Rightarrow> node_id list \<Rightarrow> bool" where
  "electable c x ps \<longleftrightarrow> (\<forall>p \<in> set ps. \<exists>z. map_of (rc_nodes c) p = Some z \<and>
     current_term z \<le> current_term x \<and> last_log_position z \<le> last_log_position x)"

lemma vote_granted:
  assumes "current_term z < rv_term req" "last_log_position z \<le> rv_last_log_position req"
  shows "vr_granted (fst (receive_vote_request req z))" "vr_term (fst (receive_vote_request req z)) = rv_term req"
  using assms by (auto simp: node_defs Let_def)

text \<open>The loop over peers that all grant; \<open>rest\<close> is what comes behind them.\<close>

lemma collect_votes_prefix:
  assumes "map_of (rc_nodes c) cand = Some x" "current_term x = rv_term req" "cand \<notin> set ps" "distinct ps"
    and "\<And>p. p \<in> set ps \<Longrightarrow> \<exists>z. map_of (rc_nodes c) p = Some z \<and> current_term z < rv_term req \<and>
      last_log_position z \<le> rv_last_log_position req"
  shows "\<exists>d. collect_votes cand req (ps @ rest) G c = collect_votes cand req rest (G \<union> set ps) d \<and>
    (\<forall>p \<in> set ps. \<exists>w. map_of (rc_nodes d) p = Some w \<and> voted (rv_term req) (rv_candidate_id req) w) \<and>
    (\<forall>q. q \<notin> set ps \<longrightarrow> map_of (rc_nodes d) q = map_of (rc_nodes c) q) \<and>
    same_tables c d \<and> node_ids d = node_ids c"
  using assms
proof (induction ps arbitrary: c G)
  case Nil
  then show ?case by (intro exI [of _ c]) simp
next
  case (Cons p ps)
  from Cons.prems(5) [of p] obtain z where
    z: "map_of (rc_nodes c) p = Some z" "current_term z < rv_term req"
      "last_log_position z \<le> rv_last_log_position req" by auto
  obtain resp z' where rv: "receive_vote_request req z = (resp, z')" by fastforce
  with vote_granted [OF z(2,3)] have resp: "vr_granted resp" "vr_term resp = rv_term req" by simp_all
  from granted_voted [of req z] resp(1) rv have vz: "voted (rv_term req) (rv_candidate_id req) z'" by simp
  let ?c1 = "modify p (\<lambda>_. z') c"
  have x: "map_of (rc_nodes ?c1) cand = Some x" using Cons.prems(1,3) by (simp add: map_of_modify)
  have "\<exists>d. collect_votes cand req (ps @ rest) (insert p G) ?c1 = collect_votes cand req rest (insert p G \<union> set ps) d \<and>
    (\<forall>p \<in> set ps. \<exists>w. map_of (rc_nodes d) p = Some w \<and> voted (rv_term req) (rv_candidate_id req) w) \<and>
    (\<forall>q. q \<notin> set ps \<longrightarrow> map_of (rc_nodes d) q = map_of (rc_nodes ?c1) q) \<and>
    same_tables ?c1 d \<and> node_ids d = node_ids ?c1"
  proof (rule Cons.IH [OF x Cons.prems(2)])
    show "cand \<notin> set ps" "distinct ps" using Cons.prems(3,4) by auto
    show "\<exists>w. map_of (rc_nodes ?c1) q = Some w \<and> current_term w < rv_term req \<and>
        last_log_position w \<le> rv_last_log_position req" if "q \<in> set ps" for q
      using Cons.prems(4) Cons.prems(5) [of q] that by (auto simp: map_of_modify)
  qed
  then obtain d where d: "collect_votes cand req (ps @ rest) (insert p G) ?c1 = collect_votes cand req rest (insert p G \<union> set ps) d"
    "\<forall>p \<in> set ps. \<exists>w. map_of (rc_nodes d) p = Some w \<and> voted (rv_term req) (rv_candidate_id req) w"
    "\<forall>q. q \<notin> set ps \<longrightarrow> map_of (rc_nodes d) q = map_of (rc_nodes ?c1) q" "same_tables ?c1 d" "node_ids d = node_ids ?c1" by blast
  have "collect_votes cand req ((p # ps) @ rest) G c = collect_votes cand req rest (G \<union> set (p # ps)) d"
    using resp Cons.prems(2) d(1) by (simp add: rv node_Inr [THEN iffD2, OF z(1)] node_Inr [THEN iffD2, OF x])
  moreover have "map_of (rc_nodes d) p = Some z'" using d(3) Cons.prems(4) z(1) by (simp add: map_of_modify)
  moreover have "map_of (rc_nodes d) q = map_of (rc_nodes c) q" if "q \<notin> set (p # ps)" for q
    using d(3) that by (simp add: map_of_modify)
  ultimately show ?case
    using d(2,5) vz same_tables_trans [OF same_tables_modify d(4)] by (intro exI [of _ d]) simp
qed

lemma collect_votes_unanimous:
  assumes "map_of (rc_nodes c) cand = Some x" "current_term x = rv_term req" "cand \<notin> set ps" "distinct ps"
    and "\<And>p. p \<in> set ps \<Longrightarrow> \<exists>z. map_of (rc_nodes c) p = Some z \<and> current_term z < rv_term req \<and>
      last_log_position z \<le> rv_last_log_position req"
  shows "\<exists>d. collect_votes cand req ps G c = (Inr (G \<union> set ps), d) \<and> map_of (rc_nodes d) cand = Some x \<and> same_tables c d"
  using collect_votes_prefix [OF assms, of "[]" G] assms(1,3) by auto

text \<open>A timeout whose votes are a majority ends by crowning the candidate as the cluster then holds it.\<close>

lemma timeout_crowns:
  assumes "map_of (rc_nodes c) n = Some x" "start_election x = (req, x1)" "reachable_peers c n = Inr ps"
    and "collect_votes n req ps {n} (modify n (\<lambda>_. x1) c) = (Inr G, d)" "map_of (rc_nodes d) n = Some y"
    and "node_ids d = node_ids c" "majority c \<le> card G"
  shows "trigger_timeout n c = crown n G d"
proof -
  have rp: "reachable_peers (modify n (\<lambda>_. x1) c) n = Inr ps" using assms(3) by (simp add: reachable_peers_def modify_def)
  have "majority d = majority c" using assms(6) by (metis length_map majority_def node_ids_def)
  moreover have nd: "map_of (rc_nodes (modify n become_leader d)) n = Some (become_leader y)"
    using assms(5) by (simp add: map_of_modify)
  ultimately show ?thesis
    using assms(4,5,7) by (simp add: trigger_timeout_def node_Inr [THEN iffD2, OF assms(1)] assms(2) rp crown_def
        node_Inr [THEN iffD2, OF nd] Let_def)
qed

lemma crown_result:
  assumes "map_of (rc_nodes d) n = Some y" "rn_node_id y = n"
  shows "fst (crown n G d) =
    (case rc_leader_by_term d (current_term y) of
       Some l \<Rightarrow> if l \<noteq> n then Inl (LeadershipConflict (''term '' @ show_int (current_term y) @ '' already led by '' @ l @ '', not '' @ n))
         else Inr \<lparr>er_candidate_id = n, er_term = current_term y, er_granted_by = sorted_list_of_set G, er_role_after = LEADER\<rparr>
     | None \<Rightarrow> Inr \<lparr>er_candidate_id = n, er_term = current_term y, er_granted_by = sorted_list_of_set G, er_role_after = LEADER\<rparr>)"
proof -
  have nd: "map_of (rc_nodes (modify n become_leader d)) n = Some (become_leader y)" using assms(1) by (simp add: map_of_modify)
  have "rc_leader_by_term (modify n become_leader d) = rc_leader_by_term d" by (simp add: modify_def)
  moreover have "rn_node_id (become_leader y) = n" "rn_role (become_leader y) = LEADER" using assms(2) by (simp_all add: become_leader_def)
  ultimately show ?thesis
    using assms(1) nd by (auto simp: crown_def Let_def record_leader_def election_result_def node_def split: option.split)
qed

text \<open>The votes of peers that do not object, before a further peer is asked.\<close>

lemma electable_votes:
  assumes wf: "raft_wf c" and x: "map_of (rc_nodes c) n = Some x" and st: "start_election x = (req, x1)"
    and rp: "reachable_peers c n = Inr (ps @ rest)" and el: "electable c x ps"
  obtains d where "collect_votes n req (ps @ rest) {n} (modify n (\<lambda>_. x1) c) = collect_votes n req rest (insert n (set ps)) d"
    "\<And>p. p \<in> set ps \<Longrightarrow> \<exists>w. map_of (rc_nodes d) p = Some w \<and> voted (current_term x + 1) n w"
    "\<And>q. q \<notin> set ps \<Longrightarrow> map_of (rc_nodes d) q = map_of (rc_nodes (modify n (\<lambda>_. x1) c)) q"
    "rc_leader_by_term d = rc_leader_by_term c" "node_ids d = node_ids c" "distinct (n # ps @ rest)" "map_of (rc_nodes d) n = Some x1"
proof -
  have id: "rn_node_id x = n" using wf x by (simp add: raft_wf_def)
  note se = start_election_request [of x, unfolded st fst_conv snd_conv id]
  let ?c1 = "modify n (\<lambda>_. x1) c"
  have "n \<in> set (node_ids c)" using x by (auto simp: known_node)
  from reachable_peers_Inr [OF wf this] rp have ps: "n \<notin> set (ps @ rest)" "distinct (ps @ rest)" by auto
  have x1: "map_of (rc_nodes ?c1) n = Some x1" using x by (simp add: map_of_modify)
  have req: "rv_term req = current_term x + 1" "rv_candidate_id req = n" "current_term x1 = rv_term req" using se(1,3) by simp_all
  have apart: "n \<notin> set ps" "distinct ps" using ps by auto
  have ask: "\<exists>z. map_of (rc_nodes ?c1) p = Some z \<and> current_term z < rv_term req \<and> last_log_position z \<le> rv_last_log_position req"
    if "p \<in> set ps" for p
    using that el ps(1) se(1) by (auto simp: electable_def map_of_modify)
  have "\<exists>d. collect_votes n req (ps @ rest) {n} ?c1 = collect_votes n req rest ({n} \<union> set ps) d \<and>
    (\<forall>p \<in> set ps. \<exists>w. map_of (rc_nodes d) p = Some w \<and> voted (rv_term req) (rv_candidate_id req) w) \<and>
    (\<forall>q. q \<notin> set ps \<longrightarrow> map_of (rc_nodes d) q = map_of (rc_nodes ?c1) q) \<and> same_tables ?c1 d \<and> node_ids d = node_ids ?c1"
    by (rule collect_votes_prefix [OF x1 req(3) apart ask])
  then obtain d where
    d: "collect_votes n req (ps @ rest) {n} ?c1 = collect_votes n req rest ({n} \<union> set ps) d"
      "\<forall>p \<in> set ps. \<exists>w. map_of (rc_nodes d) p = Some w \<and> voted (current_term x + 1) n w"
      "\<forall>q. q \<notin> set ps \<longrightarrow> map_of (rc_nodes d) q = map_of (rc_nodes ?c1) q" "same_tables ?c1 d" "node_ids d = node_ids ?c1"
    unfolding req(1,2) by blast
  have "rc_leader_by_term d = rc_leader_by_term c" using d(4) by (simp add: same_tables_def modify_def)
  with d(1,2,3,5) ps x1 show thesis by (intro that [of d]) auto
qed

section \<open>Properties\<close>

definition raft_demo :: raft_cluster where
  "raft_demo = projr (new_raft_cluster [''a'', ''b'', ''c'', ''d'', ''e''])"

definition raft_demo_elected :: raft_cluster where
  "raft_demo_elected = raft_step (Timeout ''a'') raft_demo"

lemma raft_demo_new: "new_raft_cluster [''a'', ''b'', ''c'', ''d'', ''e''] = Inr raft_demo"
  by (simp add: raft_demo_def new_raft_cluster_def Let_def)

lemma raft_demo_clean: "clean_run raft_demo"
  by (rule clean_start [OF raft_demo_new])

lemma raft_demo_elected_clean: "clean_run raft_demo_elected"
  unfolding raft_demo_elected_def
  by (rule clean_next [OF raft_demo_clean]) code_simp

text \<open>
  Property C2. Election safety: in every run whose elections are clean, under any timeouts,
  heartbeats, restarts and partitions, two nodes that are leader in the same term are the same
  node, and a clean timeout of a known node never ends in the LeadershipConflict error.
\<close>
theorem raft_election_safety:
  assumes "clean_run c"
  shows "(\<forall>n m x y. map_of (rc_nodes c) n = Some x \<and> map_of (rc_nodes c) m = Some y \<and>
      rn_role x = LEADER \<and> rn_role y = LEADER \<and> current_term x = current_term y \<longrightarrow> n = m) \<and>
    (\<forall>n \<in> set (node_ids c). clean (Timeout n) c \<longrightarrow> (\<exists>r. fst (trigger_timeout n c) = Inr r))"
proof -
  note safe = election_safe_run [OF assms]
  then have "n = m"
    if "map_of (rc_nodes c) n = Some x" "map_of (rc_nodes c) m = Some y" "rn_role x = LEADER"
      "rn_role y = LEADER" "current_term x = current_term y" for n m x y
    using that by (metis election_safe_def option.inject)
  moreover have "\<exists>r. fst (trigger_timeout n c) = Inr r"
    if "n \<in> set (node_ids c)" "clean (Timeout n) c" for n
    using election_safe_timeout [OF safe that(2)] that(1) by (auto simp: known_node)
  ultimately show ?thesis by blast
qed

theorem raft_election_safety_witness:
  "(\<exists>x. map_of (rc_nodes raft_demo_elected) ''a'' = Some x \<and> rn_role x = LEADER) \<and>
   (\<exists>r. fst (trigger_timeout ''b'' raft_demo_elected) = Inr r)"
proof -
  have "case map_of (rc_nodes raft_demo_elected) ''a'' of None \<Rightarrow> False | Some x \<Rightarrow> rn_role x = LEADER"
    by code_simp
  moreover have "''b'' \<in> set (node_ids raft_demo_elected)" "clean (Timeout ''b'') raft_demo_elected"
    by code_simp+
  ultimately show ?thesis
    using raft_election_safety [OF raft_demo_elected_clean] by (auto split: option.splits)
qed

text \<open>
  Property C16.  \<open>trigger_timeout\<close> counts its votes even after a response made the candidate step down.  In any
  state a cluster can reach, when the first peers asked grant a majority and the next one is in a term beyond
  the one asked for, the candidate ends as leader of that peer's term: a term in which it voted for nobody and for which
  none of its voters was asked, each of them having voted in the term before.  The cluster records it as the leader
  of that term when it has no other, so that the election of a rightful candidate of the term fails.
\<close>
theorem raft_leader_of_a_term_it_never_asked_for:
  assumes "new_raft_cluster ns = Inr c0" "c = fold raft_step es c0" "map_of (rc_nodes c) n = Some x"
    and "reachable_peers c n = Inr (ps @ p # qs)" "electable c x ps" "majority c \<le> Suc (length ps)"
    and "map_of (rc_nodes c) p = Some z" "current_term x + 1 < current_term z"
  shows "\<exists>y. map_of (rc_nodes (snd (trigger_timeout n c))) n = Some y \<and> rn_role y = LEADER \<and>
    current_term y = current_term z \<and> voted_for y = None \<and>
    (\<forall>q \<in> set ps. \<exists>w. map_of (rc_nodes (snd (trigger_timeout n c))) q = Some w \<and>
       current_term w = current_term x + 1 \<and> voted_for w = Some n) \<and>
    (rc_leader_by_term c (current_term z) = None \<longrightarrow>
       fst (trigger_timeout n c) = Inr \<lparr>er_candidate_id = n, er_term = current_term z,
         er_granted_by = sorted_list_of_set (insert n (set ps)), er_role_after = LEADER\<rparr> \<and>
       leader_for_term (snd (trigger_timeout n c)) (current_term z) = Some n)"
proof -
  have wf: "raft_wf c" unfolding assms(2) using assms(1) by (intro raft.ok_run) blast
  have id: "rn_node_id x = n" using wf assms(3) by (simp add: raft_wf_def)
  obtain req x1 where st: "start_election x = (req, x1)" by fastforce
  note se = start_election_request [of x, unfolded st fst_conv snd_conv id]
  from electable_votes [OF wf assms(3) st assms(4,5)] obtain d where
    d: "collect_votes n req (ps @ p # qs) {n} (modify n (\<lambda>_. x1) c) = collect_votes n req (p # qs) (insert n (set ps)) d"
      "\<And>q. q \<in> set ps \<Longrightarrow> \<exists>w. map_of (rc_nodes d) q = Some w \<and> voted (current_term x + 1) n w"
      "\<And>q. q \<notin> set ps \<Longrightarrow> map_of (rc_nodes d) q = map_of (rc_nodes (modify n (\<lambda>_. x1) c)) q"
      "rc_leader_by_term d = rc_leader_by_term c" "node_ids d = node_ids c" "distinct (n # ps @ p # qs)" "map_of (rc_nodes d) n = Some x1"
    by metis
  let ?y = "observe_higher_term (current_term z) x1" and ?e = "modify n (observe_higher_term (current_term z)) (modify p (\<lambda>_. z) d)"
  have "p \<noteq> n" "p \<notin> set ps" using d(6) by auto
  then have p: "map_of (rc_nodes d) p = Some z" using d(3) assms(7) by (simp add: map_of_modify)
  have rv: "receive_vote_request req z = (\<lparr>vr_term = current_term z, vr_voter_id = rn_node_id z, vr_granted = False\<rparr>, z)"
    using assms(8) se(1) by (simp add: receive_vote_request_def)
  have n1: "map_of (rc_nodes (modify p (\<lambda>_. z) d)) n = Some x1" using d(6,7) by (simp add: map_of_modify)
  have votes: "collect_votes n req (ps @ p # qs) {n} (modify n (\<lambda>_. x1) c) = (Inr (insert n (set ps)), ?e)"
    using assms(8) se(3) by (simp add: d(1) rv node_Inr [THEN iffD2, OF p] node_Inr [THEN iffD2, OF n1])
  have y: "map_of (rc_nodes ?e) n = Some ?y" using n1 by (simp add: map_of_modify)
  have card: "card (insert n (set ps)) = Suc (length ps)" using d(6) by (simp add: distinct_card)
  have crowned: "trigger_timeout n c = crown n (insert n (set ps)) ?e"
    by (rule timeout_crowns [OF assms(3) st assms(4) votes y]) (use d(5) card assms(6) in simp_all)
  have idy: "rn_node_id ?y = n" using st id by (auto simp: start_election_def observe_higher_term_def Let_def)
  have term_y: "current_term ?y = current_term z" "voted_for ?y = None"
    using assms(8) se(3) by (simp_all add: node_defs)
  note cr = crown_outcome [OF y idy, where G = "insert n (set ps)", folded crowned]
  have lead: "rc_leader_by_term ?e = rc_leader_by_term c" using d(4) by (simp add: modify_def)
  have "\<exists>w. map_of (rc_nodes (snd (trigger_timeout n c))) q = Some w \<and> current_term w = current_term x + 1 \<and> voted_for w = Some n"
    if "q \<in> set ps" for q
    using d(2) [OF that] d(6) that by (auto simp: cr(2) map_of_modify voted_def)
  moreover have "rn_role (become_leader ?y) = LEADER" "voted_for (become_leader ?y) = None"
    using term_y(2) by (simp_all add: become_leader_def voted_for_def)
  moreover have "rc_leader_by_term c (current_term z) = None \<Longrightarrow> leader_for_term (snd (trigger_timeout n c)) (current_term z) = Some n"
    by (simp add: leader_for_term_def cr(4) lead term_y(1))
  moreover have "map_of (rc_nodes (snd (trigger_timeout n c))) n = Some (become_leader ?y)" by (simp add: cr(2))
  moreover have "current_term (become_leader ?y) = current_term z" using term_y(1) by simp
  moreover have "rc_leader_by_term c (current_term z) = None \<Longrightarrow> fst (trigger_timeout n c) = Inr \<lparr>er_candidate_id = n,
      er_term = current_term z, er_granted_by = sorted_list_of_set (insert n (set ps)), er_role_after = LEADER\<rparr>"
    unfolding crowned crown_result [OF y idy] term_y(1) lead by simp
  ultimately show ?thesis by (intro exI [of _ "become_leader ?y"]) simp
qed

text \<open>
  In a cluster of five nodes that is partitioned once and healed, \<open>a\<close> collects its majority in term 1, steps down
  to term 2 at the response of \<open>d\<close> and is made leader of term 2; \<open>b\<close> then wins term 2 with the votes of a
  majority and its election raises LeadershipConflict.
\<close>

definition stepped_down_run :: "raft_event list" where
  "stepped_down_run = [SetPartition [[''a'', ''b'', ''c''], [''d'', ''e'']], Timeout ''d'', Timeout ''d'', Heal]"

theorem raft_leader_of_a_term_it_never_asked_for_witness:
  "\<exists>y. map_of (rc_nodes (raft_step (Timeout ''a'') (fold raft_step stepped_down_run raft_demo))) ''a'' = Some y \<and>
     rn_role y = LEADER \<and> current_term y = 2 \<and> voted_for y = None \<and>
     fst (trigger_timeout ''b'' (raft_step (Timeout ''a'') (fold raft_step stepped_down_run raft_demo))) =
       Inl (LeadershipConflict ''term 2 already led by a, not b'')"
proof -
  let ?c = "fold raft_step stepped_down_run raft_demo"
  have peers: "reachable_peers ?c ''a'' = Inr ([''b'', ''c''] @ ''d'' # [''e''])" and maj: "majority ?c \<le> Suc (length [''b'', ''c''])" by code_simp+
  have nodes: "map_option (\<lambda>x. (current_term x, last_log_position x)) (map_of (rc_nodes ?c) ''a'') = Some (0, LogPosition 0 0)"
    "map_option (\<lambda>x. (current_term x, last_log_position x)) (map_of (rc_nodes ?c) ''b'') = Some (0, LogPosition 0 0)"
    "map_option (\<lambda>x. (current_term x, last_log_position x)) (map_of (rc_nodes ?c) ''c'') = Some (0, LogPosition 0 0)"
    "map_option current_term (map_of (rc_nodes ?c) ''d'') = Some 2" by code_simp+
  then obtain x z where x: "map_of (rc_nodes ?c) ''a'' = Some x" "current_term x = 0" "last_log_position x = LogPosition 0 0"
    and z: "map_of (rc_nodes ?c) ''d'' = Some z" "current_term z = 2" by auto
  have el: "electable ?c x [''b'', ''c'']" unfolding electable_def using nodes(2,3) x(2,3) by auto
  have late: "current_term x + 1 < current_term z" using x(2) z(2) by simp
  have "fst (trigger_timeout ''b'' (raft_step (Timeout ''a'') ?c)) = Inl (LeadershipConflict ''term 2 already led by a, not b'')"
    by code_simp
  with raft_leader_of_a_term_it_never_asked_for [OF raft_demo_new refl x(1) peers el maj z(1) late] z(2) show ?thesis by auto
qed

text \<open>
  Property C18. Whatever events happen, a node's term never goes back and it never votes for two
  candidates in one term.
\<close>
theorem raft_one_vote_per_term:
  assumes "new_raft_cluster ns = Inr c0" "c = fold raft_step es c0" "d = fold raft_step fs c"
    and "map_of (rc_nodes c) n = Some x" "map_of (rc_nodes d) n = Some y"
  shows "current_term x \<le> current_term y \<and>
    (current_term x = current_term y \<and> voted_for x = Some l \<longrightarrow> voted_for y = Some l)"
proof -
  have run: "evolves grows c (fold raft_step fs c)" if "raft_wf c" for c fs
    using that
  proof (induction fs arbitrary: c)
    case (Cons f fs)
    then show ?case
      using evolves_grows_trans [OF raft_step_grows [OF Cons.prems] Cons.IH [OF raft_step_wf [OF Cons.prems]]]
      by simp
  qed simp
  have "raft_wf c" unfolding assms(2) using assms(1) by (intro raft.ok_run) blast
  from evolvesD [OF run [OF this, of fs] assms(4)] assms(3,5) have "grows x y" by auto
  then show ?thesis by (force simp: grows_def pledged_def)
qed

theorem raft_one_vote_per_term_witness:
  "\<exists>x y. map_of (rc_nodes raft_demo_elected) ''b'' = Some x \<and>
     map_of (rc_nodes (raft_step (Timeout ''c'') raft_demo_elected)) ''b'' = Some y \<and>
     current_term x \<le> current_term y"
proof -
  have "\<not> Option.is_none (map_of (rc_nodes raft_demo_elected) ''b'')"
    "\<not> Option.is_none (map_of (rc_nodes (raft_step (Timeout ''c'') raft_demo_elected)) ''b'')"
    by code_simp+
  then obtain x y where xy: "map_of (rc_nodes raft_demo_elected) ''b'' = Some x"
    "map_of (rc_nodes (raft_step (Timeout ''c'') raft_demo_elected)) ''b'' = Some y"
    by (auto simp: Option.is_none_def)
  have "raft_demo_elected = fold raft_step [Timeout ''a''] raft_demo"
    "raft_step (Timeout ''c'') raft_demo_elected = fold raft_step [Timeout ''c''] raft_demo_elected"
    by (simp_all add: raft_demo_elected_def)
  from raft_one_vote_per_term [OF raft_demo_new this xy] xy show ?thesis by blast
qed

text \<open>
  Property C21.  In any state a cluster can reach, a candidate that reaches enough peers for a majority, none of them
  in a later term or with a newer log, wins its election unless another node is already recorded as the leader
  of the next term: the result then names it leader of that term with the votes of all the peers it
  reached, and otherwise the election raises LeadershipConflict.  In a run whose elections are clean no other node
  is recorded, so the candidate wins.
\<close>
theorem raft_unopposed_candidate_wins:
  assumes "new_raft_cluster ns = Inr c0" "c = fold raft_step es c0" "map_of (rc_nodes c) n = Some x"
    and "reachable_peers c n = Inr ps" "majority c \<le> Suc (length ps)" "electable c x ps"
  shows "(if leader_for_term c (current_term x + 1) \<in> {None, Some n}
     then \<exists>r. fst (trigger_timeout n c) = Inr r \<and> became_leader r \<and> er_term r = current_term x + 1 \<and>
       set (er_granted_by r) = insert n (set ps)
     else \<exists>message. fst (trigger_timeout n c) = Inl (LeadershipConflict message)) \<and>
    (clean_run c \<longrightarrow> leader_for_term c (current_term x + 1) \<in> {None, Some n})"
proof -
  have wf: "raft_wf c" unfolding assms(2) using assms(1) by (intro raft.ok_run) blast
  have id: "rn_node_id x = n" using wf assms(3) by (simp add: raft_wf_def)
  obtain req x1 where st: "start_election x = (req, x1)" by fastforce
  note se = start_election_request [of x, unfolded st fst_conv snd_conv id]
  have all: "reachable_peers c n = Inr (ps @ [])" using assms(4) by simp
  from electable_votes [OF wf assms(3) st all assms(6)] obtain d where
    d: "collect_votes n req ps {n} (modify n (\<lambda>_. x1) c) = (Inr (insert n (set ps)), d)"
      "rc_leader_by_term d = rc_leader_by_term c" "node_ids d = node_ids c" "distinct (n # ps)" "map_of (rc_nodes d) n = Some x1"
    by (metis append_Nil2 collect_votes.simps(1))
  have card: "card (insert n (set ps)) = Suc (length ps)" using d(4) by (simp add: distinct_card)
  have crowned: "trigger_timeout n c = crown n (insert n (set ps)) d"
    by (rule timeout_crowns [OF assms(3) st assms(4) d(1,5,3)]) (use card assms(5) in simp)
  have id1: "rn_node_id x1 = n" using st id by (auto simp: start_election_def Let_def)
  note cr = crown_outcome [OF d(5) id1, where G = "insert n (set ps)", folded crowned]
  have result: "leader_for_term c (current_term x + 1) \<in> {None, Some n} \<longleftrightarrow> (\<exists>r. fst (trigger_timeout n c) = Inr r)"
    using cr(5) se(3) d(2) by (metis leader_for_term_def obj_sumE sum.distinct(1))
  have "leader_for_term c (current_term x + 1) \<in> {None, Some n}" if "clean_run c"
  proof -
    have "clean (Timeout n) c" using se(3) assms(3) by (simp add: cr(2))
    from election_safe_timeout [OF election_safe_run [OF that] this] assms(3) result show ?thesis by blast
  qed
  moreover have "if leader_for_term c (current_term x + 1) \<in> {None, Some n}
     then \<exists>r. fst (trigger_timeout n c) = Inr r \<and> became_leader r \<and> er_term r = current_term x + 1 \<and>
       set (er_granted_by r) = insert n (set ps)
     else \<exists>message. fst (trigger_timeout n c) = Inl (LeadershipConflict message)"
    using crown_result [OF d(5) id1, of "insert n (set ps)"] se(3) d(2)
    by (auto simp: leader_for_term_def crowned became_leader_def set_insort_key split: option.splits if_splits)
  ultimately show ?thesis by blast
qed

theorem raft_unopposed_candidate_wins_witness:
  "\<exists>r. fst (trigger_timeout ''a'' raft_demo) = Inr r \<and> became_leader r \<and> er_term r = 1"
proof -
  have "map_of (rc_nodes raft_demo) ''a'' = Some (new_raft_node [''a'', ''b'', ''c'', ''d'', ''e''] ''a'')"
    "reachable_peers raft_demo ''a'' = Inr [''b'', ''c'', ''d'', ''e'']"
    "majority raft_demo \<le> Suc (length [''b'', ''c'', ''d'', ''e''])"
    by code_simp+
  moreover have "electable raft_demo (new_raft_node [''a'', ''b'', ''c'', ''d'', ''e''] ''a'')
      [''b'', ''c'', ''d'', ''e'']"
    by (simp add: electable_def raft_demo_def new_raft_cluster_def new_raft_node_def
        current_term_def last_log_position_def)
  moreover have "current_term (new_raft_node [''a'', ''b'', ''c'', ''d'', ''e''] ''a'') = 0"
    by (simp add: new_raft_node_def current_term_def)
  moreover have "leader_for_term raft_demo 1 = None" by code_simp
  ultimately show ?thesis using raft_unopposed_candidate_wins [OF raft_demo_new, of raft_demo "[]"] by fastforce
qed

end
