(* ===== verification/DistributedLock.thy ===== *)
theory DistributedLock
  imports Prelude
begin

text \<open>
  Lab 26, \<open>lab_26_distributed_lock/simulation.py\<close>: the simulated Redis store with its lock service,
  the fenced and unfenced resources, the lease manager and the scheduler simulation.  The clock is
  one object shared by all of them: the operations that read it take its value as the argument
  \<open>now\<close>, and the simulation, which owns it, holds it in its state.  \<open>hashlib.sha1\<close> is the parameter
  \<open>sha1\<close>, of which nothing is assumed.
\<close>

section \<open>Data\<close>

record lock_handle =
  lh_key :: string
  lh_owner_token :: string
  lh_expires_at_ms :: int

record fenced_lease =
  fl_key :: string
  fl_owner_id :: string
  fl_fence :: int
  fl_expires_at_ms :: int

record relay_write =
  rw_resource_id :: string
  rw_writer_id :: string
  rw_payload :: string

record fenced_relay_write =
  fw_resource_id :: string
  fw_writer_id :: string
  fw_payload :: string
  fw_fence :: int

record stored_value =
  sv_writer_id :: string
  sv_payload :: string

record fenced_stored_value =
  fv_writer_id :: string
  fv_payload :: string
  fv_fence :: int

record scheduled_interval =
  si_interval_start_ms :: int
  si_scheduler_id :: string
  si_fence :: int

record scheduler_attempt =
  sa_scheduler_id :: string
  sa_interval_start_ms :: int
  sa_acquired_lease :: bool
  sa_scheduled :: bool
  sa_fence :: "int option"

record redis_command_event =
  ev_sequence :: int
  ev_client_id :: string
  ev_command :: string

definition quote :: string where
  "quote = [CHR 0x27]"

definition newline :: string where
  "newline = [CHR 0x0A]"

definition RELEASE_SCRIPT :: string where
  "RELEASE_SCRIPT =
     ''if redis.call('' @ quote @ ''get'' @ quote @ '', KEYS[1]) == ARGV[1] then'' @ newline @
     ''    return redis.call('' @ quote @ ''del'' @ quote @ '', KEYS[1])'' @ newline @
     ''else'' @ newline @
     ''    return 0'' @ newline @
     ''end'' @ newline"

definition clock_advance :: "int \<Rightarrow> int \<Rightarrow> int res" where
  "clock_advance now_ms delta_ms =
     (if delta_ms < 0 then Inl (ValueError ''delta_ms must not be negative'')
      else Inr (now_ms + delta_ms))"

section \<open>The in-memory Redis store\<close>

record redis_store =
  rs_records :: "string \<rightharpoonup> lock_handle"
  rs_counters :: "string \<rightharpoonup> int"
  rs_scripts :: "string \<rightharpoonup> string"
  rs_events :: "redis_command_event list"

definition new_redis_store :: redis_store where
  "new_redis_store = \<lparr>rs_records = Map.empty, rs_counters = Map.empty, rs_scripts = Map.empty, rs_events = []\<rparr>"

definition log_command :: "string \<Rightarrow> string \<Rightarrow> redis_store \<Rightarrow> redis_store" where
  "log_command client_id command s =
     s\<lparr>rs_events := rs_events s @
        [\<lparr>ev_sequence = int (length (rs_events s)) + 1, ev_client_id = client_id, ev_command = command\<rparr>]\<rparr>"

definition purge_if_expired :: "int \<Rightarrow> string \<Rightarrow> redis_store \<Rightarrow> redis_store" where
  "purge_if_expired now key s =
     (case rs_records s key of
        None \<Rightarrow> s
      | Some r \<Rightarrow> if lh_expires_at_ms r \<le> now then s\<lparr>rs_records := (rs_records s)(key := None)\<rparr> else s)"

definition set_nx_px ::
    "int \<Rightarrow> string \<Rightarrow> string \<Rightarrow> int \<Rightarrow> string \<Rightarrow> redis_store \<Rightarrow> bool res \<times> redis_store" where
  "set_nx_px now key owner_token ttl_ms client_id s =
     (let s1 = log_command client_id ''SET NX PX'' s
      in if ttl_ms \<le> 0 then (Inl (ValueError ''ttl_ms must be positive''), s1)
         else let s2 = purge_if_expired now key s1
              in if rs_records s2 key \<noteq> None then (Inr False, s2)
                 else (Inr True, s2\<lparr>rs_records := (rs_records s2)(key \<mapsto>
                        \<lparr>lh_key = key, lh_owner_token = owner_token,
                         lh_expires_at_ms = now + ttl_ms\<rparr>)\<rparr>))"

definition redis_get :: "int \<Rightarrow> string \<Rightarrow> string \<Rightarrow> redis_store \<Rightarrow> string option \<times> redis_store" where
  "redis_get now key client_id s =
     (let s1 = purge_if_expired now key (log_command client_id ''GET'' s)
      in (map_option lh_owner_token (rs_records s1 key), s1))"

definition redis_delete :: "int \<Rightarrow> string \<Rightarrow> string \<Rightarrow> redis_store \<Rightarrow> bool \<times> redis_store" where
  "redis_delete now key client_id s =
     (let s1 = purge_if_expired now key (log_command client_id ''DEL'' s)
      in (rs_records s1 key \<noteq> None, s1\<lparr>rs_records := (rs_records s1)(key := None)\<rparr>))"

definition counter_value :: "redis_store \<Rightarrow> string \<Rightarrow> int" where
  "counter_value s key = (case rs_counters s key of None \<Rightarrow> 0 | Some v \<Rightarrow> v)"

definition counter_get :: "string \<Rightarrow> string \<Rightarrow> redis_store \<Rightarrow> int \<times> redis_store" where
  "counter_get key client_id s =
     (let s1 = log_command client_id ''GET'' s in (counter_value s1 key, s1))"

definition counter_set :: "string \<Rightarrow> int \<Rightarrow> string \<Rightarrow> redis_store \<Rightarrow> redis_store" where
  "counter_set key value client_id s =
     (let s1 = log_command client_id ''SET'' s
      in s1\<lparr>rs_counters := (rs_counters s1)(key \<mapsto> value)\<rparr>)"

definition counter_incr :: "string \<Rightarrow> string \<Rightarrow> redis_store \<Rightarrow> int \<times> redis_store" where
  "counter_incr key client_id s =
     (let s1 = log_command client_id ''INCR'' s; value = counter_value s1 key + 1
      in (value, s1\<lparr>rs_counters := (rs_counters s1)(key \<mapsto> value)\<rparr>))"

definition script_load ::
    "(string \<Rightarrow> string) \<Rightarrow> string \<Rightarrow> string \<Rightarrow> redis_store \<Rightarrow> string \<times> redis_store" where
  "script_load sha1 source client_id s =
     (let s1 = log_command client_id ''SCRIPT LOAD'' s; digest = sha1 source
      in (digest, s1\<lparr>rs_scripts := (rs_scripts s1)(digest \<mapsto> source)\<rparr>))"

definition script_flush :: "string \<Rightarrow> redis_store \<Rightarrow> redis_store" where
  "script_flush client_id s = (log_command client_id ''SCRIPT FLUSH'' s)\<lparr>rs_scripts := Map.empty\<rparr>"

definition evalsha_compare_and_delete ::
    "int \<Rightarrow> string \<Rightarrow> string \<Rightarrow> string \<Rightarrow> string \<Rightarrow> redis_store \<Rightarrow> bool res \<times> redis_store" where
  "evalsha_compare_and_delete now digest key owner_token client_id s =
     (case rs_scripts s digest of
        None \<Rightarrow> (Inl (NoScriptError (''script '' @ digest @ '' is not loaded'')),
                  log_command client_id ''EVALSHA NOSCRIPT'' s)
      | Some source \<Rightarrow>
          if source \<noteq> RELEASE_SCRIPT
          then (Inl (ValueError ''the teaching model only executes the release script''), s)
          else let s1 = purge_if_expired now key (log_command client_id ''EVALSHA GET-COMPARE-DEL'' s)
               in case rs_records s1 key of
                    None \<Rightarrow> (Inr False, s1)
                  | Some r \<Rightarrow>
                      if lh_owner_token r \<noteq> owner_token then (Inr False, s1)
                      else (Inr True, s1\<lparr>rs_records := (rs_records s1)(key := None)\<rparr>))"

section \<open>The lock service\<close>

record lock_service =
  ls_store :: redis_store
  ls_release_script_sha :: string

definition new_lock_service :: "(string \<Rightarrow> string) \<Rightarrow> redis_store \<Rightarrow> lock_service" where
  "new_lock_service sha1 s =
     (let (sha, s1) = script_load sha1 RELEASE_SCRIPT ''lock-service'' s
      in \<lparr>ls_store = s1, ls_release_script_sha = sha\<rparr>)"

definition lock_acquire ::
    "int \<Rightarrow> string \<Rightarrow> string \<Rightarrow> int \<Rightarrow> lock_service \<Rightarrow> lock_handle option res \<times> lock_service" where
  "lock_acquire now key owner_token ttl_ms l =
     (case set_nx_px now key owner_token ttl_ms owner_token (ls_store l) of
        (Inl e, s) \<Rightarrow> (Inl e, l\<lparr>ls_store := s\<rparr>)
      | (Inr False, s) \<Rightarrow> (Inr None, l\<lparr>ls_store := s\<rparr>)
      | (Inr True, s) \<Rightarrow>
          (Inr (Some \<lparr>lh_key = key, lh_owner_token = owner_token, lh_expires_at_ms = now + ttl_ms\<rparr>),
           l\<lparr>ls_store := s\<rparr>))"

definition release_naive :: "int \<Rightarrow> lock_handle \<Rightarrow> lock_service \<Rightarrow> bool \<times> lock_service" where
  "release_naive now h l =
     (let (deleted, s) = redis_delete now (lh_key h) (lh_owner_token h) (ls_store l)
      in (deleted, l\<lparr>ls_store := s\<rparr>))"

text \<open>The release script is loaded again, and tried again, only when the server has lost it.\<close>

definition release_compare_and_delete ::
    "(string \<Rightarrow> string) \<Rightarrow> int \<Rightarrow> lock_handle \<Rightarrow> lock_service \<Rightarrow> bool res \<times> lock_service" where
  "release_compare_and_delete sha1 now h l =
     (case evalsha_compare_and_delete now (ls_release_script_sha l) (lh_key h) (lh_owner_token h)
             (lh_owner_token h) (ls_store l) of
        (Inl (NoScriptError _), s) \<Rightarrow>
          (let (sha, s1) = script_load sha1 RELEASE_SCRIPT (lh_owner_token h) s;
               (r, s2) = evalsha_compare_and_delete now sha (lh_key h) (lh_owner_token h)
                           (lh_owner_token h) s1
           in (r, \<lparr>ls_store = s2, ls_release_script_sha = sha\<rparr>))
      | (r, s) \<Rightarrow> (r, l\<lparr>ls_store := s\<rparr>))"

section \<open>Resources\<close>

type_synonym unfenced_store = "string \<rightharpoonup> stored_value"

definition unfenced_write :: "relay_write \<Rightarrow> unfenced_store \<Rightarrow> unfenced_store" where
  "unfenced_write w s =
     s(rw_resource_id w \<mapsto> \<lparr>sv_writer_id = rw_writer_id w, sv_payload = rw_payload w\<rparr>)"

definition unfenced_read :: "unfenced_store \<Rightarrow> string \<Rightarrow> stored_value option" where
  "unfenced_read s r = s r"

record fenced_store =
  fs_values :: "string \<rightharpoonup> fenced_stored_value"
  fs_highest_fence :: "string \<rightharpoonup> int"

definition new_fenced_store :: fenced_store where
  "new_fenced_store = \<lparr>fs_values = Map.empty, fs_highest_fence = Map.empty\<rparr>"

definition highest_seen :: "fenced_store \<Rightarrow> string \<Rightarrow> int" where
  "highest_seen s r = (case fs_highest_fence s r of None \<Rightarrow> 0 | Some f \<Rightarrow> f)"

definition fenced_write :: "fenced_relay_write \<Rightarrow> fenced_store \<Rightarrow> unit res \<times> fenced_store" where
  "fenced_write w s =
     (if fw_fence w < highest_seen s (fw_resource_id w)
      then (Inl (StaleFenceError (''fence '' @ show_int (fw_fence w) @ '' is stale for '' @
              fw_resource_id w @ ''; '' @ show_int (highest_seen s (fw_resource_id w)) @
              '' already seen'')), s)
      else (Inr (), s\<lparr>fs_highest_fence := (fs_highest_fence s)(fw_resource_id w \<mapsto> fw_fence w),
              fs_values := (fs_values s)(fw_resource_id w \<mapsto>
                \<lparr>fv_writer_id = fw_writer_id w, fv_payload = fw_payload w, fv_fence = fw_fence w\<rparr>)\<rparr>))"

definition fenced_read :: "fenced_store \<Rightarrow> string \<Rightarrow> fenced_stored_value option" where
  "fenced_read s r = fs_values s r"

section \<open>The lease manager\<close>

record lease_manager =
  lm_leases :: "string \<rightharpoonup> fenced_lease"
  lm_fence_counters :: "string \<rightharpoonup> int"

definition new_lease_manager :: lease_manager where
  "new_lease_manager = \<lparr>lm_leases = Map.empty, lm_fence_counters = Map.empty\<rparr>"

definition purge_lease :: "int \<Rightarrow> string \<Rightarrow> lease_manager \<Rightarrow> lease_manager" where
  "purge_lease now key m =
     (case lm_leases m key of
        None \<Rightarrow> m
      | Some l \<Rightarrow> if fl_expires_at_ms l \<le> now then m\<lparr>lm_leases := (lm_leases m)(key := None)\<rparr> else m)"

definition fence_counter :: "lease_manager \<Rightarrow> string \<Rightarrow> int" where
  "fence_counter m key = (case lm_fence_counters m key of None \<Rightarrow> 0 | Some f \<Rightarrow> f)"

definition lease_acquire ::
    "int \<Rightarrow> string \<Rightarrow> string \<Rightarrow> int \<Rightarrow> lease_manager \<Rightarrow> fenced_lease option res \<times> lease_manager" where
  "lease_acquire now key owner_id ttl_ms m =
     (if ttl_ms \<le> 0 then (Inl (ValueError ''ttl_ms must be positive''), m)
      else let m1 = purge_lease now key m
           in if lm_leases m1 key \<noteq> None then (Inr None, m1)
              else let next_fence = fence_counter m1 key + 1;
                       lease = \<lparr>fl_key = key, fl_owner_id = owner_id, fl_fence = next_fence,
                                fl_expires_at_ms = now + ttl_ms\<rparr>
                   in (Inr (Some lease),
                       m1\<lparr>lm_fence_counters := (lm_fence_counters m1)(key \<mapsto> next_fence),
                          lm_leases := (lm_leases m1)(key \<mapsto> lease)\<rparr>))"

definition lease_release :: "int \<Rightarrow> fenced_lease \<Rightarrow> lease_manager \<Rightarrow> bool \<times> lease_manager" where
  "lease_release now lease m =
     (let m1 = purge_lease now (fl_key lease) m
      in if lm_leases m1 (fl_key lease) \<noteq> Some lease then (False, m1)
         else (True, m1\<lparr>lm_leases := (lm_leases m1)(fl_key lease := None)\<rparr>))"

section \<open>The schedule ledger\<close>

record schedule_ledger =
  sl_highest_fence :: int
  sl_intervals :: "int \<rightharpoonup> scheduled_interval"

definition new_schedule_ledger :: schedule_ledger where
  "new_schedule_ledger = \<lparr>sl_highest_fence = 0, sl_intervals = Map.empty\<rparr>"

definition ledger_record :: "int \<Rightarrow> string \<Rightarrow> int \<Rightarrow> schedule_ledger \<Rightarrow> bool res \<times> schedule_ledger" where
  "ledger_record interval_start_ms scheduler_id fence l =
     (if fence < sl_highest_fence l
      then (Inl (StaleFenceError (''fence '' @ show_int fence @ '' is stale for scheduler interval '' @
              show_int interval_start_ms)), l)
      else let l1 = l\<lparr>sl_highest_fence := max (sl_highest_fence l) fence\<rparr>
           in if sl_intervals l1 interval_start_ms \<noteq> None then (Inr False, l1)
              else (Inr True, l1\<lparr>sl_intervals := (sl_intervals l1)(interval_start_ms \<mapsto>
                     \<lparr>si_interval_start_ms = interval_start_ms, si_scheduler_id = scheduler_id,
                      si_fence = fence\<rparr>)\<rparr>))"

definition decision :: "schedule_ledger \<Rightarrow> int \<Rightarrow> scheduled_interval option" where
  "decision l i = sl_intervals l i"

section \<open>Schedulers and the simulation\<close>

text \<open>
  All schedulers of a simulation share its lease manager, its ledger and its lease time, so a
  scheduler is its identifier and those live in the simulation's state.
\<close>

record scheduler_simulation =
  ss_now_ms :: int
  ss_interval_ms :: int
  ss_lease_ttl_ms :: int
  ss_lease_manager :: lease_manager
  ss_ledger :: schedule_ledger
  ss_schedulers :: "string set"

definition new_simulation :: "string list \<Rightarrow> int \<Rightarrow> int \<Rightarrow> int \<Rightarrow> scheduler_simulation res" where
  "new_simulation scheduler_ids now_ms interval_ms lease_ttl_ms =
     (if interval_ms \<le> 0 then Inl (ValueError ''interval_ms must be positive'')
      else Inr \<lparr>ss_now_ms = now_ms, ss_interval_ms = interval_ms, ss_lease_ttl_ms = lease_ttl_ms,
             ss_lease_manager = new_lease_manager, ss_ledger = new_schedule_ledger,
             ss_schedulers = set scheduler_ids\<rparr>)"

definition try_schedule ::
    "string \<Rightarrow> int \<Rightarrow> scheduler_simulation \<Rightarrow> scheduler_attempt res \<times> scheduler_simulation" where
  "try_schedule scheduler_id interval_start_ms s =
     (case lease_acquire (ss_now_ms s) ''relay-scheduler'' scheduler_id (ss_lease_ttl_ms s)
             (ss_lease_manager s) of
        (Inl e, m) \<Rightarrow> (Inl e, s\<lparr>ss_lease_manager := m\<rparr>)
      | (Inr None, m) \<Rightarrow>
          (Inr \<lparr>sa_scheduler_id = scheduler_id, sa_interval_start_ms = interval_start_ms,
             sa_acquired_lease = False, sa_scheduled = False, sa_fence = None\<rparr>,
           s\<lparr>ss_lease_manager := m\<rparr>)
      | (Inr (Some lease), m) \<Rightarrow>
          (case ledger_record interval_start_ms scheduler_id (fl_fence lease) (ss_ledger s) of
             (Inl e, l) \<Rightarrow> (Inl e, s\<lparr>ss_lease_manager := m, ss_ledger := l\<rparr>)
           | (Inr scheduled, l) \<Rightarrow>
               (Inr \<lparr>sa_scheduler_id = scheduler_id, sa_interval_start_ms = interval_start_ms,
                  sa_acquired_lease = True, sa_scheduled = scheduled, sa_fence = Some (fl_fence lease)\<rparr>,
                s\<lparr>ss_lease_manager := snd (lease_release (ss_now_ms s) lease m), ss_ledger := l\<rparr>)))"

definition current_interval_start :: "scheduler_simulation \<Rightarrow> int" where
  "current_interval_start s = (ss_now_ms s div ss_interval_ms s) * ss_interval_ms s"

definition restart_instance :: "string \<Rightarrow> scheduler_simulation \<Rightarrow> unit res \<times> scheduler_simulation" where
  "restart_instance scheduler_id s =
     (if scheduler_id \<notin> ss_schedulers s
      then (Inl (ValueError (''unknown scheduler '' @ scheduler_id)), s)
      else (Inr (), s\<lparr>ss_schedulers := insert scheduler_id (ss_schedulers s)\<rparr>))"

text \<open>The generator of \<open>run_interval\<close>: an unknown scheduler raises where its turn comes.\<close>

fun run_schedulers ::
    "int \<Rightarrow> string list \<Rightarrow> scheduler_simulation
     \<Rightarrow> scheduler_attempt list res \<times> scheduler_simulation" where
  "run_schedulers interval_start [] s = (Inr [], s)"
| "run_schedulers interval_start (scheduler_id # order) s =
     (if scheduler_id \<notin> ss_schedulers s then (Inl (KeyError scheduler_id), s)
      else case try_schedule scheduler_id interval_start s of
        (Inl e, s1) \<Rightarrow> (Inl e, s1)
      | (Inr attempt, s1) \<Rightarrow>
          (case run_schedulers interval_start order s1 of
             (Inl e, s2) \<Rightarrow> (Inl e, s2)
           | (Inr attempts, s2) \<Rightarrow> (Inr (attempt # attempts), s2)))"

definition run_interval ::
    "string list \<Rightarrow> scheduler_simulation \<Rightarrow> scheduler_attempt list res \<times> scheduler_simulation" where
  "run_interval order s = run_schedulers (current_interval_start s) order s"

definition scheduled_interval_of :: "scheduler_simulation \<Rightarrow> int \<Rightarrow> scheduled_interval option" where
  "scheduled_interval_of s i = decision (ss_ledger s) i"

section \<open>The lock, as its users see it\<close>

text \<open>The unexpired record of a key at a time: what every operation of the store acts on.\<close>

definition live :: "int \<Rightarrow> redis_store \<Rightarrow> string \<Rightarrow> lock_handle option" where
  "live now s key =
     (case rs_records s key of
        None \<Rightarrow> None
      | Some r \<Rightarrow> if lh_expires_at_ms r \<le> now then None else Some r)"

definition service_ok :: "(string \<Rightarrow> string) \<Rightarrow> lock_service \<Rightarrow> bool" where
  "service_ok sha1 l \<longleftrightarrow> ls_release_script_sha l = sha1 RELEASE_SCRIPT \<and>
     rs_scripts (ls_store l) (sha1 RELEASE_SCRIPT) \<in> {None, Some RELEASE_SCRIPT}"

lemma log_command_frame [simp]:
  "rs_records (log_command i c s) = rs_records s" "rs_scripts (log_command i c s) = rs_scripts s"
  "rs_counters (log_command i c s) = rs_counters s"
  by (simp_all add: log_command_def)

lemma purge_frame [simp]:
  "rs_scripts (purge_if_expired now k s) = rs_scripts s"
  "rs_records (purge_if_expired now k s) k = live now s k"
  "live now (purge_if_expired now k s) = live now s"
  by (auto simp: purge_if_expired_def live_def fun_eq_iff split: option.splits)

lemma live_log [simp]: "live now (log_command i c s) = live now s"
  by (simp add: live_def fun_eq_iff)

lemma live_update:
  "live now (s\<lparr>rs_records := (rs_records s)(k := r)\<rparr>) =
     (live now s)(k := (case r of None \<Rightarrow> None
        | Some h \<Rightarrow> if lh_expires_at_ms h \<le> now then None else Some h))"
  by (auto simp: live_def fun_eq_iff split: option.splits)

lemma live_scripts [simp]: "live now (s\<lparr>rs_scripts := x\<rparr>) = live now s"
  by (simp add: live_def fun_eq_iff)

lemma live_later: "now \<le> later \<Longrightarrow> live now s k = None \<Longrightarrow> live later s k = None"
  by (auto simp: live_def split: option.splits if_splits)

lemma live_until:
  "live now s k = Some h \<Longrightarrow> later < lh_expires_at_ms h \<Longrightarrow> live later s k = Some h"
  by (auto simp: live_def split: option.splits if_splits)

lemma live_after: "live now s k = Some h \<Longrightarrow> lh_expires_at_ms h \<le> later \<Longrightarrow> live later s k = None"
  by (auto simp: live_def split: option.splits if_splits)

lemma lock_acquire_spec:
  assumes "0 < ttl"
  shows "\<exists>l'. lock_acquire now k tok ttl l =
      (Inr (if live now (ls_store l) k = None
            then Some \<lparr>lh_key = k, lh_owner_token = tok, lh_expires_at_ms = now + ttl\<rparr> else None), l') \<and>
    live now (ls_store l') = (if live now (ls_store l) k = None
       then (live now (ls_store l))(k \<mapsto> \<lparr>lh_key = k, lh_owner_token = tok, lh_expires_at_ms = now + ttl\<rparr>)
       else live now (ls_store l)) \<and>
    (service_ok sha1 l \<longrightarrow> service_ok sha1 l')"
  using assms
  by (auto simp: lock_acquire_def set_nx_px_def Let_def live_update service_ok_def)

lemma release_compare_spec:
  assumes "service_ok sha1 l"
  shows "\<exists>l'. release_compare_and_delete sha1 now h l =
      (Inr (\<exists>r. live now (ls_store l) (lh_key h) = Some r \<and> lh_owner_token r = lh_owner_token h), l') \<and>
    live now (ls_store l') =
      (if \<exists>r. live now (ls_store l) (lh_key h) = Some r \<and> lh_owner_token r = lh_owner_token h
       then (live now (ls_store l))(lh_key h := None) else live now (ls_store l)) \<and>
    service_ok sha1 l'"
proof -
  have run: "\<exists>s'. evalsha_compare_and_delete now d (lh_key h) (lh_owner_token h) i s =
      (Inr (\<exists>r. live now s (lh_key h) = Some r \<and> lh_owner_token r = lh_owner_token h), s') \<and>
    live now s' = (if \<exists>r. live now s (lh_key h) = Some r \<and> lh_owner_token r = lh_owner_token h
       then (live now s)(lh_key h := None) else live now s) \<and> rs_scripts s' = rs_scripts s"
    if "rs_scripts s d = Some RELEASE_SCRIPT" for s d i
    using that
    by (auto simp: evalsha_compare_and_delete_def Let_def live_update split: option.splits)
  let ?d = "ls_release_script_sha l"
  show ?thesis
  proof (cases "rs_scripts (ls_store l) ?d")
    case None
    let ?s = "snd (script_load sha1 RELEASE_SCRIPT (lh_owner_token h)
      (log_command (lh_owner_token h) ''EVALSHA NOSCRIPT'' (ls_store l)))"
    have "live now ?s = live now (ls_store l)" by (simp add: script_load_def Let_def)
    with run [of ?s "sha1 RELEASE_SCRIPT" "lh_owner_token h"] None show ?thesis
      by (auto simp: release_compare_and_delete_def evalsha_compare_and_delete_def [of _ ?d]
          script_load_def Let_def service_ok_def)
  next
    case (Some x)
    with assms have "x = RELEASE_SCRIPT" by (auto simp: service_ok_def)
    with run [of "ls_store l" ?d "lh_owner_token h"] Some assms show ?thesis
      by (auto simp: release_compare_and_delete_def service_ok_def)
  qed
qed

lemma release_naive_spec:
  "fst (release_naive now h l) \<longleftrightarrow> live now (ls_store l) (lh_key h) \<noteq> None"
  "live now (ls_store (snd (release_naive now h l))) = (live now (ls_store l))(lh_key h := None)"
  by (simp_all add: release_naive_def redis_delete_def Let_def live_update)

lemma new_lock_service_ok [keep]: "service_ok sha1 (new_lock_service sha1 s)"
  by (simp add: service_ok_def new_lock_service_def script_load_def Let_def)

lemma script_flush_ok [keep]:
  "service_ok sha1 l \<Longrightarrow> service_ok sha1 (l\<lparr>ls_store := script_flush i (ls_store l)\<rparr>)"
  by (simp add: service_ok_def script_flush_def)

section \<open>Fenced resources\<close>

text \<open>
  What the relay store and the schedule ledger promise: a write below the highest fence of its key
  is refused and changes nothing, any other is taken and raises the highest fence to its own.
\<close>

locale fenced_resource =
  fixes attempt_write :: "'w \<Rightarrow> 's \<Rightarrow> 'r res \<times> 's"
    and fence_of :: "'w \<Rightarrow> int"
    and key_of :: "'w \<Rightarrow> 'k"
    and highest :: "'s \<Rightarrow> 'k \<Rightarrow> int"
  assumes stale: "fence_of w < highest s (key_of w) \<Longrightarrow>
      \<exists>m. attempt_write w s = (Inl (StaleFenceError m), s)"
    and fresh: "highest s (key_of w) \<le> fence_of w \<Longrightarrow> \<exists>r. fst (attempt_write w s) = Inr r"
    and raised: "highest s (key_of w) \<le> fence_of w \<Longrightarrow>
      highest (snd (attempt_write w s)) = (highest s)(key_of w := fence_of w)"
begin

definition writes :: "'w list \<Rightarrow> 's \<Rightarrow> 's" where
  "writes ws s = fold (\<lambda>w s. snd (attempt_write w s)) ws s"

lemma highest_mono: "highest s k \<le> highest (snd (attempt_write w s)) k"
  using stale [of w s] raised [of s w] by (cases "fence_of w < highest s (key_of w)") auto

lemma highest_writes: "highest s k \<le> highest (writes ws s) k"
  unfolding writes_def
  by (induction ws arbitrary: s) (auto intro: order_trans [OF highest_mono])

lemma stale_for_ever:
  assumes "fst (attempt_write w s) = Inr r" "fence_of v < fence_of w" "key_of v = key_of w"
  shows "\<exists>m. attempt_write v (writes ws (snd (attempt_write w s))) =
    (Inl (StaleFenceError m), writes ws (snd (attempt_write w s)))"
proof (rule stale)
  have "highest s (key_of w) \<le> fence_of w" using stale [of w s] assms(1) by fastforce
  from raised [OF this] have "highest (snd (attempt_write w s)) (key_of v) = fence_of w"
    using assms(3) by simp
  with highest_writes [of "snd (attempt_write w s)" "key_of v" ws] assms(2)
  show "fence_of v < highest (writes ws (snd (attempt_write w s))) (key_of v)" by simp
qed

end

interpretation relay_store: fenced_resource fenced_write fw_fence fw_resource_id highest_seen
  by unfold_locales (auto simp: fenced_write_def highest_seen_def fun_eq_iff)

interpretation ledger: fenced_resource "\<lambda>(i, who, fence). ledger_record i who fence"
    "\<lambda>(i, who, fence). fence" "\<lambda>_. ()" "\<lambda>l _. sl_highest_fence l"
  by unfold_locales (auto simp: ledger_record_def Let_def fun_eq_iff)

section \<open>The lease manager over time\<close>

datatype lease_event =
    Acquire string string int
  | Release fenced_lease
  | Tick int

text \<open>The leases granted by a sequence of calls; a call that raises or is refused grants nothing.\<close>

fun grants :: "lease_event list \<Rightarrow> int \<Rightarrow> lease_manager \<Rightarrow> fenced_lease list" where
  "grants [] now m = []"
| "grants (Acquire k owner ttl # es) now m =
     (let (r, m1) = lease_acquire now k owner ttl m
      in (case r of Inr (Some l) \<Rightarrow> [l] | _ \<Rightarrow> []) @ grants es now m1)"
| "grants (Release l # es) now m = grants es now (snd (lease_release now l m))"
| "grants (Tick d # es) now m =
     (case clock_advance now d of Inl _ \<Rightarrow> grants es now m | Inr t \<Rightarrow> grants es t m)"

definition elapsed :: "lease_event list \<Rightarrow> int" where
  "elapsed es = (\<Sum>e \<leftarrow> es. case e of Tick d \<Rightarrow> max 0 d | _ \<Rightarrow> 0)"

lemma elapsed_simps [simp]:
  "elapsed [] = 0" "elapsed (Acquire k ow t # es) = elapsed es" "elapsed (Release l # es) = elapsed es"
  "elapsed (Tick d # es) = max 0 d + elapsed es"
  by (simp_all add: elapsed_def)

lemma elapsed_nonneg [simp]: "0 \<le> elapsed es"
  by (induction es) (auto simp: elapsed_def split: lease_event.split)

lemma purge_lease_frame [simp]:
  "fence_counter (purge_lease now k m) = fence_counter m"
  "k' \<noteq> k \<Longrightarrow> lm_leases (purge_lease now k m) k' = lm_leases m k'"
  by (auto simp: purge_lease_def fence_counter_def fun_eq_iff split: option.splits)

lemma lease_release_frame [simp]:
  "fence_counter (snd (lease_release now l m)) = fence_counter m"
proof -
  have "fence_counter (m\<lparr>lm_leases := x\<rparr>) = fence_counter m" for m x
    by (simp add: fence_counter_def fun_eq_iff)
  then show ?thesis by (simp add: lease_release_def Let_def)
qed

lemma lease_acquire_cases:
  obtains (refused) r where "lease_acquire now k owner ttl m = (r, purge_lease now k m) \<or>
      lease_acquire now k owner ttl m = (r, m)" "\<forall>l. r \<noteq> Inr (Some l)"
  | (granted) l m1 where "lease_acquire now k owner ttl m = (Inr (Some l), m1)"
      "fl_key l = k" "fl_fence l = fence_counter m k + 1" "fl_expires_at_ms l = now + ttl" "0 < ttl"
      "lm_leases m1 = (lm_leases (purge_lease now k m))(k \<mapsto> l)"
      "lm_leases (purge_lease now k m) k = None"
      "fence_counter m1 = (fence_counter m)(k := fence_counter m k + 1)"
proof (cases "0 < ttl \<and> lm_leases (purge_lease now k m) k = None")
  case True
  let ?l = "\<lparr>fl_key = k, fl_owner_id = owner, fl_fence = fence_counter m k + 1,
    fl_expires_at_ms = now + ttl\<rparr>"
  let ?m1 = "(purge_lease now k m)\<lparr>lm_fence_counters :=
      (lm_fence_counters (purge_lease now k m))(k \<mapsto> fence_counter m k + 1),
    lm_leases := (lm_leases (purge_lease now k m))(k \<mapsto> ?l)\<rparr>"
  have "fence_counter ?m1 = (fence_counter (purge_lease now k m))(k := fence_counter m k + 1)"
    by (auto simp: fence_counter_def fun_eq_iff simp del: purge_lease_frame)
  with True show thesis
    by (intro granted [of ?l ?m1]) (auto simp: lease_acquire_def Let_def)
next
  case False
  then show thesis
    by (intro refused [of "fst (lease_acquire now k owner ttl m)"])
      (auto simp: lease_acquire_def Let_def split: if_splits)
qed

lemma grants_fences:
  "sorted_wrt (<) (map fl_fence (filter (\<lambda>l. fl_key l = k) (grants es now m))) \<and>
   (\<forall>l \<in> set (grants es now m). fence_counter m (fl_key l) < fl_fence l)"
proof (induction es now m rule: grants.induct)
  case (1 now m)
  then show ?case by simp
next
  case (2 k' owner ttl es now m)
  show ?case
  proof (cases rule: lease_acquire_cases [of now k' owner ttl m])
    case (refused r)
    obtain m1 where m1: "lease_acquire now k' owner ttl m = (r, m1)" "fence_counter m1 = fence_counter m"
      using refused(1) by fastforce
    have "grants (Acquire k' owner ttl # es) now m = grants es now m1"
      using refused(2) m1 by (auto split: sum.split option.split)
    with "2.IH" [OF m1(1) [symmetric] refl] m1(2) show ?thesis by simp
  next
    case (granted l m1)
    from "2.IH" [OF granted(1) [symmetric] refl] granted show ?thesis
      by (fastforce split: if_splits)
  qed
next
  case (3 l es now m)
  then show ?case by simp
next
  case (4 d es now m)
  then show ?case by (simp split: sum.split)
qed

lemma grants_exclusive:
  assumes "lm_leases m (fl_key l) = Some l" "now + elapsed es < fl_expires_at_ms l" "Release l \<notin> set es"
  shows "\<forall>g \<in> set (grants es now m). fl_key g \<noteq> fl_key l"
  using assms
proof (induction es now m rule: grants.induct)
  case (1 now m)
  then show ?case by simp
next
  case (2 k owner ttl es now m)
  have alive: "now < fl_expires_at_ms l"
    using "2.prems"(2) elapsed_nonneg [of es] unfolding elapsed_simps by linarith
  then have held: "lm_leases (purge_lease now k m) (fl_key l) = Some l"
    using "2.prems"(1) by (cases "k = fl_key l") (auto simp: purge_lease_def split: option.split)
  show ?case
  proof (cases rule: lease_acquire_cases [of now k owner ttl m])
    case (refused r)
    obtain m1 where m1: "lease_acquire now k owner ttl m = (r, m1)" "lm_leases m1 (fl_key l) = Some l"
      using refused(1) held "2.prems"(1) by fastforce
    have "grants (Acquire k owner ttl # es) now m = grants es now m1"
      using refused(2) m1 by (auto split: sum.split option.split)
    with "2.IH" [OF m1(1) [symmetric] refl m1(2)] "2.prems"(2,3) show ?thesis by simp
  next
    case (granted l' m1)
    from granted(7) held have "k \<noteq> fl_key l" by auto
    with granted held "2.IH" [OF granted(1) [symmetric] refl] "2.prems"(2,3) show ?thesis by auto
  qed
next
  case (3 l' es now m)
  have alive: "now < fl_expires_at_ms l"
    using "3.prems"(2) elapsed_nonneg [of es] unfolding elapsed_simps by linarith
  with "3.prems" have "lm_leases (snd (lease_release now l' m)) (fl_key l) = Some l"
    by (auto simp: lease_release_def purge_lease_def Let_def split: option.splits)
  with "3.IH" "3.prems" show ?case by simp
next
  case (4 d es now m)
  then show ?case by (auto simp: clock_advance_def split: sum.split)
qed

section \<open>The simulation\<close>

datatype sim_event =
    RunInterval "string list"
  | RestartInstance string
  | AdvanceClock int

fun sim_step :: "sim_event \<Rightarrow> scheduler_simulation \<Rightarrow> scheduler_simulation" where
  "sim_step (RunInterval order) s = snd (run_interval order s)"
| "sim_step (RestartInstance i) s = snd (restart_instance i s)"
| "sim_step (AdvanceClock d) s =
     (case clock_advance (ss_now_ms s) d of Inl _ \<Rightarrow> s | Inr t \<Rightarrow> s\<lparr>ss_now_ms := t\<rparr>)"

text \<open>Between calls the scheduler lease is free and no fence beyond the counter has been recorded.\<close>

definition sim_ok :: "scheduler_simulation \<Rightarrow> bool" where
  "sim_ok s \<longleftrightarrow> 0 < ss_lease_ttl_ms s \<and>
     lm_leases (ss_lease_manager s) ''relay-scheduler'' = None \<and>
     sl_highest_fence (ss_ledger s) \<le> fence_counter (ss_lease_manager s) ''relay-scheduler''"

definition new_decision :: "string \<Rightarrow> int \<Rightarrow> scheduler_simulation \<Rightarrow> scheduled_interval" where
  "new_decision who i s = \<lparr>si_interval_start_ms = i, si_scheduler_id = who,
     si_fence = fence_counter (ss_lease_manager s) ''relay-scheduler'' + 1\<rparr>"

lemma purge_lease_free: "lm_leases m k = None \<Longrightarrow> purge_lease now k m = m"
  by (simp add: purge_lease_def)

lemma try_schedule_spec:
  assumes "sim_ok s"
  shows "\<exists>s'. try_schedule who i s =
      (Inr \<lparr>sa_scheduler_id = who, sa_interval_start_ms = i, sa_acquired_lease = True,
         sa_scheduled = (scheduled_interval_of s i = None),
         sa_fence = Some (fence_counter (ss_lease_manager s) ''relay-scheduler'' + 1)\<rparr>, s') \<and>
    sim_ok s' \<and> ss_schedulers s' = ss_schedulers s \<and> ss_now_ms s' = ss_now_ms s \<and>
    ss_interval_ms s' = ss_interval_ms s \<and>
    scheduled_interval_of s' = (if scheduled_interval_of s i = None
      then (scheduled_interval_of s)(i \<mapsto> new_decision who i s) else scheduled_interval_of s)"
proof -
  let ?k = "''relay-scheduler''" and ?now = "ss_now_ms s" and ?m = "ss_lease_manager s"
  let ?f = "fence_counter ?m ?k + 1"
  from assms have pos: "0 < ss_lease_ttl_ms s" and free: "lm_leases ?m ?k = None"
    and top: "sl_highest_fence (ss_ledger s) \<le> fence_counter ?m ?k" by (auto simp: sim_ok_def)
  let ?l = "\<lparr>fl_key = ?k, fl_owner_id = who, fl_fence = ?f, fl_expires_at_ms = ?now + ss_lease_ttl_ms s\<rparr>"
  let ?m1 = "?m\<lparr>lm_fence_counters := (lm_fence_counters ?m)(?k \<mapsto> ?f), lm_leases := (lm_leases ?m)(?k \<mapsto> ?l)\<rparr>"
  have acq: "lease_acquire ?now ?k who (ss_lease_ttl_ms s) ?m = (Inr (Some ?l), ?m1)"
    using pos free by (simp add: lease_acquire_def purge_lease_free Let_def)
  have rel: "lease_release ?now ?l ?m1 = (True, ?m1\<lparr>lm_leases := (lm_leases ?m1)(?k := None)\<rparr>)"
    using pos by (simp add: lease_release_def purge_lease_def Let_def)
  have fc: "fence_counter (?m1\<lparr>lm_leases := x\<rparr>) ?k = ?f" for x
    by (simp add: fence_counter_def)
  show ?thesis
    using top pos fc
    by (auto simp: try_schedule_def acq rel ledger_record_def Let_def scheduled_interval_of_def
        decision_def new_decision_def sim_ok_def fun_eq_iff)
qed

text \<open>The decisions of a run: the first scheduler of the order decides an undecided interval.\<close>

lemma run_schedulers_spec:
  assumes "sim_ok s" "set order \<subseteq> ss_schedulers s"
  shows "\<exists>as s'. run_schedulers i order s = (Inr as, s') \<and> sim_ok s' \<and>
    ss_schedulers s' = ss_schedulers s \<and> map sa_scheduler_id as = order \<and>
    (\<forall>a \<in> set as. sa_acquired_lease a) \<and>
    map sa_scheduled as =
      (case order of [] \<Rightarrow> [] | _ # os \<Rightarrow> (scheduled_interval_of s i = None) # map (\<lambda>_. False) os) \<and>
    scheduled_interval_of s' = (if scheduled_interval_of s i = None \<and> order \<noteq> []
      then (scheduled_interval_of s)(i \<mapsto> new_decision (hd order) i s) else scheduled_interval_of s)"
  using assms
proof (induction order arbitrary: s)
  case Nil
  then show ?case by simp
next
  case (Cons who order)
  from try_schedule_spec [OF Cons.prems(1), of who i] obtain s1 where
    s1: "try_schedule who i s =
      (Inr \<lparr>sa_scheduler_id = who, sa_interval_start_ms = i, sa_acquired_lease = True,
         sa_scheduled = (scheduled_interval_of s i = None),
         sa_fence = Some (fence_counter (ss_lease_manager s) ''relay-scheduler'' + 1)\<rparr>, s1)"
    "sim_ok s1" "ss_schedulers s1 = ss_schedulers s"
    "scheduled_interval_of s1 = (if scheduled_interval_of s i = None
      then (scheduled_interval_of s)(i \<mapsto> new_decision who i s) else scheduled_interval_of s)" by blast
  then have decided: "scheduled_interval_of s1 i \<noteq> None" by (auto split: if_splits)
  from Cons.IH [OF s1(2)] Cons.prems(2) s1(3) obtain as s2 where
    s2: "run_schedulers i order s1 = (Inr as, s2)" "sim_ok s2" "ss_schedulers s2 = ss_schedulers s1"
      "map sa_scheduler_id as = order" "\<forall>a \<in> set as. sa_acquired_lease a"
      "map sa_scheduled as = map (\<lambda>_. False) order"
      "scheduled_interval_of s2 = scheduled_interval_of s1"
    using decided by (auto split: list.splits)
  show ?case
    using s1 s2 Cons.prems(2) by simp
qed

lemma sim_ok_run_interval [keep]:
  assumes "sim_ok s"
  shows "sim_ok (snd (run_interval order s)) \<and>
    (\<forall>i d. scheduled_interval_of s i = Some d \<longrightarrow> scheduled_interval_of (snd (run_interval order s)) i = Some d)"
  unfolding run_interval_def using assms
proof (induction order arbitrary: s)
  case Nil
  then show ?case by simp
next
  case (Cons who order)
  let ?i = "current_interval_start s"
  show ?case
  proof (cases "who \<in> ss_schedulers s")
    case True
    from try_schedule_spec [OF Cons.prems, of who ?i] obtain a s1 where
      s1: "try_schedule who ?i s = (Inr a, s1)" "sim_ok s1" "ss_now_ms s1 = ss_now_ms s"
        "ss_interval_ms s1 = ss_interval_ms s"
        "scheduled_interval_of s1 = (if scheduled_interval_of s ?i = None
          then (scheduled_interval_of s)(?i \<mapsto> new_decision who ?i s) else scheduled_interval_of s)" by blast
    then have "current_interval_start s1 = ?i" by (simp add: current_interval_start_def)
    have mono: "scheduled_interval_of s1 j = Some d" if "scheduled_interval_of s j = Some d" for j d
      using that s1(5) by auto
    have "snd (run_schedulers ?i (who # order) s) = snd (run_schedulers ?i order s1)"
      using s1(1) True by (auto split: prod.split sum.split)
    with Cons.IH [OF s1(2)] \<open>current_interval_start s1 = ?i\<close> mono show ?thesis by simp
  next
    case False
    with Cons.prems show ?thesis by simp
  qed
qed

lemma sim_step_ok [keep]: "sim_ok s \<Longrightarrow> sim_ok (sim_step e s)"
  by (cases e) (auto simp: sim_ok_run_interval restart_instance_def split: sum.split, auto simp: sim_ok_def)

lemma sim_step_decision:
  "sim_ok s \<Longrightarrow> scheduled_interval_of s i = Some d \<Longrightarrow> scheduled_interval_of (sim_step e s) i = Some d"
  using sim_ok_run_interval [of s]
  by (cases e) (auto simp: restart_instance_def scheduled_interval_of_def split: sum.split)

lemma new_simulation_ok [keep]: "new_simulation ids t iv ttl = Inr s \<Longrightarrow> 0 < ttl \<Longrightarrow> sim_ok s"
  by (auto simp: new_simulation_def sim_ok_def new_lease_manager_def new_schedule_ledger_def
      fence_counter_def split: if_splits)

interpretation simulation: machine
  "\<lambda>s. \<exists>ids t iv ttl. new_simulation ids t iv ttl = Inr s \<and> 0 < ttl" sim_step sim_ok
  by unfold_locales (auto intro: keep)

section \<open>Properties\<close>

text \<open>
  The compare-and-delete release never fails for want of its script and refines the
  lock: it returns True exactly when the key's live lock carries the handle's token, in which case it
  frees that key, and otherwise no key's lock changes.
\<close>
theorem release_frees_only_own_lock:
  assumes "service_ok sha1 l"
  shows "\<exists>own l'. release_compare_and_delete sha1 now h l = (Inr own, l') \<and>
    (own \<longleftrightarrow> (\<exists>r. live now (ls_store l) (lh_key h) = Some r \<and> lh_owner_token r = lh_owner_token h)) \<and>
    live now (ls_store l') =
      (if own then (live now (ls_store l))(lh_key h := None) else live now (ls_store l)) \<and>
    service_ok sha1 l'"
  using release_compare_spec [OF assms, of now h] by auto

theorem release_frees_only_own_lock_witness:
  "\<exists>l'. release_compare_and_delete (\<lambda>x. x) 0 \<lparr>lh_key = ''k'', lh_owner_token = ''a'', lh_expires_at_ms = 5\<rparr>
     (new_lock_service (\<lambda>x. x) new_redis_store) = (Inr False, l')"
proof -
  have ok: "service_ok (\<lambda>x. x) (new_lock_service (\<lambda>x. x) new_redis_store)"
    by (rule keep)
  have none: "live 0 (ls_store (new_lock_service (\<lambda>x. x) new_redis_store)) ''k'' = None"
    by (simp add: new_lock_service_def script_load_def new_redis_store_def Let_def live_def)
  from release_frees_only_own_lock [OF ok, of 0
      "\<lparr>lh_key = ''k'', lh_owner_token = ''a'', lh_expires_at_ms = 5\<rparr>"] none
  show ?thesis by auto
qed

text \<open>
  When \<open>a\<close>'s lock has expired and \<open>b\<close> holds a new one on the key, \<open>a\<close>'s late
  compare-and-delete release returns False and leaves \<open>b\<close>'s lock, while its naive release deletes it.
\<close>
theorem late_release_spares_the_new_owner:
  assumes "service_ok sha1 l" "live t0 (ls_store l) k = None" "0 < ttl_a" "0 < ttl_b" "tok_a \<noteq> tok_b"
    and "lock_acquire t0 k tok_a ttl_a l = (Inr (Some a), l1)"
    and "t0 + ttl_a \<le> t1" "lock_acquire t1 k tok_b ttl_b l1 = (Inr b, l2)"
    and "t1 \<le> t2" "t2 < t1 + ttl_b"
  shows "\<exists>hb. b = Some hb \<and> live t2 (ls_store l2) k = Some hb \<and>
    (\<exists>l3. release_compare_and_delete sha1 t2 a l2 = (Inr False, l3) \<and> live t2 (ls_store l3) k = Some hb) \<and>
    fst (release_naive t2 a l2) \<and> live t2 (ls_store (snd (release_naive t2 a l2))) k = None"
proof -
  from lock_acquire_spec [OF assms(3), of t0 k tok_a l sha1] assms(1,2,6) have
    a: "a = \<lparr>lh_key = k, lh_owner_token = tok_a, lh_expires_at_ms = t0 + ttl_a\<rparr>"
    and l1: "live t0 (ls_store l1) k = Some a" "service_ok sha1 l1" by auto
  from live_after [OF l1(1)] a assms(7) have free: "live t1 (ls_store l1) k = None" by simp
  let ?hb = "\<lparr>lh_key = k, lh_owner_token = tok_b, lh_expires_at_ms = t1 + ttl_b\<rparr>"
  from lock_acquire_spec [OF assms(4), of t1 k tok_b l1 sha1] l1(2) free assms(8) have
    b: "b = Some ?hb" and l2: "live t1 (ls_store l2) k = Some ?hb" "service_ok sha1 l2" by auto
  from live_until [OF l2(1)] assms(10) have now: "live t2 (ls_store l2) k = Some ?hb" by simp
  from release_compare_spec [OF l2(2), of t2 a] now a assms(5) have
    "\<exists>l3. release_compare_and_delete sha1 t2 a l2 = (Inr False, l3) \<and> live t2 (ls_store l3) k = Some ?hb"
    by auto
  with b now a show ?thesis by (simp add: release_naive_spec)
qed

theorem late_release_spares_the_new_owner_witness:
  "\<exists>a l1 b l2. lock_acquire 0 ''k'' ''a'' 5 (new_lock_service (\<lambda>x. x) new_redis_store) = (Inr (Some a), l1) \<and>
     lock_acquire 5 ''k'' ''b'' 5 l1 = (Inr b, l2) \<and> fst (release_naive 6 a l2)"
proof -
  let ?l = "new_lock_service (\<lambda>x. x) new_redis_store"
  have ok: "service_ok (\<lambda>x. x) ?l" by (rule keep)
  have none: "live 0 (ls_store ?l) ''k'' = None"
    by (simp add: new_lock_service_def script_load_def new_redis_store_def Let_def live_def)
  obtain a l1 where a: "lock_acquire 0 ''k'' ''a'' 5 ?l = (Inr (Some a), l1)"
    using lock_acquire_spec [of 5 0 "''k''" "''a''" ?l "\<lambda>x. x"] none by auto
  obtain b l2 where b: "lock_acquire 5 ''k'' ''b'' 5 l1 = (Inr b, l2)"
    using lock_acquire_spec [of 5 5 "''k''" "''b''" l1 "\<lambda>x. x"] by auto
  from late_release_spares_the_new_owner [OF ok none _ _ _ a _ b, of 6] a b show ?thesis by auto
qed

text \<open>
  Property C23. Fencing: once the store has accepted a write with some fence for a resource, whatever
  is written afterwards, every write to that resource with a smaller fence raises StaleFenceError
  and changes nothing.
\<close>
theorem fenced_store_rejects_stale_writers:
  assumes "fst (fenced_write w s) = Inr ()"
    and "later = fold (\<lambda>w s. snd (fenced_write w s)) ws (snd (fenced_write w s))"
    and "fw_resource_id v = fw_resource_id w" "fw_fence v < fw_fence w"
  shows "\<exists>m. fenced_write v later = (Inl (StaleFenceError m), later)"
  using relay_store.stale_for_ever [OF assms(1,4,3), of ws] assms(2)
  by (simp add: relay_store.writes_def)

definition demo_write :: "int \<Rightarrow> fenced_relay_write" where
  "demo_write f = \<lparr>fw_resource_id = ''r'', fw_writer_id = ''w'', fw_payload = ''p'', fw_fence = f\<rparr>"

theorem fenced_store_rejects_stale_writers_witness:
  "\<exists>m. fst (fenced_write (demo_write 1) (snd (fenced_write (demo_write 2) new_fenced_store))) =
     Inl (StaleFenceError m)"
proof -
  have ok: "fst (fenced_write (demo_write 2) new_fenced_store) = Inr ()"
    by (simp add: fenced_write_def highest_seen_def new_fenced_store_def demo_write_def)
  have same: "fw_resource_id (demo_write 1) = fw_resource_id (demo_write 2)"
    "fw_fence (demo_write 1) < fw_fence (demo_write 2)" by (simp_all add: demo_write_def)
  from fenced_store_rejects_stale_writers [OF ok refl same, of "[]"] show ?thesis
    by (metis fold_simps(1) fst_conv)
qed

text \<open>
  Property C13. The fences of the leases granted for one key over any sequence of acquisitions,
  releases and clock moves increase strictly, and a granted lease is exclusive: until it has expired
  or has been released no other lease is granted for its key.
\<close>
theorem leases_are_exclusive_with_increasing_fences:
  assumes "lease_acquire now k owner ttl m = (Inr (Some l), m1)"
  shows "sorted_wrt (<) (map fl_fence (l # filter (\<lambda>g. fl_key g = k) (grants es now m1))) \<and>
    (elapsed es < ttl \<and> Release l \<notin> set es \<longrightarrow> (\<forall>g \<in> set (grants es now m1). fl_key g \<noteq> k))"
proof (cases rule: lease_acquire_cases [of now k owner ttl m])
  case (refused r)
  with assms show ?thesis by auto
next
  case (granted l' m2)
  with assms have l: "l' = l" "m2 = m1" by simp_all
  have "sorted_wrt (<) (map fl_fence (l # filter (\<lambda>g. fl_key g = k) (grants es now m1)))"
    using grants_fences [of k es now m1] granted(3,8) unfolding l by (fastforce split: if_splits)
  moreover have "\<forall>g \<in> set (grants es now m1). fl_key g \<noteq> k"
    if "elapsed es < ttl" "Release l \<notin> set es"
    using grants_exclusive [of m1 l now es] that granted(2,4,6) unfolding l by simp
  ultimately show ?thesis by blast
qed

theorem leases_are_exclusive_with_increasing_fences_witness:
  "\<exists>l m1. lease_acquire 0 ''k'' ''a'' 5 new_lease_manager = (Inr (Some l), m1) \<and>
     filter (\<lambda>g. fl_key g = ''k'') (grants [Tick 4, Acquire ''k'' ''b'' 9] 0 m1) = []"
proof -
  obtain l m1 where a: "lease_acquire 0 ''k'' ''a'' 5 new_lease_manager = (Inr (Some l), m1)"
    by (simp add: lease_acquire_def new_lease_manager_def purge_lease_def Let_def)
  from leases_are_exclusive_with_increasing_fences [OF a, of "[Tick 4, Acquire ''k'' ''b'' 9]"]
  have "\<forall>g \<in> set (grants [Tick 4, Acquire ''k'' ''b'' 9] 0 m1). fl_key g \<noteq> ''k''" by simp
  with a show ?thesis by (auto simp: filter_empty_conv)
qed

text \<open>
  Property C26. In every state a simulation with a positive lease time can reach, one interval run
  never raises, every scheduler acquires the lease in turn, exactly the first one schedules, and only
  if the interval had no decision; the decision then made names that scheduler, and no later event
  ever changes a decision.
\<close>
theorem interval_scheduled_exactly_once:
  assumes "new_simulation ids t iv ttl = Inr s0" "0 < ttl" "s = fold sim_step es s0"
    and "set order \<subseteq> ss_schedulers s" "order \<noteq> []" "i = current_interval_start s"
  shows "\<exists>as s'. run_interval order s = (Inr as, s') \<and> map sa_scheduler_id as = order \<and>
    (\<forall>a \<in> set as. sa_acquired_lease a) \<and>
    (\<forall>j < length as. sa_scheduled (as ! j) \<longleftrightarrow> j = 0 \<and> scheduled_interval_of s i = None) \<and>
    (\<exists>d. scheduled_interval_of s' i = Some d \<and>
       (scheduled_interval_of s i = None \<longrightarrow> si_scheduler_id d = hd order) \<and>
       (\<forall>fs. scheduled_interval_of (fold sim_step fs s') i = Some d))"
proof -
  have ok: "sim_ok s"
    unfolding assms(3) using assms(1,2) by (intro simulation.ok_run) blast
  have stay: "scheduled_interval_of (fold sim_step fs s') i = Some d"
    if "sim_ok s'" "scheduled_interval_of s' i = Some d" for fs s' d
    using that by (induction fs arbitrary: s') (auto intro: sim_step_decision keep)
  from run_schedulers_spec [OF ok assms(4), of i] obtain as s' where
    r: "run_schedulers i order s = (Inr as, s')" "sim_ok s'" "map sa_scheduler_id as = order"
      "\<forall>a \<in> set as. sa_acquired_lease a"
      "map sa_scheduled as =
        (case order of [] \<Rightarrow> [] | _ # os \<Rightarrow> (scheduled_interval_of s i = None) # map (\<lambda>_. False) os)"
      "scheduled_interval_of s' = (if scheduled_interval_of s i = None \<and> order \<noteq> []
        then (scheduled_interval_of s)(i \<mapsto> new_decision (hd order) i s) else scheduled_interval_of s)"
    by blast
  have len: "length as = length order" using r(3) by (metis length_map)
  have "sa_scheduled (as ! j) \<longleftrightarrow> j = 0 \<and> scheduled_interval_of s i = None" if "j < length as" for j
    using arg_cong [OF r(5), of "\<lambda>xs. xs ! j"] that len assms(5) by (cases order; cases j) auto
  moreover obtain d where "scheduled_interval_of s' i = Some d"
    "scheduled_interval_of s i = None \<longrightarrow> si_scheduler_id d = hd order"
    using r(6) assms(5) by (cases "scheduled_interval_of s i") (auto simp: new_decision_def)
  ultimately show ?thesis
    using r(1,3,4) stay [OF r(2)] unfolding run_interval_def assms(6)
    by (intro exI [of _ as] exI [of _ s'] conjI exI [of _ d]) simp_all
qed

theorem interval_scheduled_exactly_once_witness:
  "\<exists>s0 as s'. new_simulation [''a'', ''b''] 0 1000 250 = Inr s0 \<and>
     run_interval [''b'', ''a''] s0 = (Inr as, s') \<and> sa_scheduled (as ! 0) \<and>
     (\<exists>d. scheduled_interval_of s' 0 = Some d \<and> si_scheduler_id d = ''b'')"
proof -
  obtain s0 where s0: "new_simulation [''a'', ''b''] 0 1000 250 = Inr s0"
    and sch: "set [''b'', ''a''] \<subseteq> ss_schedulers s0" and i: "0 = current_interval_start s0"
    and none: "scheduled_interval_of s0 0 = None"
    by (simp add: new_simulation_def current_interval_start_def scheduled_interval_of_def decision_def
        new_schedule_ledger_def)
  have "s0 = fold sim_step [] s0" by simp
  from interval_scheduled_exactly_once [OF s0 _ this sch _ i] none obtain as s' where
    "run_interval [''b'', ''a''] s0 = (Inr as, s')" "map sa_scheduler_id as = [''b'', ''a'']"
    "\<forall>j < length as. sa_scheduled (as ! j) \<longleftrightarrow> j = 0"
    "\<exists>d. scheduled_interval_of s' 0 = Some d \<and> si_scheduler_id d = ''b''" by auto
  moreover from this(2) have "length as = 2" by (metis length_map length_Cons list.size(3) numeral_2_eq_2)
  ultimately show ?thesis using s0 by (metis zero_less_numeral)
qed

end
