(* ===== verification/ResourceScheduler.thy ===== *)
theory ResourceScheduler
  imports Prelude "HOL-Library.Product_Lexorder"
begin

text \<open>
  Lab 38, \<open>lab_38_resource_scheduling/scheduler.py\<close>: the leader-gated scheduler that places jobs on the
  CPUs, GPUs and memory of execution nodes and records every change in a replicated log.  The
  dictionaries the scheduler iterates over are association lists in insertion order; the quotas and
  the NUMA sets, which it only looks up, too are read through \<open>map_of\<close>.  A \<open>sorted\<close> call is
  \<open>sort_key\<close>, stable as Python's.
\<close>

section \<open>Data\<close>

datatype job_state = Queued | Scheduled | Running | Succeeded | Failed | Cancelled

record resource_request =
  rq_cpu_cores :: int
  rq_memory_mb :: int
  rq_gpu_count :: int
  rq_gpu_class :: "string option"
  rq_wall_time_seconds :: int
  rq_numa_node :: "int option"
  rq_cpu_affinity :: "int list"
  rq_required_labels :: "string set"

definition request_check :: "resource_request \<Rightarrow> unit res" where
  "request_check r =
     (if rq_cpu_cores r < 1 then Inl (ValueError ''cpu_cores must be positive'')
      else if rq_memory_mb r < 1 then Inl (ValueError ''memory_mb must be positive'')
      else if rq_gpu_count r < 0 then Inl (ValueError ''gpu_count must not be negative'')
      else if rq_gpu_class r \<noteq> None \<and> rq_gpu_count r = 0
      then Inl (ValueError ''gpu_class requires at least one GPU'')
      else if rq_wall_time_seconds r < 1 then Inl (ValueError ''wall_time_seconds must be positive'')
      else if (case rq_numa_node r of None \<Rightarrow> False | Some n \<Rightarrow> n < 0)
      then Inl (ValueError ''numa_node must not be negative'')
      else if \<not> distinct (rq_cpu_affinity r) then Inl (ValueError ''cpu_affinity entries must be unique'')
      else if list_ex (\<lambda>cpu. cpu < 0) (rq_cpu_affinity r)
      then Inl (ValueError ''cpu_affinity entries must not be negative'')
      else if rq_cpu_affinity r \<noteq> [] \<and> int (length (rq_cpu_affinity r)) < rq_cpu_cores r
      then Inl (ValueError ''cpu_affinity must contain at least cpu_cores entries'')
      else Inr ())"

record gpu_device =
  gd_device_id :: string
  gd_device_class :: string
  gd_numa_node :: "int option"

record node_inventory =
  ni_node_id :: string
  ni_cpu_ids :: "int list"
  ni_memory_mb :: int
  ni_gpus :: "gpu_device list"
  ni_numa_cpus :: "(int \<times> int list) list"
  ni_labels :: "string set"
  ni_heartbeat_at :: int

definition inventory_check :: "node_inventory \<Rightarrow> unit res" where
  "inventory_check n =
     (if ni_node_id n = [] then Inl (ValueError ''node_id must not be empty'')
      else if ni_cpu_ids n = [] \<or> \<not> distinct (ni_cpu_ids n)
      then Inl (ValueError ''cpu_ids must be non-empty and unique'')
      else if ni_memory_mb n < 1 then Inl (ValueError ''memory_mb must be positive'')
      else if list_ex (\<lambda>cpus. list_ex (\<lambda>cpu. cpu \<notin> set (ni_cpu_ids n)) cpus) (dict_values (ni_numa_cpus n))
      then Inl (ValueError ''NUMA CPU sets must be subsets of cpu_ids'')
      else if \<not> distinct (map gd_device_id (ni_gpus n)) then Inl (ValueError ''GPU device ids must be unique'')
      else Inr ())"

record project_quota =
  pq_jobs :: int
  pq_cpu_cores :: int
  pq_memory_mb :: int
  pq_gpu_count :: int

definition quota_check :: "project_quota \<Rightarrow> unit res" where
  "quota_check q =
     (if min (pq_jobs q) (min (pq_cpu_cores q) (pq_memory_mb q)) < 1 \<or> pq_gpu_count q < 0
      then Inl (ValueError ''quota values must be positive, except gpu_count may be zero'')
      else Inr ())"

record job =
  jb_job_id :: string
  jb_project :: string
  jb_action :: string
  jb_request :: resource_request
  jb_priority :: int
  jb_submitted_sequence :: int
  jb_max_attempts :: int
  jb_attempts :: int
  jb_state :: job_state
  jb_last_error :: "string option"

record allocation =
  al_allocation_id :: string
  al_job_id :: string
  al_project :: string
  al_node_id :: string
  al_cpu_ids :: "int list"
  al_memory_mb :: int
  al_gpu_ids :: "string list"
  al_numa_node :: "int option"
  al_leader_term :: int
  al_lease_expires_at :: int

record dispatch_plan =
  dp_allocation_id :: string
  dp_job_id :: string
  dp_queue :: string
  dp_cgroup :: string
  dp_cpu_set :: string
  dp_memory_max_bytes :: int
  dp_numa_node :: "int option"
  dp_environment :: "(string \<times> string) list"

record log_entry =
  le_revision :: int
  le_leader_term :: int
  le_event :: string
  le_job_id :: string
  le_node_id :: "string option"

section \<open>The replicated log\<close>

type_synonym state_log = "log_entry list"

definition revision :: "state_log \<Rightarrow> int" where
  "revision l = int (length l)"

definition log_append ::
    "int \<Rightarrow> int \<Rightarrow> string \<Rightarrow> string \<Rightarrow> string option \<Rightarrow> state_log \<Rightarrow> log_entry res \<times> state_log" where
  "log_append expected_revision leader_term event job_id node_id l =
     (if expected_revision \<noteq> revision l
      then (Inl (ConcurrentReservationError ''replicated state revision changed''), l)
      else let entry = \<lparr>le_revision = revision l + 1, le_leader_term = leader_term, le_event = event,
                        le_job_id = job_id, le_node_id = node_id\<rparr>
           in (Inr entry, l @ [entry]))"

section \<open>Requests against inventories\<close>

definition valid_job_id :: "string \<Rightarrow> bool" where
  "valid_job_id job_id \<longleftrightarrow>
     take 5 job_id = ''task-'' \<and> drop 5 job_id \<noteq> [] \<and> list_all is_digit (drop 5 job_id) \<and>
     take 1 (drop 5 job_id) \<noteq> ''0''"

definition eligible_cpus :: "resource_request \<Rightarrow> node_inventory \<Rightarrow> int list" where
  "eligible_cpus r n =
     (let cpus = (if rq_cpu_affinity r \<noteq> [] then rq_cpu_affinity r else ni_cpu_ids n)
      in sort (case rq_numa_node r of
                 None \<Rightarrow> cpus
               | Some k \<Rightarrow> filter (\<lambda>cpu. cpu \<in> set (case map_of (ni_numa_cpus n) k of None \<Rightarrow> [] | Some l \<Rightarrow> l)) cpus))"

definition eligible_gpus :: "resource_request \<Rightarrow> node_inventory \<Rightarrow> gpu_device list" where
  "eligible_gpus r n =
     filter (\<lambda>g. (rq_gpu_class r = None \<or> Some (gd_device_class g) = rq_gpu_class r) \<and>
                 (rq_numa_node r = None \<or> gd_numa_node g = rq_numa_node r)) (ni_gpus n)"

definition statically_fits :: "resource_request \<Rightarrow> node_inventory \<Rightarrow> bool" where
  "statically_fits r n \<longleftrightarrow>
     rq_required_labels r \<subseteq> ni_labels n \<and> rq_memory_mb r \<le> ni_memory_mb n \<and>
     rq_cpu_cores r \<le> int (length (eligible_cpus r n)) \<and>
     rq_gpu_count r \<le> int (length (eligible_gpus r n))"

definition to_dispatch_plan :: "allocation \<Rightarrow> dispatch_plan" where
  "to_dispatch_plan a =
     \<lparr>dp_allocation_id = al_allocation_id a, dp_job_id = al_job_id a,
      dp_queue = ''sigraft.node.'' @ al_node_id a, dp_cgroup = ''sigraft/'' @ al_job_id a,
      dp_cpu_set = join '','' (map show_int (al_cpu_ids a)),
      dp_memory_max_bytes = al_memory_mb a * 1024 * 1024, dp_numa_node = al_numa_node a,
      dp_environment = (if al_gpu_ids a \<noteq> [] then [(''CUDA_VISIBLE_DEVICES'', join '','' (al_gpu_ids a))] else [])\<rparr>"

section \<open>The scheduler\<close>

record scheduler =
  rs_heartbeat_timeout :: int
  rs_quotas :: "string \<rightharpoonup> project_quota"
  rs_log :: state_log
  rs_nodes :: "(string \<times> node_inventory) list"
  rs_jobs :: "(string \<times> job) list"
  rs_allocations :: "(string \<times> allocation) list"
  rs_submission_sequence :: int
  rs_leader_id :: "string option"
  rs_leader_term :: int

definition new_scheduler :: "int \<Rightarrow> (string \<rightharpoonup> project_quota) \<Rightarrow> scheduler" where
  "new_scheduler heartbeat_timeout quotas =
     \<lparr>rs_heartbeat_timeout = heartbeat_timeout, rs_quotas = quotas, rs_log = [], rs_nodes = [],
      rs_jobs = [], rs_allocations = [], rs_submission_sequence = 0, rs_leader_id = None, rs_leader_term = 0\<rparr>"

definition become_leader :: "string \<Rightarrow> int \<Rightarrow> scheduler \<Rightarrow> unit res \<times> scheduler" where
  "become_leader node_id term s =
     (if node_id = [] then (Inl (ValueError ''leader node_id must not be empty''), s)
      else if term \<le> rs_leader_term s then (Inl (LeadershipError ''leader term must increase''), s)
      else (Inr (), s\<lparr>rs_leader_id := Some node_id, rs_leader_term := term\<rparr>))"

definition heartbeat :: "node_inventory \<Rightarrow> scheduler \<Rightarrow> unit res \<times> scheduler" where
  "heartbeat inventory s =
     (if (case map_of (rs_nodes s) (ni_node_id inventory) of
            None \<Rightarrow> False
          | Some previous \<Rightarrow> ni_heartbeat_at inventory < ni_heartbeat_at previous)
      then (Inl (ValueError ''heartbeat time must not move backwards''), s)
      else (Inr (), s\<lparr>rs_nodes := AList.update (ni_node_id inventory) inventory (rs_nodes s)\<rparr>))"

definition submit ::
    "string \<Rightarrow> string \<Rightarrow> string \<Rightarrow> resource_request \<Rightarrow> int \<Rightarrow> int \<Rightarrow> scheduler \<Rightarrow> job res \<times> scheduler" where
  "submit job_id project action request priority max_attempts s =
     (if \<not> valid_job_id job_id then (Inl (ValueError ''job_id must match task-<positive integer>''), s)
      else if strip project = [] \<or> strip action = []
      then (Inl (ValueError ''project and action must not be empty''), s)
      else if \<not> (0 \<le> priority \<and> priority \<le> 100)
      then (Inl (ValueError ''priority must be between 0 and 100''), s)
      else if max_attempts < 1 then (Inl (ValueError ''max_attempts must be positive''), s)
      else if map_of (rs_jobs s) job_id \<noteq> None then (Inl (ValueError ''job_id already exists''), s)
      else if rs_nodes s \<noteq> [] \<and> \<not> list_ex (statically_fits request) (dict_values (rs_nodes s))
      then (Inl (UnschedulableRequestError ''no registered node can satisfy the request''), s)
      else let sequence = rs_submission_sequence s + 1;
               job = \<lparr>jb_job_id = job_id, jb_project = strip project, jb_action = strip action,
                      jb_request = request, jb_priority = priority, jb_submitted_sequence = sequence,
                      jb_max_attempts = max_attempts, jb_attempts = 0, jb_state = Queued, jb_last_error = None\<rparr>;
               s1 = s\<lparr>rs_submission_sequence := sequence, rs_jobs := AList.update job_id job (rs_jobs s)\<rparr>;
               (r, l) = log_append (revision (rs_log s1)) (rs_leader_term s1) ''submitted'' job_id None (rs_log s1)
           in (case r of Inl e \<Rightarrow> Inl e | Inr _ \<Rightarrow> Inr job, s1\<lparr>rs_log := l\<rparr>))"

definition require_leader :: "string \<Rightarrow> scheduler \<Rightarrow> unit res" where
  "require_leader caller_id s =
     (if Some caller_id \<noteq> rs_leader_id s
      then Inl (LeadershipError ''only the elected scheduler may change placement state'') else Inr ())"

definition get_job :: "string \<Rightarrow> scheduler \<Rightarrow> job res" where
  "get_job job_id s =
     (case map_of (rs_jobs s) job_id of
        None \<Rightarrow> Inl (KeyError (''unknown job '' @ job_id)) | Some j \<Rightarrow> Inr j)"

definition get_allocation :: "string \<Rightarrow> scheduler \<Rightarrow> allocation res" where
  "get_allocation allocation_id s =
     (case map_of (rs_allocations s) allocation_id of
        None \<Rightarrow> Inl (KeyError (''unknown allocation '' @ allocation_id)) | Some a \<Rightarrow> Inr a)"

text \<open>The new state and error text of a job are written only once the log has taken the entry.\<close>

definition transition ::
    "job \<Rightarrow> job_state \<Rightarrow> string \<Rightarrow> string option \<Rightarrow> string option \<Rightarrow> scheduler \<Rightarrow> job res \<times> scheduler" where
  "transition job state event node_id error s =
     (let (r, l) = log_append (revision (rs_log s)) (rs_leader_term s) event (jb_job_id job) node_id (rs_log s);
          s1 = s\<lparr>rs_log := l\<rparr>
      in case r of
           Inl e \<Rightarrow> (Inl e, s1)
         | Inr _ \<Rightarrow> let updated = job\<lparr>jb_state := state, jb_last_error := error\<rparr>
                   in (Inr updated, s1\<lparr>rs_jobs := AList.update (jb_job_id job) updated (rs_jobs s1)\<rparr>))"

definition drop_allocation :: "string \<Rightarrow> scheduler \<Rightarrow> scheduler" where
  "drop_allocation allocation_id s = s\<lparr>rs_allocations := AList.delete allocation_id (rs_allocations s)\<rparr>"

subsection \<open>Capacity\<close>

definition node_allocations :: "scheduler \<Rightarrow> string \<Rightarrow> allocation list" where
  "node_allocations s node_id = filter (\<lambda>a. al_node_id a = node_id) (dict_values (rs_allocations s))"

definition used :: "scheduler \<Rightarrow> string \<Rightarrow> int set \<times> int \<times> string set" where
  "used s node_id =
     (let active = node_allocations s node_id
      in (\<Union> (set (map (set \<circ> al_cpu_ids) active)), sum_list (map al_memory_mb active),
          \<Union> (set (map (set \<circ> al_gpu_ids) active))))"

definition within_quota :: "scheduler \<Rightarrow> job \<Rightarrow> bool" where
  "within_quota s j =
     (case rs_quotas s (jb_project j) of
        None \<Rightarrow> True
      | Some q \<Rightarrow>
          let active = filter (\<lambda>a. al_project a = jb_project j) (dict_values (rs_allocations s)); r = jb_request j
          in int (length active) + 1 \<le> pq_jobs q \<and>
             sum_list (map (\<lambda>a. int (length (al_cpu_ids a))) active) + rq_cpu_cores r \<le> pq_cpu_cores q \<and>
             sum_list (map al_memory_mb active) + rq_memory_mb r \<le> pq_memory_mb q \<and>
             sum_list (map (\<lambda>a. int (length (al_gpu_ids a))) active) + rq_gpu_count r \<le> pq_gpu_count q)"

definition available_fit :: "scheduler \<Rightarrow> resource_request \<Rightarrow> node_inventory \<Rightarrow> bool" where
  "available_fit s r n \<longleftrightarrow>
     statically_fits r n \<and>
     (let (used_cpus, used_memory, used_gpus) = used s (ni_node_id n);
          cpu_count = length (filter (\<lambda>cpu. cpu \<notin> used_cpus) (eligible_cpus r n));
          gpu_count = length (filter (\<lambda>g. gd_device_id g \<notin> used_gpus) (eligible_gpus r n))
      in rq_cpu_cores r \<le> int cpu_count \<and> rq_memory_mb r \<le> ni_memory_mb n - used_memory \<and>
         rq_gpu_count r \<le> int gpu_count)"

definition score :: "scheduler \<Rightarrow> resource_request \<Rightarrow> node_inventory \<Rightarrow> int \<times> int \<times> int \<times> string" where
  "score s r n =
     (let (used_cpus, used_memory, used_gpus) = used s (ni_node_id n);
          matching = length (filter (\<lambda>g. gd_device_id g \<notin> used_gpus \<and> gd_numa_node g = rq_numa_node r) (eligible_gpus r n));
          local_gpu_penalty = (if rq_numa_node r \<noteq> None \<and> rq_gpu_count r \<noteq> 0
                               then if rq_gpu_count r \<le> int matching then 0 else 1 else 0)
      in (local_gpu_penalty, int (length (ni_cpu_ids n)) - int (card used_cpus) - rq_cpu_cores r,
          ni_memory_mb n - used_memory - rq_memory_mb r, ni_node_id n))"

definition reserve :: "job \<Rightarrow> node_inventory \<Rightarrow> int \<Rightarrow> int \<Rightarrow> scheduler \<Rightarrow> allocation res \<times> scheduler" where
  "reserve job node now lease_seconds s =
     (let (used_cpus, _, used_gpus) = used s (ni_node_id node); request = jb_request job;
          cpu_ids = take (nat (rq_cpu_cores request))
            (filter (\<lambda>cpu. cpu \<notin> used_cpus) (eligible_cpus request node));
          gpu_ids = take (nat (rq_gpu_count request))
            (map gd_device_id (filter (\<lambda>g. gd_device_id g \<notin> used_gpus) (eligible_gpus request node)));
          allocation_id = ''allocation-'' @ show_int (revision (rs_log s) + 1);
          allocation = \<lparr>al_allocation_id = allocation_id, al_job_id = jb_job_id job,
            al_project = jb_project job, al_node_id = ni_node_id node, al_cpu_ids = cpu_ids,
            al_memory_mb = rq_memory_mb request, al_gpu_ids = gpu_ids,
            al_numa_node = rq_numa_node request, al_leader_term = rs_leader_term s,
            al_lease_expires_at = now + lease_seconds\<rparr>;
          (r, l) = log_append (revision (rs_log s)) (rs_leader_term s) ''reserved'' (jb_job_id job)
            (Some (ni_node_id node)) (rs_log s);
          s1 = s\<lparr>rs_log := l\<rparr>
      in case r of
           Inl e \<Rightarrow> (Inl e, s1)
         | Inr _ \<Rightarrow>
             (Inr allocation,
              s1\<lparr>rs_allocations := AList.update allocation_id allocation (rs_allocations s1),
                 rs_jobs := AList.update (jb_job_id job)
                   (job\<lparr>jb_state := Scheduled, jb_attempts := jb_attempts job + 1, jb_last_error := None\<rparr>)
                   (rs_jobs s1)\<rparr>))"

subsection \<open>Operations of the leader\<close>

definition all_allocations :: "scheduler \<Rightarrow> allocation list" where
  "all_allocations s = sort_key al_allocation_id (dict_values (rs_allocations s))"

fun recover_all :: "int \<Rightarrow> allocation list \<Rightarrow> scheduler \<Rightarrow> job list res \<times> scheduler" where
  "recover_all now [] s = (Inr [], s)"
| "recover_all now (a # as) s =
     (if now < al_lease_expires_at a then recover_all now as s
      else case get_job (al_job_id a) s of
             Inl e \<Rightarrow> (Inl e, s)
           | Inr j \<Rightarrow>
               (case transition j (if jb_attempts j < jb_max_attempts j then Queued else Failed)
                       ''lease-expired'' (Some (al_node_id a)) (Some ''allocation lease expired'') s of
                  (Inl e, s1) \<Rightarrow> (Inl e, s1)
                | (Inr j1, s1) \<Rightarrow>
                    let (r, s2) = recover_all now as (drop_allocation (al_allocation_id a) s1)
                    in (case r of Inl e \<Rightarrow> Inl e | Inr js \<Rightarrow> Inr (j1 # js), s2)))"

definition recover_expired :: "string \<Rightarrow> int \<Rightarrow> scheduler \<Rightarrow> job list res \<times> scheduler" where
  "recover_expired caller_id now s =
     (case require_leader caller_id s of
        Inl e \<Rightarrow> (Inl e, s) | Inr _ \<Rightarrow> recover_all now (all_allocations s) s)"

definition candidates :: "scheduler \<Rightarrow> int \<Rightarrow> job \<Rightarrow> node_inventory list" where
  "candidates s now job =
     filter (\<lambda>n. now - ni_heartbeat_at n \<le> rs_heartbeat_timeout s \<and> available_fit s (jb_request job) n)
       (dict_values (rs_nodes s))"

fun place_jobs :: "int \<Rightarrow> int \<Rightarrow> job list \<Rightarrow> scheduler \<Rightarrow> dispatch_plan list res \<times> scheduler" where
  "place_jobs now lease [] s = (Inr [], s)"
| "place_jobs now lease (j # js) s =
     (if \<not> within_quota s j then place_jobs now lease js s
      else case min_key (score s (jb_request j)) (candidates s now j) of
             None \<Rightarrow> place_jobs now lease js s
           | Some node \<Rightarrow>
               (case reserve j node now lease s of
                  (Inl e, s1) \<Rightarrow> (Inl e, s1)
                | (Inr a, s1) \<Rightarrow>
                    let (r, s2) = place_jobs now lease js s1
                    in (case r of Inl e \<Rightarrow> Inl e | Inr ps \<Rightarrow> Inr (to_dispatch_plan a # ps), s2)))"

definition queued_jobs :: "scheduler \<Rightarrow> job list" where
  "queued_jobs s = sort_key (\<lambda>j. (- jb_priority j, jb_submitted_sequence j, jb_job_id j))
     (filter (\<lambda>j. jb_state j = Queued) (dict_values (rs_jobs s)))"

definition schedule :: "string \<Rightarrow> int \<Rightarrow> int \<Rightarrow> scheduler \<Rightarrow> dispatch_plan list res \<times> scheduler" where
  "schedule caller_id now lease_seconds s =
     (case require_leader caller_id s of
        Inl e \<Rightarrow> (Inl e, s)
      | Inr _ \<Rightarrow>
          if lease_seconds < 1 then (Inl (ValueError ''lease_seconds must be positive''), s)
          else (case recover_expired caller_id now s of
                  (Inl e, s1) \<Rightarrow> (Inl e, s1)
                | (Inr _, s1) \<Rightarrow> place_jobs now lease_seconds (queued_jobs s1) s1))"

definition mark_running :: "string \<Rightarrow> string \<Rightarrow> scheduler \<Rightarrow> job res \<times> scheduler" where
  "mark_running allocation_id caller_id s =
     (case require_leader caller_id s of Inl e \<Rightarrow> (Inl e, s) | Inr _ \<Rightarrow>
      (case get_allocation allocation_id s of Inl e \<Rightarrow> (Inl e, s) | Inr a \<Rightarrow>
      (case get_job (al_job_id a) s of Inl e \<Rightarrow> (Inl e, s) | Inr j \<Rightarrow>
       if jb_state j \<noteq> Scheduled then (Inl (InvalidTransitionError ''only scheduled jobs can start''), s)
       else transition j Running ''running'' (Some (al_node_id a)) None s)))"

definition complete ::
    "string \<Rightarrow> string \<Rightarrow> bool \<Rightarrow> string option \<Rightarrow> scheduler \<Rightarrow> job res \<times> scheduler" where
  "complete allocation_id caller_id succeeded error s =
     (case require_leader caller_id s of Inl e \<Rightarrow> (Inl e, s) | Inr _ \<Rightarrow>
      (case get_allocation allocation_id s of Inl e \<Rightarrow> (Inl e, s) | Inr a \<Rightarrow>
      (case get_job (al_job_id a) s of Inl e \<Rightarrow> (Inl e, s) | Inr j \<Rightarrow>
       if jb_state j \<notin> {Scheduled, Running} then (Inl (InvalidTransitionError ''only active jobs can complete''), s)
       else (case transition j (if succeeded then Succeeded else Failed)
                    (if succeeded then ''succeeded'' else ''failed'') (Some (al_node_id a)) error s of
               (Inl e, s1) \<Rightarrow> (Inl e, s1)
             | (Inr updated, s1) \<Rightarrow> (Inr updated, drop_allocation allocation_id s1)))))"

definition cancel :: "string \<Rightarrow> string \<Rightarrow> scheduler \<Rightarrow> job res \<times> scheduler" where
  "cancel job_id caller_id s =
     (case require_leader caller_id s of Inl e \<Rightarrow> (Inl e, s) | Inr _ \<Rightarrow>
      (case get_job job_id s of Inl e \<Rightarrow> (Inl e, s) | Inr j \<Rightarrow>
       if jb_state j \<notin> {Queued, Scheduled, Running} then (Inl (InvalidTransitionError ''job is already terminal''), s)
       else let allocation = find (\<lambda>a. al_job_id a = job_id) (dict_values (rs_allocations s))
            in (case transition j Cancelled ''cancelled'' (map_option al_node_id allocation) None s of
                  (Inl e, s1) \<Rightarrow> (Inl e, s1)
                | (Inr updated, s1) \<Rightarrow>
                    (Inr updated, case allocation of None \<Rightarrow> s1
                                  | Some a \<Rightarrow> drop_allocation (al_allocation_id a) s1))))"


section \<open>The invariant\<close>

abbreviation active :: "scheduler \<Rightarrow> allocation list" where
  "active s \<equiv> dict_values (rs_allocations s)"

definition is_active :: "job \<Rightarrow> bool" where
  "is_active j \<longleftrightarrow> jb_state j = Scheduled \<or> jb_state j = Running"

text \<open>Two reservations that can exist at the same time.\<close>

definition no_clash :: "allocation \<Rightarrow> allocation \<Rightarrow> bool" where
  "no_clash a b \<longleftrightarrow> al_allocation_id a \<noteq> al_allocation_id b \<and> al_job_id a \<noteq> al_job_id b \<and>
     (al_node_id a = al_node_id b \<longrightarrow>
        set (al_cpu_ids a) \<inter> set (al_cpu_ids b) = {} \<and> set (al_gpu_ids a) \<inter> set (al_gpu_ids b) = {})"

definition job_ok :: "string \<Rightarrow> job \<Rightarrow> bool" where
  "job_ok k j \<longleftrightarrow> jb_job_id j = k \<and> request_check (jb_request j) = Inr () \<and>
     0 \<le> jb_attempts j \<and> jb_attempts j \<le> jb_max_attempts j \<and>
     (jb_state j = Queued \<longrightarrow> jb_attempts j < jb_max_attempts j)"

definition jobs_ok :: "(string \<times> job) list \<Rightarrow> bool" where
  "jobs_ok js \<longleftrightarrow> distinct (dict_keys js) \<and> (\<forall>k j. map_of js k = Some j \<longrightarrow> job_ok k j)"

text \<open>The reservation \<open>a\<close> is the one job \<open>j\<close> asked for.\<close>

definition holds :: "allocation \<Rightarrow> job \<Rightarrow> bool" where
  "holds a j \<longleftrightarrow> is_active j \<and> al_project a = jb_project j \<and>
     int (length (al_cpu_ids a)) = rq_cpu_cores (jb_request j) \<and>
     al_memory_mb a = rq_memory_mb (jb_request j) \<and>
     int (length (al_gpu_ids a)) = rq_gpu_count (jb_request j)"

definition linked :: "(string \<times> job) list \<Rightarrow> allocation list \<Rightarrow> bool" where
  "linked js as \<longleftrightarrow>
     (\<forall>a \<in> set as. \<exists>j. map_of js (al_job_id a) = Some j \<and> holds a j) \<and>
     (\<forall>k j. map_of js k = Some j \<longrightarrow> is_active j \<longrightarrow> (\<exists>a \<in> set as. al_job_id a = k))"

definition allocation_ok :: "nat \<Rightarrow> allocation \<Rightarrow> bool" where
  "allocation_ok n a \<longleftrightarrow> distinct (al_cpu_ids a) \<and> distinct (al_gpu_ids a) \<and> 0 \<le> al_memory_mb a \<and>
     (\<exists>i. 0 \<le> i \<and> i \<le> int n \<and> al_allocation_id a = ''allocation-'' @ show_int i)"

definition allocations_ok :: "nat \<Rightarrow> (string \<times> allocation) list \<Rightarrow> bool" where
  "allocations_ok n al \<longleftrightarrow> (\<forall>(k, a) \<in> set al. k = al_allocation_id a) \<and>
     sorted_wrt no_clash (dict_values al) \<and> (\<forall>a \<in> set (dict_values al). allocation_ok n a)"

definition nodes_ok :: "(string \<times> node_inventory) list \<Rightarrow> bool" where
  "nodes_ok ns \<longleftrightarrow> distinct (dict_keys ns) \<and>
     (\<forall>(k, n) \<in> set ns. k = ni_node_id n \<and> inventory_check n = Inr ())"

definition project_allocations :: "string \<Rightarrow> allocation list \<Rightarrow> allocation list" where
  "project_allocations p as = filter (\<lambda>a. al_project a = p) as"

definition quota_met :: "project_quota \<Rightarrow> allocation list \<Rightarrow> bool" where
  "quota_met q as \<longleftrightarrow> int (length as) \<le> pq_jobs q \<and>
     sum_list (map (\<lambda>a. int (length (al_cpu_ids a))) as) \<le> pq_cpu_cores q \<and>
     sum_list (map al_memory_mb as) \<le> pq_memory_mb q \<and>
     sum_list (map (\<lambda>a. int (length (al_gpu_ids a))) as) \<le> pq_gpu_count q"

definition quotas_met :: "(string \<rightharpoonup> project_quota) \<Rightarrow> allocation list \<Rightarrow> bool" where
  "quotas_met qs as \<longleftrightarrow> (\<forall>p q. qs p = Some q \<longrightarrow> quota_met q (project_allocations p as))"

definition sched_ok :: "scheduler \<Rightarrow> bool" where
  "sched_ok s \<longleftrightarrow> jobs_ok (rs_jobs s) \<and> linked (rs_jobs s) (active s) \<and>
     allocations_ok (length (rs_log s)) (rs_allocations s) \<and> nodes_ok (rs_nodes s) \<and>
     quotas_met (rs_quotas s) (active s)"

lemma log_append_current:
  "log_append (revision l) t ev j n l =
     (Inr \<lparr>le_revision = revision l + 1, le_leader_term = t, le_event = ev, le_job_id = j, le_node_id = n\<rparr>,
      l @ [\<lparr>le_revision = revision l + 1, le_leader_term = t, le_event = ev, le_job_id = j, le_node_id = n\<rparr>])"
  by (simp add: log_append_def Let_def)

lemma transition_spec:
  "\<exists>e. transition j st ev n er s =
     (Inr (j\<lparr>jb_state := st, jb_last_error := er\<rparr>),
      s\<lparr>rs_log := rs_log s @ [e],
         rs_jobs := AList.update (jb_job_id j) (j\<lparr>jb_state := st, jb_last_error := er\<rparr>) (rs_jobs s)\<rparr>)"
  by (simp add: transition_def log_append_current Let_def) (rule exI, rule refl)

lemma jobs_ok_update:
  "jobs_ok js \<Longrightarrow> job_ok k j \<Longrightarrow> jobs_ok (AList.update k j js)"
  by (auto simp: jobs_ok_def update_conv' distinct_update)

lemma jobs_ok_values: "jobs_ok js \<Longrightarrow> j \<in> set (dict_values js) \<Longrightarrow> map_of js (jb_job_id j) = Some j"
  by (auto simp: jobs_ok_def dict_values_map_of job_ok_def)

lemma allocation_ok_mono: "allocation_ok n a \<Longrightarrow> n \<le> m \<Longrightarrow> allocation_ok m a"
  unfolding allocation_ok_def by (elim conjE exE, intro conjI exI) auto

lemma allocations_ok_mono: "allocations_ok n al \<Longrightarrow> n \<le> m \<Longrightarrow> allocations_ok m al"
  using allocation_ok_mono unfolding allocations_ok_def by blast

text \<open>Deleting a key of a keyed dictionary filters its values.\<close>

lemma delete_filter: "AList.delete k al = filter (\<lambda>(k', _). k \<noteq> k') al"
  by (simp add: AList.delete_eq)

lemma keyed_delete:
  "\<forall>(k, a) \<in> set al. k = al_allocation_id a \<Longrightarrow>
   dict_values (AList.delete k al) = filter (\<lambda>a. al_allocation_id a \<noteq> k) (dict_values al)"
  by (induction al) auto

lemma allocations_ok_delete:
  "allocations_ok n al \<Longrightarrow> allocations_ok n (AList.delete k al)"
  by (auto simp: allocations_ok_def delete_filter sorted_wrt_map_filter)

lemma quotas_met_filter:
  assumes "quotas_met qs as" "\<forall>a \<in> set as. 0 \<le> al_memory_mb a"
  shows "quotas_met qs (filter P as)"
  unfolding quotas_met_def
proof (intro allI impI)
  fix p q assume "qs p = Some q"
  with assms(1) have q: "quota_met q (project_allocations p as)" by (simp add: quotas_met_def)
  let ?ps = "project_allocations p as"
  have eq: "project_allocations p (filter P as) = filter P ?ps"
    by (simp add: project_allocations_def conj_commute)
  have pos: "\<forall>a \<in> set ?ps. 0 \<le> al_memory_mb a" using assms(2) by (simp add: project_allocations_def)
  have len: "int (length (filter P ?ps)) \<le> int (length ?ps)" by simp
  have mem: "sum_list (map al_memory_mb (filter P ?ps)) \<le> sum_list (map al_memory_mb ?ps)"
    using pos by (intro sum_list_filter_le) simp
  have cpu: "sum_list (map (\<lambda>a. int (length (al_cpu_ids a))) (filter P ?ps))
      \<le> sum_list (map (\<lambda>a. int (length (al_cpu_ids a))) ?ps)" by (rule sum_list_filter_le) simp
  have gpu: "sum_list (map (\<lambda>a. int (length (al_gpu_ids a))) (filter P ?ps))
      \<le> sum_list (map (\<lambda>a. int (length (al_gpu_ids a))) ?ps)" by (rule sum_list_filter_le) simp
  from q show "quota_met q (project_allocations p (filter P as))"
    unfolding eq quota_met_def using len mem cpu gpu by (elim conjE, intro conjI) linarith+
qed

lemma no_clash_sym: "no_clash a b \<longleftrightarrow> no_clash b a"
  by (auto simp: no_clash_def)

lemma no_clash_active:
  "sched_ok s \<Longrightarrow> a \<in> set (active s) \<Longrightarrow> b \<in> set (active s) \<Longrightarrow> a \<noteq> b \<Longrightarrow> no_clash a b"
  unfolding sched_ok_def allocations_ok_def
  by (rule sorted_wrt_pair [of no_clash "active s", OF _ no_clash_sym]) simp_all


section \<open>Every operation keeps the invariant\<close>

lemma linked_remove:
  assumes l: "linked js as" and a: "a \<in> set as" and st: "\<not> is_active j'"
    and only: "\<And>b. b \<in> set as \<Longrightarrow> al_job_id b = al_job_id a \<Longrightarrow> b = a"
    and P: "\<And>b. b \<in> set as \<Longrightarrow> P b \<longleftrightarrow> b \<noteq> a"
  shows "linked (AList.update (al_job_id a) j' js) (filter P as)"
  unfolding linked_def
proof (intro conjI ballI allI impI)
  fix b assume "b \<in> set (filter P as)"
  then have b: "b \<in> set as" "b \<noteq> a" using P by auto
  with only have "al_job_id b \<noteq> al_job_id a" by blast
  with l b show "\<exists>j. map_of (AList.update (al_job_id a) j' js) (al_job_id b) = Some j \<and> holds b j"
    by (simp add: linked_def update_conv')
next
  fix k j assume "map_of (AList.update (al_job_id a) j' js) k = Some j" "is_active j"
  with st have k: "k \<noteq> al_job_id a" "map_of js k = Some j" "is_active j"
    by (auto simp: update_conv' split: if_splits)
  with l obtain b where "b \<in> set as" "al_job_id b = k" unfolding linked_def by blast
  with k P show "\<exists>b \<in> set (filter P as). al_job_id b = k" by auto
qed

text \<open>Ending a reservation: the job leaves the active states and its allocation goes.\<close>

lemma end_reservation:
  assumes ok: "sched_ok s" and a: "a \<in> set (active s)" and j: "map_of (rs_jobs s) (al_job_id a) = Some j"
    and st: "\<not> is_active (j\<lparr>jb_state := st\<rparr>)" "st = Queued \<Longrightarrow> jb_attempts j < jb_max_attempts j"
  shows "\<exists>s'. transition j st ev n er s = (Inr (j\<lparr>jb_state := st, jb_last_error := er\<rparr>), s') \<and>
    sched_ok (drop_allocation (al_allocation_id a) s') \<and>
    active (drop_allocation (al_allocation_id a) s') = filter (\<lambda>b. al_allocation_id b \<noteq> al_allocation_id a) (active s) \<and>
    rs_jobs s' = AList.update (al_job_id a) (j\<lparr>jb_state := st, jb_last_error := er\<rparr>) (rs_jobs s) \<and>
    rs_nodes s' = rs_nodes s \<and> rs_quotas s' = rs_quotas s \<and> rs_leader_id s' = rs_leader_id s \<and>
    rs_heartbeat_timeout s' = rs_heartbeat_timeout s"
proof -
  let ?j = "j\<lparr>jb_state := st, jb_last_error := er\<rparr>"
  from ok have jobs: "jobs_ok (rs_jobs s)" and link: "linked (rs_jobs s) (active s)"
    and allocs: "allocations_ok (length (rs_log s)) (rs_allocations s)"
    and rest: "nodes_ok (rs_nodes s)" "quotas_met (rs_quotas s) (active s)" by (auto simp: sched_ok_def)
  from jobs j have jok: "job_ok (al_job_id a) j" by (simp add: jobs_ok_def)
  then have id: "jb_job_id j = al_job_id a" by (simp add: job_ok_def)
  obtain e where t: "transition j st ev n er s =
      (Inr ?j, s\<lparr>rs_log := rs_log s @ [e], rs_jobs := AList.update (al_job_id a) ?j (rs_jobs s)\<rparr>)"
    using transition_spec [of j st ev n er s] id by auto
  from allocs have keyed: "dict_values (AList.delete (al_allocation_id a) (rs_allocations s)) =
      filter (\<lambda>b. al_allocation_id b \<noteq> al_allocation_id a) (active s)"
    by (intro keyed_delete) (simp add: allocations_ok_def)
  have same: "b = a" if "b \<in> set (active s)" "al_job_id b = al_job_id a \<or> al_allocation_id b = al_allocation_id a" for b
    using no_clash_active [OF ok that(1) a] that(2) by (auto simp: no_clash_def)
  have "linked (AList.update (al_job_id a) ?j (rs_jobs s))
      (filter (\<lambda>b. al_allocation_id b \<noteq> al_allocation_id a) (active s))"
    by (rule linked_remove [OF link a]) (use st same in \<open>auto simp: is_active_def\<close>)
  moreover have "jobs_ok (AList.update (al_job_id a) ?j (rs_jobs s))"
    using jok st(2) by (intro jobs_ok_update jobs) (auto simp: job_ok_def)
  moreover have "\<forall>b \<in> set (active s). 0 \<le> al_memory_mb b"
    using allocs by (simp add: allocations_ok_def allocation_ok_def)
  then have "quotas_met (rs_quotas s) (filter (\<lambda>b. al_allocation_id b \<noteq> al_allocation_id a) (active s))"
    by (rule quotas_met_filter [OF rest(2)])
  moreover have "allocations_ok (length (rs_log s @ [e])) (AList.delete (al_allocation_id a) (rs_allocations s))"
    by (rule allocations_ok_mono [OF allocations_ok_delete [OF allocs]]) simp
  ultimately show ?thesis
    using t rest(1) keyed by (simp add: sched_ok_def drop_allocation_def)
qed

text \<open>A change of state that does not touch the reservations.\<close>

lemma move_job:
  assumes ok: "sched_ok s" and j: "map_of (rs_jobs s) k = Some j"
    and st: "is_active (j\<lparr>jb_state := st\<rparr>) \<longleftrightarrow> is_active j" "st \<noteq> Queued"
  shows "\<exists>s'. transition j st ev n er s = (Inr (j\<lparr>jb_state := st, jb_last_error := er\<rparr>), s') \<and>
    sched_ok s' \<and> rs_allocations s' = rs_allocations s \<and>
    rs_jobs s' = AList.update k (j\<lparr>jb_state := st, jb_last_error := er\<rparr>) (rs_jobs s) \<and>
    rs_nodes s' = rs_nodes s \<and> rs_quotas s' = rs_quotas s"
proof -
  let ?j = "j\<lparr>jb_state := st, jb_last_error := er\<rparr>"
  from ok have jobs: "jobs_ok (rs_jobs s)" and link: "linked (rs_jobs s) (active s)"
    and allocs: "allocations_ok (length (rs_log s)) (rs_allocations s)"
    and rest: "nodes_ok (rs_nodes s)" "quotas_met (rs_quotas s) (active s)" by (auto simp: sched_ok_def)
  from jobs j have jok: "job_ok k j" by (simp add: jobs_ok_def)
  then have id: "jb_job_id j = k" by (simp add: job_ok_def)
  obtain e where t: "transition j st ev n er s =
      (Inr ?j, s\<lparr>rs_log := rs_log s @ [e], rs_jobs := AList.update k ?j (rs_jobs s)\<rparr>)"
    using transition_spec [of j st ev n er s] id by auto
  have act: "is_active ?j \<longleftrightarrow> is_active j" using st by (simp add: is_active_def)
  have hold: "holds b ?j" if "holds b j" for b
    using that act by (simp add: holds_def)
  have "linked (AList.update k ?j (rs_jobs s)) (active s)"
    unfolding linked_def
  proof (intro conjI ballI allI impI)
    fix a assume "a \<in> set (active s)"
    with link obtain i where "map_of (rs_jobs s) (al_job_id a) = Some i" "holds a i"
      unfolding linked_def by blast
    with j hold show "\<exists>i. map_of (AList.update k ?j (rs_jobs s)) (al_job_id a) = Some i \<and> holds a i"
      by (auto simp: update_conv')
  next
    fix k' i assume "map_of (AList.update k ?j (rs_jobs s)) k' = Some i" "is_active i"
    with j act have "\<exists>i. map_of (rs_jobs s) k' = Some i \<and> is_active i"
      by (auto simp: update_conv' split: if_splits)
    with link show "\<exists>a \<in> set (active s). al_job_id a = k'" unfolding linked_def by blast
  qed
  moreover have "jobs_ok (AList.update k ?j (rs_jobs s))"
    using jok st(2) by (intro jobs_ok_update jobs) (auto simp: job_ok_def)
  moreover have "allocations_ok (length (rs_log s @ [e])) (rs_allocations s)"
    by (rule allocations_ok_mono [OF allocs]) simp
  ultimately show ?thesis
    using t rest by (simp add: sched_ok_def)
qed


subsection \<open>Reserving\<close>

lemma distinct_eligible_cpus:
  "request_check r = Inr () \<Longrightarrow> inventory_check n = Inr () \<Longrightarrow> distinct (eligible_cpus r n)"
  by (auto simp: request_check_def inventory_check_def eligible_cpus_def split: if_splits option.splits)

lemma distinct_eligible_gpus: "inventory_check n = Inr () \<Longrightarrow> distinct (map gd_device_id (filter P (eligible_gpus r n)))"
  by (auto simp: inventory_check_def eligible_gpus_def distinct_map inj_on_def split: if_splits)

lemma used_active:
  "a \<in> set (active s) \<Longrightarrow> al_node_id a = k \<Longrightarrow>
   set (al_cpu_ids a) \<subseteq> fst (used s k) \<and> set (al_gpu_ids a) \<subseteq> snd (snd (used s k))"
  by (force simp: used_def node_allocations_def)

definition reserved_for :: "scheduler \<Rightarrow> job \<Rightarrow> node_inventory \<Rightarrow> allocation \<Rightarrow> bool" where
  "reserved_for s j n a \<longleftrightarrow> al_job_id a = jb_job_id j \<and> al_node_id a = ni_node_id n \<and>
     al_project a = jb_project j \<and> al_memory_mb a = rq_memory_mb (jb_request j) \<and>
     distinct (al_cpu_ids a) \<and> int (length (al_cpu_ids a)) = rq_cpu_cores (jb_request j) \<and>
     set (al_cpu_ids a) \<subseteq> set (eligible_cpus (jb_request j) n) - fst (used s (ni_node_id n)) \<and>
     distinct (al_gpu_ids a) \<and> int (length (al_gpu_ids a)) = rq_gpu_count (jb_request j) \<and>
     set (al_gpu_ids a) \<subseteq> gd_device_id ` set (eligible_gpus (jb_request j) n) - snd (snd (used s (ni_node_id n)))"

lemma set_take_filter: "set (take n (filter P xs)) \<subseteq> {x \<in> set xs. P x}"
  using set_take_subset [of n "filter P xs"] by auto

lemma reserve_shape:
  assumes fit: "available_fit s (jb_request j) n"
    and chk: "request_check (jb_request j) = Inr ()" "inventory_check n = Inr ()"
    and fresh: "\<forall>(k, a) \<in> set (rs_allocations s). k = al_allocation_id a \<and> allocation_ok (length (rs_log s)) a"
  shows "\<exists>a e. reserve j n now lease s = (Inr a, s\<lparr>rs_log := rs_log s @ [e],
      rs_allocations := rs_allocations s @ [(al_allocation_id a, a)],
      rs_jobs := AList.update (jb_job_id j)
        (j\<lparr>jb_state := Scheduled, jb_attempts := jb_attempts j + 1, jb_last_error := None\<rparr>) (rs_jobs s)\<rparr>) \<and>
    reserved_for s j n a \<and> al_lease_expires_at a = now + lease \<and>
    al_allocation_id a = ''allocation-'' @ show_int (revision (rs_log s) + 1) \<and>
    al_allocation_id a \<notin> al_allocation_id ` set (active s)"
proof -
  let ?r = "jb_request j" and ?u = "used s (ni_node_id n)"
  let ?id = "''allocation-'' @ show_int (revision (rs_log s) + 1)"
  let ?a = "\<lparr>al_allocation_id = ?id, al_job_id = jb_job_id j, al_project = jb_project j,
    al_node_id = ni_node_id n,
    al_cpu_ids = take (nat (rq_cpu_cores ?r)) (filter (\<lambda>cpu. cpu \<notin> fst ?u) (eligible_cpus ?r n)),
    al_memory_mb = rq_memory_mb ?r,
    al_gpu_ids = take (nat (rq_gpu_count ?r))
      (map gd_device_id (filter (\<lambda>g. gd_device_id g \<notin> snd (snd ?u)) (eligible_gpus ?r n))),
    al_numa_node = rq_numa_node ?r, al_leader_term = rs_leader_term s, al_lease_expires_at = now + lease\<rparr>"
  let ?e = "\<lparr>le_revision = revision (rs_log s) + 1, le_leader_term = rs_leader_term s,
    le_event = ''reserved'', le_job_id = jb_job_id j, le_node_id = Some (ni_node_id n)\<rparr>"
  have "al_allocation_id a \<noteq> ?id" if a: "a \<in> set (active s)" for a
  proof -
    from a fresh have "allocation_ok (length (rs_log s)) a" by auto
    then obtain i where "0 \<le> i" "i \<le> int (length (rs_log s))" "al_allocation_id a = ''allocation-'' @ show_int i"
      unfolding allocation_ok_def by blast
    then show ?thesis
      using show_int_inject_nonneg [of i "revision (rs_log s) + 1"] by (simp add: revision_def)
  qed
  then have new: "?id \<notin> al_allocation_id ` set (active s)"
    by (intro notI, elim imageE) (erule notE [rotated, OF sym], assumption)
  have "?id \<notin> set (dict_keys (rs_allocations s))"
  proof
    assume "?id \<in> set (dict_keys (rs_allocations s))"
    then obtain b where b: "(?id, b) \<in> set (rs_allocations s)" by auto
    with fresh have "al_allocation_id b = ?id" by auto
    moreover from b have "b \<in> set (active s)" by force
    ultimately show False using new by (metis imageI)
  qed
  then have upd: "AList.update ?id ?a (rs_allocations s) = rs_allocations s @ [(?id, ?a)]"
    by (rule update_fresh)
  from chk(1) have pos: "0 \<le> rq_cpu_cores ?r" "0 \<le> rq_gpu_count ?r"
    by (auto simp: request_check_def split: if_splits)
  have "reserved_for s j n ?a"
    using fit pos distinct_eligible_cpus [OF chk] distinct_eligible_gpus [OF chk(2)]
      set_take_filter [of _ "\<lambda>cpu. cpu \<notin> fst ?u" "eligible_cpus ?r n"]
      set_take_subset [of "nat (rq_gpu_count ?r)" "map gd_device_id (filter (\<lambda>g. gd_device_id g \<notin> snd (snd ?u)) (eligible_gpus ?r n))"]
    by (auto simp: reserved_for_def available_fit_def split_beta Let_def)
  with new upd show ?thesis
    unfolding reserve_def log_append_current Let_def split_beta fst_conv snd_conv sum.case
    by (intro exI [of _ ?a] exI [of _ ?e] conjI) simp_all
qed


lemma reserve_keeps_quotas:
  assumes q: "quotas_met (rs_quotas s) (active s)" and w: "within_quota s j" and a: "reserved_for s j n a"
  shows "quotas_met (rs_quotas s) (active s @ [a])"
  unfolding quotas_met_def
proof (intro allI impI)
  fix p q' assume p: "rs_quotas s p = Some q'"
  with q have old: "quota_met q' (project_allocations p (active s))" by (simp add: quotas_met_def)
  show "quota_met q' (project_allocations p (active s @ [a]))"
  proof (cases "al_project a = p")
    case True
    with w p a show ?thesis
      by (simp add: within_quota_def reserved_for_def quota_met_def project_allocations_def Let_def)
  next
    case False
    with old show ?thesis by (simp add: project_allocations_def)
  qed
qed

text \<open>What the scheduler knows of a queued job before it places it.\<close>

definition placeable :: "scheduler \<Rightarrow> job \<Rightarrow> bool" where
  "placeable s j \<longleftrightarrow> map_of (rs_jobs s) (jb_job_id j) = Some j \<and> jb_state j = Queued"

lemma reserve_ok:
  assumes ok: "sched_ok s" and j: "placeable s j" and n: "n \<in> set (dict_values (rs_nodes s))"
    and w: "within_quota s j" and fit: "available_fit s (jb_request j) n"
  shows "\<exists>a s'. reserve j n now lease s = (Inr a, s') \<and> sched_ok s' \<and> reserved_for s j n a \<and>
    al_lease_expires_at a = now + lease \<and> active s' = active s @ [a] \<and>
    rs_jobs s' = AList.update (jb_job_id j)
      (j\<lparr>jb_state := Scheduled, jb_attempts := jb_attempts j + 1, jb_last_error := None\<rparr>) (rs_jobs s) \<and>
    rs_nodes s' = rs_nodes s \<and> rs_quotas s' = rs_quotas s \<and>
    rs_heartbeat_timeout s' = rs_heartbeat_timeout s"
proof -
  let ?j = "j\<lparr>jb_state := Scheduled, jb_attempts := jb_attempts j + 1, jb_last_error := None\<rparr>"
  from ok have jobs: "jobs_ok (rs_jobs s)" and link: "linked (rs_jobs s) (active s)"
    and allocs: "allocations_ok (length (rs_log s)) (rs_allocations s)"
    and nodes: "nodes_ok (rs_nodes s)" and quotas: "quotas_met (rs_quotas s) (active s)"
    by (auto simp: sched_ok_def)
  from jobs j have jok: "job_ok (jb_job_id j) j" by (simp add: jobs_ok_def placeable_def)
  then have chk: "request_check (jb_request j) = Inr ()" by (simp add: job_ok_def)
  from nodes n have nchk: "inventory_check n = Inr ()" by (auto simp: nodes_ok_def)
  from allocs have fresh: "\<forall>(k, a) \<in> set (rs_allocations s). k = al_allocation_id a \<and> allocation_ok (length (rs_log s)) a"
    unfolding allocations_ok_def by fastforce
  from reserve_shape [OF fit chk nchk fresh, of now lease] obtain a e where
    r: "reserve j n now lease s = (Inr a, s\<lparr>rs_log := rs_log s @ [e],
        rs_allocations := rs_allocations s @ [(al_allocation_id a, a)],
        rs_jobs := AList.update (jb_job_id j) ?j (rs_jobs s)\<rparr>)"
    and a: "reserved_for s j n a" "al_lease_expires_at a = now + lease"
      "al_allocation_id a = ''allocation-'' @ show_int (revision (rs_log s) + 1)"
      "al_allocation_id a \<notin> al_allocation_id ` set (active s)" by blast
  have other: "al_job_id b \<noteq> jb_job_id j" if "b \<in> set (active s)" for b
    using that link j unfolding linked_def placeable_def holds_def is_active_def by fastforce
  have mem: "0 \<le> rq_memory_mb (jb_request j)" using chk by (auto simp: request_check_def split: if_splits)
  have apart: "no_clash b a" if b: "b \<in> set (active s)" for b
  proof -
    from a(1) have job: "al_job_id a = jb_job_id j" and node: "al_node_id a = ni_node_id n"
      and cpus: "set (al_cpu_ids a) \<inter> fst (used s (ni_node_id n)) = {}"
      and gpus: "set (al_gpu_ids a) \<inter> snd (snd (used s (ni_node_id n))) = {}"
      unfolding reserved_for_def by blast+
    from a(4) b have "al_allocation_id b \<noteq> al_allocation_id a" by (metis imageI)
    moreover have "set (al_cpu_ids b) \<inter> set (al_cpu_ids a) = {} \<and> set (al_gpu_ids b) \<inter> set (al_gpu_ids a) = {}"
      if "al_node_id b = al_node_id a"
      using used_active [OF b that] cpus gpus unfolding node by blast
    ultimately show ?thesis using other [OF b] job by (simp add: no_clash_def)
  qed
  have "allocation_ok (length (rs_log s @ [e])) a"
    using a(1,3) mem by (auto simp: allocation_ok_def reserved_for_def revision_def intro!: exI [of _ "int (length (rs_log s)) + 1"])
  with allocations_ok_mono [OF allocs, of "length (rs_log s @ [e])"] apart
  have "allocations_ok (length (rs_log s @ [e])) (rs_allocations s @ [(al_allocation_id a, a)])"
    by (simp add: allocations_ok_def sorted_wrt_append)
  moreover have "jobs_ok (AList.update (jb_job_id j) ?j (rs_jobs s))"
    using jok j by (intro jobs_ok_update jobs) (auto simp: job_ok_def placeable_def)
  moreover have "linked (AList.update (jb_job_id j) ?j (rs_jobs s)) (active s @ [a])"
    using link other a(1) unfolding linked_def
    by (auto simp: update_conv' holds_def reserved_for_def is_active_def)
  moreover have "quotas_met (rs_quotas s) (active s @ [a])"
    by (rule reserve_keeps_quotas [OF quotas w a(1)])
  ultimately show ?thesis
    using r a(1,2) nodes by (simp add: sched_ok_def)
qed


subsection \<open>Placing the queue\<close>

definition node_memory :: "scheduler \<Rightarrow> string \<Rightarrow> int" where
  "node_memory s k = sum_list (map al_memory_mb (node_allocations s k))"

definition memory_fits :: "scheduler \<Rightarrow> string \<Rightarrow> bool" where
  "memory_fits s k \<longleftrightarrow> (\<forall>n. map_of (rs_nodes s) k = Some n \<longrightarrow> node_memory s k \<le> ni_memory_mb n)"

text \<open>
  A reservation as it should stand right after a scheduling round at time \<open>now\<close>: on a node that
  still sends heartbeats, with the labels, the CPUs and the GPUs its job asked for, and with no more
  memory reserved on that node than it has.
\<close>

definition placed :: "int \<Rightarrow> scheduler \<Rightarrow> allocation \<Rightarrow> bool" where
  "placed now s a \<longleftrightarrow> memory_fits s (al_node_id a) \<and>
     (\<exists>n j. map_of (rs_nodes s) (al_node_id a) = Some n \<and> map_of (rs_jobs s) (al_job_id a) = Some j \<and>
        now - ni_heartbeat_at n \<le> rs_heartbeat_timeout s \<and>
        rq_required_labels (jb_request j) \<subseteq> ni_labels n \<and>
        set (al_cpu_ids a) \<subseteq> set (eligible_cpus (jb_request j) n) \<and>
        set (al_gpu_ids a) \<subseteq> gd_device_id ` set (eligible_gpus (jb_request j) n))"

lemma nodes_ok_values: "nodes_ok ns \<Longrightarrow> n \<in> set (dict_values ns) \<Longrightarrow> map_of ns (ni_node_id n) = Some n"
  by (auto simp: nodes_ok_def)

lemma node_memory_snoc:
  "active s' = active s @ [a] \<Longrightarrow>
   node_memory s' k = node_memory s k + (if al_node_id a = k then al_memory_mb a else 0)"
  by (simp add: node_memory_def node_allocations_def)

lemma reserve_memory:
  assumes "active s' = active s @ [a]" "rs_nodes s' = rs_nodes s" "reserved_for s j n a"
    and "available_fit s (jb_request j) n" "map_of (rs_nodes s) (ni_node_id n) = Some n"
  shows "memory_fits s' (al_node_id a) \<and> (memory_fits s k \<longrightarrow> memory_fits s' k)"
  using assms node_memory_snoc [OF assms(1)]
  by (auto simp: memory_fits_def reserved_for_def available_fit_def used_def node_memory_def Let_def)

definition untouched :: "job list \<Rightarrow> scheduler \<Rightarrow> scheduler \<Rightarrow> bool" where
  "untouched js s s' \<longleftrightarrow> rs_nodes s' = rs_nodes s \<and> rs_quotas s' = rs_quotas s \<and>
     rs_heartbeat_timeout s' = rs_heartbeat_timeout s \<and>
     (\<forall>k. memory_fits s k \<longrightarrow> memory_fits s' k) \<and>
     (\<forall>k. k \<notin> jb_job_id ` set js \<longrightarrow> map_of (rs_jobs s') k = map_of (rs_jobs s) k)"

lemma placed_untouched:
  "placed now s a \<Longrightarrow> untouched js s s' \<Longrightarrow> al_job_id a \<notin> jb_job_id ` set js \<Longrightarrow> placed now s' a"
  unfolding placed_def untouched_def by auto

lemma place_jobs_ok:
  assumes "sched_ok s" "\<forall>j \<in> set js. placeable s j" "distinct (map jb_job_id js)"
  shows "\<exists>as s'. place_jobs now lease js s = (Inr (map to_dispatch_plan as), s') \<and> sched_ok s' \<and>
    active s' = active s @ as \<and> untouched js s s' \<and>
    (\<forall>a \<in> set as. placed now s' a \<and> al_lease_expires_at a = now + lease)"
  using assms
proof (induction js arbitrary: s)
  case Nil
  then show ?case by (simp add: untouched_def)
next
  case (Cons j js)
  have skip: ?case if eq: "place_jobs now lease (j # js) s = place_jobs now lease js s"
  proof -
    from Cons.IH [of s] Cons.prems obtain as s' where
      "place_jobs now lease js s = (Inr (map to_dispatch_plan as), s')" "sched_ok s'"
      "active s' = active s @ as" "untouched js s s'"
      "\<forall>a \<in> set as. placed now s' a \<and> al_lease_expires_at a = now + lease" by auto
    then show ?thesis unfolding eq by (intro exI [of _ as] exI [of _ s']) (auto simp: untouched_def)
  qed
  show ?case
  proof (cases "within_quota s j \<and> min_key (score s (jb_request j)) (candidates s now j) \<noteq> None")
    case False
    then show ?thesis by (intro skip) auto
  next
    case True
    then obtain n where w: "within_quota s j"
      and n: "min_key (score s (jb_request j)) (candidates s now j) = Some n" by blast
    from min_key_Some [OF n] have fit: "available_fit s (jb_request j) n"
      and live: "now - ni_heartbeat_at n \<le> rs_heartbeat_timeout s"
      and val: "n \<in> set (dict_values (rs_nodes s))" by (auto simp: candidates_def)
    have j: "placeable s j" using Cons.prems(2) by simp
    have node: "map_of (rs_nodes s) (ni_node_id n) = Some n"
      using Cons.prems(1) val by (simp add: sched_ok_def nodes_ok_values)
    from reserve_ok [OF Cons.prems(1) j val w fit, of now lease] obtain a s1 where
      r: "reserve j n now lease s = (Inr a, s1)" "sched_ok s1" "reserved_for s j n a"
        "al_lease_expires_at a = now + lease" "active s1 = active s @ [a]" "rs_nodes s1 = rs_nodes s"
        "rs_quotas s1 = rs_quotas s" "rs_heartbeat_timeout s1 = rs_heartbeat_timeout s"
      and jobs: "rs_jobs s1 = AList.update (jb_job_id j)
        (j\<lparr>jb_state := Scheduled, jb_attempts := jb_attempts j + 1, jb_last_error := None\<rparr>) (rs_jobs s)" by blast
    have mem: "memory_fits s1 (al_node_id a) \<and> (memory_fits s k \<longrightarrow> memory_fits s1 k)" for k
      by (rule reserve_memory [OF r(5,6,3) fit node])
    have step: "untouched [j] s s1"
      using mem r jobs by (simp add: untouched_def update_conv')
    have here: "placed now s1 a"
      using mem r(3,6,8) node live fit jobs
      by (auto simp: placed_def reserved_for_def update_conv' available_fit_def statically_fits_def)
    have "\<forall>i \<in> set js. placeable s1 i"
      using Cons.prems(2,3) jobs by (auto simp: placeable_def update_conv' image_iff)
    with Cons.IH [of s1] r(2) Cons.prems(3) obtain as s2 where
      p: "place_jobs now lease js s1 = (Inr (map to_dispatch_plan as), s2)" "sched_ok s2"
        "active s2 = active s1 @ as" "untouched js s1 s2"
        "\<forall>a \<in> set as. placed now s2 a \<and> al_lease_expires_at a = now + lease" by auto
    have "al_job_id a \<notin> jb_job_id ` set js" using Cons.prems(3) r(3) by (auto simp: reserved_for_def)
    with here p(4) have "placed now s2 a" by (rule placed_untouched)
    moreover have "untouched (j # js) s s2" using step p(4) by (auto simp: untouched_def)
    moreover have "place_jobs now lease (j # js) s = (Inr (map to_dispatch_plan (a # as)), s2)"
      using w n r(1) p(1) by simp
    ultimately show ?thesis
      using p r(4,5) by (intro exI [of _ "a # as"] exI [of _ s2]) simp
  qed
qed


subsection \<open>Recovering expired leases\<close>

definition terminal :: "job \<Rightarrow> bool" where
  "terminal j \<longleftrightarrow> jb_state j \<in> {Succeeded, Failed, Cancelled}"

text \<open>How a stored job may change: its identity is fixed, attempts only grow, a terminal job is final.\<close>

definition evolves :: "job \<Rightarrow> job \<Rightarrow> bool" where
  "evolves j j' \<longleftrightarrow> jb_job_id j' = jb_job_id j \<and> jb_project j' = jb_project j \<and>
     jb_request j' = jb_request j \<and> jb_max_attempts j' = jb_max_attempts j \<and>
     jb_attempts j \<le> jb_attempts j' \<and> (terminal j \<longrightarrow> j' = j)"

lemma job_evolves_refl [simp]: "evolves j j"
  by (simp add: evolves_def)

lemma evolves_trans: "evolves i j \<Longrightarrow> evolves j k \<Longrightarrow> evolves i k"
  by (auto simp: evolves_def)

definition jobs_evolve :: "scheduler \<Rightarrow> scheduler \<Rightarrow> bool" where
  "jobs_evolve s s' \<longleftrightarrow>
     (\<forall>k j. map_of (rs_jobs s) k = Some j \<longrightarrow> (\<exists>j'. map_of (rs_jobs s') k = Some j' \<and> evolves j j'))"

lemma jobs_evolve_refl [simp]: "rs_jobs s' = rs_jobs s \<Longrightarrow> jobs_evolve s s'"
  by (simp add: jobs_evolve_def)

lemma jobs_evolve_trans: "jobs_evolve s t \<Longrightarrow> jobs_evolve t u \<Longrightarrow> jobs_evolve s u"
  unfolding jobs_evolve_def by (meson evolves_trans)

lemma jobs_evolve_update:
  "map_of (rs_jobs s) k = Some j \<Longrightarrow> evolves j j' \<Longrightarrow> rs_jobs s' = AList.update k j' (rs_jobs s) \<Longrightarrow> jobs_evolve s s'"
  by (auto simp: jobs_evolve_def update_conv')

lemma drop_allocation_simps [simp]:
  "rs_jobs (drop_allocation i s) = rs_jobs s" "rs_nodes (drop_allocation i s) = rs_nodes s"
  "rs_quotas (drop_allocation i s) = rs_quotas s" "rs_log (drop_allocation i s) = rs_log s"
  "rs_heartbeat_timeout (drop_allocation i s) = rs_heartbeat_timeout s"
  "rs_leader_id (drop_allocation i s) = rs_leader_id s"
  by (simp_all add: drop_allocation_def)

lemma recover_all_ok:
  assumes "sched_ok s" "set as \<subseteq> set (active s)" "distinct (map al_allocation_id as)"
  shows "\<exists>js s'. recover_all now as s = (Inr js, s') \<and> sched_ok s' \<and> jobs_evolve s s' \<and>
    set (active s') = set (active s) - {a \<in> set as. al_lease_expires_at a \<le> now} \<and>
    rs_nodes s' = rs_nodes s \<and> rs_quotas s' = rs_quotas s \<and> rs_leader_id s' = rs_leader_id s \<and>
    rs_heartbeat_timeout s' = rs_heartbeat_timeout s"
  using assms
proof (induction as arbitrary: s)
  case Nil
  then show ?case by simp
next
  case (Cons a as)
  show ?case
  proof (cases "now < al_lease_expires_at a")
    case True
    with Cons.IH [of s] Cons.prems show ?thesis by auto
  next
    case False
    have a: "a \<in> set (active s)" using Cons.prems(2) by simp
    with Cons.prems(1) obtain j where j: "map_of (rs_jobs s) (al_job_id a) = Some j" "holds a j"
      unfolding sched_ok_def linked_def by blast
    let ?st = "if jb_attempts j < jb_max_attempts j then Queued else Failed"
    have act: "is_active j" using j(2) by (simp add: holds_def)
    have st: "\<not> is_active (j\<lparr>jb_state := ?st\<rparr>)" "?st = Queued \<Longrightarrow> jb_attempts j < jb_max_attempts j"
      by (auto simp: is_active_def split: if_splits)
    obtain s1 where t: "transition j ?st ''lease-expired'' (Some (al_node_id a)) (Some ''allocation lease expired'') s
        = (Inr (j\<lparr>jb_state := ?st, jb_last_error := Some ''allocation lease expired''\<rparr>), s1)"
      "sched_ok (drop_allocation (al_allocation_id a) s1)"
      "active (drop_allocation (al_allocation_id a) s1) = filter (\<lambda>b. al_allocation_id b \<noteq> al_allocation_id a) (active s)"
      "rs_nodes s1 = rs_nodes s" "rs_quotas s1 = rs_quotas s" "rs_leader_id s1 = rs_leader_id s"
      "rs_heartbeat_timeout s1 = rs_heartbeat_timeout s"
      and jobs: "rs_jobs s1 = AList.update (al_job_id a)
        (j\<lparr>jb_state := ?st, jb_last_error := Some ''allocation lease expired''\<rparr>) (rs_jobs s)"
      using end_reservation [OF Cons.prems(1) a j(1) st] by blast
    let ?s1 = "drop_allocation (al_allocation_id a) s1"
    have only: "al_allocation_id b = al_allocation_id a \<longleftrightarrow> b = a" if "b \<in> set (active s)" for b
      using no_clash_active [OF Cons.prems(1) that a] by (auto simp: no_clash_def)
    have evolve: "jobs_evolve s ?s1"
      by (rule jobs_evolve_update [OF j(1)]) (use act jobs in \<open>auto simp: evolves_def terminal_def is_active_def\<close>)
    have "set as \<subseteq> set (active ?s1)" using Cons.prems(2,3) unfolding t(3) by (auto simp: image_iff)
    with Cons.IH [OF t(2)] Cons.prems(3) obtain js s2 where
      r: "recover_all now as ?s1 = (Inr js, s2)" "sched_ok s2" "jobs_evolve ?s1 s2"
        "set (active s2) = set (active ?s1) - {a \<in> set as. al_lease_expires_at a \<le> now}"
        "rs_nodes s2 = rs_nodes s1" "rs_quotas s2 = rs_quotas s1" "rs_leader_id s2 = rs_leader_id s1"
        "rs_heartbeat_timeout s2 = rs_heartbeat_timeout s1" by auto
    have "set (active ?s1) = set (active s) - {a}" unfolding t(3) using only by auto
    with r(4) False have "set (active s2) = set (active s) - {b \<in> set (a # as). al_lease_expires_at b \<le> now}"
      by auto
    moreover have "jobs_evolve s s2" by (rule jobs_evolve_trans [OF evolve r(3)])
    moreover have "recover_all now (a # as) s = (Inr (j\<lparr>jb_state := ?st, jb_last_error := Some ''allocation lease expired''\<rparr> # js), s2)"
      using False j(1) t(1) r(1) by (simp add: get_job_def)
    ultimately show ?thesis
      using r(2,5-8) t(4-7) by (intro exI [of _ s2] exI conjI) (assumption | simp)+
  qed
qed

lemma all_allocations_ok:
  assumes "sched_ok s"
  shows "set (all_allocations s) = set (active s)" "distinct (map al_allocation_id (all_allocations s))"
proof -
  from assms have "sorted_wrt no_clash (active s)" by (simp add: sched_ok_def allocations_ok_def)
  then have "sorted_wrt (\<lambda>x y. al_allocation_id x \<noteq> al_allocation_id y) (active s)"
    by (rule sorted_wrt_mono_rel [rotated]) (simp add: no_clash_def)
  then have "distinct (map al_allocation_id (active s))"
    by (rule distinct_map_sorted_wrt)
  then show "distinct (map al_allocation_id (all_allocations s))"
    unfolding all_allocations_def by (rule distinct_map_sort_key)
qed (simp add: all_allocations_def)


lemma recover_expired_ok:
  assumes "sched_ok s" "require_leader c s = Inr ()"
  shows "\<exists>js s'. recover_expired c now s = (Inr js, s') \<and> sched_ok s' \<and> jobs_evolve s s' \<and>
    set (active s') = {a \<in> set (active s). now < al_lease_expires_at a} \<and>
    rs_nodes s' = rs_nodes s \<and> rs_quotas s' = rs_quotas s \<and> rs_leader_id s' = rs_leader_id s \<and>
    rs_heartbeat_timeout s' = rs_heartbeat_timeout s"
proof -
  from recover_all_ok [OF assms(1), of "all_allocations s" now] all_allocations_ok [OF assms(1)]
  obtain js s' where r: "recover_all now (all_allocations s) s = (Inr js, s')" "sched_ok s'" "jobs_evolve s s'"
    "set (active s') = set (active s) - {a \<in> set (active s). al_lease_expires_at a \<le> now}"
    "rs_nodes s' = rs_nodes s" "rs_quotas s' = rs_quotas s" "rs_leader_id s' = rs_leader_id s"
    "rs_heartbeat_timeout s' = rs_heartbeat_timeout s" by auto
  from r(4) have "set (active s') = {a \<in> set (active s). now < al_lease_expires_at a}" by auto
  with r assms(2) show ?thesis
    unfolding recover_expired_def by (intro exI [of _ js] exI [of _ s'] conjI) simp_all
qed

lemma queued_jobs_ok:
  assumes "sched_ok s"
  shows "\<forall>j \<in> set (queued_jobs s). placeable s j" "distinct (map jb_job_id (queued_jobs s))"
proof -
  from assms have jobs: "jobs_ok (rs_jobs s)" by (simp add: sched_ok_def)
  then show "\<forall>j \<in> set (queued_jobs s). placeable s j"
    using jobs_ok_values by (auto simp: queued_jobs_def placeable_def)
  have ids: "map jb_job_id (dict_values (rs_jobs s)) = dict_keys (rs_jobs s)"
    using jobs by (auto simp: jobs_ok_def job_ok_def)
  have "distinct (map jb_job_id (dict_values (rs_jobs s)))"
    unfolding ids using jobs by (simp add: jobs_ok_def)
  then show "distinct (map jb_job_id (queued_jobs s))"
    unfolding queued_jobs_def by (intro distinct_map_sort_key distinct_map_filter)
qed

lemma place_queue_evolves:
  assumes "sched_ok s" "\<forall>j \<in> set js. placeable s j" "distinct (map jb_job_id js)"
  shows "jobs_evolve s (snd (place_jobs now lease js s))"
  using assms
proof (induction js arbitrary: s)
  case Nil
  then show ?case by simp
next
  case (Cons j js)
  show ?case
  proof (cases "within_quota s j \<and> min_key (score s (jb_request j)) (candidates s now j) \<noteq> None")
    case False
    with Cons show ?thesis by auto
  next
    case True
    then obtain n where w: "within_quota s j"
      and n: "min_key (score s (jb_request j)) (candidates s now j) = Some n" by blast
    from min_key_Some [OF n] have fit: "available_fit s (jb_request j) n"
      and val: "n \<in> set (dict_values (rs_nodes s))" by (auto simp: candidates_def)
    have j: "placeable s j" using Cons.prems(2) by simp
    from reserve_ok [OF Cons.prems(1) j val w fit, of now lease] obtain a s1 where
      r: "reserve j n now lease s = (Inr a, s1)" "sched_ok s1"
      and jobs: "rs_jobs s1 = AList.update (jb_job_id j)
        (j\<lparr>jb_state := Scheduled, jb_attempts := jb_attempts j + 1, jb_last_error := None\<rparr>) (rs_jobs s)" by blast
    have "jobs_evolve s s1"
      by (rule jobs_evolve_update [OF _ _ jobs, of j]) (use j in \<open>auto simp: placeable_def evolves_def terminal_def\<close>)
    moreover have "\<forall>i \<in> set js. placeable s1 i"
      using Cons.prems(2,3) jobs by (auto simp: placeable_def update_conv' image_iff)
    with Cons.IH [OF r(2)] Cons.prems(3) have "jobs_evolve s1 (snd (place_jobs now lease js s1))" by simp
    ultimately show ?thesis
      using w n r(1) by (auto simp: split_beta intro: jobs_evolve_trans)
  qed
qed

text \<open>One round: the expired reservations are gone, the new ones stand as \<open>placed\<close> says.\<close>

lemma schedule_ok:
  assumes "sched_ok s" "require_leader c s = Inr ()" "1 \<le> lease"
  shows "\<exists>as s'. schedule c now lease s = (Inr (map to_dispatch_plan as), s') \<and> sched_ok s' \<and>
    jobs_evolve s s' \<and> set (active s') = {a \<in> set (active s). now < al_lease_expires_at a} \<union> set as \<and>
    rs_nodes s' = rs_nodes s \<and> rs_quotas s' = rs_quotas s \<and>
    (\<forall>a \<in> set as. placed now s' a \<and> al_lease_expires_at a = now + lease)"
proof -
  from recover_expired_ok [OF assms(1,2), of now] obtain js s1 where
    r: "recover_expired c now s = (Inr js, s1)" "sched_ok s1" "jobs_evolve s s1"
      "set (active s1) = {a \<in> set (active s). now < al_lease_expires_at a}"
      "rs_nodes s1 = rs_nodes s" "rs_quotas s1 = rs_quotas s" by blast
  from place_jobs_ok [OF r(2) queued_jobs_ok [OF r(2)], of now lease] obtain as s2 where
    p: "place_jobs now lease (queued_jobs s1) s1 = (Inr (map to_dispatch_plan as), s2)" "sched_ok s2"
      "active s2 = active s1 @ as" "untouched (queued_jobs s1) s1 s2"
      "\<forall>a \<in> set as. placed now s2 a \<and> al_lease_expires_at a = now + lease" by blast
  have "jobs_evolve s1 s2" using place_queue_evolves [OF r(2) queued_jobs_ok [OF r(2)], of now lease] p(1) by simp
  with r(3) have evolve: "jobs_evolve s s2" by (rule jobs_evolve_trans)
  have act: "set (active s2) = {a \<in> set (active s). now < al_lease_expires_at a} \<union> set as"
    unfolding p(3) set_append r(4) ..
  have "schedule c now lease s = (Inr (map to_dispatch_plan as), s2)"
    using assms(2,3) r(1) p(1) by (simp add: schedule_def)
  with p(2,4,5) r(5,6) evolve act show ?thesis
    unfolding untouched_def by (intro exI [of _ as] exI [of _ s2] conjI) simp_all
qed


section \<open>The scheduler as a machine\<close>

datatype sched_event =
    BecomeLeader string int
  | NodeHeartbeat node_inventory
  | Submit string string string resource_request int int
  | Schedule string int int
  | MarkRunning string string
  | Complete string string bool "string option"
  | Cancel string string
  | Recover string int

text \<open>An inventory or a request reaches the scheduler only if its constructor accepts it.\<close>

fun sched_step :: "sched_event \<Rightarrow> scheduler \<Rightarrow> scheduler" where
  "sched_step (BecomeLeader n t) s = snd (become_leader n t s)"
| "sched_step (NodeHeartbeat i) s = (case inventory_check i of Inl _ \<Rightarrow> s | Inr _ \<Rightarrow> snd (heartbeat i s))"
| "sched_step (Submit k p a r pr m) s =
     (case request_check r of Inl _ \<Rightarrow> s | Inr _ \<Rightarrow> snd (submit k p a r pr m s))"
| "sched_step (Schedule c now lease) s = snd (schedule c now lease s)"
| "sched_step (MarkRunning a c) s = snd (mark_running a c s)"
| "sched_step (Complete a c ok e) s = snd (complete a c ok e s)"
| "sched_step (Cancel k c) s = snd (cancel k c s)"
| "sched_step (Recover c now) s = snd (recover_expired c now s)"

lemma new_scheduler_ok:
  assumes "\<forall>p q. qs p = Some q \<longrightarrow> quota_check q = Inr ()"
  shows "sched_ok (new_scheduler t qs)"
proof -
  have "quota_met q []" if "qs p = Some q" for p q
    using assms that by (fastforce simp: quota_met_def quota_check_def split: if_splits)
  then show ?thesis
    by (simp add: sched_ok_def new_scheduler_def jobs_ok_def linked_def allocations_ok_def nodes_ok_def
        quotas_met_def project_allocations_def)
qed

definition good_step :: "scheduler \<Rightarrow> scheduler \<Rightarrow> bool" where
  "good_step s s' \<longleftrightarrow> sched_ok s' \<and> jobs_evolve s s' \<and> rs_quotas s' = rs_quotas s"

lemma good_step_refl: "sched_ok s \<Longrightarrow> good_step s s"
  by (simp add: good_step_def)

lemma become_leader_good: "sched_ok s \<Longrightarrow> good_step s (snd (become_leader n t s))"
  by (simp add: good_step_def become_leader_def sched_ok_def)

lemma heartbeat_good:
  assumes "sched_ok s" "inventory_check i = Inr ()"
  shows "good_step s (snd (heartbeat i s))"
proof -
  from assms have "nodes_ok (AList.update (ni_node_id i) i (rs_nodes s))"
    unfolding nodes_ok_def sched_ok_def by (auto simp: distinct_update dest: set_update_cases)
  with assms show ?thesis by (simp add: good_step_def heartbeat_def sched_ok_def)
qed


lemma linked_idle:
  assumes link: "linked js as" and new: "map_of js k = None" and idle: "\<not> is_active j"
  shows "linked (AList.update k j js) as"
  unfolding linked_def
proof (intro conjI ballI allI impI)
  fix a assume "a \<in> set as"
  with link obtain i where "map_of js (al_job_id a) = Some i" "holds a i" unfolding linked_def by blast
  with new show "\<exists>i. map_of (AList.update k j js) (al_job_id a) = Some i \<and> holds a i"
    by (auto simp: update_conv')
next
  fix k' i assume "map_of (AList.update k j js) k' = Some i" "is_active i"
  with idle have "map_of js k' = Some i" "is_active i" by (auto simp: update_conv' split: if_splits)
  with link show "\<exists>a \<in> set as. al_job_id a = k'" unfolding linked_def by blast
qed

lemma submit_good:
  assumes ok: "sched_ok s" and chk: "request_check r = Inr ()"
  shows "good_step s (snd (submit k p a r pr m s))"
proof (cases "isl (fst (submit k p a r pr m s))")
  case True
  then have "snd (submit k p a r pr m s) = s"
    by (auto simp: submit_def log_append_current Let_def split: if_splits)
  with ok show ?thesis by (simp add: good_step_refl)
next
  case False
  let ?j = "\<lparr>jb_job_id = k, jb_project = strip p, jb_action = strip a, jb_request = r, jb_priority = pr,
    jb_submitted_sequence = rs_submission_sequence s + 1, jb_max_attempts = m, jb_attempts = 0,
    jb_state = Queued, jb_last_error = None\<rparr>"
  from False have new: "map_of (rs_jobs s) k = None" "1 \<le> m"
    and jobs: "rs_jobs (snd (submit k p a r pr m s)) = AList.update k ?j (rs_jobs s)"
    and log: "\<exists>e. rs_log (snd (submit k p a r pr m s)) = rs_log s @ [e]"
    and same: "rs_allocations (snd (submit k p a r pr m s)) = rs_allocations s"
      "rs_nodes (snd (submit k p a r pr m s)) = rs_nodes s" "rs_quotas (snd (submit k p a r pr m s)) = rs_quotas s"
    by (auto simp: submit_def log_append_current Let_def split: if_splits)
  have "linked (AList.update k ?j (rs_jobs s)) (active s)"
    using ok new(1) by (intro linked_idle) (auto simp: sched_ok_def is_active_def)
  moreover have "jobs_ok (AList.update k ?j (rs_jobs s))"
    using ok chk new(2) by (intro jobs_ok_update) (auto simp: sched_ok_def job_ok_def)
  moreover have "jobs_evolve s (snd (submit k p a r pr m s))"
    using new(1) jobs by (auto simp: jobs_evolve_def update_conv')
  moreover have "allocations_ok (length (rs_log (snd (submit k p a r pr m s)))) (rs_allocations s)"
    using ok log by (auto simp: sched_ok_def intro: allocations_ok_mono)
  ultimately show ?thesis
    using ok jobs same by (simp add: good_step_def sched_ok_def)
qed

lemma mark_running_good:
  assumes "sched_ok s"
  shows "good_step s (snd (mark_running i c s))"
proof (cases "\<exists>a j. require_leader c s = Inr () \<and> map_of (rs_allocations s) i = Some a \<and>
    map_of (rs_jobs s) (al_job_id a) = Some j \<and> jb_state j = Scheduled")
  case True
  then obtain a j where aj: "require_leader c s = Inr ()" "map_of (rs_allocations s) i = Some a"
    "map_of (rs_jobs s) (al_job_id a) = Some j" "jb_state j = Scheduled" by blast
  have st: "is_active (j\<lparr>jb_state := Running\<rparr>) \<longleftrightarrow> is_active j" "Running \<noteq> Queued"
    using aj(4) by (simp_all add: is_active_def)
  obtain s' where t: "transition j Running ''running'' (Some (al_node_id a)) None s =
      (Inr (j\<lparr>jb_state := Running, jb_last_error := None\<rparr>), s')" "sched_ok s'" "rs_quotas s' = rs_quotas s"
    and jobs: "rs_jobs s' = AList.update (al_job_id a) (j\<lparr>jb_state := Running, jb_last_error := None\<rparr>) (rs_jobs s)"
    using move_job [OF assms aj(3) st, of "''running''" "Some (al_node_id a)" None] by blast
  have "jobs_evolve s s'"
    by (rule jobs_evolve_update [OF aj(3) _ jobs]) (use aj(4) in \<open>simp add: evolves_def terminal_def\<close>)
  with t aj show ?thesis
    by (simp add: mark_running_def get_allocation_def get_job_def good_step_def)
next
  case False
  with assms show ?thesis
    by (auto simp: mark_running_def get_allocation_def get_job_def good_step_refl split: sum.split option.split)
qed

lemma complete_good:
  assumes "sched_ok s"
  shows "good_step s (snd (complete i c ok er s))"
proof (cases "\<exists>a j. require_leader c s = Inr () \<and> map_of (rs_allocations s) i = Some a \<and>
    map_of (rs_jobs s) (al_job_id a) = Some j \<and> jb_state j \<in> {Scheduled, Running}")
  case True
  then obtain a j where aj: "require_leader c s = Inr ()" "map_of (rs_allocations s) i = Some a"
    "map_of (rs_jobs s) (al_job_id a) = Some j" "jb_state j \<in> {Scheduled, Running}" by blast
  from aj(2) have "(i, a) \<in> set (rs_allocations s)" by (rule map_of_SomeD)
  then have a: "a \<in> set (active s)" and i: "al_allocation_id a = i"
    using assms by (force simp: sched_ok_def allocations_ok_def)+
  let ?st = "if ok then Succeeded else Failed" and ?ev = "if ok then ''succeeded'' else ''failed''"
  have st: "\<not> is_active (j\<lparr>jb_state := ?st\<rparr>)" "?st = Queued \<Longrightarrow> jb_attempts j < jb_max_attempts j"
    by (cases ok; simp add: is_active_def)+
  obtain s' where t: "transition j ?st ?ev (Some (al_node_id a)) er s =
      (Inr (j\<lparr>jb_state := ?st, jb_last_error := er\<rparr>), s')" "sched_ok (drop_allocation i s')"
      "rs_quotas s' = rs_quotas s"
    and jobs: "rs_jobs s' = AList.update (al_job_id a) (j\<lparr>jb_state := ?st, jb_last_error := er\<rparr>) (rs_jobs s)"
    using end_reservation [OF assms a aj(3) st, of ?ev "Some (al_node_id a)" er] unfolding i by blast
  have "jobs_evolve s (drop_allocation i s')"
    by (rule jobs_evolve_update [OF aj(3), where j' = "j\<lparr>jb_state := ?st, jb_last_error := er\<rparr>"])
      (use aj(4) jobs in \<open>auto simp: evolves_def terminal_def\<close>)
  with t aj show ?thesis
    by (auto simp: complete_def get_allocation_def get_job_def good_step_def)
next
  case False
  with assms show ?thesis
    by (auto simp: complete_def get_allocation_def get_job_def good_step_refl split: sum.split option.split)
qed


lemma cancel_good:
  assumes "sched_ok s"
  shows "good_step s (snd (cancel k c s))"
proof (cases "\<exists>j. require_leader c s = Inr () \<and> map_of (rs_jobs s) k = Some j \<and>
    jb_state j \<in> {Queued, Scheduled, Running}")
  case True
  then obtain j where j: "require_leader c s = Inr ()" "map_of (rs_jobs s) k = Some j"
    "jb_state j \<in> {Queued, Scheduled, Running}" by blast
  let ?j = "j\<lparr>jb_state := Cancelled, jb_last_error := None\<rparr>"
  have off: "\<not> is_active (j\<lparr>jb_state := Cancelled\<rparr>)" "Cancelled = Queued \<Longrightarrow> jb_attempts j < jb_max_attempts j"
    by (simp_all add: is_active_def)
  have evolve: "jobs_evolve s s'" if "rs_jobs s' = AList.update k ?j (rs_jobs s)" for s'
    by (rule jobs_evolve_update [OF j(2) _ that]) (use j(3) in \<open>auto simp: evolves_def terminal_def\<close>)
  show ?thesis
  proof (cases "find (\<lambda>a. al_job_id a = k) (active s)")
    case None
    then have "\<not> is_active j"
      using assms j(2) unfolding sched_ok_def linked_def find_None_iff by blast
    with off(1) have st: "is_active (j\<lparr>jb_state := Cancelled\<rparr>) \<longleftrightarrow> is_active j" "Cancelled \<noteq> Queued" by simp_all
    obtain s' where "transition j Cancelled ''cancelled'' None None s = (Inr ?j, s')"
      "sched_ok s'" "rs_quotas s' = rs_quotas s" "rs_jobs s' = AList.update k ?j (rs_jobs s)"
      using move_job [OF assms j(2) st, of "''cancelled''" None None] by blast
    with None j evolve show ?thesis
      by (auto simp: cancel_def get_job_def good_step_def)
  next
    case (Some a)
    then have a: "a \<in> set (active s)" "al_job_id a = k" by (auto simp: find_Some_iff)
    obtain s' where "transition j Cancelled ''cancelled'' (Some (al_node_id a)) None s = (Inr ?j, s')"
      "sched_ok (drop_allocation (al_allocation_id a) s')" "rs_quotas s' = rs_quotas s"
      "rs_jobs s' = AList.update k ?j (rs_jobs s)"
      using end_reservation [OF assms a(1) _ off, of "''cancelled''" "Some (al_node_id a)" None] j(2) a(2) by blast
    with Some j evolve [of "drop_allocation (al_allocation_id a) s'"] show ?thesis
      by (auto simp: cancel_def get_job_def good_step_def)
  qed
next
  case False
  with assms show ?thesis
    by (auto simp: cancel_def get_job_def good_step_refl split: sum.split option.split)
qed

lemma schedule_good:
  assumes "sched_ok s"
  shows "good_step s (snd (schedule c now lease s))"
proof (cases "require_leader c s = Inr () \<and> 1 \<le> lease")
  case True
  with schedule_ok [OF assms, of c lease now] show ?thesis by (auto simp: good_step_def)
next
  case False
  with assms show ?thesis by (auto simp: schedule_def good_step_refl split: sum.split)
qed

lemma recover_expired_good:
  assumes "sched_ok s"
  shows "good_step s (snd (recover_expired c now s))"
proof (cases "require_leader c s = Inr ()")
  case True
  with recover_expired_ok [OF assms True, of now] show ?thesis by (auto simp: good_step_def)
next
  case False
  with assms show ?thesis by (auto simp: recover_expired_def good_step_refl split: sum.split)
qed

lemmas operations_good = good_step_refl become_leader_good heartbeat_good submit_good schedule_good
  mark_running_good complete_good cancel_good recover_expired_good

lemma sched_step_good: "sched_ok s \<Longrightarrow> good_step s (sched_step e s)"
  by (cases e) (auto intro: operations_good split: sum.split)

definition sched_start :: "scheduler \<Rightarrow> bool" where
  "sched_start s \<longleftrightarrow>
     (\<exists>t qs. s = new_scheduler t qs \<and> (\<forall>p q. qs p = Some q \<longrightarrow> quota_check q = Inr ()))"

interpretation sched: machine sched_start sched_step sched_ok
  by unfold_locales (use new_scheduler_ok sched_step_good in \<open>auto simp: sched_start_def good_step_def\<close>)

lemma run_evolves:
  "sched_ok s \<Longrightarrow> jobs_evolve s (fold sched_step es s) \<and> rs_quotas (fold sched_step es s) = rs_quotas s"
proof (induction es arbitrary: s)
  case (Cons e es)
  with sched_step_good [OF Cons.prems, of e] show ?case
    by (auto simp: good_step_def intro: jobs_evolve_trans)
qed simp


section \<open>Properties\<close>

definition demo_request :: resource_request where
  "demo_request = \<lparr>rq_cpu_cores = 1, rq_memory_mb = 10, rq_gpu_count = 0, rq_gpu_class = None,
     rq_wall_time_seconds = 60, rq_numa_node = None, rq_cpu_affinity = [], rq_required_labels = {}\<rparr>"

definition demo_node :: node_inventory where
  "demo_node = \<lparr>ni_node_id = ''n'', ni_cpu_ids = [0, 1], ni_memory_mb = 100, ni_gpus = [],
     ni_numa_cpus = [], ni_labels = {}, ni_heartbeat_at = 0\<rparr>"

definition demo_quota :: project_quota where
  "demo_quota = \<lparr>pq_jobs = 2, pq_cpu_cores = 4, pq_memory_mb = 50, pq_gpu_count = 0\<rparr>"

definition demo_start :: scheduler where
  "demo_start = new_scheduler 30 [''p'' \<mapsto> demo_quota]"

definition demo_events :: "sched_event list" where
  "demo_events = [BecomeLeader ''L'' 1, NodeHeartbeat demo_node, Submit ''task-1'' ''p'' ''a'' demo_request 0 2,
     Submit ''task-2'' ''p'' ''a'' demo_request 9 2, Submit ''task-3'' ''p'' ''a'' demo_request 5 2,
     Schedule ''L'' 0 30]"

lemma demo_start_ok: "sched_start demo_start"
  by (auto simp: sched_start_def demo_start_def quota_check_def demo_quota_def split: if_splits
      intro!: exI [of _ "30 :: int"] exI [of _ "[''p'' \<mapsto> demo_quota]"])

text \<open>
  Property C3. In every state the scheduler can reach, two different reservations have different
  identifiers and different jobs, and on one node they share no CPU and no GPU.
\<close>
theorem no_resource_reserved_twice:
  assumes "sched_start s0" "s = fold sched_step es s0"
    and "a \<in> set (dict_values (rs_allocations s))" "b \<in> set (dict_values (rs_allocations s))" "a \<noteq> b"
  shows "al_allocation_id a \<noteq> al_allocation_id b \<and> al_job_id a \<noteq> al_job_id b \<and>
    (al_node_id a = al_node_id b \<longrightarrow>
       set (al_cpu_ids a) \<inter> set (al_cpu_ids b) = {} \<and> set (al_gpu_ids a) \<inter> set (al_gpu_ids b) = {})"
  using no_clash_active [OF sched.ok_run [OF assms(1), of es, folded assms(2)] assms(3-5)]
  by (simp add: no_clash_def)

theorem no_resource_reserved_twice_witness:
  "\<exists>a b. dict_values (rs_allocations (fold sched_step demo_events demo_start)) = [a, b] \<and>
     al_cpu_ids a \<noteq> al_cpu_ids b"
proof -
  have two: "map (\<lambda>a. (al_allocation_id a, al_node_id a, al_cpu_ids a))
      (dict_values (rs_allocations (fold sched_step demo_events demo_start))) =
    [(''allocation-4'', ''n'', [0]), (''allocation-5'', ''n'', [1])]" by code_simp
  then obtain a b where ab: "dict_values (rs_allocations (fold sched_step demo_events demo_start)) = [a, b]"
    "al_allocation_id a = ''allocation-4''" "al_allocation_id b = ''allocation-5''"
    "al_node_id a = al_node_id b" "al_cpu_ids a = [0]"
    by (auto simp: map_eq_Cons_conv)
  then have "a \<in> set (dict_values (rs_allocations (fold sched_step demo_events demo_start)))"
    "b \<in> set (dict_values (rs_allocations (fold sched_step demo_events demo_start)))" "a \<noteq> b"
    by auto
  from no_resource_reserved_twice [OF demo_start_ok refl this] ab(4)
  have "set (al_cpu_ids a) \<inter> set (al_cpu_ids b) = {}" by simp
  then have "al_cpu_ids a \<noteq> al_cpu_ids b" using ab(5) by (cases "al_cpu_ids b = [0]") auto
  with ab(1) show ?thesis by (intro exI [of _ a] exI [of _ b] conjI)
qed

text \<open>
  Property C30. In every state the scheduler can reach, the reservations of a project with a quota
  stay within it: their number, and the sums of their CPUs, their memory and their GPUs.
\<close>
theorem quotas_always_met:
  assumes "sched_start s0" "s = fold sched_step es s0" "rs_quotas s0 p = Some q"
    and "mine = filter (\<lambda>a. al_project a = p) (dict_values (rs_allocations s))"
  shows "int (length mine) \<le> pq_jobs q \<and>
    sum_list (map (\<lambda>a. int (length (al_cpu_ids a))) mine) \<le> pq_cpu_cores q \<and>
    sum_list (map al_memory_mb mine) \<le> pq_memory_mb q \<and>
    sum_list (map (\<lambda>a. int (length (al_gpu_ids a))) mine) \<le> pq_gpu_count q"
proof -
  have ok: "sched_ok s" unfolding assms(2) using assms(1) by (rule sched.ok_run)
  have "rs_quotas s = rs_quotas s0"
    using run_evolves [OF sched.ok_start [OF assms(1)], of es] by (simp add: assms(2))
  with ok assms(3) show ?thesis
    by (simp add: sched_ok_def quotas_met_def quota_met_def project_allocations_def assms(4))
qed

theorem quotas_always_met_witness:
  "sum_list (map al_memory_mb (filter (\<lambda>a. al_project a = ''p'')
     (dict_values (rs_allocations (fold sched_step demo_events demo_start))))) \<le> 50"
proof -
  have "rs_quotas demo_start ''p'' = Some demo_quota" by (simp add: demo_start_def new_scheduler_def)
  from quotas_always_met [OF demo_start_ok refl this refl, of demo_events] show ?thesis
    by (simp add: demo_quota_def)
qed


text \<open>
  A scheduling round of the leader in a reachable state never raises.  Afterwards the
  live reservations are those whose lease had not expired and the new ones; every new one lasts the
  lease time and is on a node that still sends heartbeats, has the job's labels, offers every CPU and
  GPU assigned, and has no more memory reserved than it has.
\<close>
theorem scheduling_round_places_what_fits:
  assumes "sched_start s0" "s = fold sched_step es s0" "rs_leader_id s = Some c" "1 \<le> lease"
  shows "\<exists>as s'. schedule c now lease s = (Inr (map to_dispatch_plan as), s') \<and>
    set (dict_values (rs_allocations s')) =
      {a \<in> set (dict_values (rs_allocations s)). now < al_lease_expires_at a} \<union> set as \<and>
    (\<forall>a \<in> set as. placed now s' a \<and> al_lease_expires_at a = now + lease)"
proof -
  have ok: "sched_ok s" unfolding assms(2) using assms(1) by (rule sched.ok_run)
  have "require_leader c s = Inr ()" using assms(3) by (simp add: require_leader_def)
  from schedule_ok [OF ok this assms(4), of now] show ?thesis by blast
qed

theorem scheduling_round_places_what_fits_witness:
  "\<exists>as s'. schedule ''L'' 0 30 (fold sched_step (take 5 demo_events) demo_start) =
     (Inr (map to_dispatch_plan as), s') \<and> (\<forall>a \<in> set as. placed 0 s' a)"
proof -
  have "rs_leader_id (fold sched_step (take 5 demo_events) demo_start) = Some ''L''" by code_simp
  from scheduling_round_places_what_fits [OF demo_start_ok refl this, of 30 0] show ?thesis by auto
qed

text \<open>
  In every reachable state a job is scheduled or running exactly when one and only one
  reservation is its own, it has never had more attempts than allowed, and once it has succeeded,
  failed or been cancelled no later operation changes it.
\<close>
theorem job_lifecycle:
  assumes "sched_start s0" "s = fold sched_step es s0" "map_of (rs_jobs s) k = Some j"
  shows "(jb_state j \<in> {Scheduled, Running} \<longleftrightarrow>
      (\<exists>!a. a \<in> set (dict_values (rs_allocations s)) \<and> al_job_id a = k)) \<and>
    jb_attempts j \<le> jb_max_attempts j \<and>
    (jb_state j \<in> {Succeeded, Failed, Cancelled} \<longrightarrow>
       map_of (rs_jobs (fold sched_step fs s)) k = Some j)"
proof -
  have ok: "sched_ok s" unfolding assms(2) using assms(1) by (rule sched.ok_run)
  then have link: "linked (rs_jobs s) (active s)" and jok: "job_ok k j"
    using assms(3) by (auto simp: sched_ok_def jobs_ok_def)
  have one: "a = b" if "a \<in> set (active s)" "b \<in> set (active s)" "al_job_id a = al_job_id b" for a b
    using no_clash_active [OF ok that(1,2)] that(3) by (auto simp: no_clash_def)
  have "is_active j \<longleftrightarrow> (\<exists>a. a \<in> set (active s) \<and> al_job_id a = k)"
    using link assms(3) unfolding linked_def holds_def by fastforce
  with one have "is_active j \<longleftrightarrow> (\<exists>!a. a \<in> set (active s) \<and> al_job_id a = k)" by metis
  moreover have "map_of (rs_jobs (fold sched_step fs s)) k = Some j" if "terminal j"
    using run_evolves [OF ok, of fs] assms(3) that by (auto simp: jobs_evolve_def evolves_def)
  ultimately show ?thesis
    using jok by (auto simp: is_active_def terminal_def job_ok_def)
qed

theorem job_lifecycle_witness:
  "\<exists>j. map_of (rs_jobs (fold sched_step demo_events demo_start)) ''task-1'' = Some j \<and>
     jb_attempts j \<le> jb_max_attempts j"
proof -
  have "map_option jb_attempts (map_of (rs_jobs (fold sched_step demo_events demo_start)) ''task-1'') = Some 0"
    by code_simp
  then obtain j where j: "map_of (rs_jobs (fold sched_step demo_events demo_start)) ''task-1'' = Some j" by auto
  from job_lifecycle [OF demo_start_ok refl j] j show ?thesis by blast
qed

text \<open>
  The gap the lab's README admits: an explicit CPU affinity is not checked against the
  CPUs of the node.  A job whose affinity names CPU 7 alone is placed on a node whose CPUs are 0 and
  1, and the dispatch plan tells that node to run it on CPU 7.
\<close>
theorem affinity_outside_the_node_is_placed:
  "(let s = fold sched_step [BecomeLeader ''L'' 1, NodeHeartbeat demo_node,
        Submit ''task-1'' ''p'' ''a'' (demo_request\<lparr>rq_cpu_affinity := [7]\<rparr>) 0 1] demo_start;
      (plans, s') = schedule ''L'' 0 30 s
    in (case plans of Inl _ \<Rightarrow> [] | Inr ps \<Rightarrow> map dp_cpu_set ps) = [''7''] \<and>
       map (\<lambda>a. (al_node_id a, al_cpu_ids a)) (dict_values (rs_allocations s')) = [(''n'', [7])] \<and>
       ni_node_id demo_node = ''n'' \<and> 7 \<notin> set (ni_cpu_ids demo_node))"
  by code_simp

end
