(* ===== verification/ReplicatedLog.thy ===== *)
theory ReplicatedLog
  imports Partition
begin

text \<open>
  Lab 25, \<open>lab_25_replicated_log/simulation.py\<close>: the relay task state machine, a node with its log,
  and the cluster that elects leaders and replicates commands.  A node replaces its log by the
  leader's; the entries up to its commit index are applied in order, and a command the state machine
  refuses is recorded and passed over.  \<open>last_applied\<close> counts up from 0 and is a \<open>nat\<close>; reading
  the log past its end is an \<open>IndexError\<close>, as in the source.
\<close>

section \<open>Data\<close>

datatype node_role = FOLLOWER | CANDIDATE | LEADER

datatype relay_task_status = QUEUED | RUNNING | COMPLETED

record relay_task =
  rt_task_id :: string
  rt_queue :: string
  rt_status :: relay_task_status
  rt_created_tick :: int
  rt_worker_id :: "string option"
  rt_attempt :: int
  rt_completed_tick :: "int option"

datatype relay_command =
    EnqueueTask string string int
  | StartTask string string int
  | CompleteTask string string int

definition clock_tick :: "int \<Rightarrow> int \<Rightarrow> int res" where
  "clock_tick tick steps =
     (if steps < 1 then Inl (ValueError ''steps must be positive'') else Inr (tick + steps))"

record log_entry =
  le_index :: int
  le_term :: int
  le_command :: relay_command

datatype log_position = LogPosition (lp_term: int) (lp_index: int)

definition position_le :: "log_position \<Rightarrow> log_position \<Rightarrow> bool" where
  "position_le p q \<longleftrightarrow> lp_term p < lp_term q \<or> lp_term p = lp_term q \<and> lp_index p \<le> lp_index q"

record persistent_node_state =
  ps_current_term :: int
  ps_voted_for :: "node_id option"
  ps_log :: "log_entry list"
  ps_commit_index :: int

record request_vote =
  rv_term :: int
  rv_candidate_id :: node_id
  rv_last_log_position :: log_position

record vote_response =
  vr_term :: int
  vr_voter_id :: node_id
  vr_granted :: bool

record append_request =
  aq_term :: int
  aq_leader_id :: node_id
  aq_log_entries :: "log_entry list"
  aq_leader_commit :: int

record append_response =
  ar_term :: int
  ar_follower_id :: node_id
  ar_success :: bool
  ar_match_index :: int

record command_result =
  cr_leader_id :: node_id
  cr_index :: int
  cr_term :: int
  cr_committed :: bool
  cr_replicated_to :: "node_id list"
  cr_rejection :: "string option"

section \<open>The task state machine\<close>

record task_machine =
  tm_tasks :: "string \<rightharpoonup> relay_task"
  tm_history :: "relay_command list"

definition new_task_machine :: task_machine where
  "new_task_machine = \<lparr>tm_tasks = Map.empty, tm_history = []\<rparr>"

definition require_task :: "string \<Rightarrow> task_machine \<Rightarrow> relay_task res" where
  "require_task task_id m =
     (case tm_tasks m task_id of
        None \<Rightarrow> Inl (StateMachineError (task_id @ '' does not exist'')) | Some t \<Rightarrow> Inr t)"

fun command_task :: "relay_command \<Rightarrow> task_machine \<Rightarrow> (string \<times> relay_task) res" where
  "command_task (EnqueueTask task_id queue created_tick) m =
     (if tm_tasks m task_id \<noteq> None then Inl (StateMachineError (task_id @ '' already exists''))
      else Inr (task_id, \<lparr>rt_task_id = task_id, rt_queue = queue, rt_status = QUEUED,
             rt_created_tick = created_tick, rt_worker_id = None, rt_attempt = 0, rt_completed_tick = None\<rparr>))"
| "command_task (StartTask task_id worker_id attempt) m =
     (case require_task task_id m of
        Inl e \<Rightarrow> Inl e
      | Inr task \<Rightarrow>
          if rt_status task \<noteq> QUEUED then Inl (StateMachineError (task_id @ '' is not queued''))
          else Inr (task_id, \<lparr>rt_task_id = rt_task_id task, rt_queue = rt_queue task, rt_status = RUNNING,
                 rt_created_tick = rt_created_tick task, rt_worker_id = Some worker_id,
                 rt_attempt = attempt, rt_completed_tick = None\<rparr>))"
| "command_task (CompleteTask task_id worker_id completed_tick) m =
     (case require_task task_id m of
        Inl e \<Rightarrow> Inl e
      | Inr task \<Rightarrow>
          if rt_status task \<noteq> RUNNING then Inl (StateMachineError (task_id @ '' is not running''))
          else if rt_worker_id task \<noteq> Some worker_id
          then Inl (StateMachineError (task_id @ '' is owned by '' @
                 (case rt_worker_id task of None \<Rightarrow> ''None'' | Some w \<Rightarrow> w)))
          else Inr (task_id, \<lparr>rt_task_id = rt_task_id task, rt_queue = rt_queue task, rt_status = COMPLETED,
                 rt_created_tick = rt_created_tick task, rt_worker_id = rt_worker_id task,
                 rt_attempt = rt_attempt task, rt_completed_tick = Some completed_tick\<rparr>))"

definition apply_command :: "relay_command \<Rightarrow> task_machine \<Rightarrow> unit res \<times> task_machine" where
  "apply_command command m =
     (case command_task command m of
        Inl e \<Rightarrow> (Inl e, m)
      | Inr (task_id, task) \<Rightarrow>
          (Inr (), m\<lparr>tm_tasks := (tm_tasks m)(task_id \<mapsto> task), tm_history := tm_history m @ [command]\<rparr>))"

section \<open>One node\<close>

record log_node =
  ln_node_id :: node_id
  ln_peers :: "node_id list"
  ln_state :: persistent_node_state
  ln_role :: node_role
  ln_leader_id :: "node_id option"
  ln_running :: bool
  ln_state_machine :: task_machine
  ln_last_applied :: nat
  ln_match_index_by_peer :: "(node_id \<times> int) list"
  ln_rejections :: "int \<rightharpoonup> string"

definition current_term :: "log_node \<Rightarrow> int" where
  "current_term n = ps_current_term (ln_state n)"

definition voted_for :: "log_node \<Rightarrow> node_id option" where
  "voted_for n = ps_voted_for (ln_state n)"

definition node_log :: "log_node \<Rightarrow> log_entry list" where
  "node_log n = ps_log (ln_state n)"

definition commit_index :: "log_node \<Rightarrow> int" where
  "commit_index n = ps_commit_index (ln_state n)"

definition last_log_position :: "log_node \<Rightarrow> log_position" where
  "last_log_position n =
     (if node_log n = [] then LogPosition 0 0
      else LogPosition (le_term (last (node_log n))) (le_index (last (node_log n))))"

definition set_commit :: "int \<Rightarrow> log_node \<Rightarrow> log_node" where
  "set_commit i n = n\<lparr>ln_state := (ln_state n)\<lparr>ps_commit_index := i\<rparr>\<rparr>"

text \<open>One turn of the loop of \<open>apply_committed_entries\<close>.\<close>

definition apply_next :: "log_entry \<Rightarrow> log_node \<Rightarrow> log_node" where
  "apply_next entry n =
     (case apply_command (le_command entry) (ln_state_machine n) of
        (Inl (StateMachineError rejection), m) \<Rightarrow>
          n\<lparr>ln_state_machine := m, ln_rejections := (ln_rejections n)(le_index entry \<mapsto> rejection),
            ln_last_applied := ln_last_applied n + 1\<rparr>
      | (_, m) \<Rightarrow> n\<lparr>ln_state_machine := m, ln_last_applied := ln_last_applied n + 1\<rparr>)"

lemma apply_next_frame [simp]:
  "ln_state (apply_next e n) = ln_state n" "ln_last_applied (apply_next e n) = ln_last_applied n + 1"
  "ln_node_id (apply_next e n) = ln_node_id n" "ln_peers (apply_next e n) = ln_peers n"
  "ln_role (apply_next e n) = ln_role n" "ln_running (apply_next e n) = ln_running n"
  "ln_match_index_by_peer (apply_next e n) = ln_match_index_by_peer n"
  by (auto simp: apply_next_def split: prod.split sum.split exn.split)

function apply_committed_entries :: "log_node \<Rightarrow> unit res \<times> log_node" where
  "apply_committed_entries n =
     (if int (ln_last_applied n) < commit_index n
      then if ln_last_applied n < length (node_log n)
           then apply_committed_entries (apply_next (node_log n ! ln_last_applied n) n)
           else (Inl IndexError, n)
      else (Inr (), n))"
  by pat_completeness auto
termination
  by (relation "measure (\<lambda>n. nat (commit_index n - int (ln_last_applied n)))") (auto simp: commit_index_def)

declare apply_committed_entries.simps [simp del]

definition rejection_for :: "log_node \<Rightarrow> int \<Rightarrow> string option" where
  "rejection_for n index = ln_rejections n index"

definition rebuild_state_machine :: "log_node \<Rightarrow> unit res \<times> log_node" where
  "rebuild_state_machine n =
     apply_committed_entries
       (set_commit (min (commit_index n) (int (length (node_log n))))
         (n\<lparr>ln_state_machine := new_task_machine, ln_rejections := Map.empty, ln_last_applied := 0\<rparr>))"

definition restart :: "log_node \<Rightarrow> unit res \<times> log_node" where
  "restart n =
     rebuild_state_machine
       (n\<lparr>ln_running := True, ln_role := FOLLOWER, ln_leader_id := None, ln_match_index_by_peer := []\<rparr>)"

definition crash :: "log_node \<Rightarrow> log_node" where
  "crash n = n\<lparr>ln_running := False, ln_role := FOLLOWER, ln_leader_id := None, ln_match_index_by_peer := []\<rparr>"

definition observe_higher_term :: "int \<Rightarrow> log_node \<Rightarrow> log_node" where
  "observe_higher_term t n =
     (if t \<le> current_term n then n
      else n\<lparr>ln_state := (ln_state n)\<lparr>ps_current_term := t, ps_voted_for := None\<rparr>,
             ln_role := FOLLOWER, ln_leader_id := None, ln_match_index_by_peer := []\<rparr>)"

definition start_election :: "log_node \<Rightarrow> request_vote \<times> log_node" where
  "start_election n =
     (let n' = n\<lparr>ln_state := (ln_state n)\<lparr>ps_current_term := current_term n + 1,
                     ps_voted_for := Some (ln_node_id n)\<rparr>,
                 ln_role := CANDIDATE, ln_leader_id := None\<rparr>
      in (\<lparr>rv_term = current_term n', rv_candidate_id = ln_node_id n',
           rv_last_log_position = last_log_position n'\<rparr>, n'))"

definition receive_vote_request :: "request_vote \<Rightarrow> log_node \<Rightarrow> vote_response \<times> log_node" where
  "receive_vote_request req n =
     (if rv_term req < current_term n
      then (\<lparr>vr_term = current_term n, vr_voter_id = ln_node_id n, vr_granted = False\<rparr>, n)
      else
        let n1 = (if current_term n < rv_term req then observe_higher_term (rv_term req) n else n);
            can_vote = (voted_for n1 = None \<or> voted_for n1 = Some (rv_candidate_id req));
            up_to_date = position_le (last_log_position n1) (rv_last_log_position req);
            granted = (can_vote \<and> up_to_date);
            n2 = (if granted
                  then n1\<lparr>ln_state := (ln_state n1)\<lparr>ps_voted_for := Some (rv_candidate_id req)\<rparr>,
                          ln_role := FOLLOWER, ln_leader_id := None\<rparr>
                  else n1)
        in (\<lparr>vr_term = current_term n2, vr_voter_id = ln_node_id n2, vr_granted = granted\<rparr>, n2))"

text \<open>The length of the common prefix of the leader's log and the local one.\<close>

fun shared_prefix :: "'a list \<Rightarrow> 'a list \<Rightarrow> nat" where
  "shared_prefix (x # xs) (y # ys) = (if x = y then shared_prefix xs ys + 1 else 0)"
| "shared_prefix _ _ = 0"

definition replace_log :: "log_entry list \<Rightarrow> log_node \<Rightarrow> unit res \<times> log_node" where
  "replace_log authoritative_log n =
     (let k = shared_prefix authoritative_log (node_log n);
          new_log = take k (node_log n) @ drop k authoritative_log;
          n1 = n\<lparr>ln_state := (ln_state n)\<lparr>ps_log := new_log\<rparr>\<rparr>;
          n2 = (if int (length (node_log n1)) < commit_index n1
                then set_commit (int (length (node_log n1))) n1 else n1)
      in if commit_index n2 < int (ln_last_applied n2) then rebuild_state_machine n2 else (Inr (), n2))"

definition receive_append_entries :: "append_request \<Rightarrow> log_node \<Rightarrow> append_response res \<times> log_node" where
  "receive_append_entries req n =
     (if aq_term req < current_term n
      then (Inr \<lparr>ar_term = current_term n, ar_follower_id = ln_node_id n, ar_success = False,
              ar_match_index = lp_index (last_log_position n)\<rparr>, n)
      else
        let n1 = (if current_term n < aq_term req then observe_higher_term (aq_term req) n else n);
            n2 = n1\<lparr>ln_role := FOLLOWER, ln_leader_id := Some (aq_leader_id req)\<rparr>
        in case replace_log (aq_log_entries req) n2 of
             (Inl e, n3) \<Rightarrow> (Inl e, n3)
           | (Inr _, n3) \<Rightarrow>
               (case apply_committed_entries
                       (set_commit (min (aq_leader_commit req) (int (length (node_log n3)))) n3) of
                  (Inl e, n4) \<Rightarrow> (Inl e, n4)
                | (Inr _, n4) \<Rightarrow>
                    (Inr \<lparr>ar_term = current_term n4, ar_follower_id = ln_node_id n4, ar_success = True,
                       ar_match_index = lp_index (last_log_position n4)\<rparr>, n4)))"

text \<open>\<open>setdefault\<close>: the first value under a key stays.\<close>

definition set_default :: "'k \<Rightarrow> 'v \<Rightarrow> ('k \<times> 'v) list \<Rightarrow> ('k \<times> 'v) list" where
  "set_default k v d = (if map_of d k = None then AList.update k v d else d)"

definition become_leader :: "log_node \<Rightarrow> log_node" where
  "become_leader n =
     n\<lparr>ln_role := LEADER, ln_leader_id := Some (ln_node_id n),
       ln_match_index_by_peer :=
         fold (\<lambda>p d. set_default p 0 d) (ln_peers n) [(ln_node_id n, lp_index (last_log_position n))]\<rparr>"

definition append_local_entry :: "relay_command \<Rightarrow> log_node \<Rightarrow> log_entry \<times> log_node" where
  "append_local_entry command n =
     (let entry = \<lparr>le_index = int (length (node_log n)) + 1, le_term = current_term n, le_command = command\<rparr>
      in (entry, n\<lparr>ln_state := (ln_state n)\<lparr>ps_log := node_log n @ [entry]\<rparr>,
            ln_match_index_by_peer := AList.update (ln_node_id n) (le_index entry) (ln_match_index_by_peer n)\<rparr>))"


definition new_log_node :: "node_id list \<Rightarrow> node_id \<Rightarrow> log_node" where
  "new_log_node unique_nodes n =
     snd (rebuild_state_machine
       \<lparr>ln_node_id = n, ln_peers = filter (\<lambda>p. p \<noteq> n) unique_nodes,
        ln_state = \<lparr>ps_current_term = 0, ps_voted_for = None, ps_log = [], ps_commit_index = 0\<rparr>,
        ln_role = FOLLOWER, ln_leader_id = None, ln_running = True, ln_state_machine = new_task_machine,
        ln_last_applied = 0, ln_match_index_by_peer = [], ln_rejections = Map.empty\<rparr>)"

section \<open>The cluster\<close>

record relay_cluster =
  cl_partition :: partition_map
  cl_leader_by_term :: "int \<rightharpoonup> node_id"
  cl_nodes :: "(node_id \<times> log_node) list"

definition new_relay_cluster :: "node_id list \<Rightarrow> relay_cluster res" where
  "new_relay_cluster node_ids =
     (let unique_nodes = from_keys node_ids
      in if length unique_nodes < 3 then Inl (ValueError ''at least three nodes are required'')
         else Inr \<lparr>cl_partition = healed unique_nodes, cl_leader_by_term = Map.empty,
                cl_nodes = map (\<lambda>n. (n, new_log_node unique_nodes n)) unique_nodes\<rparr>)"

definition majority :: "relay_cluster \<Rightarrow> nat" where
  "majority c = length (cl_nodes c) div 2 + 1"

definition node :: "relay_cluster \<Rightarrow> node_id \<Rightarrow> log_node res" where
  "node c n =
     (case map_of (cl_nodes c) n of
        None \<Rightarrow> Inl (ValueError (''unknown node '' @ n)) | Some x \<Rightarrow> Inr x)"

text \<open>Changing the object that the cluster's dictionary holds under a name.\<close>

definition modify :: "node_id \<Rightarrow> (log_node \<Rightarrow> log_node) \<Rightarrow> relay_cluster \<Rightarrow> relay_cluster" where
  "modify n f c = c\<lparr>cl_nodes := AList.map_entry n f (cl_nodes c)\<rparr>"

definition set_partition :: "node_id list list \<Rightarrow> relay_cluster \<Rightarrow> unit res \<times> relay_cluster" where
  "set_partition gs c =
     (case from_groups (dict_keys (cl_nodes c)) gs of
        Inl e \<Rightarrow> (Inl e, c) | Inr p \<Rightarrow> (Inr (), c\<lparr>cl_partition := p\<rparr>))"

definition heal :: "relay_cluster \<Rightarrow> relay_cluster" where
  "heal c = c\<lparr>cl_partition := healed (dict_keys (cl_nodes c))\<rparr>"

definition crash_node :: "node_id \<Rightarrow> relay_cluster \<Rightarrow> unit res \<times> relay_cluster" where
  "crash_node n c =
     (case node c n of Inl e \<Rightarrow> (Inl e, c) | Inr _ \<Rightarrow> (Inr (), modify n crash c))"

definition restart_node :: "node_id \<Rightarrow> relay_cluster \<Rightarrow> log_node res \<times> relay_cluster" where
  "restart_node n c =
     (case node c n of
        Inl e \<Rightarrow> (Inl e, c)
      | Inr x \<Rightarrow> (let (r, x') = restart x in (case r of Inl e \<Rightarrow> Inl e | Inr _ \<Rightarrow> Inr x', modify n (\<lambda>_. x') c)))"

definition require_running_node :: "relay_cluster \<Rightarrow> node_id \<Rightarrow> log_node res" where
  "require_running_node c n =
     (case node c n of
        Inl e \<Rightarrow> Inl e
      | Inr x \<Rightarrow> if \<not> ln_running x then Inl (ValueError (n @ '' is crashed'')) else Inr x)"

fun running_among :: "relay_cluster \<Rightarrow> node_id list \<Rightarrow> node_id list res" where
  "running_among c [] = Inr []"
| "running_among c (p # ps) =
     (case node c p of
        Inl e \<Rightarrow> Inl e
      | Inr x \<Rightarrow> (case running_among c ps of
                    Inl e \<Rightarrow> Inl e
                  | Inr qs \<Rightarrow> Inr (if ln_running x then p # qs else qs)))"

definition reachable_peers :: "relay_cluster \<Rightarrow> node_id \<Rightarrow> node_id list res" where
  "reachable_peers c n =
     (case reachable_from (cl_partition c) n of
        Inl e \<Rightarrow> Inl e
      | Inr ns \<Rightarrow> running_among c (filter (\<lambda>p. p \<noteq> n) ns))"

definition record_leader :: "log_node \<Rightarrow> relay_cluster \<Rightarrow> unit res \<times> relay_cluster" where
  "record_leader x c =
     (if (case cl_leader_by_term c (current_term x) of None \<Rightarrow> False | Some existing \<Rightarrow> existing \<noteq> ln_node_id x)
      then (Inl (LeadershipConflict (''term '' @ show_int (current_term x) @ '' already led by '' @
              the (cl_leader_by_term c (current_term x)) @ '', not '' @ ln_node_id x)), c)
      else (Inr (), c\<lparr>cl_leader_by_term := (cl_leader_by_term c)(current_term x \<mapsto> ln_node_id x)\<rparr>))"

text \<open>The vote loop stops at the first response with a higher term.\<close>

fun collect_votes ::
    "node_id \<Rightarrow> request_vote \<Rightarrow> node_id list \<Rightarrow> node_id set \<Rightarrow> relay_cluster
     \<Rightarrow> node_id set res \<times> relay_cluster" where
  "collect_votes cand req [] granted_by c = (Inr granted_by, c)"
| "collect_votes cand req (peer_id # peers) granted_by c =
     (case node c peer_id of
        Inl e \<Rightarrow> (Inl e, c)
      | Inr peer \<Rightarrow>
          let (response, peer') = receive_vote_request req peer;
              c1 = modify peer_id (\<lambda>_. peer') c
          in case node c1 cand of
               Inl e \<Rightarrow> (Inl e, c1)
             | Inr x \<Rightarrow>
                 if current_term x < vr_term response
                 then (Inr granted_by, modify cand (observe_higher_term (vr_term response)) c1)
                 else collect_votes cand req peers
                   (if vr_granted response then insert peer_id granted_by else granted_by) c1)"

definition role_of :: "relay_cluster \<Rightarrow> node_id \<Rightarrow> node_role res" where
  "role_of c n = (case node c n of Inl e \<Rightarrow> Inl e | Inr x \<Rightarrow> Inr (ln_role x))"

definition trigger_timeout :: "node_id \<Rightarrow> relay_cluster \<Rightarrow> node_role res \<times> relay_cluster" where
  "trigger_timeout n c =
     (case require_running_node c n of
        Inl e \<Rightarrow> (Inl e, c)
      | Inr x \<Rightarrow>
          let (request, x1) = start_election x;
              c1 = modify n (\<lambda>_. x1) c
          in case reachable_peers c1 n of
               Inl e \<Rightarrow> (Inl e, c1)
             | Inr peers \<Rightarrow>
                 (case collect_votes n request peers {n} c1 of
                    (Inl e, c2) \<Rightarrow> (Inl e, c2)
                  | (Inr granted_by, c2) \<Rightarrow>
                      if majority c2 \<le> card granted_by
                      then let c3 = modify n become_leader c2
                           in case node c3 n of
                                Inl e \<Rightarrow> (Inl e, c3)
                              | Inr x3 \<Rightarrow>
                                  (case record_leader x3 c3 of
                                     (Inl e, c4) \<Rightarrow> (Inl e, c4)
                                   | (Inr _, c4) \<Rightarrow> (role_of c4 n, c4))
                      else (role_of c2 n, c2)))"

text \<open>
  The loop of \<open>replicate_from_leader\<close>: the request is fixed before it; a response with a higher term
  makes the leader step down, and the loop goes on.
\<close>

definition note_response :: "append_response \<Rightarrow> node_id \<Rightarrow> log_node \<Rightarrow> log_node" where
  "note_response response peer_id leader =
     (if current_term leader < ar_term response then observe_higher_term (ar_term response) leader
      else leader\<lparr>ln_match_index_by_peer :=
             AList.update peer_id (ar_match_index response) (ln_match_index_by_peer leader)\<rparr>)"

fun replicate_peers ::
    "node_id \<Rightarrow> append_request \<Rightarrow> node_id list \<Rightarrow> relay_cluster \<Rightarrow> append_response list res \<times> relay_cluster" where
  "replicate_peers leader_id req [] c = (Inr [], c)"
| "replicate_peers leader_id req (peer_id # peers) c =
     (case node c peer_id of
        Inl e \<Rightarrow> (Inl e, c)
      | Inr follower \<Rightarrow>
          (case receive_append_entries req follower of
             (Inl e, f) \<Rightarrow> (Inl e, modify peer_id (\<lambda>_. f) c)
           | (Inr response, f) \<Rightarrow>
               let c1 = modify leader_id (note_response response peer_id) (modify peer_id (\<lambda>_. f) c);
                   (r, c2) = replicate_peers leader_id req peers c1
               in (case r of Inl e \<Rightarrow> Inl e | Inr rs \<Rightarrow> Inr (response # rs), c2)))"

definition replicate_from_leader :: "node_id \<Rightarrow> relay_cluster \<Rightarrow> append_response list res \<times> relay_cluster" where
  "replicate_from_leader leader_id c =
     (case require_running_node c leader_id of
        Inl e \<Rightarrow> (Inl e, c)
      | Inr leader \<Rightarrow>
          if ln_role leader \<noteq> LEADER then (Inl (ValueError (leader_id @ '' is not the current leader'')), c)
          else case reachable_peers c leader_id of
            Inl e \<Rightarrow> (Inl e, c)
          | Inr peers \<Rightarrow>
              (case replicate_peers leader_id
                      \<lparr>aq_term = current_term leader, aq_leader_id = leader_id,
                       aq_log_entries = node_log leader, aq_leader_commit = commit_index leader\<rparr> peers c of
                 (Inl e, c1) \<Rightarrow> (Inl e, c1)
               | (Inr responses, c1) \<Rightarrow>
                   (Inr responses, modify leader_id (\<lambda>l. l\<lparr>ln_match_index_by_peer :=
                      AList.update leader_id (lp_index (last_log_position l)) (ln_match_index_by_peer l)\<rparr>) c1)))"

text \<open>\<open>candidate_index\<close> runs from the entry after the commit index to the last one.\<close>

definition committable :: "nat \<Rightarrow> log_node \<Rightarrow> int \<Rightarrow> bool" where
  "committable quorum leader i \<longleftrightarrow>
     le_term (node_log leader ! nat (i - 1)) = current_term leader \<and>
     quorum \<le> length (filter (\<lambda>m. i \<le> m) (dict_values (ln_match_index_by_peer leader)))"

definition new_commit_index :: "nat \<Rightarrow> log_node \<Rightarrow> int" where
  "new_commit_index quorum leader =
     fold (\<lambda>i acc. if committable quorum leader i then i else acc)
       [commit_index leader + 1..lp_index (last_log_position leader)] (commit_index leader)"

definition advance_commit_index :: "nat \<Rightarrow> log_node \<Rightarrow> bool res \<times> log_node" where
  "advance_commit_index quorum leader =
     (let i = new_commit_index quorum leader
      in if i = commit_index leader then (Inr False, leader)
         else case apply_committed_entries (set_commit i leader) of
                (Inl e, l) \<Rightarrow> (Inl e, l) | (Inr _, l) \<Rightarrow> (Inr True, l))"

definition submit_command :: "node_id \<Rightarrow> relay_command \<Rightarrow> relay_cluster \<Rightarrow> command_result res \<times> relay_cluster" where
  "submit_command leader_id command c =
     (case require_running_node c leader_id of
        Inl e \<Rightarrow> (Inl e, c)
      | Inr leader \<Rightarrow>
          if ln_role leader \<noteq> LEADER then (Inl (ValueError (leader_id @ '' is not the current leader'')), c)
          else
            let (entry, leader1) = append_local_entry command leader;
                c1 = modify leader_id (\<lambda>_. leader1) c
            in case replicate_from_leader leader_id c1 of
                 (Inl e, c2) \<Rightarrow> (Inl e, c2)
               | (Inr responses, c2) \<Rightarrow>
                   let replicated_to = insert leader_id (set (map ar_follower_id (filter ar_success responses)))
                   in case node c2 leader_id of
                        Inl e \<Rightarrow> (Inl e, c2)
                      | Inr leader2 \<Rightarrow>
                          let (r, leader3) = advance_commit_index (majority c2) leader2;
                              c3 = modify leader_id (\<lambda>_. leader3) c2;
                              (r', c4) = (case r of
                                  Inl e \<Rightarrow> (Inl e, c3)
                                | Inr committed \<Rightarrow>
                                    if committed then replicate_from_leader leader_id c3 else (Inr [], c3))
                          in (case r' of
                                Inl e \<Rightarrow> Inl e
                              | Inr _ \<Rightarrow>
                                  (case node c4 leader_id of
                                     Inl e \<Rightarrow> Inl e
                                   | Inr leader4 \<Rightarrow> Inr
                                       \<lparr>cr_leader_id = leader_id, cr_index = le_index entry, cr_term = le_term entry,
                                        cr_committed = le_index entry \<le> commit_index leader4,
                                        cr_replicated_to = sorted_list_of_set replicated_to,
                                        cr_rejection = rejection_for leader4 (le_index entry)\<rparr>), c4))"

datatype relay_event =
    Timeout node_id
  | SubmitCommand node_id relay_command
  | Replicate node_id
  | SetPartition "node_id list list"
  | Heal
  | Crash node_id
  | Restart node_id

fun relay_step :: "relay_event \<Rightarrow> relay_cluster \<Rightarrow> relay_cluster" where
  "relay_step (Timeout n) c = snd (trigger_timeout n c)"
| "relay_step (SubmitCommand n k) c = snd (submit_command n k c)"
| "relay_step (Replicate n) c = snd (replicate_from_leader n c)"
| "relay_step (SetPartition gs) c = snd (set_partition gs c)"
| "relay_step Heal c = heal c"
| "relay_step (Crash n) c = snd (crash_node n c)"
| "relay_step (Restart n) c = snd (restart_node n c)"


section \<open>Applying entries is replaying them\<close>

definition apply_entry :: "log_entry \<Rightarrow> task_machine \<times> (int \<rightharpoonup> string) \<Rightarrow> task_machine \<times> (int \<rightharpoonup> string)" where
  "apply_entry e = (\<lambda>(m, rej).
     (case apply_command (le_command e) m of
        (Inl (StateMachineError x), m') \<Rightarrow> (m', rej(le_index e \<mapsto> x))
      | (_, m') \<Rightarrow> (m', rej)))"

definition replay :: "log_entry list \<Rightarrow> task_machine \<times> (int \<rightharpoonup> string)" where
  "replay es = fold apply_entry es (new_task_machine, Map.empty)"

definition applied :: "log_node \<Rightarrow> task_machine \<times> (int \<rightharpoonup> string)" where
  "applied n = (ln_state_machine n, ln_rejections n)"

lemma applied_apply_next: "applied (apply_next e n) = apply_entry e (applied n)"
  by (auto simp: applied_def apply_next_def apply_entry_def split: prod.split sum.split exn.split)

lemma log_node_eqI:
  assumes "ln_node_id x = ln_node_id y" "ln_peers x = ln_peers y" "ln_state x = ln_state y"
    "ln_role x = ln_role y" "ln_leader_id x = ln_leader_id y" "ln_running x = ln_running y"
    "applied x = applied y" "ln_last_applied x = ln_last_applied y"
    "ln_match_index_by_peer x = ln_match_index_by_peer y"
  shows "x = y"
  using assms by (simp add: applied_def)

definition with_applied :: "task_machine \<times> (int \<rightharpoonup> string) \<Rightarrow> nat \<Rightarrow> log_node \<Rightarrow> log_node" where
  "with_applied a k n = n\<lparr>ln_state_machine := fst a, ln_rejections := snd a, ln_last_applied := k\<rparr>"

lemma with_applied_simps [simp]:
  "ln_node_id (with_applied a k n) = ln_node_id n" "ln_peers (with_applied a k n) = ln_peers n"
  "ln_state (with_applied a k n) = ln_state n" "ln_role (with_applied a k n) = ln_role n"
  "ln_leader_id (with_applied a k n) = ln_leader_id n" "ln_running (with_applied a k n) = ln_running n"
  "applied (with_applied a k n) = a" "ln_last_applied (with_applied a k n) = k"
  "ln_match_index_by_peer (with_applied a k n) = ln_match_index_by_peer n"
  by (simp_all add: with_applied_def applied_def)

lemma apply_next_with_applied:
  "apply_next e n = with_applied (apply_entry e (applied n)) (ln_last_applied n + 1) n"
  by (auto simp: with_applied_def applied_def apply_next_def apply_entry_def split: prod.split sum.split exn.split)

lemma with_applied_twice [simp]: "with_applied a k (with_applied b j n) = with_applied a k n"
  by (simp add: with_applied_def)

lemma with_applied_self [simp]: "with_applied (applied n) (ln_last_applied n) n = n"
  by (simp add: with_applied_def applied_def)

lemma node_projections [simp]:
  "node_log (with_applied a k n) = node_log n" "commit_index (with_applied a k n) = commit_index n"
  "current_term (with_applied a k n) = current_term n" "last_log_position (with_applied a k n) = last_log_position n"
  "node_log (set_commit i n) = node_log n" "commit_index (set_commit i n) = i"
  "current_term (set_commit i n) = current_term n" "last_log_position (set_commit i n) = last_log_position n"
  "ln_node_id (set_commit i n) = ln_node_id n" "ln_peers (set_commit i n) = ln_peers n"
  "ln_role (set_commit i n) = ln_role n" "ln_running (set_commit i n) = ln_running n"
  "ln_match_index_by_peer (set_commit i n) = ln_match_index_by_peer n"
  "applied (set_commit i n) = applied n" "ln_last_applied (set_commit i n) = ln_last_applied n"
  "ln_leader_id (set_commit i n) = ln_leader_id n"
  by (simp_all add: node_log_def commit_index_def current_term_def last_log_position_def set_commit_def applied_def)

lemma apply_committed_spec:
  assumes "ln_last_applied n \<le> length (node_log n)" "commit_index n \<le> int (length (node_log n))"
  shows "apply_committed_entries n = (Inr (),
    with_applied (fold apply_entry (drop (ln_last_applied n) (take (nat (commit_index n)) (node_log n))) (applied n))
      (max (ln_last_applied n) (nat (commit_index n))) n)"
  using assms
proof (induction n rule: apply_committed_entries.induct)
  case (1 n)
  let ?k = "ln_last_applied n" and ?c = "commit_index n"
  show ?case
  proof (cases "int ?k < ?c")
    case False
    then have "max ?k (nat ?c) = ?k" "drop ?k (take (nat ?c) (node_log n)) = []" by auto
    with False show ?thesis
      by (simp add: apply_committed_entries.simps [of n])
  next
    case True
    with "1.prems" have k: "?k < length (node_log n)" by linarith
    let ?m = "apply_next (node_log n ! ?k) n"
    have m: "node_log ?m = node_log n" "commit_index ?m = ?c" "ln_last_applied ?m = ?k + 1"
      by (simp_all add: apply_next_with_applied)
    have "?k < length (take (nat ?c) (node_log n))" using True k by simp
    then have "drop ?k (take (nat ?c) (node_log n)) =
        node_log n ! ?k # drop (Suc ?k) (take (nat ?c) (node_log n))"
      using True by (subst Cons_nth_drop_Suc [symmetric]) auto
    moreover have "max (?k + 1) (nat ?c) = max ?k (nat ?c)" using True by auto
    ultimately show ?thesis
      using "1.IH" [OF True k] "1.prems" k True m
      by (simp add: apply_committed_entries.simps [of n] apply_next_with_applied)
  qed
qed

lemma rebuild_spec:
  assumes "0 \<le> commit_index n"
  shows "rebuild_state_machine n = (Inr (),
    with_applied (replay (take (nat (min (commit_index n) (int (length (node_log n))))) (node_log n)))
      (nat (min (commit_index n) (int (length (node_log n)))))
      (set_commit (min (commit_index n) (int (length (node_log n)))) n))"
proof -
  let ?i = "min (commit_index n) (int (length (node_log n)))"
  have eq: "n\<lparr>ln_state_machine := new_task_machine, ln_rejections := Map.empty, ln_last_applied := 0\<rparr> =
      with_applied (new_task_machine, Map.empty) 0 n"
    by (simp add: with_applied_def)
  have swap: "with_applied a k (set_commit i (with_applied b j n)) = with_applied a k (set_commit i n)" for a b i j k
    by (simp add: with_applied_def set_commit_def)
  show ?thesis
    unfolding rebuild_state_machine_def eq
    by (subst apply_committed_spec) (use assms in \<open>simp_all add: replay_def swap\<close>)
qed

lemma take_shared_prefix: "take (shared_prefix xs ys) ys = take (shared_prefix xs ys) xs"
  by (induction xs ys rule: shared_prefix.induct) auto

lemma shared_prefix_ge: "take k xs = take k ys \<Longrightarrow> k \<le> length xs \<Longrightarrow> k \<le> length ys \<Longrightarrow> k \<le> shared_prefix xs ys"
proof (induction xs ys arbitrary: k rule: shared_prefix.induct)
  case (1 x xs y ys)
  then show ?case by (cases k) auto
qed auto

text \<open>Replacing the log installs exactly the leader's.\<close>

definition set_log :: "log_entry list \<Rightarrow> log_node \<Rightarrow> log_node" where
  "set_log es n = n\<lparr>ln_state := (ln_state n)\<lparr>ps_log := es\<rparr>\<rparr>"

lemma set_log_simps [simp]:
  "node_log (set_log es n) = es" "commit_index (set_log es n) = commit_index n"
  "current_term (set_log es n) = current_term n" "applied (set_log es n) = applied n"
  "ln_last_applied (set_log es n) = ln_last_applied n" "ln_role (set_log es n) = ln_role n"
  "ln_node_id (set_log es n) = ln_node_id n" "ln_running (set_log es n) = ln_running n"
  "ln_match_index_by_peer (set_log es n) = ln_match_index_by_peer n" "ln_peers (set_log es n) = ln_peers n"
  by (simp_all add: set_log_def node_log_def commit_index_def current_term_def applied_def)

lemma replace_log_installs:
  "replace_log es n =
     (let n1 = (if int (length es) < commit_index n then set_commit (int (length es)) (set_log es n) else set_log es n)
      in if commit_index n1 < int (ln_last_applied n1) then rebuild_state_machine n1 else (Inr (), n1))"
proof -
  have eq: "take (shared_prefix es (node_log n)) (node_log n) @ drop (shared_prefix es (node_log n)) es = es"
    unfolding take_shared_prefix by simp
  show ?thesis by (simp only: replace_log_def Let_def eq set_log_def [symmetric] set_log_simps)
qed


section \<open>Well-formed nodes\<close>

text \<open>
  A log whose entries carry their positions, with terms that never decrease and none after \<open>t\<close>.
\<close>

definition log_ok :: "int \<Rightarrow> log_entry list \<Rightarrow> bool" where
  "log_ok t es \<longleftrightarrow> (\<forall>i < length es. le_index (es ! i) = int i + 1) \<and> sorted (map le_term es) \<and>
     (\<forall>e \<in> set es. le_term e \<le> t)"

definition node_ok :: "log_node \<Rightarrow> bool" where
  "node_ok n \<longleftrightarrow> log_ok (current_term n) (node_log n) \<and> 0 \<le> commit_index n \<and>
     commit_index n \<le> int (length (node_log n)) \<and> ln_last_applied n \<le> length (node_log n)"

text \<open>The state machine is the replay of the applied prefix of the log.\<close>

definition faithful :: "log_node \<Rightarrow> bool" where
  "faithful n \<longleftrightarrow> applied n = replay (take (ln_last_applied n) (node_log n))"

lemma log_ok_mono: "log_ok t es \<Longrightarrow> t \<le> u \<Longrightarrow> log_ok u es"
  by (auto simp: log_ok_def)

lemma log_ok_index: "log_ok t es \<Longrightarrow> i < length es \<Longrightarrow> le_index (es ! i) = int i + 1"
  by (simp add: log_ok_def)

lemma last_log_index:
  assumes "log_ok t (node_log n)"
  shows "lp_index (last_log_position n) = int (length (node_log n))"
  using log_ok_index [OF assms, of "length (node_log n) - 1"]
  by (cases "node_log n") (auto simp: last_log_position_def last_conv_nth)

lemma log_ok_snoc:
  assumes "log_ok t es"
  shows "log_ok t (es @ [\<lparr>le_index = int (length es) + 1, le_term = t, le_command = k\<rparr>])"
  using assms by (auto simp: log_ok_def sorted_append nth_append less_Suc_eq)

lemma apply_committed_ok:
  assumes "node_ok n"
  shows "\<exists>n'. apply_committed_entries n = (Inr (), n') \<and> node_ok n' \<and> (faithful n \<longrightarrow> faithful n') \<and>
    ln_last_applied n' = max (ln_last_applied n) (nat (commit_index n)) \<and> ln_state n' = ln_state n \<and>
    ln_node_id n' = ln_node_id n \<and> ln_peers n' = ln_peers n \<and> ln_role n' = ln_role n \<and>
    ln_running n' = ln_running n \<and> ln_match_index_by_peer n' = ln_match_index_by_peer n"
proof -
  let ?k = "ln_last_applied n" and ?c = "nat (commit_index n)"
  from assms have le: "?k \<le> length (node_log n)" "commit_index n \<le> int (length (node_log n))"
    by (auto simp: node_ok_def)
  have "take (max ?k ?c) (node_log n) = take ?k (node_log n) @ drop ?k (take ?c (node_log n))"
    using append_take_drop_id [of ?k "take ?c (node_log n)"] by (cases "?k \<le> ?c") (auto simp: max_def min_def)
  then have "faithful n \<longrightarrow> fold apply_entry (drop ?k (take ?c (node_log n))) (applied n) =
      replay (take (max ?k ?c) (node_log n))"
    by (simp add: faithful_def replay_def)
  with assms le show ?thesis
    by (simp add: apply_committed_spec node_ok_def faithful_def)
qed


subsection \<open>What each operation of a node keeps\<close>

lemma observe_simps [simp]:
  "node_log (observe_higher_term t n) = node_log n" "commit_index (observe_higher_term t n) = commit_index n"
  "current_term (observe_higher_term t n) = max t (current_term n)" "applied (observe_higher_term t n) = applied n"
  "ln_last_applied (observe_higher_term t n) = ln_last_applied n" "ln_node_id (observe_higher_term t n) = ln_node_id n"
  "ln_running (observe_higher_term t n) = ln_running n" "ln_peers (observe_higher_term t n) = ln_peers n"
  by (auto simp: observe_higher_term_def node_log_def commit_index_def current_term_def applied_def)

lemma observe_ok [keep]: "node_ok n \<Longrightarrow> node_ok (observe_higher_term t n)"
  by (auto simp: node_ok_def intro: log_ok_mono)

lemma replace_log_ok:
  assumes "node_ok n" "log_ok (current_term n) es"
  shows "\<exists>n'. replace_log es n = (Inr (), n') \<and> node_ok n' \<and> node_log n' = es \<and>
    current_term n' = current_term n \<and> ln_node_id n' = ln_node_id n \<and> ln_running n' = ln_running n \<and>
    ln_role n' = ln_role n \<and> ln_peers n' = ln_peers n \<and> ln_last_applied n' \<le> ln_last_applied n \<and>
    (faithful n \<and> take (ln_last_applied n) (node_log n) = take (ln_last_applied n) es \<longrightarrow> faithful n')"
proof -
  define n1 where "n1 = (if int (length es) < commit_index n then set_commit (int (length es)) (set_log es n) else set_log es n)"
  have n1: "node_log n1 = es" "current_term n1 = current_term n" "ln_last_applied n1 = ln_last_applied n"
    "ln_node_id n1 = ln_node_id n" "ln_running n1 = ln_running n" "ln_role n1 = ln_role n" "ln_peers n1 = ln_peers n"
    "applied n1 = applied n" "0 \<le> commit_index n1" "commit_index n1 \<le> int (length es)"
    using assms(1) by (auto simp: n1_def node_ok_def)
  have eq: "replace_log es n = (if commit_index n1 < int (ln_last_applied n1) then rebuild_state_machine n1 else (Inr (), n1))"
    by (simp add: replace_log_installs n1_def)
  show ?thesis
  proof (cases "commit_index n1 < int (ln_last_applied n1)")
    case True
    let ?c = "nat (min (commit_index n1) (int (length (node_log n1))))"
    let ?n = "with_applied (replay (take ?c (node_log n1))) ?c (set_commit (min (commit_index n1) (int (length (node_log n1)))) n1)"
    have "replace_log es n = (Inr (), ?n)"
      using True n1(9) by (simp add: eq rebuild_spec)
    moreover have "node_ok ?n" "faithful ?n" "?c \<le> ln_last_applied n"
      using assms n1 True by (auto simp: node_ok_def faithful_def)
    ultimately show ?thesis using n1 by simp
  next
    case False
    have "node_ok n1" using assms n1 False by (auto simp: node_ok_def)
    moreover have "faithful n1" if "faithful n" "take (ln_last_applied n) (node_log n) = take (ln_last_applied n) es"
      using that n1 by (simp add: faithful_def)
    ultimately show ?thesis using False n1 by (simp add: eq)
  qed
qed

lemma receive_append_entries_ok:
  assumes n: "node_ok n" and es: "log_ok (aq_term req) (aq_log_entries req)" and c: "0 \<le> aq_leader_commit req"
  shows "\<exists>resp n'. receive_append_entries req n = (Inr resp, n') \<and> node_ok n' \<and> ln_node_id n' = ln_node_id n \<and>
    ln_running n' = ln_running n \<and> ln_peers n' = ln_peers n \<and> ar_term resp = current_term n' \<and>
    ar_follower_id resp = ln_node_id n \<and> ar_success resp = (current_term n \<le> aq_term req) \<and>
    current_term n' = max (aq_term req) (current_term n) \<and>
    (if aq_term req < current_term n then n' = n
     else node_log n' = aq_log_entries req \<and> ar_match_index resp = int (length (aq_log_entries req)) \<and>
       commit_index n' = min (aq_leader_commit req) (int (length (aq_log_entries req))) \<and>
       commit_index n' \<le> int (ln_last_applied n') \<and>
       int (ln_last_applied n') \<le> max (commit_index n') (int (ln_last_applied n)) \<and>
       (faithful n \<and> take (ln_last_applied n) (node_log n) = take (ln_last_applied n) (aq_log_entries req)
          \<longrightarrow> faithful n'))"
proof (cases "aq_term req < current_term n")
  case True
  with n show ?thesis by (simp add: receive_append_entries_def)
next
  case False
  define n2 where "n2 = (observe_higher_term (aq_term req) n)\<lparr>ln_role := FOLLOWER, ln_leader_id := Some (aq_leader_id req)\<rparr>"
  have obs: "(if current_term n < aq_term req then observe_higher_term (aq_term req) n else n) = observe_higher_term (aq_term req) n"
    by (simp add: observe_higher_term_def)
  have same: "node_log n2 = node_log n" "commit_index n2 = commit_index n" "current_term n2 = aq_term req"
    "applied n2 = applied n" "ln_last_applied n2 = ln_last_applied n" "ln_node_id n2 = ln_node_id n"
    "ln_running n2 = ln_running n" "ln_peers n2 = ln_peers n"
    using False observe_simps [of "aq_term req" n]
    by (simp_all add: n2_def node_log_def commit_index_def current_term_def applied_def)
  have n2: "node_ok n2" using n False same by (auto simp: node_ok_def intro: log_ok_mono)
  from replace_log_ok [OF n2, of "aq_log_entries req"] es same obtain n3 where
    n3: "replace_log (aq_log_entries req) n2 = (Inr (), n3)" "node_ok n3" "node_log n3 = aq_log_entries req"
      "current_term n3 = aq_term req" "ln_node_id n3 = ln_node_id n" "ln_running n3 = ln_running n"
      "ln_peers n3 = ln_peers n" "ln_last_applied n3 \<le> ln_last_applied n"
      "faithful n \<and> take (ln_last_applied n) (node_log n) = take (ln_last_applied n) (aq_log_entries req) \<longrightarrow> faithful n3"
    by (auto simp: faithful_def)
  let ?i = "min (aq_leader_commit req) (int (length (node_log n3)))"
  let ?n3 = "set_commit ?i n3"
  have "node_ok ?n3" using n3(2) c by (simp add: node_ok_def)
  from apply_committed_ok [OF this] obtain n4 where
    n4': "apply_committed_entries ?n3 = (Inr (), n4)" "node_ok n4" "faithful ?n3 \<longrightarrow> faithful n4"
      "ln_last_applied n4 = max (ln_last_applied ?n3) (nat (commit_index ?n3))" "ln_state n4 = ln_state ?n3"
      "ln_node_id n4 = ln_node_id ?n3" "ln_running n4 = ln_running ?n3" "ln_peers n4 = ln_peers ?n3"
    by blast
  have "faithful ?n3 = faithful n3" by (simp add: faithful_def)
  with n4' have
    n4: "apply_committed_entries ?n3 = (Inr (), n4)" "node_ok n4" "faithful n3 \<longrightarrow> faithful n4"
      "ln_last_applied n4 = max (ln_last_applied n3) (nat ?i)" "ln_state n4 = ln_state ?n3"
      "ln_node_id n4 = ln_node_id n3" "ln_running n4 = ln_running n3" "ln_peers n4 = ln_peers n3"
    by simp_all
  from n4(5) have st: "node_log n4 = node_log n3" "commit_index n4 = ?i" "current_term n4 = current_term n3"
    by (simp_all add: node_log_def commit_index_def current_term_def set_commit_def)
  have "lp_index (last_log_position n4) = int (length (node_log n4))"
    using n4(2) by (intro last_log_index [of "current_term n4"]) (simp add: node_ok_def)
  moreover have "commit_index n4 \<le> int (ln_last_applied n4)"
    "int (ln_last_applied n4) \<le> max (commit_index n4) (int (ln_last_applied n))"
    using n4(4) st(2) n3(8) c by (auto simp: max_def)
  ultimately show ?thesis
    using False n3 n4 st c by (simp add: receive_append_entries_def obs n2_def [symmetric])
qed

text \<open>
  How far an accepted append leaves the state machine: it is rebuilt up to the follower's own commit index when that
  had gone back before, and goes on from there to the leader's.
\<close>

lemma replace_log_applied:
  assumes "node_ok n"
  shows "\<exists>n'. replace_log es n = (Inr (), n') \<and> node_log n' = es \<and>
    ln_last_applied n' = min (ln_last_applied n) (nat (min (commit_index n) (int (length es)))) \<and>
    (commit_index n < int (ln_last_applied n) \<longrightarrow> applied n' = replay (take (nat (min (commit_index n) (int (length es)))) es))"
proof -
  have c: "0 \<le> commit_index n" using assms by (simp add: node_ok_def)
  then show ?thesis by (auto simp: replace_log_installs Let_def rebuild_spec min_def nat_less_iff)
qed

lemma receive_append_applied:
  assumes "node_ok n" "current_term n \<le> aq_term req" "log_ok (aq_term req) (aq_log_entries req)" "0 \<le> aq_leader_commit req"
    and run: "receive_append_entries req n = (r, n')"
  defines "own \<equiv> nat (min (commit_index n) (int (length (aq_log_entries req))))"
    and "led \<equiv> nat (min (aq_leader_commit req) (int (length (aq_log_entries req))))"
  shows "ln_last_applied n' = max (min (ln_last_applied n) own) led"
    and "commit_index n < int (ln_last_applied n) \<Longrightarrow> led \<le> own \<Longrightarrow> applied n' = replay (take own (aq_log_entries req))"
proof -
  define n2 where "n2 = (observe_higher_term (aq_term req) n)\<lparr>ln_role := FOLLOWER, ln_leader_id := Some (aq_leader_id req)\<rparr>"
  have obs: "(if current_term n < aq_term req then observe_higher_term (aq_term req) n else n) = observe_higher_term (aq_term req) n"
    by (simp add: observe_higher_term_def)
  have same: "node_log n2 = node_log n" "commit_index n2 = commit_index n" "current_term n2 = aq_term req" "ln_last_applied n2 = ln_last_applied n"
    using assms(2) observe_simps [of "aq_term req" n] by (simp_all add: n2_def node_log_def commit_index_def current_term_def)
  have n2: "node_ok n2" using assms(1,2) same by (auto simp: node_ok_def intro: log_ok_mono)
  from replace_log_applied [OF n2, of "aq_log_entries req"] same own_def obtain n3 where
    n3: "replace_log (aq_log_entries req) n2 = (Inr (), n3)" "node_log n3 = aq_log_entries req" "ln_last_applied n3 = min (ln_last_applied n) own"
      "commit_index n < int (ln_last_applied n) \<longrightarrow> applied n3 = replay (take own (aq_log_entries req))" by auto
  let ?n3 = "set_commit (min (aq_leader_commit req) (int (length (node_log n3)))) n3"
  have bounds: "ln_last_applied ?n3 \<le> length (node_log ?n3)" "commit_index ?n3 \<le> int (length (node_log ?n3))"
    using n3(2,3) by (auto simp: own_def min_def)
  note spec = apply_committed_spec [OF bounds]
  have led: "nat (commit_index ?n3) = led" by (simp add: led_def n3(2))
  have n': "n' = snd (apply_committed_entries ?n3)"
    using run assms(2) n3(1) spec by (simp add: receive_append_entries_def obs n2_def [symmetric] Let_def)
  show "ln_last_applied n' = max (min (ln_last_applied n) own) led"
    unfolding n' spec using n3(3) led by simp
  show "applied n' = replay (take own (aq_log_entries req))" if "commit_index n < int (ln_last_applied n)" "led \<le> own"
  proof -
    have "own < ln_last_applied n \<or> own = ln_last_applied n \<or> ln_last_applied n < own" by linarith
    moreover have "own \<le> ln_last_applied n" using that(1) unfolding own_def by (simp add: min_def nat_le_iff)
    ultimately have "ln_last_applied n3 = own" using n3(3) by simp
    then have "drop (ln_last_applied ?n3) (take (nat (commit_index ?n3)) (node_log ?n3)) = []" using that(2) led by simp
    then show ?thesis unfolding n' spec using n3(4) that(1) by simp
  qed
qed

lemma node_ok_cong:
  "node_log y = node_log x \<Longrightarrow> commit_index y = commit_index x \<Longrightarrow> current_term x \<le> current_term y \<Longrightarrow>
   ln_last_applied y = ln_last_applied x \<Longrightarrow> node_ok x \<Longrightarrow> node_ok y"
  by (auto simp: node_ok_def intro: log_ok_mono)

lemma start_election_ok [keep]: "node_ok n \<Longrightarrow> node_ok (snd (start_election n))"
  by (erule node_ok_cong [rotated 4])
    (simp_all add: start_election_def Let_def node_log_def commit_index_def current_term_def)

lemma receive_vote_request_ok [keep]:
  assumes "node_ok n"
  shows "node_ok (snd (receive_vote_request req n))"
proof -
  have "node_log (snd (receive_vote_request req n)) = node_log n"
    "commit_index (snd (receive_vote_request req n)) = commit_index n"
    "current_term n \<le> current_term (snd (receive_vote_request req n))"
    "ln_last_applied (snd (receive_vote_request req n)) = ln_last_applied n"
    by (auto simp: receive_vote_request_def Let_def observe_higher_term_def node_log_def commit_index_def current_term_def)
  from this assms show ?thesis by (rule node_ok_cong)
qed

lemma become_leader_ok [keep]: "node_ok n \<Longrightarrow> node_ok (become_leader n)"
  by (erule node_ok_cong [rotated 4])
    (simp_all add: become_leader_def node_log_def commit_index_def current_term_def)

lemma crash_ok [keep]: "node_ok n \<Longrightarrow> node_ok (crash n)"
  by (erule node_ok_cong [rotated 4]) (simp_all add: crash_def node_log_def commit_index_def current_term_def)

lemma note_response_ok [keep]: "node_ok n \<Longrightarrow> node_ok (note_response resp p n)"
  by (erule node_ok_cong [rotated 4])
    (auto simp: note_response_def observe_higher_term_def node_log_def commit_index_def current_term_def)

lemma append_local_entry_ok [keep]:
  assumes "node_ok n"
  shows "node_ok (snd (append_local_entry k n))"
proof -
  let ?n = "snd (append_local_entry k n)"
  have "node_log ?n = node_log n @ [\<lparr>le_index = int (length (node_log n)) + 1, le_term = current_term n, le_command = k\<rparr>]"
    "commit_index ?n = commit_index n" "current_term ?n = current_term n" "ln_last_applied ?n = ln_last_applied n"
    by (simp_all add: append_local_entry_def Let_def node_log_def commit_index_def current_term_def)
  with assms log_ok_snoc show ?thesis by (auto simp: node_ok_def)
qed

text \<open>A restart replays exactly the committed prefix.\<close>

lemma restart_ok:
  assumes "node_ok n"
  shows "\<exists>n'. restart n = (Inr (), n') \<and> node_ok n' \<and> faithful n' \<and> ln_state n' = ln_state n \<and>
    ln_last_applied n' = nat (commit_index n) \<and> ln_node_id n' = ln_node_id n"
proof -
  let ?n = "n\<lparr>ln_running := True, ln_role := FOLLOWER, ln_leader_id := None, ln_match_index_by_peer := []\<rparr>"
  have s: "node_log ?n = node_log n" "commit_index ?n = commit_index n" "current_term ?n = current_term n"
    by (simp_all add: node_log_def commit_index_def current_term_def)
  have "set_commit (commit_index n) ?n = ?n" by (simp add: set_commit_def commit_index_def)
  with assms s show ?thesis
    by (simp add: restart_def rebuild_spec node_ok_def faithful_def nat_le_iff)
qed


section \<open>Well-formed clusters\<close>

abbreviation members :: "relay_cluster \<Rightarrow> node_id list" where
  "members c \<equiv> dict_keys (cl_nodes c)"

definition cluster_ok :: "relay_cluster \<Rightarrow> bool" where
  "cluster_ok c \<longleftrightarrow> distinct (members c) \<and> members c \<noteq> [] \<and>
     partitions (cl_partition c) (set (members c)) \<and>
     (\<forall>k n. map_of (cl_nodes c) k = Some n \<longrightarrow> ln_node_id n = k \<and> node_ok n)"

lemma log_node_Inr: "node c k = Inr n \<longleftrightarrow> map_of (cl_nodes c) k = Some n"
  by (simp add: node_def split: option.split)

lemma node_member: "k \<in> set (members c) \<Longrightarrow> \<exists>n. node c k = Inr n"
  by (simp add: log_node_Inr) (metis domD dom_map_of_conv_image_fst list.set_map)

lemma modify_simps [simp]:
  "members (modify k f c) = members c" "cl_partition (modify k f c) = cl_partition c"
  "cl_leader_by_term (modify k f c) = cl_leader_by_term c" "length (cl_nodes (modify k f c)) = length (cl_nodes c)"
  "map_of (cl_nodes (modify k f c)) = (map_of (cl_nodes c))(k := map_option f (map_of (cl_nodes c) k))"
  by (simp_all add: modify_def map_of_map_entry)

lemma modify_ok:
  assumes "cluster_ok c" "\<And>n. node c k = Inr n \<Longrightarrow> node_ok (f n) \<and> ln_node_id (f n) = ln_node_id n"
  shows "cluster_ok (modify k f c)"
  using assms by (auto simp: cluster_ok_def log_node_Inr)

lemma cluster_node_ok: "cluster_ok c \<Longrightarrow> node c k = Inr n \<Longrightarrow> node_ok n \<and> ln_node_id n = k"
  by (simp add: cluster_ok_def log_node_Inr)

lemma ids [simp]:
  "ln_node_id (crash n) = ln_node_id n" "ln_node_id (snd (start_election n)) = ln_node_id n"
  "ln_node_id (snd (receive_vote_request req n)) = ln_node_id n" "ln_node_id (become_leader n) = ln_node_id n"
  "ln_node_id (note_response resp p n) = ln_node_id n" "ln_node_id (snd (append_local_entry k n)) = ln_node_id n"
  by (simp_all add: crash_def start_election_def receive_vote_request_def become_leader_def note_response_def
      append_local_entry_def Let_def)

definition same_frame :: "relay_cluster \<Rightarrow> relay_cluster \<Rightarrow> bool" where
  "same_frame c c' \<longleftrightarrow> members c' = members c \<and> cl_partition c' = cl_partition c"

lemma same_frame_refl [simp]: "same_frame c c"
  by (simp add: same_frame_def)

lemma same_frame_modify [simp]: "same_frame c (modify k f c)"
  by (simp add: same_frame_def)

lemma same_frame_modify2 [simp]: "same_frame c (modify j g (modify k f c))"
  by (simp add: same_frame_def)

lemma same_frame_trans: "same_frame a b \<Longrightarrow> same_frame b c \<Longrightarrow> same_frame a c"
  by (simp add: same_frame_def)

lemma running_among_ok:
  assumes "set ps \<subseteq> set (members c)"
  shows "\<exists>qs. running_among c ps = Inr qs \<and> set qs \<subseteq> set ps \<and> (distinct ps \<longrightarrow> distinct qs)"
  using assms
proof (induction ps)
  case (Cons p ps)
  from Cons.prems obtain x where "node c p = Inr x" using node_member [of p c] by auto
  with Cons show ?case by auto
qed simp

lemma reachable_peers_ok:
  assumes "cluster_ok c" "n \<in> set (members c)"
  shows "\<exists>ps. reachable_peers c n = Inr ps \<and> set ps \<subseteq> set (members c) - {n} \<and> distinct ps"
proof -
  from assms have p: "partitions (cl_partition c) (set (members c))" by (simp add: cluster_ok_def)
  with assms(2) obtain ns where ns: "reachable_from (cl_partition c) n = Inr ns"
    using net.reach_known by blast
  with p have "distinct ns" "set ns \<subseteq> set (members c)" using net.reach_set by blast+
  then have "set (filter (\<lambda>p. p \<noteq> n) ns) \<subseteq> set (members c)" "distinct (filter (\<lambda>p. p \<noteq> n) ns)" by auto
  from running_among_ok [OF this(1)] this(2) obtain qs where
    "running_among c (filter (\<lambda>p. p \<noteq> n) ns) = Inr qs" "set qs \<subseteq> set (filter (\<lambda>p. p \<noteq> n) ns)" "distinct qs" by blast
  moreover from this(2) \<open>set ns \<subseteq> set (members c)\<close> have "set qs \<subseteq> set (members c) - {n}" by auto
  ultimately show ?thesis using ns by (simp add: reachable_peers_def)
qed

lemma collect_votes_ok:
  assumes "cluster_ok c" "set peers \<subseteq> set (members c)" "cand \<in> set (members c)"
  shows "\<exists>g c'. collect_votes cand req peers granted c = (Inr g, c') \<and> cluster_ok c' \<and> same_frame c c'"
  using assms
proof (induction peers arbitrary: c granted)
  case (Cons p ps)
  from Cons.prems obtain x where x: "node c p = Inr x" using node_member [of p c] by auto
  obtain r x' where r: "receive_vote_request req x = (r, x')" by fastforce
  let ?c1 = "modify p (\<lambda>_. x') c"
  have x': "node_ok x' \<and> ln_node_id x' = p"
    using Cons.prems(1) x receive_vote_request_ok [of x req] ids(3) [of req x] r
    by (auto simp: cluster_ok_def log_node_Inr)
  have c1: "cluster_ok ?c1"
    using Cons.prems(1) x x' by (intro modify_ok) (auto simp: cluster_ok_def log_node_Inr)
  from Cons.prems(3) obtain y where y: "node ?c1 cand = Inr y" using node_member [of cand ?c1] by auto
  show ?case
  proof (cases "current_term y < vr_term r")
    case True
    have "cluster_ok (modify cand (observe_higher_term (vr_term r)) ?c1)"
      by (rule modify_ok [OF c1]) (use cluster_node_ok [OF c1] in \<open>auto intro: observe_ok\<close>)
    with True x r y show ?thesis by simp
  next
    case False
    have "set ps \<subseteq> set (members ?c1)" "cand \<in> set (members ?c1)" using Cons.prems(2,3) by simp_all
    from Cons.IH [OF c1 this] obtain g c' where
      g: "collect_votes cand req ps (if vr_granted r then insert p granted else granted) ?c1 = (Inr g, c')"
      "cluster_ok c'" "same_frame ?c1 c'" by blast
    have "same_frame c c'" by (rule same_frame_trans [OF same_frame_modify g(3)])
    with False x r y g(1,2) show ?thesis by simp
  qed
qed simp

lemma replicate_peers_ok:
  assumes "cluster_ok c" "set peers \<subseteq> set (members c)"
    and "log_ok (aq_term req) (aq_log_entries req)" "0 \<le> aq_leader_commit req"
  shows "\<exists>rs c'. replicate_peers l req peers c = (Inr rs, c') \<and> cluster_ok c' \<and> same_frame c c'"
  using assms(1,2)
proof (induction peers arbitrary: c)
  case (Cons p ps)
  from Cons.prems obtain x where x: "node c p = Inr x" using node_member [of p c] by auto
  with Cons.prems(1) have xok: "node_ok x" "ln_node_id x = p" by (auto simp: cluster_ok_def log_node_Inr)
  from receive_append_entries_ok [OF xok(1) assms(3,4)] obtain r x' where
    r: "receive_append_entries req x = (Inr r, x')" "node_ok x'" "ln_node_id x' = p"
    using xok(2) by auto
  let ?c1 = "modify l (note_response r p) (modify p (\<lambda>_. x') c)"
  have "cluster_ok (modify p (\<lambda>_. x') c)"
    using Cons.prems(1) r(2,3) xok(2) x by (intro modify_ok) (auto simp: cluster_ok_def log_node_Inr)
  note c0 = this
  have c1: "cluster_ok ?c1"
    by (rule modify_ok [OF c0]) (use cluster_node_ok [OF c0] in \<open>auto intro: note_response_ok\<close>)
  have "set ps \<subseteq> set (members ?c1)" using Cons.prems(2) by simp
  from Cons.IH [OF c1 this] obtain rs c' where
    g: "replicate_peers l req ps ?c1 = (Inr rs, c')" "cluster_ok c'" "same_frame ?c1 c'" by blast
  have "same_frame c ?c1" by (simp add: same_frame_def)
  from same_frame_trans [OF this g(3)] show ?case using x r(1) g(1,2) by simp
qed simp


section \<open>Committing\<close>

lemma fold_last_such:
  assumes "sorted is"
  shows "(fold (\<lambda>i acc. if P i then i else acc) is x = x \<and> (\<forall>i \<in> set is. \<not> P i)) \<or>
    (let r = fold (\<lambda>i acc. if P i then i else acc) is x
     in r \<in> set is \<and> P r \<and> (\<forall>i \<in> set is. P i \<longrightarrow> i \<le> r))"
  using assms by (induction "is" rule: rev_induct) (auto simp: sorted_append Let_def)

text \<open>
  The new commit index is the last index up to the end of the log that holds an entry of the
  leader's current term which a quorum is known to have, if there is one after the old one.
\<close>

lemma new_commit_index_spec:
  assumes "node_ok l"
  shows "(new_commit_index q l = commit_index l \<and>
      (\<forall>i. commit_index l < i \<and> i \<le> int (length (node_log l)) \<longrightarrow> \<not> committable q l i)) \<or>
    (commit_index l < new_commit_index q l \<and> new_commit_index q l \<le> int (length (node_log l)) \<and>
      committable q l (new_commit_index q l) \<and>
      (\<forall>i. i \<le> int (length (node_log l)) \<and> commit_index l < i \<and> committable q l i \<longrightarrow> i \<le> new_commit_index q l))"
proof -
  have "lp_index (last_log_position l) = int (length (node_log l))"
    using assms by (intro last_log_index [of "current_term l"]) (simp add: node_ok_def)
  with fold_last_such [of "[commit_index l + 1..int (length (node_log l))]" "committable q l" "commit_index l"]
  show ?thesis unfolding new_commit_index_def by (auto simp: Let_def)
qed

lemma advance_commit_index_ok:
  assumes "node_ok l"
  shows "\<exists>b l'. advance_commit_index q l = (Inr b, l') \<and> node_ok l' \<and> ln_node_id l' = ln_node_id l \<and>
    node_log l' = node_log l \<and> current_term l' = current_term l \<and> commit_index l' = new_commit_index q l \<and>
    b = (commit_index l < commit_index l') \<and> ln_role l' = ln_role l \<and> ln_running l' = ln_running l \<and>
    ln_match_index_by_peer l' = ln_match_index_by_peer l \<and> (faithful l \<longrightarrow> faithful l')"
proof (cases "new_commit_index q l = commit_index l")
  case True
  with assms show ?thesis by (simp add: advance_commit_index_def) blast
next
  case False
  let ?l = "set_commit (new_commit_index q l) l"
  from False new_commit_index_spec [OF assms, of q] have
    lt: "commit_index l < new_commit_index q l" "new_commit_index q l \<le> int (length (node_log l))" by auto
  with assms have ok: "node_ok ?l" by (simp add: node_ok_def)
  from apply_committed_ok [OF ok] obtain l' where
    l': "apply_committed_entries ?l = (Inr (), l')" "node_ok l'" "faithful ?l \<longrightarrow> faithful l'" "ln_state l' = ln_state ?l"
      "ln_node_id l' = ln_node_id ?l" "ln_role l' = ln_role ?l" "ln_running l' = ln_running ?l"
      "ln_match_index_by_peer l' = ln_match_index_by_peer ?l" by blast
  from l'(4) have st: "node_log l' = node_log l" "commit_index l' = new_commit_index q l" "current_term l' = current_term l"
    by (simp_all add: node_log_def commit_index_def current_term_def set_commit_def)
  have "faithful ?l = faithful l" by (simp add: faithful_def)
  with False l' st lt show ?thesis by (simp add: advance_commit_index_def Let_def) blast
qed

section \<open>Every event keeps the cluster well formed\<close>

lemma replicate_from_leader_ok:
  assumes "cluster_ok c"
  shows "cluster_ok (snd (replicate_from_leader l c)) \<and> same_frame c (snd (replicate_from_leader l c)) \<and>
    (\<forall>x. node c l = Inr x \<longrightarrow> ln_running x \<longrightarrow> ln_role x = LEADER \<longrightarrow> (\<exists>rs. fst (replicate_from_leader l c) = Inr rs))"
proof (cases "\<exists>x. node c l = Inr x \<and> ln_running x \<and> ln_role x = LEADER")
  case False
  with assms show ?thesis
    by (auto simp: replicate_from_leader_def require_running_node_def split: sum.split)
next
  case True
  then obtain x where x: "node c l = Inr x" "ln_running x" "ln_role x = LEADER" by blast
  with cluster_node_ok [OF assms] have xok: "node_ok x" by blast
  let ?req = "\<lparr>aq_term = current_term x, aq_leader_id = l, aq_log_entries = node_log x, aq_leader_commit = commit_index x\<rparr>"
  have "l \<in> set (members c)" using x(1) by (auto simp: log_node_Inr dest: map_of_SomeD intro: rev_image_eqI)
  from reachable_peers_ok [OF assms this] obtain ps where
    ps: "reachable_peers c l = Inr ps" "set ps \<subseteq> set (members c) - {l}" by blast
  from ps(2) have "set ps \<subseteq> set (members c)" by blast
  from replicate_peers_ok [OF assms this, of ?req l] xok obtain rs c1 where
    c1: "replicate_peers l ?req ps c = (Inr rs, c1)" "cluster_ok c1" "same_frame c c1"
    by (auto simp: node_ok_def)
  let ?f = "\<lambda>n. n\<lparr>ln_match_index_by_peer := AList.update l (lp_index (last_log_position n)) (ln_match_index_by_peer n)\<rparr>"
  have "node_ok (?f n)" if "node_ok n" for n
    by (rule node_ok_cong [OF _ _ _ _ that]) (simp_all add: node_log_def commit_index_def current_term_def)
  then have "cluster_ok (modify l ?f c1)"
    by (intro modify_ok [OF c1(2)]) (use cluster_node_ok [OF c1(2)] in auto)
  with x ps(1) c1 show ?thesis
    by (simp add: replicate_from_leader_def require_running_node_def same_frame_trans [OF c1(3)])
qed

lemma trigger_timeout_ok [keep]:
  assumes "cluster_ok c"
  shows "cluster_ok (snd (trigger_timeout n c))"
proof (cases "\<exists>x. node c n = Inr x \<and> ln_running x")
  case False
  with assms show ?thesis by (auto simp: trigger_timeout_def require_running_node_def split: sum.split)
next
  case True
  then obtain x where x: "node c n = Inr x" "ln_running x" by blast
  obtain req x1 where e: "start_election x = (req, x1)" by fastforce
  let ?c1 = "modify n (\<lambda>_. x1) c"
  have "node_ok x1 \<and> ln_node_id x1 = ln_node_id x"
    using cluster_node_ok [OF assms x(1)] start_election_ok [of x] ids(2) [of x] e by simp
  then have c1: "cluster_ok ?c1" by (intro modify_ok [OF assms]) (use x(1) in auto)
  have n: "n \<in> set (members ?c1)" using x(1) by (auto simp: log_node_Inr dest: map_of_SomeD intro: rev_image_eqI)
  from reachable_peers_ok [OF c1 this] obtain ps where
    ps: "reachable_peers ?c1 n = Inr ps" "set ps \<subseteq> set (members ?c1) - {n}" by blast
  from ps(2) have "set ps \<subseteq> set (members ?c1)" by blast
  from collect_votes_ok [OF c1 this n, of req "{n}"] obtain g c2 where
    c2: "collect_votes n req ps {n} ?c1 = (Inr g, c2)" "cluster_ok c2" by blast
  have c3: "cluster_ok (modify n become_leader c2)"
    by (rule modify_ok [OF c2(2)]) (use cluster_node_ok [OF c2(2)] in \<open>auto intro: become_leader_ok\<close>)
  have rec: "cluster_ok (snd (record_leader y c'))" if "cluster_ok c'" for y c'
    using that by (simp add: record_leader_def cluster_ok_def)
  from x e ps(1) c2(1) have "snd (trigger_timeout n c) \<in>
      {c2, modify n become_leader c2} \<union> range (\<lambda>y. snd (record_leader y (modify n become_leader c2)))"
    by (auto simp: trigger_timeout_def require_running_node_def Let_def split: sum.splits prod.splits)
      (metis rangeI snd_conv)+
  with c2(2) c3 rec show ?thesis by auto
qed


lemma submit_command_ok [keep]:
  assumes "cluster_ok c"
  shows "cluster_ok (snd (submit_command l k c))"
proof (cases "\<exists>x. node c l = Inr x \<and> ln_running x \<and> ln_role x = LEADER")
  case False
  with assms show ?thesis by (auto simp: submit_command_def require_running_node_def split: sum.split)
next
  case True
  then obtain x where x: "node c l = Inr x" "ln_running x" "ln_role x = LEADER" by blast
  obtain e x1 where e: "append_local_entry k x = (e, x1)" by fastforce
  let ?c1 = "modify l (\<lambda>_. x1) c"
  have "node_ok x1 \<and> ln_node_id x1 = ln_node_id x"
    using cluster_node_ok [OF assms x(1)] append_local_entry_ok [of x k] ids(6) [of k x] e by simp
  then have c1: "cluster_ok ?c1" by (intro modify_ok [OF assms]) (use x(1) in auto)
  obtain r c2 where r: "replicate_from_leader l ?c1 = (r, c2)" by fastforce
  with replicate_from_leader_ok [OF c1, of l] have c2: "cluster_ok c2" by simp
  show ?thesis
  proof (cases "isl r \<or> isl (node c2 l)")
    case True
    with x e r c2 show ?thesis
      by (auto simp: submit_command_def require_running_node_def Let_def isl_def split: sum.split)
  next
    case False
    then obtain rs y where rs: "r = Inr rs" and y: "node c2 l = Inr y" by (metis sum.collapse(2))
    obtain b z where z: "advance_commit_index (majority c2) y = (Inr b, z)" "node_ok z" "ln_node_id z = ln_node_id y"
      using advance_commit_index_ok [of y "majority c2"] cluster_node_ok [OF c2 y] by blast
    have c3: "cluster_ok (modify l (\<lambda>_. z) c2)"
      by (rule modify_ok [OF c2]) (use z y in simp)
    have "snd (submit_command l k c) =
        (if b then snd (replicate_from_leader l (modify l (\<lambda>_. z) c2)) else modify l (\<lambda>_. z) c2)"
      using x e r rs y z(1)
      by (simp add: submit_command_def require_running_node_def Let_def split_beta)
    with c3 replicate_from_leader_ok [OF c3, of l] show ?thesis by simp
  qed
qed

lemma restart_node_ok [keep]:
  assumes "cluster_ok c"
  shows "cluster_ok (snd (restart_node n c))"
proof (cases "node c n")
  case (Inl e)
  with assms show ?thesis by (simp add: restart_node_def)
next
  case (Inr x)
  from restart_ok [of x] cluster_node_ok [OF assms Inr] obtain x' where
    x': "restart x = (Inr (), x')" "node_ok x'" "ln_node_id x' = ln_node_id x" by blast
  have "cluster_ok (modify n (\<lambda>_. x') c)"
    by (rule modify_ok [OF assms]) (use Inr x' in simp)
  with Inr x'(1) show ?thesis by (simp add: restart_node_def)
qed

lemma crash_node_ok [keep]: "cluster_ok c \<Longrightarrow> cluster_ok (snd (crash_node n c))"
  using cluster_node_ok [of c n]
  by (auto simp: crash_node_def intro!: modify_ok crash_ok split: sum.split)

lemma set_partition_ok [keep]: "cluster_ok c \<Longrightarrow> cluster_ok (snd (set_partition gs c))"
  using from_groups_partitions [of "members c" gs]
  by (auto simp: set_partition_def cluster_ok_def split: sum.split)

lemma heal_ok [keep]: "cluster_ok c \<Longrightarrow> cluster_ok (heal c)"
  using healed_partitions [of "members c"] by (simp add: heal_def cluster_ok_def)

lemma relay_step_ok: "cluster_ok c \<Longrightarrow> cluster_ok (relay_step e c)"
  by (cases e) (simp_all add: trigger_timeout_ok submit_command_ok replicate_from_leader_ok set_partition_ok
      heal_ok crash_node_ok restart_node_ok)

lemma new_log_node_ok: "node_ok (new_log_node ns n)" "ln_node_id (new_log_node ns n) = n"
proof -
  have "0 \<le> commit_index \<lparr>ln_node_id = n, ln_peers = ps,
        ln_state = \<lparr>ps_current_term = 0, ps_voted_for = None, ps_log = [], ps_commit_index = 0\<rparr>,
        ln_role = FOLLOWER, ln_leader_id = None, ln_running = True, ln_state_machine = new_task_machine,
        ln_last_applied = 0, ln_match_index_by_peer = [], ln_rejections = Map.empty\<rparr>" for ps
    by (simp add: commit_index_def)
  from rebuild_spec [OF this] show "node_ok (new_log_node ns n)" "ln_node_id (new_log_node ns n) = n"
    by (simp_all add: new_log_node_def node_ok_def log_ok_def)
      (simp_all add: node_log_def commit_index_def)
qed

lemma new_relay_cluster_ok [keep]: "new_relay_cluster ids = Inr c \<Longrightarrow> cluster_ok c"
proof -
  assume "new_relay_cluster ids = Inr c"
  then have c: "3 \<le> length (from_keys ids)" "c = \<lparr>cl_partition = healed (from_keys ids), cl_leader_by_term = Map.empty,
      cl_nodes = map (\<lambda>n. (n, new_log_node (from_keys ids) n)) (from_keys ids)\<rparr>"
    by (auto simp: new_relay_cluster_def Let_def split: if_splits)
  then have keys: "members c = from_keys ids" by (simp add: comp_def)
  moreover have "from_keys ids \<noteq> []" using c(1) by auto
  ultimately show "cluster_ok c"
    using new_log_node_ok healed_partitions [of "from_keys ids"]
    by (auto simp: cluster_ok_def c(2) map_of_map_keys split: if_splits)
qed

interpretation relay: machine "\<lambda>c. \<exists>ids. new_relay_cluster ids = Inr c" relay_step cluster_ok
  by unfold_locales (auto intro: relay_step_ok new_relay_cluster_ok)


section \<open>A leader that reaches a majority\<close>

definition running_of :: "relay_cluster \<Rightarrow> node_id \<Rightarrow> bool option" where
  "running_of c k = map_option ln_running (map_of (cl_nodes c) k)"

lemma running_among_cong: "running_of c = running_of c' \<Longrightarrow> running_among c ps = running_among c' ps"
proof (induction ps)
  case (Cons p ps)
  have "running_of c p = running_of c' p" using Cons.prems by simp
  with Cons show ?case
    by (cases "map_of (cl_nodes c) p"; cases "map_of (cl_nodes c') p") (auto simp: node_def running_of_def split: sum.split)
qed simp

lemma reachable_peers_cong:
  "running_of c = running_of c' \<Longrightarrow> cl_partition c = cl_partition c' \<Longrightarrow> reachable_peers c n = reachable_peers c' n"
  using running_among_cong [of c c'] by (simp add: reachable_peers_def split: sum.split)

lemma running_of_modify:
  "node c k = Inr x \<Longrightarrow> ln_running (f x) = ln_running x \<Longrightarrow> running_of (modify k f c) = running_of c"
  by (auto simp: running_of_def fun_eq_iff log_node_Inr)

definition installed :: "append_request \<Rightarrow> log_node \<Rightarrow> bool" where
  "installed req n \<longleftrightarrow> node_log n = aq_log_entries req \<and> current_term n = aq_term req \<and>
     commit_index n = min (aq_leader_commit req) (int (length (aq_log_entries req)))"

lemma accept_append:
  assumes "node_ok n" "current_term n \<le> aq_term req"
    and "log_ok (aq_term req) (aq_log_entries req)" "0 \<le> aq_leader_commit req"
  shows "\<exists>r n'. receive_append_entries req n = (Inr r, n') \<and> node_ok n' \<and> ln_node_id n' = ln_node_id n \<and>
    ln_running n' = ln_running n \<and> ar_term r = aq_term req \<and> ar_follower_id r = ln_node_id n \<and> ar_success r \<and>
    installed req n' \<and> ar_match_index r = int (length (aq_log_entries req))"
proof -
  obtain r n' where h: "receive_append_entries req n = (Inr r, n')" "node_ok n'" "ln_node_id n' = ln_node_id n"
    "ln_running n' = ln_running n" "ar_term r = current_term n'" "ar_follower_id r = ln_node_id n"
    "ar_success r = (current_term n \<le> aq_term req)" "current_term n' = max (aq_term req) (current_term n)"
    and i: "if aq_term req < current_term n then n' = n
     else node_log n' = aq_log_entries req \<and> ar_match_index r = int (length (aq_log_entries req)) \<and>
       commit_index n' = min (aq_leader_commit req) (int (length (aq_log_entries req))) \<and>
       commit_index n' \<le> int (ln_last_applied n') \<and>
       int (ln_last_applied n') \<le> max (commit_index n') (int (ln_last_applied n)) \<and>
       (faithful n \<and> take (ln_last_applied n) (node_log n) = take (ln_last_applied n) (aq_log_entries req)
          \<longrightarrow> faithful n')"
    using receive_append_entries_ok [OF assms(1,3,4)] by blast
  from i assms(2) have "node_log n' = aq_log_entries req" "ar_match_index r = int (length (aq_log_entries req))"
    "commit_index n' = min (aq_leader_commit req) (int (length (aq_log_entries req)))" by simp_all
  with h assms(2) show ?thesis by (simp add: installed_def)
qed

lemma replicate_peers_all:
  assumes "cluster_ok c" "distinct ps" "l \<notin> set ps" "node c l = Inr x" "aq_term req = current_term x"
    and "\<forall>p \<in> set ps. \<exists>n. node c p = Inr n \<and> current_term n \<le> aq_term req"
    and "log_ok (aq_term req) (aq_log_entries req)" "0 \<le> aq_leader_commit req"
  shows "\<exists>rs c'. replicate_peers l req ps c = (Inr rs, c') \<and> cluster_ok c' \<and> same_frame c c' \<and>
    running_of c' = running_of c \<and> map ar_follower_id rs = ps \<and> (\<forall>r \<in> set rs. ar_success r) \<and>
    node c' l = Inr (x\<lparr>ln_match_index_by_peer :=
      fold (\<lambda>p d. AList.update p (int (length (aq_log_entries req))) d) ps (ln_match_index_by_peer x)\<rparr>) \<and>
    (\<forall>p \<in> set ps. \<exists>n. node c' p = Inr n \<and> installed req n) \<and>
    (\<forall>k. k \<noteq> l \<longrightarrow> k \<notin> set ps \<longrightarrow> map_of (cl_nodes c') k = map_of (cl_nodes c) k)"
  using assms(1-6)
proof (induction ps arbitrary: c x)
  case Nil
  then show ?case by simp
next
  case (Cons p ps)
  from Cons.prems(6) obtain n where n: "node c p = Inr n" "current_term n \<le> aq_term req" by auto
  from cluster_node_ok [OF Cons.prems(1) n(1)] have nok: "node_ok n" "ln_node_id n = p" by auto
  from accept_append [OF nok(1) n(2) assms(7,8)] obtain r n' where
    r: "receive_append_entries req n = (Inr r, n')" "node_ok n'" "ln_node_id n' = p" "ln_running n' = ln_running n"
      "ar_term r = aq_term req" "ar_follower_id r = p" "ar_success r" "installed req n'"
      "ar_match_index r = int (length (aq_log_entries req))"
    unfolding nok by blast
  let ?x = "x\<lparr>ln_match_index_by_peer := AList.update p (int (length (aq_log_entries req))) (ln_match_index_by_peer x)\<rparr>"
  have noted: "note_response r p x = ?x" using r(5,9) Cons.prems(5) by (simp add: note_response_def)
  let ?c0 = "modify p (\<lambda>_. n') c" and ?c1 = "modify l (note_response r p) (modify p (\<lambda>_. n') c)"
  have c0: "cluster_ok ?c0" by (rule modify_ok [OF Cons.prems(1)]) (use n(1) nok r(2,3) in simp)
  have c1: "cluster_ok ?c1"
    by (rule modify_ok [OF c0]) (use cluster_node_ok [OF c0] in \<open>auto intro: note_response_ok\<close>)
  have pl: "p \<noteq> l" using Cons.prems(3) by auto
  have x0: "node ?c0 l = Inr x" using Cons.prems(4) pl by (simp add: log_node_Inr)
  then have x1: "node ?c1 l = Inr ?x" using noted by (simp add: log_node_Inr)
  have run: "running_of ?c1 = running_of c"
    using running_of_modify [OF x0, of "note_response r p"] running_of_modify [OF n(1), of "\<lambda>_. n'"] r(4) noted by simp
  have rest: "\<forall>q \<in> set ps. \<exists>m. node ?c1 q = Inr m \<and> current_term m \<le> aq_term req"
    using Cons.prems(2,3,6) by (auto simp: log_node_Inr)
  have t1: "aq_term req = current_term ?x" using Cons.prems(5) by (simp add: current_term_def)
  have "distinct ps" "l \<notin> set ps" using Cons.prems(2,3) by auto
  from Cons.IH [OF c1 this x1 t1 rest] obtain rs c' where
    g: "replicate_peers l req ps ?c1 = (Inr rs, c')" "cluster_ok c'" "same_frame ?c1 c'" "running_of c' = running_of ?c1"
      "map ar_follower_id rs = ps" "\<forall>r \<in> set rs. ar_success r"
      "node c' l = Inr (?x\<lparr>ln_match_index_by_peer :=
        fold (\<lambda>p d. AList.update p (int (length (aq_log_entries req))) d) ps (ln_match_index_by_peer ?x)\<rparr>)"
      "\<forall>p \<in> set ps. \<exists>n. node c' p = Inr n \<and> installed req n"
      "\<forall>k. k \<noteq> l \<longrightarrow> k \<notin> set ps \<longrightarrow> map_of (cl_nodes c') k = map_of (cl_nodes ?c1) k" by blast
  have "map_of (cl_nodes c') p = Some n'"
    using g(9) pl Cons.prems(2) n(1) by (simp add: log_node_Inr)
  then have "node c' p = Inr n'" by (simp add: log_node_Inr)
  moreover have "replicate_peers l req (p # ps) c = (Inr (r # rs), c')" using n(1) r(1) g(1) by simp
  moreover have "same_frame c c'" by (rule same_frame_trans [OF same_frame_modify2 g(3)])
  ultimately show ?case
    using g(2,4-9) run r(6-8) pl by (intro exI [of _ "r # rs"] exI [of _ c'] conjI) simp_all
qed

lemma map_of_updates_all:
  "map_of (fold (\<lambda>p d. AList.update p v d) ps d) k = (if k \<in> set ps then Some v else map_of d k)"
  by (induction ps arbitrary: d) (auto simp: update_conv')

lemma count_known:
  assumes "finite A" "\<forall>k \<in> A. \<exists>v. map_of d k = Some v \<and> i \<le> v"
  shows "card A \<le> length (filter (\<lambda>m. i \<le> m) (dict_values d))"
proof -
  have "A \<subseteq> fst ` set (filter (\<lambda>(k, v). i \<le> v) d)"
    using assms(2) map_of_SomeD by force
  then have "card A \<le> card (fst ` set (filter (\<lambda>(k, v). i \<le> v) d))" by (intro card_mono) auto
  also have "\<dots> \<le> length (filter (\<lambda>(k, v). i \<le> v) d)" by (meson card_image_le card_length finite_set le_trans)
  also have "\<dots> = length (filter (\<lambda>m. i \<le> m) (dict_values d))"
    by (induction d) auto
  finally show ?thesis .
qed


text \<open>Replication by a leader none of whose reachable peers is in a later term.\<close>

lemma replicate_from_leader_all:
  assumes "cluster_ok c" "node c l = Inr x" "ln_running x" "ln_role x = LEADER"
    and "reachable_peers c l = Inr ps"
    and "\<forall>p \<in> set ps. \<exists>n. node c p = Inr n \<and> current_term n \<le> current_term x"
    and "req = \<lparr>aq_term = current_term x, aq_leader_id = l, aq_log_entries = node_log x, aq_leader_commit = commit_index x\<rparr>"
  shows "\<exists>rs c' d. replicate_from_leader l c = (Inr rs, c') \<and> cluster_ok c' \<and> same_frame c c' \<and>
    running_of c' = running_of c \<and> map ar_follower_id rs = ps \<and> (\<forall>r \<in> set rs. ar_success r) \<and>
    node c' l = Inr (x\<lparr>ln_match_index_by_peer := d\<rparr>) \<and>
    (\<forall>p \<in> insert l (set ps). map_of d p = Some (int (length (node_log x)))) \<and>
    (\<forall>p \<in> set ps. \<exists>n. node c' p = Inr n \<and> installed req n)"
proof -
  have l: "l \<in> set (members c)" using assms(2) by (auto simp: log_node_Inr dest: map_of_SomeD intro: rev_image_eqI)
  have ps: "distinct ps" "l \<notin> set ps" using reachable_peers_ok [OF assms(1) l] assms(5) by auto
  have xok: "node_ok x" using cluster_node_ok [OF assms(1,2)] by simp
  then have lg: "log_ok (aq_term req) (aq_log_entries req)" "0 \<le> aq_leader_commit req"
    by (simp_all add: assms(7) node_ok_def)
  have t: "aq_term req = current_term x" by (simp add: assms(7))
  from replicate_peers_all [OF assms(1) ps assms(2) t assms(6) [folded t] lg] obtain rs c1 where
    r: "replicate_peers l req ps c = (Inr rs, c1)" "cluster_ok c1" "same_frame c c1" "running_of c1 = running_of c"
      "map ar_follower_id rs = ps" "\<forall>r \<in> set rs. ar_success r"
      "node c1 l = Inr (x\<lparr>ln_match_index_by_peer :=
        fold (\<lambda>p d. AList.update p (int (length (aq_log_entries req))) d) ps (ln_match_index_by_peer x)\<rparr>)"
      "\<forall>p \<in> set ps. \<exists>n. node c1 p = Inr n \<and> installed req n" by blast
  let ?d = "fold (\<lambda>p d. AList.update p (int (length (aq_log_entries req))) d) ps (ln_match_index_by_peer x)"
  let ?f = "\<lambda>n. n\<lparr>ln_match_index_by_peer := AList.update l (lp_index (last_log_position n)) (ln_match_index_by_peer n)\<rparr>"
  let ?x = "x\<lparr>ln_match_index_by_peer := ?d\<rparr>" and ?c' = "modify l ?f c1"
  have last: "lp_index (last_log_position ?x) = int (length (node_log x))"
    using xok last_log_index [of "current_term x" ?x] by (simp add: node_ok_def node_log_def)
  have eq: "replicate_from_leader l c = (Inr rs, ?c')"
    using assms(2-5) r(1) by (simp add: replicate_from_leader_def require_running_node_def assms(7))
  have nodes: "node ?c' l = Inr (?f ?x)" using r(7) by (simp add: log_node_Inr)
  have keep: "node ?c' p = node c1 p" if "p \<in> set ps" for p
    using that ps(2) by (cases "p = l") (simp_all add: node_def)
  have run: "running_of ?c' = running_of c1" by (rule running_of_modify [OF r(7)]) simp
  have "cluster_ok ?c'" using replicate_from_leader_ok [OF assms(1), of l] eq by simp
  moreover have "same_frame c ?c'" by (rule same_frame_trans [OF r(3) same_frame_modify])
  moreover have "node ?c' l = Inr (x\<lparr>ln_match_index_by_peer := AList.update l (int (length (node_log x))) ?d\<rparr>)"
    unfolding nodes last by simp
  moreover have "\<forall>p \<in> insert l (set ps). map_of (AList.update l (int (length (node_log x))) ?d) p = Some (int (length (node_log x)))"
    by (simp add: update_conv' map_of_updates_all assms(7))
  ultimately show ?thesis
    using eq r(4-6,8) run keep
    by (intro exI [of _ rs] exI [of _ ?c'] exI [of _ "AList.update l (int (length (node_log x))) ?d"] conjI) simp_all
qed

text \<open>The last entry, of the leader's own term and known to a quorum, becomes the commit index.\<close>

lemma new_commit_index_last:
  assumes ok: "node_ok l" and ne: "node_log l \<noteq> []" and lt: "commit_index l < int (length (node_log l))"
    and own: "le_term (last (node_log l)) = current_term l"
    and known: "finite A" "\<forall>k \<in> A. map_of (ln_match_index_by_peer l) k = Some (int (length (node_log l)))" "q \<le> card A"
  shows "new_commit_index q l = int (length (node_log l))"
proof -
  let ?n = "int (length (node_log l))"
  have "card A \<le> length (filter (\<lambda>m. ?n \<le> m) (dict_values (ln_match_index_by_peer l)))"
    by (rule count_known) (use known in auto)
  moreover have "nat (?n - 1) = length (node_log l) - 1" by simp
  ultimately have "committable q l ?n"
    using ne own known(3) by (simp add: committable_def last_conv_nth)
  with new_commit_index_spec [OF ok, of q] lt show ?thesis by force
qed


lemma submit_commits:
  assumes ok: "cluster_ok c" and x: "node c l = Inr x" "ln_running x" "ln_role x = LEADER"
    and ps: "reachable_peers c l = Inr ps" and maj: "majority c \<le> length ps + 1"
    and behind: "\<forall>p \<in> set ps. \<exists>n. node c p = Inr n \<and> current_term n \<le> current_term x"
    and entry: "entry = \<lparr>le_index = int (length (node_log x)) + 1, le_term = current_term x, le_command = k\<rparr>"
  shows "\<exists>r c'. submit_command l k c = (Inr r, c') \<and> cr_committed r \<and> cr_index r = le_index entry \<and>
    cr_term r = current_term x \<and> cr_replicated_to r = sorted_list_of_set (insert l (set ps)) \<and>
    (\<forall>p \<in> insert l (set ps). \<exists>n. node c' p = Inr n \<and> node_log n = node_log x @ [entry] \<and>
       commit_index n = le_index entry)"
proof -
  let ?log = "node_log x @ [entry]"
  obtain x1 where app: "append_local_entry k x = (entry, x1)" by (simp add: append_local_entry_def Let_def entry)
  have x1: "node_log x1 = ?log" "current_term x1 = current_term x" "commit_index x1 = commit_index x"
    "ln_running x1 = ln_running x" "ln_role x1 = ln_role x"
    using app by (auto simp: append_local_entry_def Let_def node_log_def commit_index_def current_term_def)
  from cluster_node_ok [OF ok x(1)] have xok: "node_ok x" "ln_node_id x = l" by auto
  have x1id: "ln_node_id x1 = l" by (metis app ids(6) snd_conv xok(2))
  let ?c1 = "modify l (\<lambda>_. x1) c"
  have c1: "cluster_ok ?c1"
    by (rule modify_ok [OF ok]) (use x(1) xok append_local_entry_ok [OF xok(1), of k] x1id app in simp)
  have l: "l \<in> set (members c)" using x(1) by (auto simp: log_node_Inr dest: map_of_SomeD intro: rev_image_eqI)
  have dps: "distinct ps" "l \<notin> set ps" using reachable_peers_ok [OF ok l] ps by auto
  have n1: "node ?c1 l = Inr x1" using x(1) by (simp add: log_node_Inr)
  have run1: "running_of ?c1 = running_of c" by (rule running_of_modify [OF x(1)]) (rule x1(4))
  then have ps1: "reachable_peers ?c1 l = Inr ps" using ps reachable_peers_cong [of ?c1 c l] by simp
  have behind1: "\<forall>p \<in> set ps. \<exists>n. node ?c1 p = Inr n \<and> current_term n \<le> current_term x1"
    using behind dps(2) x1(2) by (auto simp: log_node_Inr)
  from replicate_from_leader_all [OF c1 n1 _ _ ps1 behind1 refl] x x1 obtain rs c2 d where
    r: "replicate_from_leader l ?c1 = (Inr rs, c2)" "cluster_ok c2" "same_frame ?c1 c2" "running_of c2 = running_of ?c1"
      "map ar_follower_id rs = ps" "\<forall>r \<in> set rs. ar_success r" "node c2 l = Inr (x1\<lparr>ln_match_index_by_peer := d\<rparr>)"
      "\<forall>p \<in> insert l (set ps). map_of d p = Some (int (length ?log))"
      "\<forall>p \<in> set ps. \<exists>n. node c2 p = Inr n \<and> installed \<lparr>aq_term = current_term x1, aq_leader_id = l,
         aq_log_entries = node_log x1, aq_leader_commit = commit_index x1\<rparr> n" by auto
  let ?y = "x1\<lparr>ln_match_index_by_peer := d\<rparr>"
  have y: "node_log ?y = ?log" "current_term ?y = current_term x" "commit_index ?y = commit_index x"
    using x1 by (simp_all add: node_log_def commit_index_def current_term_def)
  have yok: "node_ok ?y" using cluster_node_ok [OF r(2,7)] by simp
  have maj2: "majority c2 = majority c"
    using r(3) by (simp add: majority_def same_frame_def) (metis length_map modify_simps(1))
  have "card (insert l (set ps)) = length ps + 1" using dps by (simp add: distinct_card)
  with maj maj2 have quorum: "majority c2 \<le> card (insert l (set ps))" by simp
  have "commit_index x \<le> int (length (node_log x))" using xok(1) by (simp add: node_ok_def)
  then have new: "new_commit_index (majority c2) ?y = int (length ?log)"
    using new_commit_index_last [OF yok _ _ _ _ _ quorum] y r(8) entry by simp
  obtain b z where z: "advance_commit_index (majority c2) ?y = (Inr b, z)" "node_ok z" "ln_node_id z = ln_node_id ?y"
    "node_log z = node_log ?y" "current_term z = current_term ?y" "commit_index z = new_commit_index (majority c2) ?y"
    "b = (commit_index ?y < commit_index z)" "ln_role z = ln_role ?y" "ln_running z = ln_running ?y"
    using advance_commit_index_ok [OF yok, of "majority c2"] by blast
  have b: b using z(6,7) new y(3) xok(1) by (simp add: node_ok_def)
  let ?c3 = "modify l (\<lambda>_. z) c2"
  have c3: "cluster_ok ?c3" by (rule modify_ok [OF r(2)]) (use r(7) z(2,3) in simp)
  have n3: "node ?c3 l = Inr z" using r(7) by (simp add: log_node_Inr)
  have run3: "running_of ?c3 = running_of c2" by (rule running_of_modify [OF r(7)]) (simp add: z(9))
  have "cl_partition ?c3 = cl_partition c" using r(3) by (simp add: same_frame_def)
  with run3 r(4) run1 have ps3: "reachable_peers ?c3 l = Inr ps"
    using ps reachable_peers_cong [of ?c3 c l] by simp
  have zt: "current_term z = current_term x" "node_log z = ?log" "commit_index z = int (length ?log)"
    using z(4-6) new y by simp_all
  have behind3: "\<forall>p \<in> set ps. \<exists>n. node ?c3 p = Inr n \<and> current_term n \<le> current_term z"
    using r(9) dps(2) x1(2) zt(1) by (fastforce simp: log_node_Inr installed_def)
  from replicate_from_leader_all [OF c3 n3 _ _ ps3 behind3 refl] x x1 z(8,9) obtain rs4 c4 d4 where
    s: "replicate_from_leader l ?c3 = (Inr rs4, c4)" "node c4 l = Inr (z\<lparr>ln_match_index_by_peer := d4\<rparr>)"
      "\<forall>p \<in> set ps. \<exists>n. node c4 p = Inr n \<and> installed \<lparr>aq_term = current_term z, aq_leader_id = l,
         aq_log_entries = node_log z, aq_leader_commit = commit_index z\<rparr> n" by auto
  let ?z = "z\<lparr>ln_match_index_by_peer := d4\<rparr>"
  have zz: "node_log ?z = ?log" "commit_index ?z = le_index entry"
    using zt entry by (simp_all add: node_log_def commit_index_def)
  have fol: "\<exists>n. node c4 p = Inr n \<and> node_log n = ?log \<and> commit_index n = le_index entry" if "p \<in> set ps" for p
    using s(3) that zt entry by (fastforce simp: installed_def)
  have flt: "filter ar_success rs = rs" "ar_follower_id ` set rs = set ps"
    using r(6) arg_cong [OF r(5), of set] by (simp_all add: filter_id_conv)
  have "submit_command l k c = (Inr \<lparr>cr_leader_id = l,
      cr_index = le_index entry, cr_term = le_term entry, cr_committed = True,
      cr_replicated_to = sorted_list_of_set (insert l (set ps)),
      cr_rejection = rejection_for ?z (le_index entry)\<rparr>, c4)"
    using x(2,3) b by (simp add: submit_command_def require_running_node_def x(1) app r(1,7) z(1) s(1,2) zz flt)
  with fol s(2) zz entry show ?thesis by auto
qed


section \<open>The life of a task\<close>

definition rank :: "relay_task_status \<Rightarrow> nat" where
  "rank st = (case st of QUEUED \<Rightarrow> 0 | RUNNING \<Rightarrow> 1 | COMPLETED \<Rightarrow> 2)"

text \<open>A task only moves forward, and its queue, its creation and, once running, its worker stay.\<close>

definition moves :: "relay_task \<Rightarrow> relay_task \<Rightarrow> bool" where
  "moves t t' \<longleftrightarrow> t' = t \<or> rank (rt_status t) < rank (rt_status t') \<and> rt_task_id t' = rt_task_id t \<and>
     rt_queue t' = rt_queue t \<and> rt_created_tick t' = rt_created_tick t \<and>
     (rt_status t = RUNNING \<longrightarrow> rt_worker_id t' = rt_worker_id t \<and> rt_attempt t' = rt_attempt t)"

lemma moves_trans: "moves a b \<Longrightarrow> moves b c \<Longrightarrow> moves a c"
  by (cases "rt_status a"; cases "rt_status b"; cases "rt_status c") (auto simp: moves_def rank_def)

lemma apply_command_moves:
  "tm_tasks m k = Some t \<Longrightarrow> \<exists>t'. tm_tasks (snd (apply_command cmd m)) k = Some t' \<and> moves t t'"
  by (cases cmd) (auto simp: apply_command_def require_task_def moves_def rank_def split: option.splits)

lemma fst_apply_entry: "fst (apply_entry e a) = snd (apply_command (le_command e) (fst a))"
  by (auto simp: apply_entry_def split: prod.split sum.split exn.split)

lemma replay_append: "replay (es @ fs) = fold apply_entry fs (replay es)"
  by (simp add: replay_def)

lemma replay_moves:
  "tm_tasks (fst a) k = Some t \<Longrightarrow> \<exists>t'. tm_tasks (fst (fold apply_entry fs a)) k = Some t' \<and> moves t t'"
proof (induction fs arbitrary: a t)
  case Nil
  then show ?case by (simp add: moves_def)
next
  case (Cons e fs)
  from apply_command_moves [OF Cons.prems, of "le_command e"] obtain t1 where
    "tm_tasks (fst (apply_entry e a)) k = Some t1" "moves t t1" by (auto simp: fst_apply_entry)
  with Cons.IH [of "apply_entry e a" t1] show ?case by (auto intro: moves_trans)
qed

definition run_commands :: "relay_command list \<Rightarrow> task_machine" where
  "run_commands cs = fold (\<lambda>c m. snd (apply_command c m)) cs new_task_machine"

lemma apply_command_cases:
  "apply_command c m = (Inl e, m') \<Longrightarrow> m' = m"
  "apply_command c m = (Inr u, m') \<Longrightarrow> tm_history m' = tm_history m @ [c]"
  by (auto simp: apply_command_def split: sum.splits prod.splits)

lemma replay_history: "run_commands (tm_history (fst (replay es))) = fst (replay es)"
proof (induction es rule: rev_induct)
  case Nil
  then show ?case by (simp add: replay_def run_commands_def new_task_machine_def)
next
  case (snoc e es)
  let ?m = "fst (replay es)"
  obtain r m' where a: "apply_command (le_command e) ?m = (r, m')" by fastforce
  then have m': "fst (replay (es @ [e])) = m'" by (simp add: replay_append fst_apply_entry)
  show ?case
  proof (cases r)
    case (Inl x)
    with a have "m' = ?m" using apply_command_cases(1) by blast
    with snoc show ?thesis unfolding m' by simp
  next
    case (Inr u)
    with a have "tm_history m' = tm_history ?m @ [le_command e]" using apply_command_cases(2) by blast
    with snoc a show ?thesis unfolding m' by (simp add: run_commands_def)
  qed
qed

section \<open>Properties\<close>

definition demo_cluster :: relay_cluster where
  "demo_cluster = (case new_relay_cluster [''a'', ''b'', ''c''] of Inr c \<Rightarrow> c | Inl _ \<Rightarrow> undefined)"

lemma demo_cluster_new: "new_relay_cluster [''a'', ''b'', ''c''] = Inr demo_cluster"
  by (simp add: demo_cluster_def new_relay_cluster_def Let_def)

definition enqueue :: "string \<Rightarrow> relay_command" where
  "enqueue k = EnqueueTask k ''q'' 0"

text \<open>
  In every state a cluster can reach, each node's log entries carry their positions, the
  terms of its entries never decrease and never exceed its own term, and its commit index and the
  number of applied entries stay within the log.
\<close>
theorem relay_logs_well_formed:
  assumes "new_relay_cluster ids = Inr c0" "c = fold relay_step es c0" "node c k = Inr n"
  shows "(\<forall>i < length (node_log n). le_index (node_log n ! i) = int i + 1) \<and>
    sorted (map le_term (node_log n)) \<and> (\<forall>e \<in> set (node_log n). le_term e \<le> current_term n) \<and>
    0 \<le> commit_index n \<and> commit_index n \<le> int (length (node_log n)) \<and>
    ln_last_applied n \<le> length (node_log n)"
proof -
  have "cluster_ok c" unfolding assms(2) using assms(1) by (intro relay.ok_run) blast
  from cluster_node_ok [OF this assms(3)] show ?thesis by (simp add: node_ok_def log_ok_def)
qed

theorem relay_logs_well_formed_witness:
  "\<exists>n. node (fold relay_step [Timeout ''a'', SubmitCommand ''a'' (enqueue ''t'')] demo_cluster) ''b'' = Inr n \<and>
     commit_index n \<le> int (length (node_log n))"
proof -
  have "\<not> isl (node (fold relay_step [Timeout ''a'', SubmitCommand ''a'' (enqueue ''t'')] demo_cluster) ''b'')"
    by code_simp
  then obtain n where n: "node (fold relay_step [Timeout ''a'', SubmitCommand ''a'' (enqueue ''t'')] demo_cluster) ''b'' = Inr n"
    by (metis sum.collapse(2))
  from relay_logs_well_formed [OF demo_cluster_new refl n] n show ?thesis by blast
qed

text \<open>
  Property C35. A follower not in a later term adopts a well-formed leader log entirely, takes the
  leader's commit index up to the end of that log, and never raises; and if its state machine was the
  replay of its applied entries and the leader's log agrees with those, it is such a replay afterwards.
\<close>
theorem follower_adopts_leader_log:
  assumes "node_ok n" "current_term n \<le> aq_term req"
    and "log_ok (aq_term req) (aq_log_entries req)" "0 \<le> aq_leader_commit req"
  shows "\<exists>r n'. receive_append_entries req n = (Inr r, n') \<and> ar_success r \<and>
    ar_match_index r = int (length (aq_log_entries req)) \<and> current_term n' = aq_term req \<and>
    node_log n' = aq_log_entries req \<and>
    commit_index n' = min (aq_leader_commit req) (int (length (aq_log_entries req))) \<and>
    (faithful n \<and> take (ln_last_applied n) (node_log n) = take (ln_last_applied n) (aq_log_entries req) \<longrightarrow>
       (ln_state_machine n', ln_rejections n') = replay (take (ln_last_applied n') (node_log n')) \<and>
       commit_index n' \<le> int (ln_last_applied n'))"
  using receive_append_entries_ok [OF assms(1,3,4)] assms(2)
  by (auto simp: faithful_def applied_def)


definition demo_request :: append_request where
  "demo_request = \<lparr>aq_term = 1, aq_leader_id = ''b'',
     aq_log_entries = [\<lparr>le_index = 1, le_term = 1, le_command = enqueue ''t''\<rparr>], aq_leader_commit = 1\<rparr>"

theorem follower_adopts_leader_log_witness:
  "\<exists>r n'. receive_append_entries demo_request (new_log_node [''a'', ''b'', ''c''] ''a'') = (Inr r, n') \<and>
     commit_index n' = 1"
proof -
  have "current_term (new_log_node [''a'', ''b'', ''c''] ''a'') = 0" by code_simp
  then have t: "current_term (new_log_node [''a'', ''b'', ''c''] ''a'') \<le> aq_term demo_request"
    by (simp add: demo_request_def)
  have l: "log_ok (aq_term demo_request) (aq_log_entries demo_request)" "0 \<le> aq_leader_commit demo_request"
    by (simp_all add: demo_request_def log_ok_def)
  from follower_adopts_leader_log [OF new_log_node_ok(1) t l] obtain r n' where
    "receive_append_entries demo_request (new_log_node [''a'', ''b'', ''c''] ''a'') = (Inr r, n')"
    "commit_index n' = min (aq_leader_commit demo_request) (int (length (aq_log_entries demo_request)))" by blast
  then show ?thesis by (simp add: demo_request_def)
qed

text \<open>
  The commit rule: the leader's commit index never goes back, never passes the end of
  its log, and when it moves the entry it moves to has the leader's current term and is known to be
  on a quorum; no later entry of the log is like that, and an unmoved index means there is none.
\<close>
theorem leader_commits_own_term_by_quorum:
  assumes "node_ok l"
  shows "\<exists>b l'. advance_commit_index q l = (Inr b, l') \<and> node_log l' = node_log l \<and>
    commit_index l \<le> commit_index l' \<and> commit_index l' \<le> int (length (node_log l)) \<and>
    (b \<longleftrightarrow> commit_index l < commit_index l') \<and>
    (b \<longrightarrow> le_term (node_log l ! nat (commit_index l' - 1)) = current_term l \<and>
       q \<le> length (filter (\<lambda>m. commit_index l' \<le> m) (dict_values (ln_match_index_by_peer l)))) \<and>
    (\<forall>i. commit_index l' < i \<and> i \<le> int (length (node_log l)) \<longrightarrow> \<not> committable q l i)"
proof -
  obtain b l' where a: "advance_commit_index q l = (Inr b, l')" "node_log l' = node_log l"
    "commit_index l' = new_commit_index q l" "b = (commit_index l < commit_index l')"
    using advance_commit_index_ok [OF assms, of q] by blast
  have "commit_index l \<le> int (length (node_log l))" using assms by (simp add: node_ok_def)
  with a new_commit_index_spec [OF assms, of q] show ?thesis
    by (intro exI [of _ b] exI [of _ l']) (force simp: committable_def)
qed

theorem leader_commits_own_term_by_quorum_witness:
  "\<exists>b l'. advance_commit_index 2 (new_log_node [''a'', ''b'', ''c''] ''a'') = (Inr b, l') \<and> node_log l' = []"
proof -
  have "node_log (new_log_node [''a'', ''b'', ''c''] ''a'') = []" by code_simp
  with leader_commits_own_term_by_quorum [OF new_log_node_ok(1), of 2 "[''a'', ''b'', ''c'']" "''a''"]
  show ?thesis by auto
qed

text \<open>
  Property C4. A running leader that reaches, itself included, a majority of the nodes, none of them
  in a later term, commits the command it is given: the call returns, reports the entry committed and
  replicated to all the nodes reached, and on each of them the log is the leader's with the new entry
  at its end and the commit index is at that entry.
\<close>
theorem submit_commits_with_a_majority:
  assumes "new_relay_cluster ids = Inr c0" "c = fold relay_step es c0"
    and "node c l = Inr x" "ln_running x" "ln_role x = LEADER" "reachable_peers c l = Inr ps"
    and "length (cl_nodes c) div 2 + 1 \<le> length ps + 1"
    and "\<forall>p \<in> set ps. \<exists>n. node c p = Inr n \<and> current_term n \<le> current_term x"
    and "entry = \<lparr>le_index = int (length (node_log x)) + 1, le_term = current_term x, le_command = k\<rparr>"
  shows "\<exists>r c'. submit_command l k c = (Inr r, c') \<and> cr_committed r \<and> cr_index r = le_index entry \<and>
    cr_term r = current_term x \<and> cr_replicated_to r = sorted_list_of_set (insert l (set ps)) \<and>
    (\<forall>p \<in> insert l (set ps). \<exists>n. node c' p = Inr n \<and> node_log n = node_log x @ [entry] \<and>
       commit_index n = le_index entry)"
proof -
  have "cluster_ok c" unfolding assms(2) using assms(1) by (intro relay.ok_run) blast
  from submit_commits [OF this assms(3-6) _ assms(8,9)] assms(7) show ?thesis
    by (simp add: majority_def)
qed

theorem submit_commits_with_a_majority_witness:
  "\<exists>r c'. submit_command ''a'' (enqueue ''t'') (fold relay_step [Timeout ''a''] demo_cluster) = (Inr r, c') \<and>
     cr_committed r"
proof -
  let ?c = "fold relay_step [Timeout ''a''] demo_cluster"
  have facts: "(case node ?c ''a'' of Inr x \<Rightarrow> ln_running x \<and> ln_role x = LEADER \<and> current_term x = 1 | Inl _ \<Rightarrow> False)"
    "reachable_peers ?c ''a'' = Inr [''b'', ''c'']" "length (cl_nodes ?c) = 3"
    "(case node ?c ''b'' of Inr x \<Rightarrow> current_term x = 1 | Inl _ \<Rightarrow> False)"
    "(case node ?c ''c'' of Inr x \<Rightarrow> current_term x = 1 | Inl _ \<Rightarrow> False)" by code_simp+
  then obtain x y z where x: "node ?c ''a'' = Inr x" "ln_running x" "ln_role x = LEADER" "current_term x = 1"
    and yz: "node ?c ''b'' = Inr y" "current_term y = 1" "node ?c ''c'' = Inr z" "current_term z = 1"
    by (auto split: sum.splits)
  have peers: "\<forall>p \<in> set [''b'', ''c'']. \<exists>n. node ?c p = Inr n \<and> current_term n \<le> current_term x"
    using x(4) yz by simp
  have "length (cl_nodes ?c) div 2 + 1 \<le> length [''b'', ''c''] + 1" using facts(3) by simp
  from submit_commits_with_a_majority [OF demo_cluster_new refl x(1-3) facts(2) this peers refl, of "enqueue ''t''"]
  show ?thesis by blast
qed

text \<open>
  A task of the replayed machine never disappears and only moves from queued to running
  to completed, keeping its queue, its creation tick and, once running, its worker and attempt,
  whatever entries follow; and running the machine's own history reproduces the machine.
\<close>
theorem replayed_tasks_move_forward:
  assumes "tm_tasks (fst (replay es)) k = Some t"
  shows "(\<exists>t'. tm_tasks (fst (replay (es @ fs))) k = Some t' \<and> moves t t') \<and>
    fold (\<lambda>c m. snd (apply_command c m)) (tm_history (fst (replay es))) new_task_machine = fst (replay es)"
  using replay_moves [OF assms] replay_history [of es]
  by (simp add: replay_append run_commands_def)

theorem replayed_tasks_move_forward_witness:
  "\<exists>t t'. tm_tasks (fst (replay [\<lparr>le_index = 1, le_term = 1, le_command = enqueue ''t''\<rparr>])) ''t'' = Some t \<and>
     tm_tasks (fst (replay ([\<lparr>le_index = 1, le_term = 1, le_command = enqueue ''t''\<rparr>] @
       [\<lparr>le_index = 2, le_term = 1, le_command = StartTask ''t'' ''w'' 1\<rparr>]))) ''t'' = Some t' \<and> moves t t'"
proof -
  obtain t where t: "tm_tasks (fst (replay [\<lparr>le_index = 1, le_term = 1, le_command = enqueue ''t''\<rparr>])) ''t'' = Some t"
    by (simp add: replay_def apply_entry_def apply_command_def enqueue_def new_task_machine_def)
  from replayed_tasks_move_forward [OF t, of "[\<lparr>le_index = 2, le_term = 1, le_command = StartTask ''t'' ''w'' 1\<rparr>]"] t
  show ?thesis by blast
qed

text \<open>
  Property C37.  A follower takes the leader's commit index even when it is below its own.  In any state a cluster
  can reach, let a node have applied what it committed, and let a leader whose log holds all of that, but which knows a smaller
  commit index, append twice: the first append sets the node's commit index back with the entries still
  applied, and the second rebuilds its state machine from the smaller prefix, so that entries it had committed
  and applied are taken out of it.
\<close>
theorem commit_index_goes_back:
  assumes "new_relay_cluster ids = Inr c0" "c = fold relay_step es c0" "node c k = Inr n"
    and "current_term n \<le> aq_term req" "log_ok (aq_term req) (aq_log_entries req)"
    and "commit_index n \<le> int (length (aq_log_entries req))" "commit_index n \<le> int (ln_last_applied n)"
    and "0 \<le> aq_leader_commit req" "aq_leader_commit req < commit_index n"
  shows "\<exists>r n1 r' n2. receive_append_entries req n = (Inr r, n1) \<and> ar_success r \<and>
    commit_index n1 = aq_leader_commit req \<and> int (ln_last_applied n1) = commit_index n \<and>
    receive_append_entries req n1 = (Inr r', n2) \<and> ar_success r' \<and>
    commit_index n2 = aq_leader_commit req \<and> int (ln_last_applied n2) = aq_leader_commit req \<and>
    (ln_state_machine n2, ln_rejections n2) = replay (take (nat (aq_leader_commit req)) (aq_log_entries req))"
proof -
  have "cluster_ok c" unfolding assms(2) using assms(1) by (intro relay.ok_run) blast
  then have n: "node_ok n" using cluster_node_ok assms(3) by blast
  from receive_append_entries_ok [OF n assms(5,8)] assms(4,6,9) obtain r n1 where
    n1: "receive_append_entries req n = (Inr r, n1)" "node_ok n1" "ar_success r" "current_term n1 = aq_term req" "commit_index n1 = aq_leader_commit req"
    by auto
  have last1: "int (ln_last_applied n1) = commit_index n"
    using receive_append_applied(1) [OF n assms(4,5,8) n1(1)] assms(6-9) by linarith
  have t1: "current_term n1 \<le> aq_term req" using n1(4) by simp
  from receive_append_entries_ok [OF n1(2) assms(5,8)] t1 assms(6,9) obtain r' n2 where
    n2: "receive_append_entries req n1 = (Inr r', n2)" "ar_success r'" "commit_index n2 = aq_leader_commit req" by auto
  note second = receive_append_applied [OF n1(2) t1 assms(5,8) n2(1)]
  have "int (ln_last_applied n2) = aq_leader_commit req"
    using second(1) n1(5) last1 assms(6,8,9) by (simp add: min_def max_def)
  moreover have "applied n2 = replay (take (nat (aq_leader_commit req)) (aq_log_entries req))"
    using second(2) n1(5) last1 assms(6,8,9) by (simp add: min_def)
  ultimately show ?thesis using n1 n2 last1 by (auto simp: applied_def)
qed

text \<open>
  The run: \<open>a\<close> commits and applies a task on match indexes it had gathered before a partition; the next leader
  \<open>b\<close> has the entry but not the commit.
\<close>

definition stale_commit_run :: "relay_event list" where
  "stale_commit_run =
     [Timeout ''a'', SetPartition [[''a''], [''b'', ''c'']], SubmitCommand ''a'' (enqueue ''t1''), Heal, Replicate ''a'',
      SetPartition [[''a''], [''b'', ''c'']], SubmitCommand ''a'' (enqueue ''t2''), Timeout ''b'', Heal]"

definition append_of :: "log_node \<Rightarrow> append_request" where
  "append_of l = \<lparr>aq_term = current_term l, aq_leader_id = ln_node_id l, aq_log_entries = node_log l, aq_leader_commit = commit_index l\<rparr>"

theorem commit_index_goes_back_witness:
  "\<exists>a b r n1 r' n2. node (fold relay_step stale_commit_run demo_cluster) ''a'' = Inr a \<and> commit_index a = 1 \<and>
     node (fold relay_step stale_commit_run demo_cluster) ''b'' = Inr b \<and> ln_role b = LEADER \<and>
     receive_append_entries (append_of b) a = (Inr r, n1) \<and> receive_append_entries (append_of b) n1 = (Inr r', n2) \<and>
     (ln_state_machine n2, ln_rejections n2) = (new_task_machine, Map.empty)"
proof -
  let ?c = "fold relay_step stale_commit_run demo_cluster"
  have "(case node ?c ''a'' of Inr a \<Rightarrow> commit_index a = 1 \<and> ln_last_applied a = 1 \<and> current_term a = 1 | Inl _ \<Rightarrow> False)"
    "(case node ?c ''b'' of Inr b \<Rightarrow> ln_role b = LEADER \<and> current_term b = 2 \<and> commit_index b = 0 \<and> length (node_log b) = 1 | Inl _ \<Rightarrow> False)"
    by code_simp+
  then obtain a b where a: "node ?c ''a'' = Inr a" "commit_index a = 1" "ln_last_applied a = 1" "current_term a = 1"
    and b: "node ?c ''b'' = Inr b" "ln_role b = LEADER" "current_term b = 2" "commit_index b = 0" "length (node_log b) = 1"
    by (auto split: sum.splits)
  have "cluster_ok ?c" by (intro relay.ok_run) (use demo_cluster_new in blast)
  with b(1) have "log_ok (current_term b) (node_log b)" using cluster_node_ok by (auto simp: node_ok_def)
  with commit_index_goes_back [OF demo_cluster_new refl a(1), of "append_of b"] a b show ?thesis
    by (fastforce simp: append_of_def replay_def)
qed

end
