(* ===== verification/KvStore.thy ===== *)
theory KvStore
  imports Prelude "HOL-Library.Product_Lexorder"
begin

text \<open>
  Lab 29, \<open>lab_29_kv_store/contract.py\<close> and \<open>repository.py\<close>: the fake Cosmos container with expiring
  items and ETag-conditional writes, and the repository over it.  A \<open>datetime\<close> is a number of seconds
  (only whole seconds are ever added; the range of the calendar is not modelled, so a time to live that leads past the
  year 9999, an OverflowError of the source, is out of scope); the clock, shared
  by the containers of a client, is the argument \<open>now\<close>.  All request units the code computes are
  whole numbers and are integers here.
\<close>

section \<open>Data\<close>

datatype task_status = QUEUED | RUNNING | SUCCEEDED | FAILED

record task_key =
  tk_tenant_id :: string
  tk_task_id :: string

record task_record =
  tr_key :: task_key
  tr_title :: string
  tr_status :: task_status
  tr_payload :: "(string \<times> string) list"
  tr_depends_on :: "string list"

record task_patch =
  tp_title :: "string option"
  tp_status :: "task_status option"
  tp_payload :: "(string \<times> string) list option"
  tp_depends_on :: "string list option"

record ttl_policy =
  tt_default_ttl_seconds :: "int option"

record indexing_policy =
  ip_automatic :: bool
  ip_mode :: string
  ip_included_paths :: "string list"
  ip_excluded_paths :: "string list"

record container_model =
  cm_container_name :: string
  cm_partition_key_path :: string
  cm_ttl_policy :: ttl_policy
  cm_indexing_policy :: indexing_policy

record stored_task =
  st_record :: task_record
  st_etag :: string
  st_expires_at :: "int option"

record request_charge =
  rc_operation :: string
  rc_request_units :: int
  rc_cross_partition :: bool
  rc_partitions_touched :: int

record item_result =
  ir_task :: stored_task
  ir_charge :: request_charge

record query_result =
  qr_tasks :: "stored_task list"
  qr_charge :: request_charge

definition fixed_clock :: "bool \<Rightarrow> int \<Rightarrow> int res" where
  "fixed_clock is_utc current_time =
     (if \<not> is_utc then Inl (ValueError ''current_time must be timezone.utc aware'') else Inr current_time)"

definition clock_advance :: "int \<Rightarrow> int \<Rightarrow> int \<Rightarrow> int" where
  "clock_advance now seconds minutes = now + (seconds + 60 * minutes)"

section \<open>The container\<close>

record container =
  ct_model :: container_model
  ct_etag_counter :: nat
  ct_items :: "(task_key \<times> stored_task) list"

definition new_container :: "container_model \<Rightarrow> container" where
  "new_container model = \<lparr>ct_model = model, ct_etag_counter = 1, ct_items = []\<rparr>"

definition expired :: "int \<Rightarrow> stored_task \<Rightarrow> bool" where
  "expired now st = (case st_expires_at st of None \<Rightarrow> False | Some e \<Rightarrow> e \<le> now)"

definition purge_expired :: "int \<Rightarrow> container \<Rightarrow> container" where
  "purge_expired now c = c\<lparr>ct_items := filter (\<lambda>(k, st). \<not> expired now st) (ct_items c)\<rparr>"

text \<open>Drawing from the counter advances it.\<close>

definition stored_task_for :: "int \<Rightarrow> task_record \<Rightarrow> int option \<Rightarrow> container \<Rightarrow> stored_task \<times> container" where
  "stored_task_for now r ttl_seconds c =
     (let effective_ttl = (if ttl_seconds = None then tt_default_ttl_seconds (cm_ttl_policy (ct_model c)) else ttl_seconds)
      in (\<lparr>st_record = r, st_etag = zero_pad 8 (ct_etag_counter c),
           st_expires_at = map_option (\<lambda>ttl. now + ttl) effective_ttl\<rparr>,
          c\<lparr>ct_etag_counter := ct_etag_counter c + 1\<rparr>))"

definition point_charge :: "string \<Rightarrow> int \<Rightarrow> request_charge" where
  "point_charge operation units =
     \<lparr>rc_operation = operation, rc_request_units = units, rc_cross_partition = False, rc_partitions_touched = 1\<rparr>"

definition create_item :: "int \<Rightarrow> task_record \<Rightarrow> int option \<Rightarrow> container \<Rightarrow> item_result res \<times> container" where
  "create_item now r ttl_seconds c =
     (let c1 = purge_expired now c
      in if map_of (ct_items c1) (tr_key r) \<noteq> None
         then (Inl (TaskAlreadyExistsError (tk_task_id (tr_key r))), c1)
         else let (stored, c2) = stored_task_for now r ttl_seconds c1
              in (Inr \<lparr>ir_task = stored, ir_charge = point_charge ''create'' 5\<rparr>,
                  c2\<lparr>ct_items := AList.update (tr_key r) stored (ct_items c2)\<rparr>))"

definition read_item :: "int \<Rightarrow> task_key \<Rightarrow> container \<Rightarrow> item_result res \<times> container" where
  "read_item now key c =
     (let c1 = purge_expired now c
      in case map_of (ct_items c1) key of
           None \<Rightarrow> (Inl (TaskNotFoundError (tk_task_id key)), c1)
         | Some stored \<Rightarrow> (Inr \<lparr>ir_task = stored, ir_charge = point_charge ''point_read'' 1\<rparr>, c1))"

definition replace_item ::
    "int \<Rightarrow> task_record \<Rightarrow> string \<Rightarrow> int option \<Rightarrow> container \<Rightarrow> item_result res \<times> container" where
  "replace_item now r if_match ttl_seconds c =
     (let c1 = purge_expired now c
      in case map_of (ct_items c1) (tr_key r) of
           None \<Rightarrow> (Inl (TaskNotFoundError (tk_task_id (tr_key r))), c1)
         | Some current \<Rightarrow>
             if st_etag current \<noteq> if_match
             then (Inl (ConditionalWriteFailedError (tk_task_id (tr_key r))), c1)
             else let (stored, c2) = stored_task_for now r ttl_seconds c1
                  in (Inr \<lparr>ir_task = stored, ir_charge = point_charge ''replace'' 5\<rparr>,
                      c2\<lparr>ct_items := AList.update (tr_key r) stored (ct_items c2)\<rparr>))"

definition query_items ::
    "int \<Rightarrow> task_status option \<Rightarrow> string option \<Rightarrow> container \<Rightarrow> query_result \<times> container" where
  "query_items now status tenant_id c =
     (let c1 = purge_expired now c;
          tasks = sort_key (\<lambda>st. (tk_tenant_id (tr_key (st_record st)), tk_task_id (tr_key (st_record st))))
            (filter (\<lambda>st. (tenant_id = None \<or> Some (tk_tenant_id (tr_key (st_record st))) = tenant_id) \<and>
                          (status = None \<or> Some (tr_status (st_record st)) = status))
              (dict_values (ct_items c1)));
          partitions_touched = (if tenant_id = None
            then max 1 (int (card (set (map (\<lambda>st. tk_tenant_id (tr_key (st_record st))) tasks)))) else 1)
      in (\<lparr>qr_tasks = tasks,
           qr_charge = \<lparr>rc_operation = ''query'',
             rc_request_units = (if tenant_id = None then 4 + partitions_touched else 2),
             rc_cross_partition = (tenant_id = None), rc_partitions_touched = partitions_touched\<rparr>\<rparr>, c1))"

section \<open>The repository\<close>

definition default_container_model :: container_model where
  "default_container_model =
     \<lparr>cm_container_name = ''relay-tasks'', cm_partition_key_path = ''/tenant_id'',
      cm_ttl_policy = \<lparr>tt_default_ttl_seconds = Some 86400\<rparr>,
      cm_indexing_policy = \<lparr>ip_automatic = True, ip_mode = ''consistent'',
        ip_included_paths = [''/tenant_id/?'', ''/status/?'', ''/depends_on/*'', ''/title/?''],
        ip_excluded_paths = [''/payload/*'']\<rparr>\<rparr>"

definition partition_key_for :: "task_key + task_record \<Rightarrow> string" where
  "partition_key_for key = (case key of Inl k \<Rightarrow> tk_tenant_id k | Inr r \<Rightarrow> tk_tenant_id (tr_key r))"

definition create_task :: "int \<Rightarrow> task_record \<Rightarrow> int option \<Rightarrow> container \<Rightarrow> item_result res \<times> container" where
  "create_task now r ttl_seconds c = create_item now r ttl_seconds c"

definition get_task :: "int \<Rightarrow> task_key \<Rightarrow> container \<Rightarrow> item_result res \<times> container" where
  "get_task now key c = read_item now key c"

definition remaining_ttl_seconds :: "int option \<Rightarrow> int \<Rightarrow> int option" where
  "remaining_ttl_seconds expires_at current_time =
     (case expires_at of None \<Rightarrow> None | Some e \<Rightarrow> Some (max (e - current_time) 0))"

definition patched :: "task_key \<Rightarrow> task_patch \<Rightarrow> task_record \<Rightarrow> task_record" where
  "patched key p r =
     \<lparr>tr_key = key,
      tr_title = (case tp_title p of None \<Rightarrow> tr_title r | Some t \<Rightarrow> t),
      tr_status = (case tp_status p of None \<Rightarrow> tr_status r | Some s \<Rightarrow> s),
      tr_payload = (case tp_payload p of None \<Rightarrow> tr_payload r | Some d \<Rightarrow> d),
      tr_depends_on = (case tp_depends_on p of None \<Rightarrow> tr_depends_on r | Some d \<Rightarrow> d)\<rparr>"

definition patch_task ::
    "int \<Rightarrow> task_key \<Rightarrow> task_patch \<Rightarrow> string \<Rightarrow> container \<Rightarrow> item_result res \<times> container" where
  "patch_task now key p if_match c =
     (case read_item now key c of
        (Inl e, c1) \<Rightarrow> (Inl e, c1)
      | (Inr found, c1) \<Rightarrow>
          let current = ir_task found
          in replace_item now (patched key p (st_record current)) if_match
               (remaining_ttl_seconds (st_expires_at current) now) c1)"

definition query_tasks ::
    "int \<Rightarrow> task_status option \<Rightarrow> string option \<Rightarrow> container \<Rightarrow> query_result \<times> container" where
  "query_tasks now status tenant_id c = query_items now status tenant_id c"

section \<open>The live view of a container\<close>

text \<open>What the container promises: a map from keys to the items that have not expired.\<close>

definition live :: "int \<Rightarrow> container \<Rightarrow> task_key \<Rightarrow> stored_task option" where
  "live now c k =
     (case map_of (ct_items c) k of None \<Rightarrow> None | Some st \<Rightarrow> if expired now st then None else Some st)"

definition container_ok :: "container \<Rightarrow> bool" where
  "container_ok c \<longleftrightarrow> distinct (dict_keys (ct_items c)) \<and>
     (\<forall>(k, st) \<in> set (ct_items c). tr_key (st_record st) = k \<and>
        (\<exists>i < ct_etag_counter c. st_etag st = zero_pad 8 i))"

lemma map_of_filter_values:
  "distinct (dict_keys d) \<Longrightarrow>
   map_of (filter (\<lambda>(k, v). P v) d) k = (case map_of d k of None \<Rightarrow> None | Some v \<Rightarrow> if P v then Some v else None)"
proof (induction d)
  case (Cons e d)
  then show ?case
    by (cases e) (auto split: option.split simp: image_iff map_of_eq_None_iff dest: map_of_SomeD)
qed simp

lemma purge_items:
  "container_ok c \<Longrightarrow> map_of (ct_items (purge_expired now c)) = live now c"
  by (auto simp: purge_expired_def live_def container_ok_def map_of_filter_values fun_eq_iff split: option.split)

lemma purge_ok [keep]: "container_ok c \<Longrightarrow> container_ok (purge_expired now c)"
  by (auto simp: container_ok_def purge_expired_def distinct_map_filter)

lemma purge_counter [simp]:
  "ct_etag_counter (purge_expired now c) = ct_etag_counter c" "ct_model (purge_expired now c) = ct_model c"
  by (simp_all add: purge_expired_def)

lemma live_purge [simp]: "container_ok c \<Longrightarrow> live now (purge_expired now c) = live now c"
  by (auto simp: live_def fun_eq_iff purge_items split: option.split)

lemma live_not_expired: "live now c k = Some st \<Longrightarrow> \<not> expired now st"
  by (auto simp: live_def split: option.splits if_splits)


section \<open>What each operation does\<close>

definition fresh_item :: "int \<Rightarrow> task_record \<Rightarrow> int option \<Rightarrow> container \<Rightarrow> stored_task" where
  "fresh_item now r ttl c = fst (stored_task_for now r ttl c)"

definition put_item :: "int \<Rightarrow> task_record \<Rightarrow> int option \<Rightarrow> container \<Rightarrow> container" where
  "put_item now r ttl c =
     (purge_expired now c)\<lparr>ct_etag_counter := ct_etag_counter c + 1,
       ct_items := AList.update (tr_key r) (fresh_item now r ttl c) (ct_items (purge_expired now c))\<rparr>"

lemma fresh_item_simps [simp]:
  "st_record (fresh_item now r ttl c) = r" "st_etag (fresh_item now r ttl c) = zero_pad 8 (ct_etag_counter c)"
  by (simp_all add: fresh_item_def stored_task_for_def)

lemma stored_task_for_purged:
  "stored_task_for now r ttl (purge_expired now c) =
     (fresh_item now r ttl c, (purge_expired now c)\<lparr>ct_etag_counter := ct_etag_counter c + 1\<rparr>)"
  by (simp add: fresh_item_def stored_task_for_def)

lemma create_item_spec:
  "container_ok c \<Longrightarrow> create_item now r ttl c =
     (if live now c (tr_key r) \<noteq> None then (Inl (TaskAlreadyExistsError (tk_task_id (tr_key r))), purge_expired now c)
      else (Inr \<lparr>ir_task = fresh_item now r ttl c, ir_charge = point_charge ''create'' 5\<rparr>, put_item now r ttl c))"
  by (simp add: create_item_def purge_items stored_task_for_purged put_item_def Let_def)

lemma read_item_spec:
  "container_ok c \<Longrightarrow> read_item now k c =
     (case live now c k of
        None \<Rightarrow> (Inl (TaskNotFoundError (tk_task_id k)), purge_expired now c)
      | Some st \<Rightarrow> (Inr \<lparr>ir_task = st, ir_charge = point_charge ''point_read'' 1\<rparr>, purge_expired now c))"
  by (simp add: read_item_def purge_items Let_def)

lemma replace_item_spec:
  "container_ok c \<Longrightarrow> replace_item now r e ttl c =
     (case live now c (tr_key r) of
        None \<Rightarrow> (Inl (TaskNotFoundError (tk_task_id (tr_key r))), purge_expired now c)
      | Some st \<Rightarrow>
          if st_etag st \<noteq> e then (Inl (ConditionalWriteFailedError (tk_task_id (tr_key r))), purge_expired now c)
          else (Inr \<lparr>ir_task = fresh_item now r ttl c, ir_charge = point_charge ''replace'' 5\<rparr>, put_item now r ttl c))"
  by (simp add: replace_item_def purge_items stored_task_for_purged put_item_def Let_def split: option.split)

lemma put_item_map:
  "container_ok c \<Longrightarrow> map_of (ct_items (put_item now r ttl c)) = (live now c)(tr_key r \<mapsto> fresh_item now r ttl c)"
  by (simp add: put_item_def update_conv' purge_items)

lemma put_item_counter: "ct_etag_counter (put_item now r ttl c) = ct_etag_counter c + 1"
  by (simp add: put_item_def)

lemma live_Some: "live now c k = Some st \<longleftrightarrow> map_of (ct_items c) k = Some st \<and> \<not> expired now st"
  by (auto simp: live_def split: option.split)

lemma put_item_ok [keep]:
  assumes "container_ok c"
  shows "container_ok (put_item now r ttl c)"
proof -
  have "\<exists>i < ct_etag_counter c + 1. st_etag st = zero_pad 8 i"
    if "\<exists>i < ct_etag_counter c. st_etag st = zero_pad 8 i" for st using that less_SucI by auto
  with purge_ok [OF assms, of now] show ?thesis
    by (auto simp: container_ok_def put_item_def distinct_update dest!: set_update_cases)
qed

lemma live_put:
  assumes "container_ok c"
  shows "live now (put_item now r ttl c) = (live now c)(tr_key r :=
    if expired now (fresh_item now r ttl c) then None else Some (fresh_item now r ttl c))"
proof
  fix x
  show "live now (put_item now r ttl c) x = ((live now c)(tr_key r :=
      if expired now (fresh_item now r ttl c) then None else Some (fresh_item now r ttl c))) x"
    using live_not_expired [of now c x]
    by (auto simp: live_def [of now "put_item now r ttl c" x] put_item_map [OF assms] split: option.split)
qed

lemma purge_twice [simp]: "purge_expired now (purge_expired now c) = purge_expired now c"
  by (simp add: purge_expired_def)

lemma put_item_purged [simp]: "put_item now r ttl (purge_expired now c) = put_item now r ttl c"
  by (simp add: put_item_def fresh_item_def stored_task_for_def)

lemma fresh_item_purged [simp]: "fresh_item now r ttl (purge_expired now c) = fresh_item now r ttl c"
  by (simp add: fresh_item_def stored_task_for_def)

lemma patch_task_spec:
  assumes "container_ok c"
  shows "patch_task now k p e c =
     (case live now c k of
        None \<Rightarrow> (Inl (TaskNotFoundError (tk_task_id k)), purge_expired now c)
      | Some st \<Rightarrow>
          if st_etag st \<noteq> e then (Inl (ConditionalWriteFailedError (tk_task_id k)), purge_expired now c)
          else let r = patched k p (st_record st); ttl = remaining_ttl_seconds (st_expires_at st) now
               in (Inr \<lparr>ir_task = fresh_item now r ttl c, ir_charge = point_charge ''replace'' 5\<rparr>, put_item now r ttl c))"
  using assms
  by (simp add: patch_task_def read_item_spec replace_item_spec [OF purge_ok] patched_def Let_def split: option.split)

text \<open>A patch keeps the moment the item expires, unless the item never expires.\<close>

lemma patch_expiry:
  assumes "\<not> expired now st" "st_expires_at st = Some e"
  shows "st_expires_at (fresh_item now r (remaining_ttl_seconds (st_expires_at st) now) c) = Some e"
  using assms by (simp add: fresh_item_def stored_task_for_def remaining_ttl_seconds_def expired_def)

section \<open>Runs\<close>

datatype kv_event =
    Create task_record "int option"
  | Read task_key
  | Replace task_record string "int option"
  | Patch task_key task_patch string
  | Query "task_status option" "string option"

fun kv_step :: "int \<times> kv_event \<Rightarrow> container \<Rightarrow> container" where
  "kv_step (now, Create r ttl) c = snd (create_task now r ttl c)"
| "kv_step (now, Read k) c = snd (get_task now k c)"
| "kv_step (now, Replace r e ttl) c = snd (replace_item now r e ttl c)"
| "kv_step (now, Patch k p e) c = snd (patch_task now k p e c)"
| "kv_step (now, Query st t) c = snd (query_tasks now st t c)"

lemma kv_step_cases:
  assumes "container_ok c"
  shows "(\<exists>now. kv_step e c = purge_expired now c) \<or> (\<exists>now r ttl. kv_step e c = put_item now r ttl c)"
proof -
  obtain now k where "e = (now, k)" by fastforce
  then show ?thesis
    using assms
    by (cases k) (auto simp: create_task_def get_task_def query_tasks_def query_items_def create_item_spec
        read_item_spec replace_item_spec patch_task_spec Let_def split: option.split)
qed

lemma kv_step_ok [keep]: "container_ok c \<Longrightarrow> container_ok (kv_step e c)"
  using kv_step_cases [of c e] by (auto intro: keep)

lemma new_container_ok [keep]: "container_ok (new_container m)"
  by (simp add: new_container_def container_ok_def)

interpretation kv: machine "\<lambda>c. \<exists>m. c = new_container m" kv_step container_ok
  by unfold_locales (auto intro: keep)

text \<open>
  Since a moment at which the counter stood at \<open>n\<close> and the key held \<open>o\<close>, the key's item is gone, the
  same, or newer than \<open>n\<close>.
\<close>

definition since :: "nat \<Rightarrow> stored_task option \<Rightarrow> task_key \<Rightarrow> container \<Rightarrow> bool" where
  "since n old k c \<longleftrightarrow> n \<le> ct_etag_counter c \<and>
     (\<forall>st. map_of (ct_items c) k = Some st \<longrightarrow> Some st = old \<or> (\<exists>i \<ge> n. st_etag st = zero_pad 8 i))"

lemma since_step:
  assumes "container_ok c" "since n old k c"
  shows "since n old k (kv_step e c)"
  using kv_step_cases [OF assms(1), of e]
proof
  assume "\<exists>now. kv_step e c = purge_expired now c"
  with assms show ?thesis by (auto simp: since_def purge_items live_def split: option.splits if_splits)
next
  assume "\<exists>now r ttl. kv_step e c = put_item now r ttl c"
  with assms show ?thesis
    by (auto simp: since_def put_item_map put_item_counter live_Some simp del: zero_pad_inject split: if_splits; blast)
qed

lemma since_run: "container_ok c \<Longrightarrow> since n old k c \<Longrightarrow> since n old k (fold kv_step es c)"
  by (induction es arbitrary: c) (auto intro: since_step keep)


section \<open>Properties\<close>

definition demo_record :: task_record where
  "demo_record = \<lparr>tr_key = \<lparr>tk_tenant_id = ''t'', tk_task_id = ''1''\<rparr>, tr_title = ''a'', tr_status = QUEUED,
     tr_payload = [], tr_depends_on = []\<rparr>"

definition demo_item :: stored_task where
  "demo_item = \<lparr>st_record = demo_record, st_etag = ''00000001'', st_expires_at = Some 86400\<rparr>"

lemma demo_created:
  "live 0 (fold kv_step [(0, Create demo_record None)] (new_container default_container_model)) (tr_key demo_record) =
     Some demo_item"
  by code_simp

text \<open>
  Property C8. No lost update: if a conditional write with the ETag of an item read earlier succeeds,
  whatever operations at whatever times came between, then the item is still exactly the one read;
  and the ETag it writes is new.
\<close>
theorem conditional_write_detects_change:
  assumes "c = fold kv_step es (new_container m)" "live t c k = Some st" "c' = fold kv_step fs c"
    and "replace_item now r (st_etag st) ttl c' = (Inr res, c'')" "tr_key r = k"
  shows "live now c' k = Some st \<and> st_etag (ir_task res) \<noteq> st_etag st \<and>
    live now c'' k = (if expired now (ir_task res) then None else Some (ir_task res)) \<and>
    st_record (ir_task res) = r"
proof -
  have ok: "container_ok c" unfolding assms(1) by (intro kv.ok_run) blast
  have ok': "container_ok c'" unfolding assms(3) using ok by (induction fs arbitrary: c) (auto intro: keep)
  from assms(2) ok obtain i where i: "i < ct_etag_counter c" "st_etag st = zero_pad 8 i"
    by (auto simp: live_Some container_ok_def dest!: map_of_SomeD)
  have "since (ct_etag_counter c) (Some st) k c"
    using assms(2) by (auto simp: since_def live_Some)
  from since_run [OF ok this, of fs] have since: "since (ct_etag_counter c) (Some st) k c'" by (simp add: assms(3))
  from assms(4,5) obtain cur where cur: "live now c' k = Some cur" "st_etag cur = st_etag st"
    and res: "ir_task res = fresh_item now r ttl c'" "c'' = put_item now r ttl c'"
    by (auto simp: replace_item_spec [OF ok'] split: option.splits if_splits)
  from cur(1) since have "cur = st \<or> (\<exists>j \<ge> ct_etag_counter c. st_etag cur = zero_pad 8 j)"
    by (auto simp: since_def live_Some)
  with cur(2) i have "cur = st" by auto
  moreover have "st_etag (ir_task res) \<noteq> st_etag st" using since i by (auto simp: since_def res(1))
  moreover have "live now c'' k = (if expired now (ir_task res) then None else Some (ir_task res))"
    by (simp add: live_def res put_item_map [OF ok'] assms(5))
  ultimately show ?thesis using cur(1) res(1) by simp
qed

theorem conditional_write_detects_change_witness:
  "\<exists>res c''. replace_item 5 (demo_record\<lparr>tr_title := ''b''\<rparr>) ''00000001'' None
       (fold kv_step [(3, Read (tr_key demo_record))]
         (fold kv_step [(0, Create demo_record None)] (new_container default_container_model))) = (Inr res, c'') \<and>
     st_etag (ir_task res) \<noteq> ''00000001''"
proof -
  let ?c' = "fold kv_step [(3, Read (tr_key demo_record))]
    (fold kv_step [(0, Create demo_record None)] (new_container default_container_model))"
  have "\<not> isl (fst (replace_item 5 (demo_record\<lparr>tr_title := ''b''\<rparr>) ''00000001'' None ?c'))" by code_simp
  then obtain res c'' where r: "replace_item 5 (demo_record\<lparr>tr_title := ''b''\<rparr>) (st_etag demo_item) None ?c' = (Inr res, c'')"
    by (metis demo_item_def prod.collapse stored_task.select_convs(2) sum.collapse(2))
  from conditional_write_detects_change [OF refl demo_created refl r] r show ?thesis
    by (auto simp: demo_item_def demo_record_def)
qed

text \<open>
  Property C38. The container refines a map from keys to the items that have not expired: creating
  fails exactly on a live key, reading returns the live item, a query returns exactly the live items
  asked for, in order of tenant and task, and neither reading nor querying changes the map.
\<close>
theorem container_refines_live_map:
  assumes "c = fold kv_step es (new_container m)"
  shows "(if live now c (tr_key r) \<noteq> None
       then create_item now r ttl c = (Inl (TaskAlreadyExistsError (tk_task_id (tr_key r))), purge_expired now c)
       else \<exists>st res c'. create_item now r ttl c = (Inr res, c') \<and> ir_task res = st \<and> st_record st = r \<and>
         live now c' = (live now c)(tr_key r := if expired now st then None else Some st)) \<and>
    fst (read_item now k c) = (case live now c k of None \<Rightarrow> Inl (TaskNotFoundError (tk_task_id k))
       | Some st \<Rightarrow> Inr \<lparr>ir_task = st, ir_charge = point_charge ''point_read'' 1\<rparr>) \<and>
    live now (snd (read_item now k c)) = live now c \<and>
    set (qr_tasks (fst (query_items now status tenant c))) =
      {st. (\<exists>k. live now c k = Some st) \<and> (tenant = None \<or> Some (tk_tenant_id (tr_key (st_record st))) = tenant) \<and>
           (status = None \<or> Some (tr_status (st_record st)) = status)} \<and>
    sorted (map (\<lambda>st. (tk_tenant_id (tr_key (st_record st)), tk_task_id (tr_key (st_record st))))
      (qr_tasks (fst (query_items now status tenant c)))) \<and>
    live now (snd (query_items now status tenant c)) = live now c"
proof -
  have ok: "container_ok c" unfolding assms by (intro kv.ok_run) blast
  have vals: "st \<in> set (dict_values (ct_items (purge_expired now c))) \<longleftrightarrow> (\<exists>k. live now c k = Some st)" for st
    using dict_values_map_of [of "ct_items (purge_expired now c)" st] purge_ok [OF ok, of now]
    by (simp add: container_ok_def purge_items [OF ok])
  note live_put [OF ok, of now r ttl]
  moreover have "live now (snd (read_item now k c)) = live now c"
    by (simp add: read_item_spec [OF ok] live_purge [OF ok] split: option.split)
  moreover have "set (qr_tasks (fst (query_items now status tenant c))) =
      {st. (\<exists>k. live now c k = Some st) \<and> (tenant = None \<or> Some (tk_tenant_id (tr_key (st_record st))) = tenant) \<and>
           (status = None \<or> Some (tr_status (st_record st)) = status)}"
    using vals by (auto simp: query_items_def Let_def)
  moreover have "sorted (map (\<lambda>st. (tk_tenant_id (tr_key (st_record st)), tk_task_id (tr_key (st_record st))))
      (qr_tasks (fst (query_items now status tenant c))))"
    by (simp add: query_items_def Let_def)
  ultimately show ?thesis
    by (auto simp: create_item_spec [OF ok] read_item_spec [OF ok] query_items_def Let_def live_purge [OF ok]
        split: option.split)
qed

theorem container_refines_live_map_witness:
  "fst (read_item 86400 (tr_key demo_record)
     (fold kv_step [(0, Create demo_record None)] (new_container default_container_model))) =
   Inl (TaskNotFoundError ''1'')"
proof -
  have "live 86400 (fold kv_step [(0, Create demo_record None)] (new_container default_container_model))
      (tr_key demo_record) = None" by code_simp
  with container_refines_live_map [OF refl, where now = 86400 and es = "[(0, Create demo_record None)]"
      and m = default_container_model and k = "tr_key demo_record"]
  show ?thesis by (simp add: demo_record_def)
qed

text \<open>
  A patch of a live item whose ETag matches writes the item with the patch's fields and
  the others kept, under the same key and with the same moment of expiry; with another ETag it raises
  ConditionalWriteFailedError, on a key without live item TaskNotFoundError, and then the live items
  stay as they are.
\<close>
theorem patch_keeps_other_fields_and_expiry:
  assumes "c = fold kv_step es (new_container m)"
  shows "case live now c k of
      None \<Rightarrow> \<exists>c'. patch_task now k p e c = (Inl (TaskNotFoundError (tk_task_id k)), c') \<and> live now c' = live now c
    | Some st \<Rightarrow>
        if st_etag st \<noteq> e
        then \<exists>c'. patch_task now k p e c = (Inl (ConditionalWriteFailedError (tk_task_id k)), c') \<and> live now c' = live now c
        else \<exists>res c' st'. patch_task now k p e c = (Inr res, c') \<and> ir_task res = st' \<and>
          st_record st' = patched k p (st_record st) \<and>
          (\<forall>t. st_expires_at st = Some t \<longrightarrow> st_expires_at st' = Some t \<and> live now c' = (live now c)(k \<mapsto> st'))"
proof -
  have ok: "container_ok c" unfolding assms by (intro kv.ok_run) blast
  show ?thesis
  proof (cases "live now c k")
    case None
    then show ?thesis by (simp add: patch_task_spec [OF ok] live_purge [OF ok])
  next
    case (Some st)
    let ?r = "patched k p (st_record st)" and ?ttl = "remaining_ttl_seconds (st_expires_at st) now"
    have "st_expires_at (fresh_item now ?r ?ttl c) = Some t \<and> live now (put_item now ?r ?ttl c) = (live now c)(k \<mapsto> fresh_item now ?r ?ttl c)"
      if t: "st_expires_at st = Some t" for t
    proof -
      have alive: "\<not> expired now st" using Some by (rule live_not_expired)
      from patch_expiry [OF this t] have e: "st_expires_at (fresh_item now ?r ?ttl c) = Some t" .
      with alive t have "\<not> expired now (fresh_item now ?r ?ttl c)" by (simp add: expired_def)
      with e live_put [OF ok, of now ?r ?ttl] show ?thesis by (simp add: patched_def)
    qed
    with Some show ?thesis by (simp add: patch_task_spec [OF ok] live_purge [OF ok] Let_def)
  qed
qed

theorem patch_keeps_other_fields_and_expiry_witness:
  "\<exists>res c'. patch_task 7 (tr_key demo_record) \<lparr>tp_title = None, tp_status = Some RUNNING, tp_payload = None,
        tp_depends_on = None\<rparr> ''00000001''
       (fold kv_step [(0, Create demo_record None)] (new_container default_container_model)) = (Inr res, c') \<and>
     st_expires_at (ir_task res) = Some 86400"
proof -
  have "live 7 (fold kv_step [(0, Create demo_record None)] (new_container default_container_model))
      (tr_key demo_record) = Some demo_item" by code_simp
  with patch_keeps_other_fields_and_expiry [OF refl, where now = 7 and es = "[(0, Create demo_record None)]"
      and m = default_container_model and k = "tr_key demo_record" and e = "''00000001''"
      and p = "\<lparr>tp_title = None, tp_status = Some RUNNING, tp_payload = None, tp_depends_on = None\<rparr>"]
  show ?thesis by (auto simp: demo_item_def)
qed

end
