(* ===== verification/OrderedMap.thy ===== *)
theory OrderedMap
  imports Prelude
begin

text \<open>
  The interface of the ordered maps of lab 06: what a search tree promises to its clients, whatever
  its shape.  \<open>BinarySearchTree\<close> and \<open>RedBlack\<close> provide it, and \<open>RelayPlan\<close> relies on it.
\<close>

section \<open>Errors of the maps\<close>

text \<open>\<open>KeyError(key)\<close> carries the key itself; \<open>ValueError\<close> and \<open>AssertionError\<close> carry their texts.\<close>

datatype 'k map_error = MissingKey 'k | KeyExists 'k | Violated string

section \<open>Sorted association lists\<close>

lemma map_of_append_sorted:
  assumes "\<forall>a \<in> fst ` set xs. a < k" "\<forall>b \<in> fst ` set ys. (k :: 'k :: linorder) < b"
  shows "map_of (xs @ (k, v) # ys) x = (if x < k then map_of xs x else if k < x then map_of ys x else Some v)"
proof -
  have "map_of xs x = None" if "\<not> x < k"
    using that assms(1) by (auto simp: map_of_eq_None_iff)
  moreover have "map_of ys x = None" if "\<not> k < x"
    using that assms(2) by (auto simp: map_of_eq_None_iff)
  ultimately show ?thesis
    by (cases x k rule: linorder_cases) (auto simp: map_add_def split: option.split)
qed

lemma sorted_items_unique:
  assumes "sorted_wrt (<) (map fst xs)" "sorted_wrt (<) (map fst ys)" "map_of xs = map_of (ys :: ('k::linorder \<times> 'v) list)"
  shows "xs = ys"
proof -
  have d: "distinct (map fst xs)" "distinct (map fst ys)"
    using assms(1,2) by (simp_all add: strict_sorted_iff)
  then have s: "set xs = set ys" using assms(3) by (metis map_of_inject_set)
  then have "map fst xs = map fst ys"
    using assms(1,2) by (intro strict_sorted_equal) (auto simp: image_iff)
  with d s show ?thesis
    by (metis (no_types, lifting) assms(3) map_idI map_of_is_SomeI nth_equalityI nth_map nth_mem option.inject
        prod.collapse length_map)
qed

text \<open>Putting an entry into a sorted list, the reference for an insertion.\<close>

fun put_sorted :: "'k::linorder \<Rightarrow> 'v \<Rightarrow> ('k \<times> 'v) list \<Rightarrow> ('k \<times> 'v) list" where
  "put_sorted k v [] = [(k, v)]"
| "put_sorted k v (e # es) =
     (if k < fst e then (k, v) # e # es else if fst e < k then e # put_sorted k v es else (k, v) # es)"

lemma map_of_put_sorted:
  "sorted_wrt (<) (map fst es) \<Longrightarrow> map_of (put_sorted k v es) x = (if x = k then Some v else map_of es x)"
proof (induction es)
  case (Cons e es)
  have "map_of (e # es) k = None" if "k < fst e"
    using that Cons.prems by (cases e) (auto simp: map_of_eq_None_iff)
  with Cons show ?case by (cases e) auto
qed simp

lemma keys_put_sorted: "fst ` set (put_sorted k v es) = insert k (fst ` set es)"
  by (induction es) (auto simp: image_iff)

lemma sorted_put_sorted: "sorted_wrt (<) (map fst es) \<Longrightarrow> sorted_wrt (<) (map fst (put_sorted k v es))"
proof (induction es)
  case (Cons e es)
  have "(\<forall>x \<in> fst ` set (put_sorted k v es). fst e < x) \<longleftrightarrow> (\<forall>x \<in> insert k (fst ` set es). fst e < x)"
    by (simp only: keys_put_sorted)
  with Cons show ?case by auto
qed simp

lemma length_put_sorted:
  "sorted_wrt (<) (map fst es) \<Longrightarrow>
   length (put_sorted k v es) = length es + (if map_of es k = None then 1 else 0)"
proof (induction es)
  case (Cons e es)
  have "map_of (e # es) k = None" if "k < fst e"
    using that Cons.prems by (cases e) (auto simp: map_of_eq_None_iff)
  with Cons show ?case by (cases e) auto
qed simp

lemma put_sorted_append:
  "sorted_wrt (<) (map fst (xs @ (a, b) # ys)) \<Longrightarrow>
   put_sorted k v (xs @ (a, b) # ys) =
     (if k < a then put_sorted k v xs @ (a, b) # ys
      else if a < k then xs @ (a, b) # put_sorted k v ys else xs @ (a, v) # ys)"
  by (induction xs) (auto simp: sorted_wrt_append)

section \<open>The interface\<close>

locale ordered_map =
  fixes empty :: 't
    and put :: "'k::linorder \<Rightarrow> 'v \<Rightarrow> 't \<Rightarrow> 't"
    and look :: "'t \<Rightarrow> 'k \<Rightarrow> 'v option"
    and items :: "'t \<Rightarrow> ('k \<times> 'v) list"
    and count :: "'t \<Rightarrow> int"
    and inv :: "'t \<Rightarrow> bool"
  assumes inv_empty: "inv empty"
    and inv_put: "inv t \<Longrightarrow> inv (put k v t)"
    and look_empty: "look empty x = None"
    and look_put: "inv t \<Longrightarrow> look (put k v t) x = (if x = k then Some v else look t x)"
    and items_sorted: "inv t \<Longrightarrow> sorted_wrt (<) (map fst (items t))"
    and items_look: "inv t \<Longrightarrow> map_of (items t) x = look t x"
    and count_items: "inv t \<Longrightarrow> count t = int (length (items t))"
begin

definition puts :: "('k \<times> 'v) list \<Rightarrow> 't" where
  "puts kvs = fold (\<lambda>(k, v). put k v) kvs empty"

lemma puts_snoc: "puts (kvs @ [(k, v)]) = put k v (puts kvs)"
  by (simp add: puts_def)

lemma inv_puts: "inv (puts kvs)"
  by (induction kvs rule: rev_induct) (auto simp: puts_snoc inv_empty inv_put puts_def)

text \<open>The last value put under a key is the one found.\<close>

lemma look_puts: "look (puts kvs) x = map_of (rev kvs) x"
proof (induction kvs rule: rev_induct)
  case Nil
  show ?case by (simp add: puts_def look_empty)
next
  case (snoc e kvs)
  then show ?case by (cases e) (simp add: puts_snoc look_put [OF inv_puts])
qed

lemma count_puts: "count (puts kvs) = int (card (fst ` set kvs))"
proof -
  have d: "distinct (map fst (items (puts kvs)))"
    using items_sorted [OF inv_puts, of kvs] by (simp add: strict_sorted_iff)
  have "fst ` set (items (puts kvs)) = fst ` set kvs"
    using items_look [OF inv_puts, of kvs] look_puts [of kvs]
    by (metis (no_types, lifting) dom_map_of_conv_image_fst ext rev_rev_ident set_rev)
  with d show ?thesis
    by (metis count_items distinct_card inv_puts length_map list.set_map)
qed

text \<open>Two maps holding the same entries list the same items, however they were built.\<close>

lemma items_determined:
  assumes "inv s" "inv t" "look s = look t"
  shows "items s = items t"
  using assms items_sorted items_look by (intro sorted_items_unique) (auto simp: fun_eq_iff)

end

locale deleting_map = ordered_map empty put look items count inv
  for empty :: 't and put :: "'k::linorder \<Rightarrow> 'v \<Rightarrow> 't \<Rightarrow> 't" and look :: "'t \<Rightarrow> 'k \<Rightarrow> 'v option"
    and items :: "'t \<Rightarrow> ('k \<times> 'v) list" and count :: "'t \<Rightarrow> int" and inv :: "'t \<Rightarrow> bool" +
  fixes remove :: "'k \<Rightarrow> 't \<Rightarrow> 't"
  assumes inv_remove: "inv t \<Longrightarrow> inv (remove k t)"
    and look_remove: "inv t \<Longrightarrow> look (remove k t) x = (if x = k then None else look t x)"
begin

lemma remove_put:
  "inv t \<Longrightarrow> look t k = None \<Longrightarrow> items (remove k (put k v t)) = items t"
  by (rule items_determined) (auto simp: inv_remove inv_put look_remove look_put fun_eq_iff)

lemma items_remove:
  assumes "inv t"
  shows "items (remove k t) = filter (\<lambda>e. fst e \<noteq> k) (items t)"
proof (rule sorted_items_unique)
  show "sorted_wrt (<) (map fst (items (remove k t)))" by (intro items_sorted inv_remove assms)
  have "sorted_wrt (<) (map fst (items t))" using assms by (rule items_sorted)
  then show "sorted_wrt (<) (map fst (filter (\<lambda>e. fst e \<noteq> k) (items t)))" by (rule sorted_wrt_map_filter)
  have "map_of (filter (\<lambda>e. fst e \<noteq> k) xs) x = (if x = k then None else map_of xs x)" for xs :: "('k \<times> 'v) list" and x
    by (induction xs) auto
  then show "map_of (items (remove k t)) = map_of (filter (\<lambda>e. fst e \<noteq> k) (items t))"
    by (simp add: fun_eq_iff items_look inv_remove assms look_remove)
qed

end

end
