(* ===== verification/BinarySearchTree.thy ===== *)
theory BinarySearchTree
  imports OrderedMap
begin

text \<open>
  Lab 06, \<open>lab_06_trees_and_graphs/basic_tree.py\<close>: \<open>BinarySearchTree\<close>.  A node that may be None is
  a binary tree; the methods that update nodes in place return the updated tree, as no node is
  shared.  The loop of \<open>get\<close> is structural recursion, the list \<open>removed\<close> of \<open>_delete\<close> an option.
\<close>

section \<open>Trees\<close>

datatype ('k, 'v) binary_node = None_node
  | Binary_node (bn_key: 'k) (bn_value: 'v) (bn_left: "('k, 'v) binary_node") (bn_right: "('k, 'v) binary_node")

record ('k, 'v) search_tree =
  st_root :: "('k, 'v) binary_node"
  st_size :: int

definition new_search_tree :: "('k, 'v) search_tree" where
  "new_search_tree = \<lparr>st_root = None_node, st_size = 0\<rparr>"

section \<open>Operations\<close>

fun node_put :: "('k::linorder, 'v) binary_node \<Rightarrow> 'k \<Rightarrow> 'v \<Rightarrow> ('k, 'v) binary_node \<times> bool" where
  "node_put None_node key val = (Binary_node key val None_node None_node, True)"
| "node_put (Binary_node k v l r) key val =
     (if key < k then let (l', inserted) = node_put l key val in (Binary_node k v l' r, inserted)
      else if k < key then let (r', inserted) = node_put r key val in (Binary_node k v l r', inserted)
      else (Binary_node k val l r, False))"

definition tree_put :: "'k::linorder \<Rightarrow> 'v \<Rightarrow> ('k, 'v) search_tree \<Rightarrow> ('k, 'v) search_tree" where
  "tree_put key val t =
     (let (root, inserted) = node_put (st_root t) key val
      in \<lparr>st_root = root, st_size = st_size t + (if inserted then 1 else 0)\<rparr>)"

fun node_get :: "('k::linorder, 'v) binary_node \<Rightarrow> 'k \<Rightarrow> 'v option" where
  "node_get None_node key = None"
| "node_get (Binary_node k v l r) key =
     (if key < k then node_get l key else if k < key then node_get r key else Some v)"

definition tree_get :: "('k::linorder, 'v) search_tree \<Rightarrow> 'k \<Rightarrow> 'k map_error + 'v" where
  "tree_get t key = (case node_get (st_root t) key of None \<Rightarrow> Inl (MissingKey key) | Some v \<Rightarrow> Inr v)"

text \<open>The leftmost node, where the search for the successor ends.\<close>

fun leftmost :: "('k, 'v) binary_node \<Rightarrow> ('k \<times> 'v) option" where
  "leftmost None_node = None"
| "leftmost (Binary_node k v l r) = (if l = None_node then Some (k, v) else leftmost l)"

fun delete_successor :: "('k::linorder, 'v) binary_node \<Rightarrow> 'k \<Rightarrow> ('k, 'v) binary_node" where
  "delete_successor None_node key = None_node"
| "delete_successor (Binary_node k v l r) key =
     (if key < k then Binary_node k v (delete_successor l key) r else r)"

fun node_delete :: "('k::linorder, 'v) binary_node \<Rightarrow> 'k \<Rightarrow> ('k, 'v) binary_node \<times> 'v option" where
  "node_delete None_node key = (None_node, None)"
| "node_delete (Binary_node k v l r) key =
     (if key < k then let (l', removed) = node_delete l key in (Binary_node k v l' r, removed)
      else if k < key then let (r', removed) = node_delete r key in (Binary_node k v l r', removed)
      else if l = None_node then (r, Some v)
      else case leftmost r of
             None \<Rightarrow> (l, Some v)
           | Some (sk, sv) \<Rightarrow> (Binary_node sk sv l (delete_successor r sk), Some v))"

definition tree_delete ::
    "'k::linorder \<Rightarrow> ('k, 'v) search_tree \<Rightarrow> ('k map_error + 'v) \<times> ('k, 'v) search_tree" where
  "tree_delete key t =
     (let (root, removed) = node_delete (st_root t) key
      in case removed of
           None \<Rightarrow> (Inl (MissingKey key), t\<lparr>st_root := root\<rparr>)
         | Some v \<Rightarrow> (Inr v, \<lparr>st_root = root, st_size = st_size t - 1\<rparr>))"

definition replace_key ::
    "'k::linorder \<Rightarrow> 'k \<Rightarrow> ('k, 'v) search_tree \<Rightarrow> ('k map_error + unit) \<times> ('k, 'v) search_tree" where
  "replace_key old new t =
     (if old \<noteq> new \<and> \<not> isl (tree_get t new) then (Inl (KeyExists new), t)
      else case tree_delete old t of
             (Inl e, t1) \<Rightarrow> (Inl e, t1)
           | (Inr v, t1) \<Rightarrow> (Inr (), tree_put new v t1))"

fun node_inorder :: "('k, 'v) binary_node \<Rightarrow> ('k \<times> 'v) list" where
  "node_inorder None_node = []"
| "node_inorder (Binary_node k v l r) = node_inorder l @ (k, v) # node_inorder r"

definition inorder :: "('k, 'v) search_tree \<Rightarrow> ('k \<times> 'v) list" where
  "inorder t = node_inorder (st_root t)"

fun node_preorder :: "('k, 'v) binary_node \<Rightarrow> 'k list" where
  "node_preorder None_node = []"
| "node_preorder (Binary_node k v l r) = k # node_preorder l @ node_preorder r"

definition preorder :: "('k, 'v) search_tree \<Rightarrow> 'k list" where
  "preorder t = node_preorder (st_root t)"

fun node_postorder :: "('k, 'v) binary_node \<Rightarrow> 'k list" where
  "node_postorder None_node = []"
| "node_postorder (Binary_node k v l r) = node_postorder l @ node_postorder r @ [k]"

definition postorder :: "('k, 'v) search_tree \<Rightarrow> 'k list" where
  "postorder t = node_postorder (st_root t)"

text \<open>The queue of \<open>level_order\<close> never holds None.\<close>

fun present :: "('k, 'v) binary_node \<Rightarrow> ('k, 'v) binary_node list" where
  "present None_node = []"
| "present n = [n]"

lemma present_measure: "sum_list (map (\<lambda>n. 2 * size n + 1) (present n)) \<le> 2 * size n + (1 :: nat)"
  by (cases n) auto

function level_loop :: "('k, 'v) binary_node list \<Rightarrow> 'k list" where
  "level_loop [] = []"
| "level_loop (n # queue) =
     (case n of
        None_node \<Rightarrow> level_loop queue
      | Binary_node k v l r \<Rightarrow> k # level_loop (queue @ present l @ present r))"
  by pat_completeness auto

termination
proof (relation "measure (\<lambda>q. sum_list (map (\<lambda>n. 2 * size n + 1) q))", goal_cases)
  case (3 n queue k v l r)
  show ?case
    using present_measure [of l] present_measure [of r] 3 by simp
qed simp_all

definition level_order :: "('k, 'v) search_tree \<Rightarrow> 'k list" where
  "level_order t = level_loop (present (st_root t))"

fun node_height :: "('k, 'v) binary_node \<Rightarrow> int" where
  "node_height None_node = -1"
| "node_height (Binary_node k v l r) = 1 + max (node_height l) (node_height r)"

definition tree_height :: "('k, 'v) search_tree \<Rightarrow> int" where
  "tree_height t = node_height (st_root t)"

function build :: "('k \<times> 'v) list \<Rightarrow> nat \<Rightarrow> nat \<Rightarrow> ('k, 'v) binary_node" where
  "build ordered start end =
     (if end \<le> start then None_node
      else let middle = (start + end) div 2; (key, val) = ordered ! middle
           in Binary_node key val (build ordered start middle) (build ordered (middle + 1) end))"
  by pat_completeness auto

termination
  by (relation "measure (\<lambda>(ordered, start, end). end - start)") auto

declare build.simps [simp del]

definition rebalance :: "('k, 'v) search_tree \<Rightarrow> ('k, 'v) search_tree" where
  "rebalance t = (let ordered = inorder t in t\<lparr>st_root := build ordered 0 (length ordered)\<rparr>)"

section \<open>The search-tree order\<close>

fun node_keys :: "('k, 'v) binary_node \<Rightarrow> 'k set" where
  "node_keys None_node = {}"
| "node_keys (Binary_node k v l r) = insert k (node_keys l \<union> node_keys r)"

lemma node_keys_inorder: "fst ` set (node_inorder n) = node_keys n"
  by (induction n) auto

fun ordered_node :: "('k::linorder, 'v) binary_node \<Rightarrow> bool" where
  "ordered_node None_node = True"
| "ordered_node (Binary_node k v l r) =
     (ordered_node l \<and> ordered_node r \<and> (\<forall>x \<in> node_keys l. x < k) \<and> (\<forall>x \<in> node_keys r. k < x))"

lemma inorder_key: "(k, v) \<in> set (node_inorder n) \<Longrightarrow> k \<in> node_keys n"
  by (force simp flip: node_keys_inorder)

lemma ordered_node_iff: "ordered_node n \<longleftrightarrow> sorted_wrt (<) (map fst (node_inorder n))"
proof (induction n)
  case (Binary_node k v l r)
  have "(\<forall>x \<in> set (map fst (node_inorder n)). P x) \<longleftrightarrow> (\<forall>x \<in> node_keys n. P x)" for P and n :: "('a, 'b) binary_node"
    by (simp flip: node_keys_inorder)
  with Binary_node show ?case
    by (auto simp: sorted_wrt_append simp del: set_map) (meson less_trans)
qed simp

lemma node_get_map_of: "ordered_node n \<Longrightarrow> node_get n x = map_of (node_inorder n) x"
proof (induction n)
  case (Binary_node k v l r)
  then show ?case
    by (simp add: map_of_append_sorted node_keys_inorder del: map_of_append)
qed simp

lemma node_keys_put: "node_keys (fst (node_put n key val)) = insert key (node_keys n)"
  by (induction n) (auto simp: case_prod_unfold Let_def)

lemma node_put_ordered [keep]: "ordered_node n \<Longrightarrow> ordered_node (fst (node_put n key val))"
proof (induction n)
  case (Binary_node k v l r)
  then show ?case
    using node_keys_put [of l key val] node_keys_put [of r key val] by (auto simp: case_prod_unfold Let_def)
qed simp

lemma node_get_put:
  "ordered_node n \<Longrightarrow> node_get (fst (node_put n key val)) x = (if x = key then Some val else node_get n x)"
  by (induction n) (auto simp: case_prod_unfold Let_def)

lemma length_node_put:
  "length (node_inorder (fst (node_put n key val))) =
   length (node_inorder n) + (if snd (node_put n key val) then 1 else 0)"
  by (induction n) (auto simp: case_prod_unfold Let_def)

lemma node_inorder_Nil [simp]: "node_inorder n = [] \<longleftrightarrow> n = None_node"
  by (cases n) auto

lemma leftmost_inorder: "leftmost n = (case node_inorder n of [] \<Rightarrow> None | e # es \<Rightarrow> Some e)"
proof (induction n)
  case (Binary_node k v l r)
  then show ?case
    by (cases "node_inorder l") (simp_all, fastforce)
qed simp

lemma delete_successor_inorder:
  "ordered_node n \<Longrightarrow> leftmost n = Some (sk, sv) \<Longrightarrow> node_inorder n = (sk, sv) # node_inorder (delete_successor n sk)"
proof (induction n)
  case (Binary_node k v l r)
  show ?case
  proof (cases "l = None_node")
    case True
    with Binary_node.prems show ?thesis by auto
  next
    case False
    with Binary_node.prems have l: "leftmost l = Some (sk, sv)" by simp
    then have "sk \<in> node_keys l"
      by (auto simp: leftmost_inorder intro: inorder_key split: list.splits)
    with Binary_node l show ?thesis by auto
  qed
qed simp

lemma node_delete_inorder:
  "ordered_node n \<Longrightarrow>
   node_inorder (fst (node_delete n key)) = filter (\<lambda>e. fst e \<noteq> key) (node_inorder n) \<and>
   snd (node_delete n key) = node_get n key"
proof (induction n)
  case (Binary_node k v l r)
  have keep_all: "filter (\<lambda>e. fst e \<noteq> key) (node_inorder n) = node_inorder n" if "key \<notin> node_keys n" for n :: "('a, 'b) binary_node"
    using that by (auto simp: filter_id_conv dest: inorder_key)
  consider "key < k" | "k < key" | "key = k" by (cases key k rule: linorder_cases) auto
  then show ?case
  proof cases
    case 1
    with Binary_node.prems have "key \<notin> node_keys r" by auto
    with 1 Binary_node show ?thesis by (auto simp: keep_all case_prod_unfold Let_def)
  next
    case 2
    with Binary_node.prems have "key \<notin> node_keys l" by auto
    with 2 Binary_node show ?thesis by (auto simp: keep_all case_prod_unfold Let_def)
  next
    case 3
    with Binary_node.prems have fresh: "key \<notin> node_keys l" "key \<notin> node_keys r" by auto
    show ?thesis
    proof (cases "leftmost r")
      case None
      with 3 fresh keep_all [of l] show ?thesis by (auto simp: leftmost_inorder split: list.splits)
    next
      case (Some e)
      then obtain sk sv where e: "leftmost r = Some (sk, sv)" by (cases e) auto
      from Binary_node.prems have "ordered_node r" by simp
      from delete_successor_inorder [OF this e] 3 e keep_all [OF fresh(1)] keep_all [OF fresh(2)]
      show ?thesis by auto
    qed
  qed
qed simp

section \<open>The ordered map\<close>

definition search_tree_ok :: "('k::linorder, 'v) search_tree \<Rightarrow> bool" where
  "search_tree_ok t \<longleftrightarrow> ordered_node (st_root t) \<and> st_size t = int (length (node_inorder (st_root t)))"

definition tree_look :: "('k::linorder, 'v) search_tree \<Rightarrow> 'k \<Rightarrow> 'v option" where
  "tree_look t key = (case tree_get t key of Inl e \<Rightarrow> None | Inr v \<Rightarrow> Some v)"

definition tree_discard :: "'k::linorder \<Rightarrow> ('k, 'v) search_tree \<Rightarrow> ('k, 'v) search_tree" where
  "tree_discard key t = snd (tree_delete key t)"

lemma tree_look_node [simp]: "tree_look t key = node_get (st_root t) key"
  by (simp add: tree_look_def tree_get_def split: option.split)

lemma tree_put_parts [simp]:
  "st_root (tree_put k v t) = fst (node_put (st_root t) k v)"
  "st_size (tree_put k v t) = st_size t + (if snd (node_put (st_root t) k v) then 1 else 0)"
  by (simp_all add: tree_put_def case_prod_unfold Let_def)

lemma tree_put_ok [keep]: "search_tree_ok t \<Longrightarrow> search_tree_ok (tree_put k v t)"
  by (simp add: search_tree_ok_def node_put_ordered length_node_put)

lemma map_of_without:
  "map_of (filter (\<lambda>e. fst e \<noteq> k) es) x = (if x = k then None else map_of es x)"
  by (induction es) auto

lemma node_delete_ordered [keep]: "ordered_node n \<Longrightarrow> ordered_node (fst (node_delete n key))"
  using node_delete_inorder [of n key] by (simp add: ordered_node_iff sorted_wrt_map_filter)

lemma node_get_delete:
  "ordered_node n \<Longrightarrow> node_get (fst (node_delete n key)) x = (if x = key then None else node_get n x)"
  using node_delete_inorder [of n key] node_delete_ordered [of n key]
  by (simp add: node_get_map_of map_of_without)

lemma length_without:
  "distinct (map fst es) \<Longrightarrow> int (length (filter (\<lambda>e. fst e \<noteq> k) es)) = int (length es) - (if map_of es k = None then 0 else 1)"
proof (induction es)
  case (Cons e es)
  from Cons.prems have "fst e \<notin> fst ` set es" by simp
  then have "(\<forall>x \<in> set es. fst x \<noteq> k) \<and> map_of es k = None" if "k = fst e"
    using that by (metis image_eqI map_of_eq_None_iff)
  then have "filter (\<lambda>e. fst e \<noteq> k) es = es" "map_of es k = None" if "k = fst e"
    using that by (simp_all add: filter_id_conv)
  with Cons show ?case by (cases e) auto
qed simp

lemma tree_delete_result:
  assumes "search_tree_ok t"
  shows "fst (tree_delete k t) = tree_get t k"
    and "search_tree_ok (snd (tree_delete k t))"
    and "tree_look (snd (tree_delete k t)) x = (if x = k then None else tree_look t x)"
    and "inorder (snd (tree_delete k t)) = filter (\<lambda>e. fst e \<noteq> k) (inorder t)"
proof -
  let ?n = "st_root t"
  have o: "ordered_node ?n" and sz: "st_size t = int (length (node_inorder ?n))"
    using assms by (auto simp: search_tree_ok_def)
  note del = node_delete_inorder [OF o, of k]
  show "fst (tree_delete k t) = tree_get t k"
    using del by (auto simp: tree_delete_def tree_get_def case_prod_unfold Let_def split: option.splits)
  have root: "st_root (snd (tree_delete k t)) = fst (node_delete ?n k)"
    by (simp add: tree_delete_def case_prod_unfold Let_def split: option.splits)
  from root del show "inorder (snd (tree_delete k t)) = filter (\<lambda>e. fst e \<noteq> k) (inorder t)"
    by (simp add: inorder_def)
  from root o show "tree_look (snd (tree_delete k t)) x = (if x = k then None else tree_look t x)"
    by (simp add: node_get_delete)
  have d: "distinct (map fst (node_inorder ?n))"
    using o by (simp add: ordered_node_iff strict_sorted_iff)
  have "st_size (snd (tree_delete k t)) = int (length (node_inorder (fst (node_delete ?n k))))"
    using del d sz o
    by (auto simp: tree_delete_def case_prod_unfold Let_def length_without node_get_map_of split: option.splits)
  with root o show "search_tree_ok (snd (tree_delete k t))"
    by (simp add: search_tree_ok_def node_delete_ordered)
qed

interpretation bst: deleting_map new_search_tree tree_put tree_look inorder st_size search_tree_ok tree_discard
proof unfold_locales
  fix t :: "('a, 'b) search_tree" and k x v
  show "search_tree_ok (new_search_tree :: ('a, 'b) search_tree)"
    by (simp add: search_tree_ok_def new_search_tree_def)
  show "tree_look (new_search_tree :: ('a, 'b) search_tree) x = None" by (simp add: new_search_tree_def)
  assume ok: "search_tree_ok t"
  show "search_tree_ok (tree_put k v t)" using ok by (rule tree_put_ok)
  show "tree_look (tree_put k v t) x = (if x = k then Some v else tree_look t x)"
    using ok by (simp add: search_tree_ok_def node_get_put)
  show "sorted_wrt (<) (map fst (inorder t))"
    using ok by (simp add: search_tree_ok_def ordered_node_iff inorder_def)
  show "map_of (inorder t) x = tree_look t x"
    using ok by (simp add: search_tree_ok_def node_get_map_of inorder_def)
  show "st_size t = int (length (inorder t))" using ok by (simp add: search_tree_ok_def inorder_def)
  show "search_tree_ok (tree_discard k t)" using tree_delete_result [OF ok] by (simp add: tree_discard_def)
  show "tree_look (tree_discard k t) x = (if x = k then None else tree_look t x)"
    using tree_delete_result(3) [OF ok] by (simp only: tree_discard_def)
qed

section \<open>Rebalancing\<close>

lemma build_inorder:
  "end \<le> length ordered \<Longrightarrow> node_inorder (build ordered start end) = take (end - start) (drop start ordered)"
proof (induction ordered start "end" rule: build.induct)
  case (1 ordered start "end")
  show ?case
  proof (cases "end \<le> start")
    case True
    then show ?thesis by (simp add: build.simps [of ordered start])
  next
    case False
    define middle where "middle = (start + end) div 2"
    obtain key val where e: "ordered ! middle = (key, val)" by fastforce
    from False have m: "start \<le> middle" "middle < end" by (auto simp: middle_def)
    with False 1 e have "node_inorder (build ordered start end) =
      take (middle - start) (drop start ordered) @ ordered ! middle # take (end - (middle + 1)) (drop (middle + 1) ordered)"
      by (simp add: build.simps [of ordered start "end"] middle_def [symmetric])
    moreover have "take (end - start) (drop start ordered) =
      take (middle - start) (drop start ordered) @ take (Suc (end - (middle + 1))) (drop middle ordered)"
    proof -
      have "end - start = (middle - start) + Suc (end - (middle + 1))" using m by simp
      then show ?thesis using m by (simp only: take_add drop_drop) simp
    qed
    moreover have "drop middle ordered = ordered ! middle # drop (middle + 1) ordered"
      using m 1 by (simp add: Cons_nth_drop_Suc)
    ultimately show ?thesis by simp
  qed
qed

lemma build_height:
  "start \<le> end \<Longrightarrow> end - start + 1 \<le> 2 ^ nat h \<Longrightarrow> 0 \<le> h \<Longrightarrow> node_height (build ordered start end) < h"
proof (induction ordered start "end" arbitrary: h rule: build.induct)
  case (1 ordered start "end")
  show ?case
  proof (cases "end \<le> start")
    case True
    with 1 show ?thesis by (subst build.simps) simp
  next
    case False
    define middle where "middle = (start + end) div 2"
    obtain key val where e: "ordered ! middle = (key, val)" by fastforce
    from False have m: "start \<le> middle" "middle < end" by (auto simp: middle_def)
    from False 1 have h: "0 < h" by (cases "h = 0") auto
    then have "nat h = Suc (nat (h - 1))" by simp
    with 1 have "end - start + 1 \<le> 2 * 2 ^ nat (h - 1)" by simp
    then have "middle - start + 1 \<le> 2 ^ nat (h - 1)" "end - (middle + 1) + 1 \<le> 2 ^ nat (h - 1)"
      by (auto simp: middle_def)
    with 1 False e h m have
      "node_height (build ordered start middle) < h - 1" "node_height (build ordered (middle + 1) end) < h - 1"
      by (auto simp: middle_def)
    with False e show ?thesis
      by (simp add: build.simps [of ordered start "end"] middle_def [symmetric])
  qed
qed

lemma node_height_ge: "-1 \<le> node_height n"
  by (induction n) auto

lemma node_height_nonneg: "n \<noteq> None_node \<Longrightarrow> 0 \<le> node_height n"
  using node_height_ge [of "bn_left n"] by (cases n) (auto simp: le_max_iff_disj)

lemma inorder_length_height: "length (node_inorder n) + 1 \<le> 2 ^ nat (node_height n + 1)"
proof (induction n)
  case (Binary_node k v l r)
  let ?h = "max (node_height l) (node_height r)"
  have "length (node_inorder l) + 1 \<le> 2 ^ nat (?h + 1)"
    by (rule order_trans [OF Binary_node.IH(1)]) (intro power_increasing nat_mono; simp)
  moreover have "length (node_inorder r) + 1 \<le> 2 ^ nat (?h + 1)"
    by (rule order_trans [OF Binary_node.IH(2)]) (intro power_increasing nat_mono; simp)
  moreover have "-1 \<le> ?h" using node_height_ge [of l] by (simp add: le_max_iff_disj)
  then have "nat (1 + ?h + 1) = Suc (nat (?h + 1))" by linarith
  ultimately show ?case by simp
qed simp

lemma rebalance_inorder: "inorder (rebalance t) = inorder t"
  by (simp add: rebalance_def inorder_def build_inorder Let_def)

lemma rebalance_ok [keep]: "search_tree_ok t \<Longrightarrow> search_tree_ok (rebalance t)"
  using rebalance_inorder [of t]
  by (simp add: search_tree_ok_def ordered_node_iff inorder_def) (simp add: rebalance_def Let_def)

lemma rebalance_height_least:
  assumes "length (inorder u) = length (inorder t)"
  shows "tree_height (rebalance t) \<le> tree_height u"
proof -
  let ?h = "node_height (st_root u) + 1"
  have "length (inorder t) + 1 \<le> 2 ^ nat ?h"
    using inorder_length_height [of "st_root u"] assms by (simp add: inorder_def)
  then have "node_height (build (inorder t) 0 (length (inorder t))) < ?h"
    using node_height_ge [of "st_root u"] by (intro build_height) auto
  then show ?thesis by (simp add: tree_height_def rebalance_def Let_def)
qed

section \<open>Level order\<close>

text \<open>The reference: the keys at one depth, from left to right.\<close>

fun node_level :: "('k, 'v) binary_node \<Rightarrow> nat \<Rightarrow> 'k list" where
  "node_level None_node d = []"
| "node_level (Binary_node k v l r) 0 = [k]"
| "node_level (Binary_node k v l r) (Suc d) = node_level l d @ node_level r d"

definition forest_level :: "('k, 'v) binary_node list \<Rightarrow> nat \<Rightarrow> 'k list" where
  "forest_level ns d = concat (map (\<lambda>n. node_level n d) ns)"

fun node_children :: "('k, 'v) binary_node \<Rightarrow> ('k, 'v) binary_node list" where
  "node_children None_node = []"
| "node_children (Binary_node k v l r) = present l @ present r"

lemma level_loop_split:
  "level_loop (ns @ queue) = forest_level ns 0 @ level_loop (queue @ concat (map node_children ns))"
proof (induction ns arbitrary: queue)
  case (Cons n ns)
  then show ?case by (cases n) (simp_all add: forest_level_def)
qed (simp add: forest_level_def)

lemma present_level: "concat (map (\<lambda>n. node_level n d) (present n)) = node_level n d"
  by (cases n) auto

lemma forest_level_Suc: "forest_level ns (Suc d) = forest_level (concat (map node_children ns)) d"
proof (induction ns)
  case (Cons n ns)
  then show ?case by (cases n) (auto simp: forest_level_def present_level)
qed (simp add: forest_level_def)

lemma in_present: "m \<in> set (present n) \<Longrightarrow> m = n"
  by (cases n) auto

lemma child_height: "m \<in> set (node_children n) \<Longrightarrow> node_height m < node_height n"
  by (cases n) (auto dest: in_present)

lemma level_loop_levels:
  "\<forall>n \<in> set ns. node_height n < int h \<Longrightarrow> level_loop ns = concat (map (forest_level ns) [0..<h])"
proof (induction h arbitrary: ns)
  case 0
  have "n = None_node" if "n \<in> set ns" for n
    using bspec [OF 0 that] node_height_nonneg [of n] by fastforce
  then have "\<forall>n \<in> set ns. n = None_node" by blast
  then show ?case by (induction ns) auto
next
  case (Suc h)
  let ?ms = "concat (map node_children ns)"
  have "\<forall>m \<in> set ?ms. node_height m < int h"
  proof
    fix m assume "m \<in> set ?ms"
    then obtain n where "n \<in> set ns" "m \<in> set (node_children n)" by fastforce
    with Suc.prems child_height show "node_height m < int h" by fastforce
  qed
  then have "level_loop ?ms = concat (map (forest_level ?ms) [0..<h])" by (rule Suc.IH)
  moreover have "map (forest_level ns) [Suc 0..<Suc h] = map (forest_level ?ms) [0..<h]"
    by (rule nth_equalityI) (auto simp: forest_level_Suc simp del: upt_Suc)
  ultimately show ?case
    using level_loop_split [of ns "[]"] by (simp add: upt_rec [of 0] del: upt_Suc)
qed

section \<open>Properties\<close>

text \<open>
  The search tree implements an ordered map: the items are sorted and as many as
  len() says, get finds what the map holds and raises KeyError otherwise, put, delete and
  replace_key change exactly the entries they name, and replace_key onto another existing key
  raises without changing the tree.
\<close>
theorem search_tree_refines_map:
  assumes "search_tree_ok t"
  shows "sorted_wrt (<) (map fst (inorder t)) \<and> st_size t = int (length (inorder t)) \<and>
    tree_get t k = (case map_of (inorder t) k of None \<Rightarrow> Inl (MissingKey k) | Some v \<Rightarrow> Inr v) \<and>
    search_tree_ok (tree_put k v t) \<and> map_of (inorder (tree_put k v t)) = (map_of (inorder t))(k \<mapsto> v) \<and>
    fst (tree_delete k t) = tree_get t k \<and> search_tree_ok (snd (tree_delete k t)) \<and>
    inorder (snd (tree_delete k t)) = filter (\<lambda>e. fst e \<noteq> k) (inorder t) \<and>
    search_tree_ok (snd (replace_key k k' t)) \<and>
    (if k \<noteq> k' \<and> map_of (inorder t) k' \<noteq> None then replace_key k k' t = (Inl (KeyExists k'), t)
     else case map_of (inorder t) k of
            None \<Rightarrow> fst (replace_key k k' t) = Inl (MissingKey k) \<and> inorder (snd (replace_key k k' t)) = inorder t
          | Some w \<Rightarrow> fst (replace_key k k' t) = Inr () \<and>
              map_of (inorder (snd (replace_key k k' t))) = (map_of (inorder t))(k := None, k' \<mapsto> w))"
proof -
  note del = tree_delete_result [OF assms, of k]
  have items: "map_of (inorder t) = tree_look t" using bst.items_look [OF assms] by auto
  have get: "tree_get t k = (case map_of (inorder t) k of None \<Rightarrow> Inl (MissingKey k) | Some v \<Rightarrow> Inr v)" for k
    by (simp add: items tree_get_def)
  have put: "map_of (inorder (tree_put k v u)) = (tree_look u)(k \<mapsto> v)" if "search_tree_ok u" for u k v
    using bst.items_look [OF tree_put_ok [OF that], of k v] bst.look_put [OF that] by auto
  have look_del: "tree_look (snd (tree_delete k t)) = (map_of (inorder t))(k := None)"
    using del(3) by (auto simp: items)
  have del_none: "filter (\<lambda>e. fst e \<noteq> k) (inorder t) = inorder t" if "map_of (inorder t) k = None"
    using that by (auto simp: filter_id_conv map_of_eq_None_iff)
  obtain r t1 where d: "tree_delete k t = (r, t1)" by fastforce
  have replace: "replace_key k k' t =
    (if k \<noteq> k' \<and> map_of (inorder t) k' \<noteq> None then (Inl (KeyExists k'), t)
     else case map_of (inorder t) k of None \<Rightarrow> (Inl (MissingKey k), t1) | Some w \<Rightarrow> (Inr (), tree_put k' w t1))"
    using del(1) d by (auto simp: replace_key_def get split: option.splits)
  have t1: "search_tree_ok t1" "inorder t1 = filter (\<lambda>e. fst e \<noteq> k) (inorder t)"
      "tree_look t1 = (map_of (inorder t))(k := None)"
    using del(2,4) look_del d by auto
  have "search_tree_ok (snd (replace_key k k' t))"
    unfolding replace using assms t1 by (auto simp: tree_put_ok split: option.splits)
  moreover have "if k \<noteq> k' \<and> map_of (inorder t) k' \<noteq> None then replace_key k k' t = (Inl (KeyExists k'), t)
     else case map_of (inorder t) k of
            None \<Rightarrow> fst (replace_key k k' t) = Inl (MissingKey k) \<and> inorder (snd (replace_key k k' t)) = inorder t
          | Some w \<Rightarrow> fst (replace_key k k' t) = Inr () \<and>
              map_of (inorder (snd (replace_key k k' t))) = (map_of (inorder t))(k := None, k' \<mapsto> w)"
    unfolding replace using t1 del_none put [OF t1(1)] by (auto split: option.splits)
  ultimately show ?thesis
    using bst.items_sorted [OF assms] bst.count_items [OF assms] get del(1,2,4) put [OF assms] tree_put_ok [OF assms]
    by (simp add: items)
qed

definition example_tree :: "(int, string) search_tree" where
  "example_tree = fold (\<lambda>(k, v). tree_put k v)
     [(5, ''five''), (2, ''two''), (8, ''eight''), (6, ''six''), (9, ''nine'')] new_search_tree"

lemma example_tree_ok: "search_tree_ok example_tree"
  unfolding example_tree_def bst.puts_def [symmetric] by (rule bst.inv_puts)

theorem search_tree_refines_map_witness:
  "sorted_wrt (<) (map fst (inorder example_tree)) \<and>
   map_of (inorder (snd (replace_key 5 7 example_tree))) = (map_of (inorder example_tree))(5 := None, 7 \<mapsto> ''five'')"
proof -
  have "map_of (inorder example_tree) 5 = Some ''five'' \<and> map_of (inorder example_tree) 7 = None" by code_simp
  with search_tree_refines_map [OF example_tree_ok, of 5 v 7 for v] show ?thesis by simp
qed

text \<open>
  Rebalancing keeps every item and len(), and no search tree holding as many items is
  lower than the rebalanced one.
\<close>
theorem rebalance_minimal_height:
  assumes "search_tree_ok t" "length (inorder u) = length (inorder t)"
  shows "search_tree_ok (rebalance t) \<and> inorder (rebalance t) = inorder t \<and> st_size (rebalance t) = st_size t \<and>
    tree_height (rebalance t) \<le> tree_height u \<and>
    (inorder t \<noteq> [] \<longrightarrow> 2 ^ nat (tree_height (rebalance t)) \<le> length (inorder t))"
proof -
  let ?n = "length (inorder t)" and ?h = "tree_height (rebalance t)"
  have "2 ^ nat ?h \<le> ?n" if "inorder t \<noteq> []"
  proof (rule ccontr)
    assume "\<not> ?thesis"
    moreover from that have "st_root (rebalance t) \<noteq> None_node"
      by (metis inorder_def node_inorder_Nil rebalance_inorder)
    then have "0 \<le> ?h" by (simp add: tree_height_def node_height_nonneg)
    ultimately have "node_height (build (inorder t) 0 ?n) < ?h"
      by (intro build_height) auto
    then show False by (simp add: tree_height_def rebalance_def Let_def)
  qed
  moreover have "st_size (rebalance t) = st_size t" by (simp add: rebalance_def Let_def)
  ultimately show ?thesis
    using rebalance_ok [OF assms(1)] rebalance_inorder [of t] rebalance_height_least [OF assms(2)] by blast
qed

theorem rebalance_minimal_height_witness:
  "tree_height (rebalance example_tree) \<le> tree_height example_tree \<and>
   inorder (rebalance example_tree) = inorder example_tree \<and> tree_height example_tree = 2 \<and>
   tree_height (fold (\<lambda>k. tree_put k ()) [1, 2, 3, 4, 5 :: int] new_search_tree) = 4 \<and>
   tree_height (rebalance (fold (\<lambda>k. tree_put k ()) [1, 2, 3, 4, 5 :: int] new_search_tree)) = 2"
  using rebalance_minimal_height [OF example_tree_ok refl] by (intro conjI) (simp, simp, code_simp+)

text \<open>
  The queue of level_order visits the tree level by level: its result is the keys of
  depth 0, then those of depth 1 and so on down to the height, each level from left to right.
\<close>
theorem level_order_by_levels:
  "level_order t = concat (map (node_level (st_root t)) [0..<nat (tree_height t + 1)])"
proof -
  have "level_loop (present (st_root t)) =
    concat (map (forest_level (present (st_root t))) [0..<nat (tree_height t + 1)])"
    using node_height_ge [of "st_root t"]
    by (intro level_loop_levels) (auto simp: tree_height_def dest: in_present)
  then show ?thesis
    by (simp add: level_order_def forest_level_def [abs_def] present_level)
qed

end
