(* ===== verification/RedBlack.thy ===== *)
theory RedBlack
  imports OrderedMap
begin

text \<open>
  Lab 06, \<open>lab_06_trees_and_graphs/red_black.py\<close>: the left-leaning red-black tree.  A node that
  may be None is an \<open>rb_node\<close>; the static methods that rotate or flip in place return the updated
  node, or the AssertionError they raise.  \<open>put\<close> assigns the root only after \<open>_insert\<close> has
  returned, so its model returns the error or the new tree.
\<close>

section \<open>Trees\<close>

datatype color = RED | BLACK

datatype ('k, 'v) rb_node = None_rb
  | Rb_node (rb_key: 'k) (rb_value: 'v) (rb_color: color) (rb_left: "('k, 'v) rb_node") (rb_right: "('k, 'v) rb_node")

record ('k, 'v) rb_tree =
  rb_root :: "('k, 'v) rb_node"
  rb_size :: int

definition new_rb_tree :: "('k, 'v) rb_tree" where
  "new_rb_tree = \<lparr>rb_root = None_rb, rb_size = 0\<rparr>"

section \<open>Insertion\<close>

fun is_red :: "('k, 'v) rb_node \<Rightarrow> bool" where
  "is_red None_rb = False"
| "is_red (Rb_node k v c l r) = (c = RED)"

fun flipped :: "color \<Rightarrow> color" where
  "flipped RED = BLACK"
| "flipped BLACK = RED"

fun rotate_left :: "('k, 'v) rb_node \<Rightarrow> 'k map_error + ('k, 'v) rb_node" where
  "rotate_left (Rb_node k v c l (Rb_node rk rv rc rl rr)) = Inr (Rb_node rk rv c (Rb_node k v RED l rl) rr)"
| "rotate_left node = Inl (Violated ''left rotation requires a right child'')"

fun rotate_right :: "('k, 'v) rb_node \<Rightarrow> 'k map_error + ('k, 'v) rb_node" where
  "rotate_right (Rb_node k v c (Rb_node lk lv lc ll lr) r) = Inr (Rb_node lk lv c ll (Rb_node k v RED lr r))"
| "rotate_right node = Inl (Violated ''right rotation requires a left child'')"

fun flip_colors :: "('k, 'v) rb_node \<Rightarrow> 'k map_error + ('k, 'v) rb_node" where
  "flip_colors (Rb_node k v c (Rb_node lk lv lc ll lr) (Rb_node rk rv rc rl rr)) =
     Inr (Rb_node k v (flipped c) (Rb_node lk lv (flipped lc) ll lr) (Rb_node rk rv (flipped rc) rl rr))"
| "flip_colors node = Inl (Violated ''color flip requires two children'')"

definition lean_left :: "('k, 'v) rb_node \<Rightarrow> 'k map_error + ('k, 'v) rb_node" where
  "lean_left node = (if is_red (rb_right node) \<and> \<not> is_red (rb_left node) then rotate_left node else Inr node)"

definition lift_left :: "('k, 'v) rb_node \<Rightarrow> 'k map_error + ('k, 'v) rb_node" where
  "lift_left node =
     (let left = rb_left node
      in if is_red left \<and> left \<noteq> None_rb \<and> is_red (rb_left left) then rotate_right node else Inr node)"

definition split_red :: "('k, 'v) rb_node \<Rightarrow> 'k map_error + ('k, 'v) rb_node" where
  "split_red node = (if is_red (rb_left node) \<and> is_red (rb_right node) then flip_colors node else Inr node)"

definition fix_up :: "('k, 'v) rb_node \<Rightarrow> 'k map_error + ('k, 'v) rb_node" where
  "fix_up node =
     (case lean_left node of Inl e \<Rightarrow> Inl e
      | Inr n1 \<Rightarrow> (case lift_left n1 of Inl e \<Rightarrow> Inl e | Inr n2 \<Rightarrow> split_red n2))"

fun rb_insert :: "('k::linorder, 'v) rb_node \<Rightarrow> 'k \<Rightarrow> 'v \<Rightarrow> 'k map_error + (('k, 'v) rb_node \<times> bool)" where
  "rb_insert None_rb key val = Inr (Rb_node key val RED None_rb None_rb, True)"
| "rb_insert (Rb_node k v c l r) key val =
     (case (if key < k then
              case rb_insert l key val of Inl e \<Rightarrow> Inl e | Inr (l', ins) \<Rightarrow> Inr (Rb_node k v c l' r, ins)
            else if k < key then
              case rb_insert r key val of Inl e \<Rightarrow> Inl e | Inr (r', ins) \<Rightarrow> Inr (Rb_node k v c l r', ins)
            else Inr (Rb_node k val c l r, False)) of
        Inl e \<Rightarrow> Inl e
      | Inr (node, inserted) \<Rightarrow>
          (case fix_up node of Inl e \<Rightarrow> Inl e | Inr node' \<Rightarrow> Inr (node', inserted)))"

fun blacken :: "('k, 'v) rb_node \<Rightarrow> ('k, 'v) rb_node" where
  "blacken None_rb = None_rb"
| "blacken (Rb_node k v c l r) = Rb_node k v BLACK l r"

definition rb_put :: "'k::linorder \<Rightarrow> 'v \<Rightarrow> ('k, 'v) rb_tree \<Rightarrow> 'k map_error + ('k, 'v) rb_tree" where
  "rb_put key val t =
     (case rb_insert (rb_root t) key val of
        Inl e \<Rightarrow> Inl e
      | Inr (root, inserted) \<Rightarrow>
          Inr \<lparr>rb_root = blacken root, rb_size = rb_size t + (if inserted then 1 else 0)\<rparr>)"

section \<open>Reading and validation\<close>

fun rb_lookup :: "('k::linorder, 'v) rb_node \<Rightarrow> 'k \<Rightarrow> 'v option" where
  "rb_lookup None_rb key = None"
| "rb_lookup (Rb_node k v c l r) key =
     (if key < k then rb_lookup l key else if k < key then rb_lookup r key else Some v)"

definition rb_get :: "('k::linorder, 'v) rb_tree \<Rightarrow> 'k \<Rightarrow> 'k map_error + 'v" where
  "rb_get t key = (case rb_lookup (rb_root t) key of None \<Rightarrow> Inl (MissingKey key) | Some v \<Rightarrow> Inr v)"

fun rb_inorder :: "('k, 'v) rb_node \<Rightarrow> ('k \<times> 'v) list" where
  "rb_inorder None_rb = []"
| "rb_inorder (Rb_node k v c l r) = rb_inorder l @ (k, v) # rb_inorder r"

definition rb_items :: "('k, 'v) rb_tree \<Rightarrow> ('k \<times> 'v) list" where
  "rb_items t = rb_inorder (rb_root t)"

fun inspect :: "('k::linorder, 'v) rb_node \<Rightarrow> 'k option \<Rightarrow> 'k option \<Rightarrow> 'k map_error + int" where
  "inspect None_rb lower upper = Inr 1"
| "inspect (Rb_node k v c l r) lower upper =
     (if (case lower of None \<Rightarrow> False | Some lo \<Rightarrow> \<not> lo < k) then Inl (Violated ''tree violates lower key bound'')
      else if (case upper of None \<Rightarrow> False | Some up \<Rightarrow> \<not> k < up) then Inl (Violated ''tree violates upper key bound'')
      else if is_red r then Inl (Violated ''red links must lean left'')
      else if c = RED \<and> is_red l then Inl (Violated ''consecutive red links are forbidden'')
      else case inspect l lower (Some k) of Inl e \<Rightarrow> Inl e
           | Inr left_height \<Rightarrow>
             (case inspect r (Some k) upper of Inl e \<Rightarrow> Inl e
              | Inr right_height \<Rightarrow>
                  if left_height \<noteq> right_height then Inl (Violated ''root-to-leaf black heights differ'')
                  else Inr (left_height + (if c = BLACK then 1 else 0))))"

definition validate :: "('k::linorder, 'v) rb_tree \<Rightarrow> 'k map_error + int" where
  "validate t =
     (if is_red (rb_root t) then Inl (Violated ''root must be black'') else inspect (rb_root t) None None)"

section \<open>The red-black shape\<close>

fun black_height :: "('k, 'v) rb_node \<Rightarrow> nat" where
  "black_height None_rb = 0"
| "black_height (Rb_node k v c l r) = black_height l + (if c = BLACK then 1 else 0)"

text \<open>\<open>rb_children\<close> is all of the shape but the two colours at the root.\<close>

fun rb_shape :: "('k, 'v) rb_node \<Rightarrow> bool" where
  "rb_shape None_rb = True"
| "rb_shape (Rb_node k v c l r) =
     (rb_shape l \<and> rb_shape r \<and> \<not> is_red r \<and> \<not> (c = RED \<and> is_red l) \<and> black_height l = black_height r)"

fun rb_children :: "('k, 'v) rb_node \<Rightarrow> bool" where
  "rb_children None_rb = False"
| "rb_children (Rb_node k v c l r) =
     (rb_shape l \<and> rb_shape r \<and> \<not> is_red r \<and> black_height l = black_height r)"

lemma red_left: "rb_shape n \<Longrightarrow> is_red n \<Longrightarrow> \<not> is_red (rb_left n)"
  by (cases n) auto

lemmas fix_up_defs = fix_up_def lean_left_def lift_left_def split_red_def Let_def

lemma fix_up_red:
  assumes "rb_shape l" "rb_shape r" "black_height l = black_height r" "\<not> (is_red l \<and> is_red r)"
    "is_red l \<longrightarrow> \<not> is_red (rb_left l)"
  shows "\<exists>n. fix_up (Rb_node k v RED l r) = Inr n \<and> is_red n \<and> rb_children n \<and> black_height n = black_height l"
  using assms by (cases l; cases r; cases "rb_color l"; cases "rb_color r") (auto simp: fix_up_defs)

lemma fix_up_black:
  assumes "rb_shape l \<or> is_red l \<and> rb_children l" "rb_shape r" "black_height l = black_height r"
    "is_red r \<longrightarrow> rb_shape l"
  shows "\<exists>n. fix_up (Rb_node k v BLACK l r) = Inr n \<and> rb_shape n \<and> black_height n = Suc (black_height l)"
  using assms
  by (cases l; cases r; cases "rb_color l"; cases "rb_color r"; cases "rb_left l"; cases "rb_color (rb_left l)")
    (auto simp: fix_up_defs)

lemma rb_insert_shape:
  "rb_shape n \<Longrightarrow>
   \<exists>n' ins. rb_insert n key val = Inr (n', ins) \<and> black_height n' = black_height n \<and>
     (if is_red n then is_red n' \<and> rb_children n' else rb_shape n')"
proof (induction n)
  case (Rb_node k v c l r)
  consider "key < k" | "k < key" | "key = k" by (cases key k rule: linorder_cases) auto
  then show ?case
  proof cases
    case 1
    with Rb_node obtain l' ins where l: "rb_insert l key val = Inr (l', ins)" "black_height l' = black_height l"
        "if is_red l then is_red l' \<and> rb_children l' else rb_shape l'" by auto
    show ?thesis
    proof (cases c)
      case RED
      with Rb_node.prems l have "rb_shape l'" "is_red l' \<longrightarrow> \<not> is_red (rb_left l')" by (auto dest: red_left)
      then show ?thesis
        using fix_up_red [of l' r k v] Rb_node.prems l RED 1 by auto
    next
      case BLACK
      then show ?thesis
        using fix_up_black [of l' r k v] Rb_node.prems l 1 by (auto split: if_splits)
    qed
  next
    case 2
    with Rb_node obtain r' ins where r: "rb_insert r key val = Inr (r', ins)" "black_height r' = black_height r"
        "rb_shape r'" by auto
    show ?thesis
    proof (cases c)
      case RED
      then show ?thesis
        using fix_up_red [of l r' k v] Rb_node.prems r 2 by auto
    next
      case BLACK
      then show ?thesis
        using fix_up_black [of l r' k v] Rb_node.prems r 2 by auto
    qed
  next
    case 3
    show ?thesis
    proof (cases c)
      case RED
      then show ?thesis
        using fix_up_red [of l r k val] Rb_node.prems 3 by auto
    next
      case BLACK
      then show ?thesis
        using fix_up_black [of l r k val] Rb_node.prems 3 by auto
    qed
  qed
qed (simp; blast)

lemma rotate_left_inorder: "rotate_left n = Inr n' \<Longrightarrow> rb_inorder n' = rb_inorder n"
  by (cases n rule: rotate_left.cases) auto

lemma rotate_right_inorder: "rotate_right n = Inr n' \<Longrightarrow> rb_inorder n' = rb_inorder n"
  by (cases n rule: rotate_right.cases) auto

lemma flip_colors_inorder: "flip_colors n = Inr n' \<Longrightarrow> rb_inorder n' = rb_inorder n"
  by (cases n rule: flip_colors.cases) auto

lemma fix_up_inorder: "fix_up n = Inr n' \<Longrightarrow> rb_inorder n' = rb_inorder n"
  by (auto simp: fix_up_defs split: if_splits sum.splits
      dest!: rotate_left_inorder rotate_right_inorder flip_colors_inorder)

lemma rb_insert_inorder:
  "sorted_wrt (<) (map fst (rb_inorder n)) \<Longrightarrow> rb_insert n key val = Inr (n', ins) \<Longrightarrow>
   rb_inorder n' = put_sorted key val (rb_inorder n) \<and> ins = (map_of (rb_inorder n) key = None)"
proof (induction n arbitrary: n' ins)
  case (Rb_node k v c l r)
  have s: "sorted_wrt (<) (map fst (rb_inorder l))" "sorted_wrt (<) (map fst (rb_inorder r))"
      "\<forall>a \<in> fst ` set (rb_inorder l). a < k" "\<forall>b \<in> fst ` set (rb_inorder r). k < b"
    using Rb_node.prems(1) by (auto simp: sorted_wrt_append)
  have put: "put_sorted key val (rb_inorder (Rb_node k v c l r)) =
     (if key < k then put_sorted key val (rb_inorder l) @ (k, v) # rb_inorder r
      else if k < key then rb_inorder l @ (k, v) # put_sorted key val (rb_inorder r)
      else rb_inorder l @ (k, val) # rb_inorder r)"
    using put_sorted_append Rb_node.prems(1) by (simp add: put_sorted_append)
  have look: "map_of (rb_inorder (Rb_node k v c l r)) key =
     (if key < k then map_of (rb_inorder l) key else if k < key then map_of (rb_inorder r) key else Some v)"
    using map_of_append_sorted [OF s(3,4)] by simp
  note ins = Rb_node.prems(2)
  consider "key < k" | "k < key" | "key = k" by (cases key k rule: linorder_cases) auto
  then show ?case
  proof cases
    case 1
    with ins obtain l' where sub: "rb_insert l key val = Inr (l', ins)" "fix_up (Rb_node k v c l' r) = Inr n'"
      by (auto split: sum.splits)
    with fix_up_inorder [OF sub(2)] Rb_node.IH(1) [OF s(1) sub(1)] 1 show ?thesis
      unfolding put look by simp
  next
    case 2
    then have "\<not> key < k" by simp
    with ins 2 obtain r' where sub: "rb_insert r key val = Inr (r', ins)" "fix_up (Rb_node k v c l r') = Inr n'"
      by (auto split: sum.splits)
    with fix_up_inorder [OF sub(2)] Rb_node.IH(2) [OF s(2) sub(1)] 2 \<open>\<not> key < k\<close> show ?thesis
      unfolding put look by simp
  next
    case 3
    with ins have "fix_up (Rb_node k val c l r) = Inr n'" "\<not> ins"
      by (auto split: sum.splits)
    with 3 fix_up_inorder [of "Rb_node k val c l r" n'] show ?thesis
      unfolding put look by simp
  qed
qed auto

lemma rb_lookup_map_of:
  "sorted_wrt (<) (map fst (rb_inorder n)) \<Longrightarrow> rb_lookup n x = map_of (rb_inorder n) x"
proof (induction n)
  case (Rb_node k v c l r)
  then have "\<forall>a \<in> fst ` set (rb_inorder l). a < k" "\<forall>b \<in> fst ` set (rb_inorder r). k < b"
    by (auto simp: sorted_wrt_append)
  with Rb_node show ?case
    by (simp add: map_of_append_sorted sorted_wrt_append del: map_of_append)
qed simp

section \<open>The ordered map\<close>

definition rb_ok :: "('k::linorder, 'v) rb_tree \<Rightarrow> bool" where
  "rb_ok t \<longleftrightarrow> rb_shape (rb_root t) \<and> \<not> is_red (rb_root t) \<and> sorted_wrt (<) (map fst (rb_items t)) \<and>
     rb_size t = int (length (rb_items t))"

text \<open>\<open>put\<close> and \<open>get\<close> for a client that does not catch their errors.\<close>

definition rb_store :: "'k::linorder \<Rightarrow> 'v \<Rightarrow> ('k, 'v) rb_tree \<Rightarrow> ('k, 'v) rb_tree" where
  "rb_store key val t = (case rb_put key val t of Inl e \<Rightarrow> t | Inr t' \<Rightarrow> t')"

definition rb_look :: "('k::linorder, 'v) rb_tree \<Rightarrow> 'k \<Rightarrow> 'v option" where
  "rb_look t key = (case rb_get t key of Inl e \<Rightarrow> None | Inr v \<Rightarrow> Some v)"

lemma blacken_simps [simp]:
  "rb_inorder (blacken n) = rb_inorder n" "\<not> is_red (blacken n)"
  "rb_shape n \<or> rb_children n \<Longrightarrow> rb_shape (blacken n)"
  by (cases n; auto)+

lemma rb_put_ok:
  assumes "rb_ok t"
  shows "\<exists>t'. rb_put k v t = Inr t' \<and> rb_ok t' \<and> rb_items t' = put_sorted k v (rb_items t)"
proof -
  have inv: "rb_shape (rb_root t)" "sorted_wrt (<) (map fst (rb_inorder (rb_root t)))"
      "rb_size t = int (length (rb_inorder (rb_root t)))"
    using assms by (auto simp: rb_ok_def rb_items_def)
  from rb_insert_shape [OF inv(1), of k v] obtain n ins
    where n: "rb_insert (rb_root t) k v = Inr (n, ins)" "rb_shape n \<or> rb_children n"
    by (auto split: if_splits)
  from rb_insert_inorder [OF inv(2) n(1)]
  have "rb_inorder n = put_sorted k v (rb_inorder (rb_root t))" "ins = (map_of (rb_inorder (rb_root t)) k = None)"
    by auto
  with n inv show ?thesis
    by (simp add: rb_put_def rb_ok_def rb_items_def sorted_put_sorted length_put_sorted)
qed

interpretation rbt: ordered_map new_rb_tree rb_store rb_look rb_items rb_size rb_ok
proof unfold_locales
  fix t :: "('a, 'b) rb_tree" and k x v
  show "rb_ok (new_rb_tree :: ('a, 'b) rb_tree)" by (simp add: rb_ok_def new_rb_tree_def rb_items_def)
  show "rb_look (new_rb_tree :: ('a, 'b) rb_tree) x = None"
    by (simp add: rb_look_def rb_get_def new_rb_tree_def)
  assume ok: "rb_ok t"
  then obtain t' where t': "rb_put k v t = Inr t'" "rb_ok t'" "rb_items t' = put_sorted k v (rb_items t)"
    using rb_put_ok [OF ok, of k v] by blast
  have look: "rb_look u x = map_of (rb_items u) x" if "rb_ok u" for u :: "('a, 'b) rb_tree" and x
    using that by (simp add: rb_look_def rb_get_def rb_ok_def rb_items_def rb_lookup_map_of split: option.split)
  show "rb_ok (rb_store k v t)" using t' by (simp add: rb_store_def)
  have s: "sorted_wrt (<) (map fst (rb_items t))" using ok by (simp add: rb_ok_def)
  show "rb_look (rb_store k v t) x = (if x = k then Some v else rb_look t x)"
    using t' ok s by (simp add: look rb_store_def map_of_put_sorted)
  show "sorted_wrt (<) (map fst (rb_items t))" by (fact s)
  show "map_of (rb_items t) x = rb_look t x" using ok by (simp add: look)
  show "rb_size t = int (length (rb_items t))" using ok by (simp add: rb_ok_def)
qed

section \<open>Height\<close>

fun rb_depth :: "('k, 'v) rb_node \<Rightarrow> nat" where
  "rb_depth None_rb = 0"
| "rb_depth (Rb_node k v c l r) = Suc (max (rb_depth l) (rb_depth r))"

lemma black_height_size: "rb_shape n \<Longrightarrow> 2 ^ black_height n \<le> length (rb_inorder n) + 1"
  by (induction n) auto

lemma rb_depth_le: "rb_shape n \<Longrightarrow> rb_depth n \<le> 2 * black_height n + (if is_red n then 1 else 0)"
proof (induction n)
  case (Rb_node k v c l r)
  then show ?case by (cases c) (auto split: if_splits)
qed simp

lemma inspect_shape:
  "rb_shape n \<Longrightarrow> sorted_wrt (<) (map fst (rb_inorder n)) \<Longrightarrow>
   (\<forall>lo. lower = Some lo \<longrightarrow> (\<forall>x \<in> fst ` set (rb_inorder n). lo < x)) \<Longrightarrow>
   (\<forall>up. upper = Some up \<longrightarrow> (\<forall>x \<in> fst ` set (rb_inorder n). x < up)) \<Longrightarrow>
   inspect n lower upper = Inr (int (black_height n) + 1)"
proof (induction n arbitrary: lower upper)
  case (Rb_node k v c l r)
  have "inspect l lower (Some k) = Inr (int (black_height l) + 1)"
    using Rb_node.prems by (intro Rb_node.IH(1)) (auto simp: sorted_wrt_append)
  moreover have "inspect r (Some k) upper = Inr (int (black_height r) + 1)"
    using Rb_node.prems by (intro Rb_node.IH(2)) (auto simp: sorted_wrt_append)
  ultimately show ?case
    using Rb_node.prems by (auto split: option.splits)
qed simp

lemma inspect_Inr:
  "inspect n lower upper = Inr h \<Longrightarrow>
   rb_shape n \<and> h = int (black_height n) + 1 \<and> sorted_wrt (<) (map fst (rb_inorder n)) \<and>
   (\<forall>x \<in> fst ` set (rb_inorder n). (\<forall>lo. lower = Some lo \<longrightarrow> lo < x) \<and> (\<forall>up. upper = Some up \<longrightarrow> x < up))"
proof (induction n arbitrary: lower upper h)
  case (Rb_node k v c l r)
  from Rb_node.prems obtain lh rh where sub: "inspect l lower (Some k) = Inr lh" "inspect r (Some k) upper = Inr rh"
      "lh = rh" "h = lh + (if c = BLACK then 1 else 0)" "\<not> is_red r" "\<not> (c = RED \<and> is_red l)"
      "\<forall>lo. lower = Some lo \<longrightarrow> lo < k" "\<forall>up. upper = Some up \<longrightarrow> k < up"
    by (auto split: if_splits sum.splits option.splits)
  note l = Rb_node.IH(1) [OF sub(1)] and r = Rb_node.IH(2) [OF sub(2)]
  have "\<forall>x \<in> fst ` set (rb_inorder l). x < k" "\<forall>x \<in> fst ` set (rb_inorder r). k < x"
    using l r by auto
  with l r sub show ?case
    by (auto simp: sorted_wrt_append intro: less_trans)
qed auto

section \<open>Properties\<close>

fun rb_puts :: "('k::linorder \<times> 'v) list \<Rightarrow> ('k, 'v) rb_tree \<Rightarrow> 'k map_error + ('k, 'v) rb_tree" where
  "rb_puts [] t = Inr t"
| "rb_puts ((k, v) # kvs) t = (case rb_put k v t of Inl e \<Rightarrow> Inl e | Inr t' \<Rightarrow> rb_puts kvs t')"

lemma rb_puts_store: "rb_ok t \<Longrightarrow> rb_puts kvs t = Inr (fold (\<lambda>(k, v). rb_store k v) kvs t)"
proof (induction kvs t rule: rb_puts.induct)
  case (2 k v kvs t)
  from rb_put_ok [OF "2.prems", of k v] obtain t' where "rb_put k v t = Inr t'" "rb_ok t'" by blast
  with "2.IH" show ?case by (simp add: rb_store_def)
qed simp

lemma validate_iff:
  "validate t = Inr h \<longleftrightarrow>
   rb_shape (rb_root t) \<and> \<not> is_red (rb_root t) \<and> sorted_wrt (<) (map fst (rb_items t)) \<and>
   h = int (black_height (rb_root t)) + 1"
  using inspect_shape [of "rb_root t" None None] inspect_Inr [of "rb_root t" None None h]
  by (auto simp: validate_def rb_items_def)

text \<open>
  Property C11.  No sequence of puts makes a rotation or a colour flip fail: every put from the empty
  tree returns, validate accepts the result, len() is the number of distinct keys, and get finds the
  last value put under a key and raises KeyError for every other key.
\<close>
theorem red_black_puts_never_fail:
  "\<exists>t. rb_puts kvs new_rb_tree = Inr t \<and> \<not> isl (validate t) \<and> rb_size t = int (card (fst ` set kvs)) \<and>
     sorted_wrt (<) (map fst (rb_items t)) \<and>
     (\<forall>x. rb_get t x = (case map_of (rev kvs) x of None \<Rightarrow> Inl (MissingKey x) | Some v \<Rightarrow> Inr v))"
proof -
  have inv: "rb_ok (rbt.puts kvs)" by (rule rbt.inv_puts)
  have "rb_puts kvs new_rb_tree = Inr (rbt.puts kvs)"
    using rb_puts_store [OF rbt.inv_empty] by (simp add: rbt.puts_def)
  moreover have "validate (rbt.puts kvs) = Inr (int (black_height (rb_root (rbt.puts kvs))) + 1)"
    using inv by (auto simp: rb_ok_def validate_iff)
  moreover have "rb_get t x = (case rb_look t x of None \<Rightarrow> Inl (MissingKey x) | Some v \<Rightarrow> Inr v)"
    for t :: "('a, 'b) rb_tree" and x
    by (simp add: rb_look_def rb_get_def split: option.split)
  ultimately show ?thesis
    using rbt.look_puts [of kvs] rbt.count_puts [of kvs] rbt.items_sorted [OF inv] by auto
qed

text \<open>
  A tree validate accepts is logarithmically deep: its number of levels is at most twice
  the black height of its links, and a tree of n items has at most 2 log2 (n + 1) levels, so get
  compares with no more nodes than that.
\<close>
theorem red_black_depth_logarithmic:
  assumes "validate t = Inr h"
  shows "int (rb_depth (rb_root t)) \<le> 2 * (h - 1) \<and> 2 ^ rb_depth (rb_root t) \<le> (length (rb_items t) + 1)\<^sup>2"
proof -
  from assms have s: "rb_shape (rb_root t)" "\<not> is_red (rb_root t)" "h = int (black_height (rb_root t)) + 1"
    by (auto simp: validate_iff)
  then have d: "rb_depth (rb_root t) \<le> 2 * black_height (rb_root t)" using rb_depth_le by fastforce
  then have "(2 :: nat) ^ rb_depth (rb_root t) \<le> (2 ^ black_height (rb_root t))\<^sup>2"
    by (metis one_le_numeral power_increasing power_mult mult.commute)
  also have "\<dots> \<le> (length (rb_items t) + 1)\<^sup>2"
    using black_height_size [OF s(1)] by (intro power_mono) (auto simp: rb_items_def)
  finally show ?thesis using d s(3) by simp
qed

definition example_rb :: "(int, int) rb_tree" where
  "example_rb = projr (rb_puts (map (\<lambda>k. (k, k)) [1, 2, 3, 4, 5, 6, 7]) new_rb_tree)"

theorem red_black_depth_logarithmic_witness:
  "validate example_rb = Inr 4 \<and> rb_depth (rb_root example_rb) = 3 \<and>
   2 ^ rb_depth (rb_root example_rb) \<le> (length (rb_items example_rb) + 1)\<^sup>2"
proof -
  have v: "validate example_rb = Inr 4" "rb_depth (rb_root example_rb) = 3" by code_simp+
  with red_black_depth_logarithmic [OF v(1)] show ?thesis by simp
qed

end
