(* ===== verification/DirectedGraph.thy ===== *)
theory DirectedGraph
  imports Prelude "HOL-Library.Sublist"
begin

text \<open>
  Lab 06, \<open>lab_06_trees_and_graphs/graph.py\<close>: \<open>DirectedGraph\<close>.  The adjacency map is an
  association list in insertion order; an inner \<open>dict[T, None]\<close> is the list of its keys.  A worklist
  loop is a function on the worklist whose termination is proved; reading a missing key inside a loop
  is the \<open>NoKey\<close> error.  A node is never Python's \<open>None\<close>, which the source takes for the end of the chain of predecessors.
\<close>

section \<open>The graph\<close>

datatype 'a graph_error =
    EdgeNotFound 'a 'a | NodeNotFound 'a | UnknownNode 'a | NotBothNodes | NoRoute 'a 'a
  | Cycle "'a list" | NoKey 'a

type_synonym 'a digraph = "('a \<times> 'a list) list"

definition nodes :: "'a digraph \<Rightarrow> 'a list" where
  "nodes g = dict_keys g"

lemma nodes_map_of: "n \<in> set (nodes g) \<longleftrightarrow> map_of g n \<noteq> None"
  by (simp add: nodes_def map_of_eq_None_iff)

definition put_key :: "'a \<Rightarrow> 'a list \<Rightarrow> 'a list" where
  "put_key x xs = (if x \<in> set xs then xs else xs @ [x])"

definition add_node :: "'a \<Rightarrow> 'a digraph \<Rightarrow> 'a digraph" where
  "add_node n g = (if n \<in> set (nodes g) then g else g @ [(n, [])])"

definition add_edge :: "'a \<Rightarrow> 'a \<Rightarrow> 'a digraph \<Rightarrow> 'a digraph" where
  "add_edge source target g =
     AList.map_entry source (put_key target) (add_node target (add_node source g))"

definition remove_edge :: "'a \<Rightarrow> 'a \<Rightarrow> 'a digraph \<Rightarrow> 'a graph_error + 'a digraph" where
  "remove_edge source target g =
     (case map_of g source of
        None \<Rightarrow> Inl (EdgeNotFound source target)
      | Some ts \<Rightarrow>
          if target \<in> set ts then Inr (AList.map_entry source (remove1 target) g)
          else Inl (EdgeNotFound source target))"

definition remove_node :: "'a \<Rightarrow> 'a digraph \<Rightarrow> 'a graph_error + 'a digraph" where
  "remove_node n g =
     (if n \<notin> set (nodes g) then Inl (NodeNotFound n)
      else Inr (map (\<lambda>(k, ts). (k, remove1 n ts)) (AList.delete n g)))"

definition neighbors :: "'a digraph \<Rightarrow> 'a \<Rightarrow> 'a graph_error + 'a list" where
  "neighbors g n = (case map_of g n of None \<Rightarrow> Inl (UnknownNode n) | Some ts \<Rightarrow> Inr ts)"

definition from_edges :: "('a \<times> 'a) list \<Rightarrow> 'a digraph" where
  "from_edges es = fold (\<lambda>(s, t). add_edge s t) es []"

section \<open>Topological order\<close>

fun count_edges :: "'a list \<Rightarrow> ('a \<times> int) list \<Rightarrow> 'a graph_error + ('a \<times> int) list" where
  "count_edges [] indegree = Inr indegree"
| "count_edges (t # ts) indegree =
     (case map_of indegree t of
        None \<Rightarrow> Inl (NoKey t)
      | Some c \<Rightarrow> count_edges ts (AList.update t (c + 1) indegree))"

text \<open>The inner loop: every target loses one incoming edge and becomes ready with its last one.\<close>

fun release :: "'a list \<Rightarrow> ('a \<times> int) list \<Rightarrow> 'a list \<Rightarrow> 'a graph_error + (('a \<times> int) list \<times> 'a list)" where
  "release [] indegree ready = Inr (indegree, ready)"
| "release (t # ts) indegree ready =
     (case map_of indegree t of
        None \<Rightarrow> Inl (NoKey t)
      | Some c \<Rightarrow>
          release ts (AList.update t (c - 1) indegree) (if c - 1 = 0 then ready @ [t] else ready))"

definition positives :: "('a \<times> int) list \<Rightarrow> nat" where
  "positives d = length (filter (\<lambda>(k, c). 0 < c) d)"

lemma positives_update:
  "map_of d t = Some c \<Longrightarrow>
   positives (AList.update t (c - 1) d) + (if c = 1 then 1 else 0) \<le> positives d"
  by (induction d) (auto simp: positives_def split: if_splits)

lemma release_measure:
  "release ts ind ready = Inr (ind', ready') \<Longrightarrow>
   positives ind' + length ready' \<le> positives ind + length ready"
proof (induction ts ind ready rule: release.induct)
  case (2 t ts ind ready)
  then obtain c where c: "map_of ind t = Some c" by (auto split: option.splits)
  with 2 positives_update [OF c] show ?case by (fastforce split: if_splits)
qed simp

function kahn_loop ::
    "'a digraph \<Rightarrow> ('a \<times> int) list \<Rightarrow> 'a list \<Rightarrow> 'a list \<Rightarrow> 'a graph_error + (('a \<times> int) list \<times> 'a list)" where
  "kahn_loop g indegree [] ordered = Inr (indegree, ordered)"
| "kahn_loop g indegree (n # ready) ordered =
     (case map_of g n of
        None \<Rightarrow> Inl (NoKey n)
      | Some ts \<Rightarrow>
          (case release ts indegree ready of
             Inl e \<Rightarrow> Inl e
           | Inr (indegree', ready') \<Rightarrow> kahn_loop g indegree' ready' (ordered @ [n])))"
  by pat_completeness auto

termination
  by (relation "measure (\<lambda>(g, indegree, ready, ordered). positives indegree + length ready)")
    (auto dest: release_measure)

definition topological_order :: "'a digraph \<Rightarrow> 'a graph_error + 'a list" where
  "topological_order g =
     (case count_edges (concat (dict_values g)) (map (\<lambda>n. (n, 0)) (nodes g)) of
        Inl e \<Rightarrow> Inl e
      | Inr indegree \<Rightarrow>
          (case kahn_loop g indegree (map fst (filter (\<lambda>(n, c). c = 0) indegree)) [] of
             Inl e \<Rightarrow> Inl e
           | Inr (indegree', ordered) \<Rightarrow>
               if length ordered \<noteq> length g
               then Inl (Cycle (map fst (filter (\<lambda>(n, c). 0 < c) indegree')))
               else Inr ordered))"

section \<open>Searches\<close>

text \<open>The nodes a search of the graph can meet.\<close>

definition universe :: "'a digraph \<Rightarrow> 'a set" where
  "universe g = set (nodes g) \<union> set (concat (dict_values g))"

lemma finite_universe [simp]: "finite (universe g)"
  by (simp add: universe_def)

lemma map_of_universe: "map_of g n = Some ts \<Longrightarrow> set ts \<subseteq> universe g"
  by (force simp: universe_def dest: map_of_SomeD)

text \<open>\<open>visited\<close> and \<open>queue\<close> after the loop over the neighbours of a node.\<close>

fun discover :: "'a list \<Rightarrow> 'a set \<Rightarrow> 'a list \<Rightarrow> 'a set \<times> 'a list" where
  "discover [] visited queue = (visited, queue)"
| "discover (t # ts) visited queue =
     (if t \<in> visited then discover ts visited queue
      else discover ts (insert t visited) (queue @ [t]))"

lemma discover_measure:
  "discover ts visited queue = (visited', queue') \<Longrightarrow> set ts \<subseteq> U \<Longrightarrow> finite U \<Longrightarrow>
   card (U - visited') + length queue' \<le> card (U - visited) + length queue"
proof (induction ts visited queue rule: discover.induct)
  case (2 t ts visited queue)
  have "Suc (card (U - insert t visited)) = card (U - visited)" if "t \<notin> visited"
    using 2(4,5) that card_Suc_Diff1 [of "U - visited" t] by (simp add: Diff_insert [of U t visited])
  with 2 show ?case by (auto split: if_splits)
qed simp

function bfs_loop :: "'a digraph \<Rightarrow> 'a set \<Rightarrow> 'a list \<Rightarrow> 'a list \<Rightarrow> 'a graph_error + 'a list" where
  "bfs_loop g visited [] order = Inr order"
| "bfs_loop g visited (n # queue) order =
     (case map_of g n of
        None \<Rightarrow> Inl (NoKey n)
      | Some ts \<Rightarrow>
          (case discover ts visited queue of
             (visited', queue') \<Rightarrow> bfs_loop g visited' queue' (order @ [n])))"
  by pat_completeness auto

termination
  by (relation "measure (\<lambda>(g, visited, queue, order). card (universe g - visited) + length queue)")
    (auto dest!: sym [of "(_, _)"] dest: discover_measure [OF _ map_of_universe finite_universe] intro!: le_imp_less_Suc)

definition breadth_first :: "'a digraph \<Rightarrow> 'a \<Rightarrow> 'a graph_error + 'a list" where
  "breadth_first g source =
     (if source \<notin> set (nodes g) then Inl (UnknownNode source) else bfs_loop g {source} [source] [])"

text \<open>The stack's top is the head of the list: \<open>extend(reversed(ts))\<close> pushes the first neighbour last.\<close>

function dfs_loop :: "'a digraph \<Rightarrow> 'a set \<Rightarrow> 'a list \<Rightarrow> 'a list \<Rightarrow> 'a graph_error + 'a list" where
  "dfs_loop g visited [] order = Inr order"
| "dfs_loop g visited (n # stack) order =
     (if n \<in> visited then dfs_loop g visited stack order
      else case map_of g n of
             None \<Rightarrow> Inl (NoKey n)
           | Some ts \<Rightarrow> dfs_loop g (insert n visited) (ts @ stack) (order @ [n]))"
  by pat_completeness auto

termination
proof (relation "measures [\<lambda>(g, visited, stack, order). card (universe g - visited), \<lambda>(g, visited, stack, order). length stack]", goal_cases)
  case (3 g visited n stack order ts)
  then have "n \<in> universe g - visited"
    using nodes_map_of [of n g] by (simp add: universe_def del: set_map)
  then have "card (universe g - insert n visited) < card (universe g - visited)"
    by (intro psubset_card_mono) auto
  then show ?case by simp
qed simp_all

definition depth_first :: "'a digraph \<Rightarrow> 'a \<Rightarrow> 'a graph_error + 'a list" where
  "depth_first g source =
     (if source \<notin> set (nodes g) then Inl (UnknownNode source) else dfs_loop g {} [source] [])"

section \<open>Shortest path\<close>

fun discover_from ::
    "'a \<Rightarrow> 'a list \<Rightarrow> ('a \<times> 'a option) list \<Rightarrow> 'a list \<Rightarrow> ('a \<times> 'a option) list \<times> 'a list" where
  "discover_from n [] previous queue = (previous, queue)"
| "discover_from n (t # ts) previous queue =
     (if t \<in> set (dict_keys previous) then discover_from n ts previous queue
      else discover_from n ts (previous @ [(t, Some n)]) (queue @ [t]))"

lemma discover_from_discover:
  "discover_from n ts previous queue = (previous', queue') \<Longrightarrow>
   discover ts (set (dict_keys previous)) queue = (set (dict_keys previous'), queue')"
  by (induction n ts previous queue rule: discover_from.induct) (auto split: if_splits)

lemma discover_from_measure:
  assumes "map_of g m = Some ts" "discover_from n ts previous queue = (previous', queue')"
  shows "card (universe g - set (dict_keys previous')) + length queue' \<le> card (universe g - set (dict_keys previous)) + length queue"
  using discover_measure [OF discover_from_discover [OF assms(2)] map_of_universe [OF assms(1)]] by simp

text \<open>The chain of predecessors of \<open>current\<close>: None when the loop does not end.\<close>

partial_function (option) path_back ::
    "('a \<times> 'a option) list \<Rightarrow> 'a option \<Rightarrow> 'a list \<Rightarrow> ('a graph_error + 'a list) option" where
  "path_back previous current path =
     (case current of
        None \<Rightarrow> Some (Inr (rev path))
      | Some c \<Rightarrow>
          (case map_of previous c of
             None \<Rightarrow> Some (Inl (NoKey c))
           | Some p \<Rightarrow> path_back previous p (path @ [c])))"

function path_loop ::
    "'a digraph \<Rightarrow> 'a \<Rightarrow> 'a \<Rightarrow> ('a \<times> 'a option) list \<Rightarrow> 'a list \<Rightarrow> ('a graph_error + 'a list) option" where
  "path_loop g source target previous [] = Some (Inl (NoRoute source target))"
| "path_loop g source target previous (n # queue) =
     (if n = target then path_back previous (Some target) []
      else case map_of g n of
             None \<Rightarrow> Some (Inl (NoKey n))
           | Some ts \<Rightarrow>
               (case discover_from n ts previous queue of
                  (previous', queue') \<Rightarrow> path_loop g source target previous' queue'))"
  by pat_completeness auto

termination
  by (relation "measure (\<lambda>(g, source, target, previous, queue). card (universe g - set (dict_keys previous)) + length queue)")
    (auto simp: less_Suc_eq_le discover_from_measure simp del: set_map split: prod.split)

definition shortest_path :: "'a digraph \<Rightarrow> 'a \<Rightarrow> 'a \<Rightarrow> ('a graph_error + 'a list) option" where
  "shortest_path g source target =
     (if source \<notin> set (nodes g) \<or> target \<notin> set (nodes g) then Some (Inl NotBothNodes)
      else path_loop g source target [(source, None)] [source])"

section \<open>Well-formed graphs\<close>

definition graph_ok :: "'a digraph \<Rightarrow> bool" where
  "graph_ok g \<longleftrightarrow>
     distinct (nodes g) \<and> (\<forall>n ts. map_of g n = Some ts \<longrightarrow> distinct ts \<and> set ts \<subseteq> set (nodes g))"

definition edges :: "'a digraph \<Rightarrow> ('a \<times> 'a) set" where
  "edges g = {(u, v). \<exists>ts. map_of g u = Some ts \<and> v \<in> set ts}"

lemma graph_ok_targets:
  "graph_ok g \<Longrightarrow> map_of g n = Some ts \<Longrightarrow> distinct ts \<and> set ts \<subseteq> set (nodes g)"
  unfolding graph_ok_def by blast

lemma graph_ok_distinct: "graph_ok g \<Longrightarrow> distinct (nodes g)"
  unfolding graph_ok_def by blast

lemma edges_nodes: "graph_ok g \<Longrightarrow> (u, v) \<in> edges g \<Longrightarrow> u \<in> set (nodes g) \<and> v \<in> set (nodes g)"
  unfolding edges_def using graph_ok_targets [of g u] nodes_map_of [of u g] by blast

lemma nodes_add_node [simp]: "nodes (add_node n g) = (if n \<in> set (nodes g) then nodes g else nodes g @ [n])"
  by (simp add: add_node_def nodes_def)

lemma map_of_add_node:
  "map_of (add_node n g) x = (if x = n \<and> map_of g n = None then Some [] else map_of g x)"
  by (auto simp: add_node_def map_add_def nodes_map_of split: option.split)

lemma add_node_ok [keep]:
  assumes "graph_ok g"
  shows "graph_ok (add_node n g)"
proof -
  have "distinct ts \<and> set ts \<subseteq> set (nodes (add_node n g))" if "map_of (add_node n g) m = Some ts" for m ts
    using that graph_ok_targets [OF assms, of m ts] by (auto simp: map_of_add_node split: if_splits)
  moreover have "distinct (nodes (add_node n g))" using graph_ok_distinct [OF assms] by simp
  ultimately show ?thesis unfolding graph_ok_def by blast
qed

lemma nodes_add_edge: "nodes (add_edge s t g) = nodes (add_node t (add_node s g))"
  by (simp add: add_edge_def nodes_def)

lemma edges_add_node: "edges (add_node n g) = edges g"
  by (auto simp: edges_def map_of_add_node split: if_splits)

lemma map_of_add_edge:
  "map_of (add_edge s t g) = (map_of (add_node t (add_node s g)))
     (s := map_option (put_key t) (map_of (add_node t (add_node s g)) s))"
  by (simp add: add_edge_def map_of_map_entry)

lemma add_edge_ok [keep]:
  assumes "graph_ok g"
  shows "graph_ok (add_edge s t g)"
proof -
  let ?g = "add_node t (add_node s g)"
  have ok: "graph_ok ?g" using assms by (intro add_node_ok)
  have t: "t \<in> set (nodes ?g)" by simp
  have "distinct ts \<and> set ts \<subseteq> set (nodes ?g)" if ts: "map_of (add_edge s t g) n = Some ts" for n ts
  proof -
    from ts obtain us where us: "map_of ?g n = Some us" "ts = (if n = s then put_key t us else us)"
      unfolding map_of_add_edge by (auto split: if_splits)
    with graph_ok_targets [OF ok us(1)] t show ?thesis by (auto simp: put_key_def)
  qed
  with ok show ?thesis unfolding graph_ok_def nodes_add_edge by blast
qed

lemma edges_add_edge: "edges (add_edge s t g) = insert (s, t) (edges g)"
proof -
  let ?g = "add_node t (add_node s g)"
  have "\<exists>ts. map_of ?g s = Some ts" by (auto simp: map_of_add_node)
  then have "edges (add_edge s t g) = insert (s, t) (edges ?g)"
    by (auto simp: edges_def map_of_add_edge put_key_def split: if_splits)
  then show ?thesis by (simp add: edges_add_node)
qed

lemma from_edges_snoc: "from_edges (es @ [(s, t)]) = add_edge s t (from_edges es)"
  by (simp add: from_edges_def)

lemma from_edges_Nil: "graph_ok (from_edges [])" "edges (from_edges []) = {}"
  by (simp_all add: from_edges_def graph_ok_def nodes_def edges_def)

lemma from_edges_ok: "graph_ok (from_edges es)"
proof (induction es rule: rev_induct)
  case (snoc e es)
  then show ?case by (cases e) (simp add: from_edges_snoc add_edge_ok)
qed (rule from_edges_Nil)

lemma edges_from_edges: "edges (from_edges es) = set es"
proof (induction es rule: rev_induct)
  case (snoc e es)
  then show ?case by (cases e) (simp add: from_edges_snoc edges_add_edge)
qed (simp add: from_edges_Nil)

section \<open>Topological order: the counts\<close>

lemma count_edges_result:
  "set ts \<subseteq> set (dict_keys d) \<Longrightarrow>
   \<exists>d'. count_edges ts d = Inr d' \<and> dict_keys d' = dict_keys d \<and>
     (\<forall>v. map_of d' v = map_option (\<lambda>c. c + int (count_list ts v)) (map_of d v))"
proof (induction ts arbitrary: d)
  case Nil
  then show ?case by (auto simp: option.map_ident)
next
  case (Cons t ts)
  then obtain c where c: "map_of d t = Some c"
    by (metis list.set_intros(1) map_of_eq_None_iff not_Some_eq set_map subsetD)
  let ?d = "AList.update t (c + 1) d"
  have k: "dict_keys ?d = dict_keys d"
    using c by (rule dict_keys_update_present)
  with Cons.prems have "set ts \<subseteq> set (dict_keys ?d)" by simp
  from Cons.IH [OF this] c k show ?case
    by (auto simp: update_conv split: if_splits)
qed

lemma release_result:
  "set ts \<subseteq> set (dict_keys d) \<Longrightarrow> distinct ts \<Longrightarrow>
   \<exists>d'. release ts d ready = Inr (d', ready @ filter (\<lambda>t. map_of d t = Some 1) ts) \<and> dict_keys d' = dict_keys d \<and>
     (\<forall>v. map_of d' v = map_option (\<lambda>c. if v \<in> set ts then c - 1 else c) (map_of d v))"
proof (induction ts arbitrary: d ready)
  case Nil
  then show ?case by (auto simp: option.map_ident)
next
  case (Cons t ts)
  then obtain c where c: "map_of d t = Some c"
    by (metis list.set_intros(1) map_of_eq_None_iff not_Some_eq set_map subsetD)
  let ?d = "AList.update t (c - 1) d"
  have k: "dict_keys ?d = dict_keys d" using c by (rule dict_keys_update_present)
  have "filter (\<lambda>u. map_of ?d u = Some 1) ts = filter (\<lambda>u. map_of d u = Some 1) ts"
    using Cons.prems by (intro filter_cong refl) (auto simp: update_conv)
  with Cons.IH [of ?d "if c - 1 = 0 then ready @ [t] else ready"] Cons.prems c k show ?case
    by (fastforce simp: update_conv)
qed

definition kahn_inv :: "'a digraph \<Rightarrow> ('a \<times> int) list \<Rightarrow> 'a list \<Rightarrow> 'a list \<Rightarrow> bool" where
  "kahn_inv g indegree ready ordered \<longleftrightarrow>
     dict_keys indegree = nodes g \<and> distinct (ordered @ ready) \<and>
     (\<forall>v. v \<in> set ordered \<or> v \<in> set ready \<longleftrightarrow> map_of indegree v = Some 0) \<and>
     (\<forall>v \<in> set (nodes g). map_of indegree v = Some (int (card {u. (u, v) \<in> edges g \<and> u \<notin> set ordered}))) \<and>
     (\<forall>i < length ordered. {u. (u, ordered ! i) \<in> edges g} \<subseteq> set (take i ordered))"

lemma finite_preds: "graph_ok g \<Longrightarrow> finite {u. (u, v) \<in> edges g \<and> P u}"
  by (rule finite_subset [of _ "set (nodes g)"]) (auto dest: edges_nodes)

lemma kahn_inv_ready:
  assumes "graph_ok g" "kahn_inv g indegree ready ordered" "n \<in> set ready"
  shows "n \<in> set (nodes g)" "{u. (u, n) \<in> edges g} \<subseteq> set ordered"
proof -
  have z: "map_of indegree n = Some 0" using assms(2,3) by (auto simp: kahn_inv_def)
  then show n: "n \<in> set (nodes g)"
    using assms(2) by (metis kahn_inv_def map_of_eq_None_iff option.distinct(1) set_map)
  with z assms(2) have "card {u. (u, n) \<in> edges g \<and> u \<notin> set ordered} = 0"
    by (auto simp: kahn_inv_def)
  then show "{u. (u, n) \<in> edges g} \<subseteq> set ordered"
    using finite_preds [OF assms(1), of n "\<lambda>u. u \<notin> set ordered"] by auto
qed

lemma kahn_inv_step:
  assumes ok: "graph_ok g" and inv: "kahn_inv g indegree (n # ready) ordered"
  shows "\<exists>ts indegree' ready'. map_of g n = Some ts \<and> release ts indegree ready = Inr (indegree', ready') \<and>
    kahn_inv g indegree' ready' (ordered @ [n])"
proof -
  note n = kahn_inv_ready [OF ok inv, of n, simplified]
  then obtain ts where ts: "map_of g n = Some ts" using nodes_map_of [of n g] by auto
  note tsd = graph_ok_targets [OF ok ts]
  have inE: "(n, v) \<in> edges g \<longleftrightarrow> v \<in> set ts" for v using ts by (simp add: edges_def)
  have keys: "dict_keys indegree = nodes g" and dist: "distinct (ordered @ n # ready)"
    and zero: "\<And>v. v \<in> set ordered \<or> v \<in> set (n # ready) \<longleftrightarrow> map_of indegree v = Some 0"
    and count: "\<And>v. v \<in> set (nodes g) \<Longrightarrow>
        map_of indegree v = Some (int (card {u. (u, v) \<in> edges g \<and> u \<notin> set ordered}))"
    and topo: "\<forall>i < length ordered. {u. (u, ordered ! i) \<in> edges g} \<subseteq> set (take i ordered)"
    using inv unfolding kahn_inv_def by blast+
  define ready' where "ready' = ready @ filter (\<lambda>t. map_of indegree t = Some 1) ts"
  from release_result [of ts indegree ready] tsd keys obtain d' where
    d': "release ts indegree ready = Inr (d', ready')" "dict_keys d' = dict_keys indegree"
      "\<And>v. map_of d' v = map_option (\<lambda>c. if v \<in> set ts then c - 1 else c) (map_of indegree v)"
    unfolding ready'_def by auto
  have count': "map_of d' v = Some (int (card {u. (u, v) \<in> edges g \<and> u \<notin> set (ordered @ [n])}))"
    if v: "v \<in> set (nodes g)" for v
  proof -
    have eq: "{u. (u, v) \<in> edges g \<and> u \<notin> set (ordered @ [n])} = {u. (u, v) \<in> edges g \<and> u \<notin> set ordered} - {n}" by auto
    have "n \<in> {u. (u, v) \<in> edges g \<and> u \<notin> set ordered} \<longleftrightarrow> v \<in> set ts"
      using dist by (auto simp: inE)
    then have "int (card {u. (u, v) \<in> edges g \<and> u \<notin> set (ordered @ [n])}) =
        int (card {u. (u, v) \<in> edges g \<and> u \<notin> set ordered}) - (if v \<in> set ts then 1 else 0)"
      unfolding eq using card_Diff_singleton_if [of "{u. (u, v) \<in> edges g \<and> u \<notin> set ordered}" n]
        card_gt_0_iff [of "{u. (u, v) \<in> edges g \<and> u \<notin> set ordered}"] finite_preds [OF ok, of v "\<lambda>u. u \<notin> set ordered"]
      by (auto simp: of_nat_diff)
    then show ?thesis using d'(3) [of v] count [OF v] by auto
  qed
  have not_zero: "map_of indegree v \<noteq> Some 0" if "v \<in> set ts" for v
  proof
    assume "map_of indegree v = Some 0"
    moreover from that tsd have v: "v \<in> set (nodes g)" by auto
    ultimately have "card {u. (u, v) \<in> edges g \<and> u \<notin> set ordered} = 0" using count by fastforce
    with finite_preds [OF ok, of v "\<lambda>u. u \<notin> set ordered"] have "n \<in> set ordered"
      using that inE by auto
    with dist show False by simp
  qed
  have zero': "v \<in> set (ordered @ [n]) \<or> v \<in> set ready' \<longleftrightarrow> map_of d' v = Some 0" for v
    using zero [of v] not_zero [of v] d'(3) [of v] by (auto simp: ready'_def)
  have "distinct ((ordered @ [n]) @ ready')"
  proof -
    have "map_of indegree v \<noteq> Some 1" if "v \<in> set ordered \<or> v \<in> set (n # ready)" for v
      using iffD1 [OF zero that] by simp
    then show ?thesis using dist tsd by (auto simp: ready'_def)
  qed
  moreover have "\<forall>i < length (ordered @ [n]). {u. (u, (ordered @ [n]) ! i) \<in> edges g} \<subseteq> set (take i (ordered @ [n]))"
    using topo n(2) by (auto simp: nth_append less_Suc_eq)
  ultimately have "kahn_inv g d' ready' (ordered @ [n])"
    unfolding kahn_inv_def using keys d'(2) zero' count' by simp
  with ts d'(1) show ?thesis by blast
qed

lemma kahn_loop_result:
  "graph_ok g \<Longrightarrow> kahn_inv g indegree ready ordered \<Longrightarrow>
   \<exists>indegree' ordered'. kahn_loop g indegree ready ordered = Inr (indegree', ordered') \<and> kahn_inv g indegree' [] ordered'"
proof (induction g indegree ready ordered rule: kahn_loop.induct)
  case (2 g indegree n ready ordered)
  from kahn_inv_step [OF "2.prems"] obtain ts indegree' ready' where
    s: "map_of g n = Some ts" "release ts indegree ready = Inr (indegree', ready')" "kahn_inv g indegree' ready' (ordered @ [n])"
    by blast
  from "2.IH" [OF s(1,2) refl "2.prems"(1) s(3)] s(1,2) show ?case by simp
qed auto

lemma count_list_distinct: "distinct xs \<Longrightarrow> count_list xs x = (if x \<in> set xs then 1 else 0)"
  by (induction xs) auto

lemma count_list_targets:
  "distinct (map fst g) \<Longrightarrow> \<forall>e \<in> set g. distinct (snd e) \<Longrightarrow>
   count_list (concat (map snd g)) v = card {u. \<exists>ts. (u, ts) \<in> set g \<and> v \<in> set ts}"
proof (induction g)
  case (Cons e g)
  let ?S = "{u. \<exists>ts. (u, ts) \<in> set g \<and> v \<in> set ts}"
  have fin: "finite ?S" by (rule finite_subset [of _ "fst ` set g"]) force+
  have "fst e \<notin> ?S"
  proof
    assume "fst e \<in> ?S"
    then obtain ts where "(fst e, ts) \<in> set g" by blast
    from imageI [OF this, of fst] Cons.prems show False by simp
  qed
  moreover have "{u. \<exists>ts. (u, ts) \<in> set (e # g) \<and> v \<in> set ts} = (if v \<in> set (snd e) then insert (fst e) ?S else ?S)"
    by (cases e) auto
  moreover have "count_list (snd e) v = (if v \<in> set (snd e) then 1 else 0)"
    using Cons.prems by (simp add: count_list_distinct)
  ultimately show ?case using Cons fin by simp
qed simp

lemma kahn_inv_start:
  assumes ok: "graph_ok g"
  shows "\<exists>d. count_edges (concat (dict_values g)) (map (\<lambda>n. (n, 0)) (dict_keys g)) = Inr d \<and>
    kahn_inv g d (map fst (filter (\<lambda>(n, c). c = 0) d)) []"
proof -
  let ?z = "map (\<lambda>n. (n, 0 :: int)) (dict_keys g)" and ?ts = "concat (dict_values g)"
  have dist: "distinct (map fst g)" using graph_ok_distinct [OF ok] by (simp add: nodes_def)
  have entry: "map_of g u = Some ts \<longleftrightarrow> (u, ts) \<in> set g" for u ts using dist by simp
  have dts: "\<forall>e \<in> set g. distinct (snd e)" using graph_ok_targets [OF ok] entry by fastforce
  have "t \<in> set (nodes g)" if "t \<in> set ?ts" for t
    using that graph_ok_targets [OF ok] entry by fastforce
  then have "set ?ts \<subseteq> set (dict_keys ?z)" by (auto simp: nodes_def comp_def)
  from count_edges_result [OF this] obtain d where d: "count_edges ?ts ?z = Inr d" "dict_keys d = dict_keys ?z"
      "\<forall>v. map_of d v = map_option (\<lambda>c. c + int (count_list ?ts v)) (map_of ?z v)" by blast
  have keys: "dict_keys d = nodes g" using d(2) by (simp add: nodes_def comp_def)
  have "map_of ?z v = Some 0" if "v \<in> set (nodes g)" for v
    using that map_of_map_keys [of "\<lambda>_. 0" "dict_keys g" v] by (simp only: nodes_def if_True)
  moreover have "count_list ?ts v = card {u. (u, v) \<in> edges g}" for v
    using count_list_targets [OF dist dts] by (simp add: edges_def entry)
  ultimately have count: "map_of d v = Some (int (card {u. (u, v) \<in> edges g}))" if "v \<in> set (nodes g)" for v
    using d(3) that by simp
  have dd: "distinct (map fst d)" using keys dist by (simp add: nodes_def)
  then have "v \<in> set (map fst (filter (\<lambda>(n, c). c = 0) d)) \<longleftrightarrow> map_of d v = Some 0" for v
    by (force simp: image_iff)
  moreover have "distinct (map fst (filter (\<lambda>(n, c). c = 0) d))"
    using dd by (rule distinct_map_filter)
  ultimately have "kahn_inv g d (map fst (filter (\<lambda>(n, c). c = 0) d)) []"
    unfolding kahn_inv_def using keys count by simp
  with d(1) show ?thesis by blast
qed

lemma before_first:
  assumes "distinct xs" "i < length xs" "u \<in> set (take i xs)"
  shows "length (takeWhile (\<lambda>x. x \<noteq> u) xs) < length (takeWhile (\<lambda>x. x \<noteq> xs ! i) xs)"
proof -
  from assms(3) obtain j where j: "j < i" "xs ! j = u"
    by (metis in_set_conv_nth length_take min_less_iff_conj nth_take)
  have "length (takeWhile (\<lambda>x. x \<noteq> u) xs) \<le> j"
  proof (rule ccontr)
    assume "\<not> ?thesis"
    then have l: "j < length (takeWhile (\<lambda>x. x \<noteq> u) xs)" by simp
    from set_takeWhileD [OF nth_mem [OF l]] takeWhile_nth [OF l] j(2) show False by simp
  qed
  moreover have "i \<le> length (takeWhile (\<lambda>x. x \<noteq> xs ! i) xs)"
    using assms by (intro length_takeWhile_less_P_nth) (auto simp: nth_eq_iff_index_eq)
  ultimately show ?thesis using j by simp
qed

lemma kahn_inv_end:
  assumes ok: "graph_ok g" and inv: "kahn_inv g d [] ordered"
  shows "length ordered = length g \<longleftrightarrow> acyclic (edges g)"
proof -
  have dist: "distinct ordered" and topo: "\<forall>i < length ordered. {u. (u, ordered ! i) \<in> edges g} \<subseteq> set (take i ordered)"
    and zero: "\<And>v. v \<in> set ordered \<longleftrightarrow> map_of d v = Some 0" and keys: "dict_keys d = nodes g"
    and count: "\<And>v. v \<in> set (nodes g) \<Longrightarrow> map_of d v = Some (int (card {u. (u, v) \<in> edges g \<and> u \<notin> set ordered}))"
    using inv unfolding kahn_inv_def by auto
  have sub: "set ordered \<subseteq> set (nodes g)"
    using zero keys by (metis map_of_eq_None_iff option.distinct(1) set_map subsetI)
  have card: "length ordered = card (set ordered)" "length g = card (set (nodes g))"
    using dist graph_ok_distinct [OF ok] by (auto simp: distinct_card nodes_def simp flip: set_map)
  have len: "length ordered = length g \<longleftrightarrow> set ordered = set (nodes g)"
    using card sub card_subset_eq by (metis List.finite_set)
  show ?thesis
  proof
    assume "length ordered = length g"
    with len have all: "set ordered = set (nodes g)" by simp
    have "edges g \<subseteq> measure (\<lambda>v. length (takeWhile (\<lambda>x. x \<noteq> v) ordered))"
    proof
      fix e assume e: "e \<in> edges g"
      obtain u v where uv: "e = (u, v)" by fastforce
      with e edges_nodes [OF ok, of u v] all obtain i where i: "i < length ordered" "v = ordered ! i"
        by (metis in_set_conv_nth)
      with topo e uv have "u \<in> set (take i ordered)" by blast
      with before_first [OF dist i(1)] i uv show "e \<in> measure (\<lambda>v. length (takeWhile (\<lambda>x. x \<noteq> v) ordered))" by simp
    qed
    then show "acyclic (edges g)" by (meson acyclic_subset wf_acyclic wf_measure)
  next
    assume ac: "acyclic (edges g)"
    have "finite (edges g)"
      using edges_nodes [OF ok] by (intro finite_subset [of "edges g" "set (nodes g) \<times> set (nodes g)"]) auto
    with ac have wf: "wf (edges g)" by (simp add: finite_acyclic_wf)
    show "length ordered = length g"
    proof (rule ccontr)
      assume "length ordered \<noteq> length g"
      with len sub obtain v0 where "v0 \<in> set (nodes g) - set ordered" by auto
      then obtain v where v: "v \<in> set (nodes g) - set ordered" "\<And>u. (u, v) \<in> edges g \<Longrightarrow> u \<notin> set (nodes g) - set ordered"
        by (rule wfE_min [OF wf]) blast
      then have "{u. (u, v) \<in> edges g \<and> u \<notin> set ordered} = {}" using edges_nodes [OF ok] by blast
      with count [of v] zero [of v] v(1) show False by auto
    qed
  qed
qed

text \<open>What \<open>topological_order\<close> returns, on both branches.\<close>

lemma topological_order_cases:
  assumes ok: "graph_ok g"
  shows "(\<exists>ordered. topological_order g = Inr ordered \<and> acyclic (edges g) \<and> distinct ordered \<and> set ordered = set (nodes g) \<and>
       (\<forall>i < length ordered. {u. (u, ordered ! i) \<in> edges g} \<subseteq> set (take i ordered))) \<or>
    (\<exists>blocked. topological_order g = Inl (Cycle blocked) \<and> \<not> acyclic (edges g) \<and> blocked \<noteq> [] \<and>
       (\<forall>v \<in> set blocked. \<exists>u \<in> set blocked. (u, v) \<in> edges g))"
proof -
  from kahn_inv_start [OF ok] obtain d where
    d: "count_edges (concat (dict_values g)) (map (\<lambda>n. (n, 0)) (dict_keys g)) = Inr d"
      "kahn_inv g d (map fst (filter (\<lambda>(n, c). c = 0) d)) []" by blast
  from kahn_loop_result [OF ok d(2)] obtain d' ordered where
    l: "kahn_loop g d (map fst (filter (\<lambda>(n, c). c = 0) d)) [] = Inr (d', ordered)" "kahn_inv g d' [] ordered" by blast
  have dist: "distinct ordered" and topo: "\<forall>i < length ordered. {u. (u, ordered ! i) \<in> edges g} \<subseteq> set (take i ordered)"
    and zero: "\<And>v. v \<in> set ordered \<longleftrightarrow> map_of d' v = Some 0" and keys: "dict_keys d' = nodes g"
    and count: "\<And>v. v \<in> set (nodes g) \<Longrightarrow> map_of d' v = Some (int (card {u. (u, v) \<in> edges g \<and> u \<notin> set ordered}))"
    using l(2) unfolding kahn_inv_def by auto
  have sub: "set ordered \<subseteq> set (nodes g)"
    using zero keys by (metis map_of_eq_None_iff option.distinct(1) set_map subsetI)
  note end_iff = kahn_inv_end [OF ok l(2)]
  let ?blocked = "map fst (filter (\<lambda>(n, c). 0 < c) d')"
  have run: "topological_order g = (if length ordered \<noteq> length g then Inl (Cycle ?blocked) else Inr ordered)"
    by (simp add: topological_order_def nodes_def d(1) l(1) del: map_map)
  have blocked: "v \<in> set ?blocked \<longleftrightarrow> v \<in> set (nodes g) - set ordered" for v
  proof -
    have "distinct (map fst d')" using keys graph_ok_distinct [OF ok] by simp
    then have "v \<in> set ?blocked \<longleftrightarrow> (\<exists>c. map_of d' v = Some c \<and> 0 < c)" by (force simp: image_iff)
    also have "\<dots> \<longleftrightarrow> v \<in> set (nodes g) - set ordered"
    proof (cases "v \<in> set (nodes g)")
      case True
      with count [OF True] zero [of v] show ?thesis by auto
    next
      case False
      with keys have "map_of d' v = None" by (metis map_of_eq_None_iff set_map)
      with False show ?thesis by simp
    qed
    finally show ?thesis .
  qed
  show ?thesis
  proof (cases "acyclic (edges g)")
    case True
    with end_iff have len: "length ordered = length g" by simp
    have "card (set ordered) = card (set (nodes g))"
      using len distinct_card [OF dist] distinct_card [OF graph_ok_distinct [OF ok]] by (simp add: nodes_def)
    with sub have "set ordered = set (nodes g)" by (simp add: card_subset_eq)
    with run dist topo True len show ?thesis by simp
  next
    case False
    with end_iff have len: "length ordered \<noteq> length g" by simp
    have "\<exists>u \<in> set ?blocked. (u, v) \<in> edges g" if "v \<in> set ?blocked" for v
    proof -
      from that blocked have v: "v \<in> set (nodes g)" "v \<notin> set ordered" by blast+
      with count zero have "card {u. (u, v) \<in> edges g \<and> u \<notin> set ordered} \<noteq> 0" by fastforce
      then obtain u where "(u, v) \<in> edges g" "u \<notin> set ordered"
        by (metis (mono_tags, lifting) card.empty empty_Collect_eq)
      with blocked edges_nodes [OF ok] show ?thesis by blast
    qed
    moreover have "?blocked \<noteq> []"
    proof
      assume "?blocked = []"
      with blocked have "set (nodes g) \<subseteq> set ordered" by (metis DiffI empty_iff empty_set subsetI)
      with sub have "card (set ordered) = card (set (nodes g))" by simp
      with len distinct_card [OF dist] distinct_card [OF graph_ok_distinct [OF ok]] show False
        by (simp add: nodes_def)
    qed
    ultimately show ?thesis
      using run False len by (simp del: set_map)
  qed
qed

section \<open>Hops\<close>

definition hops :: "('a \<times> 'a) set \<Rightarrow> 'a \<Rightarrow> 'a \<Rightarrow> nat" where
  "hops E s v = (LEAST n. (s, v) \<in> E ^^ n)"

lemma hops_rel: "(s, v) \<in> E\<^sup>* \<Longrightarrow> (s, v) \<in> E ^^ hops E s v"
  unfolding hops_def by (rule LeastI_ex) (rule rtrancl_imp_relpow, assumption)

lemma hops_le: "(s, v) \<in> E ^^ n \<Longrightarrow> hops E s v \<le> n"
  unfolding hops_def by (rule Least_le)

lemma hops_source [simp]: "hops E s s = 0"
  using hops_le [of s s 0 E] by simp

lemma hops_step: "(s, u) \<in> E\<^sup>* \<Longrightarrow> (u, v) \<in> E \<Longrightarrow> hops E s v \<le> Suc (hops E s u)"
  by (rule hops_le) (auto intro: hops_rel)

lemma hops_pred:
  assumes "(s, v) \<in> E\<^sup>*" "v \<noteq> s"
  shows "\<exists>u. (s, u) \<in> E\<^sup>* \<and> (u, v) \<in> E \<and> hops E s v = Suc (hops E s u)"
proof -
  have rel: "(s, v) \<in> E ^^ hops E s v" using assms(1) by (rule hops_rel)
  with assms(2) obtain m where m: "hops E s v = Suc m" by (cases "hops E s v") auto
  with rel obtain u where u: "(s, u) \<in> E ^^ m" "(u, v) \<in> E" by auto
  then have r: "(s, u) \<in> E\<^sup>*" by (auto dest: relpow_imp_rtrancl)
  have "hops E s u \<le> m" using u(1) by (rule hops_le)
  moreover have "Suc m \<le> Suc (hops E s u)" using hops_step [OF r u(2)] m by simp
  ultimately show ?thesis using m r u(2) by auto
qed

section \<open>Breadth-first search\<close>

definition bfs_inv :: "('a \<times> 'a) set \<Rightarrow> 'a \<Rightarrow> 'a list \<Rightarrow> 'a list \<Rightarrow> bool" where
  "bfs_inv E s finished queue \<longleftrightarrow>
     distinct (finished @ queue) \<and> s \<in> set (finished @ queue) \<and>
     (\<forall>v \<in> set (finished @ queue). (s, v) \<in> E\<^sup>*) \<and>
     sorted (map (hops E s) (finished @ queue)) \<and>
     (\<forall>v \<in> set queue. \<forall>w \<in> set queue. hops E s w \<le> Suc (hops E s v)) \<and>
     (\<forall>u \<in> set finished. \<forall>v. (u, v) \<in> E \<longrightarrow> v \<in> set (finished @ queue))"

lemma bfs_inv_start: "bfs_inv E s [] [s]"
  by (simp add: bfs_inv_def)

lemma bfs_inv_nearer:
  assumes inv: "bfs_inv E s finished (n # queue)" and x: "(s, x) \<in> E\<^sup>*" "hops E s x < hops E s n"
  shows "x \<in> set finished"
  using x
proof (induction "hops E s x" arbitrary: x rule: less_induct)
  case less
  have le: "\<forall>w \<in> set (n # queue). hops E s n \<le> hops E s w"
    using inv by (auto simp: bfs_inv_def sorted_append)
  have "x \<in> set (finished @ n # queue)"
  proof (cases "x = s")
    case True
    then show ?thesis using inv by (simp add: bfs_inv_def)
  next
    case False
    from hops_pred [OF less.prems(1) this] obtain u where
      u: "(s, u) \<in> E\<^sup>*" "(u, x) \<in> E" "hops E s x = Suc (hops E s u)" by blast
    with less.hyps [of u] less.prems have "u \<in> set finished" by simp
    with u(2) inv show ?thesis unfolding bfs_inv_def by blast
  qed
  with le less.prems(2) show ?case by force
qed

lemma bfs_inv_step:
  assumes inv: "bfs_inv E s finished (n # queue)" and ts: "distinct ts" "\<And>v. (n, v) \<in> E \<longleftrightarrow> v \<in> set ts"
  defines "new \<equiv> filter (\<lambda>t. t \<notin> set (finished @ n # queue)) ts"
  shows "bfs_inv E s (finished @ [n]) (queue @ new)"
    and "w \<in> set new \<Longrightarrow> hops E s w = Suc (hops E s n)"
proof -
  have n: "(s, n) \<in> E\<^sup>*" using inv by (simp add: bfs_inv_def)
  have reach: "(s, w) \<in> E\<^sup>*" if "w \<in> set new" for w
    using that n ts(2) by (auto simp: new_def intro: rtrancl_into_rtrancl)
  show far: "hops E s w = Suc (hops E s n)" if w: "w \<in> set new" for w
  proof -
    have E: "(n, w) \<in> E" and w_new: "w \<notin> set (finished @ n # queue)" using w ts(2) by (auto simp: new_def)
    have "\<not> hops E s w \<le> hops E s n"
    proof
      assume le: "hops E s w \<le> hops E s n"
      have "w \<noteq> s" using w_new inv by (auto simp: bfs_inv_def)
      from hops_pred [OF reach [OF w] this] obtain u where
        u: "(s, u) \<in> E\<^sup>*" "(u, w) \<in> E" "hops E s w = Suc (hops E s u)" by blast
      with le have "u \<in> set finished" by (intro bfs_inv_nearer [OF inv]) auto
      with u(2) inv w_new show False unfolding bfs_inv_def by blast
    qed
    with hops_step [OF n E] show ?thesis by simp
  qed
  have "distinct ((finished @ [n]) @ queue @ new)"
    using inv ts(1) by (auto simp: bfs_inv_def new_def)
  moreover have "s \<in> set ((finished @ [n]) @ queue @ new)" using inv by (auto simp: bfs_inv_def)
  moreover have "\<forall>v \<in> set ((finished @ [n]) @ queue @ new). (s, v) \<in> E\<^sup>*"
    using inv reach by (auto simp: bfs_inv_def)
  moreover have "sorted (map (hops E s) ((finished @ [n]) @ queue @ new))"
  proof -
    have "map (hops E s) new = replicate (length new) (Suc (hops E s n))"
      using far by (simp add: map_replicate_const [symmetric])
    then have "sorted (map (hops E s) new)" by simp
    moreover have "hops E s v \<le> Suc (hops E s n)" if "v \<in> set (finished @ n # queue)" for v
      using that inv by (auto simp: bfs_inv_def sorted_append)
    moreover have "sorted (map (hops E s) (finished @ n # queue))" using inv by (simp add: bfs_inv_def)
    ultimately show ?thesis using far by (auto simp: sorted_append le_SucI)
  qed
  moreover have "\<forall>v \<in> set (queue @ new). \<forall>w \<in> set (queue @ new). hops E s w \<le> Suc (hops E s v)"
    using inv far by (auto simp: bfs_inv_def sorted_append intro: le_SucI)
  moreover have "\<forall>u \<in> set (finished @ [n]). \<forall>v. (u, v) \<in> E \<longrightarrow> v \<in> set ((finished @ [n]) @ queue @ new)"
    using inv ts(2) unfolding bfs_inv_def new_def by auto
  ultimately show "bfs_inv E s (finished @ [n]) (queue @ new)" unfolding bfs_inv_def by blast
qed

lemma bfs_inv_end: "bfs_inv E s finished [] \<Longrightarrow> set finished = E\<^sup>* `` {s}"
proof
  assume inv: "bfs_inv E s finished []"
  then show "set finished \<subseteq> E\<^sup>* `` {s}" by (auto simp: bfs_inv_def)
  have "v \<in> set finished" if "(s, v) \<in> E\<^sup>*" for v
    using that by (induction rule: rtrancl_induct) (use inv in \<open>auto simp: bfs_inv_def\<close>)
  then show "E\<^sup>* `` {s} \<subseteq> set finished" by auto
qed

lemma discover_result:
  "distinct ts \<Longrightarrow>
   discover ts visited queue = (visited \<union> set ts, queue @ filter (\<lambda>t. t \<notin> visited) ts)"
proof (induction ts visited queue rule: discover.induct)
  case (2 t ts visited queue)
  have "filter (\<lambda>u. u \<notin> insert t visited) ts = filter (\<lambda>u. u \<notin> visited) ts"
    using 2(3) by (intro filter_cong) auto
  with 2 show ?case by (auto simp: insert_absorb)
qed simp

lemma discover_from_result:
  assumes "distinct ts" "discover_from n ts previous queue = (previous', queue')"
  shows "queue' = queue @ filter (\<lambda>t. t \<notin> set (dict_keys previous)) ts"
    and "previous' = previous @ map (\<lambda>t. (t, Some n)) (filter (\<lambda>t. t \<notin> set (dict_keys previous)) ts)"
proof -
  from assms have "queue' = queue @ filter (\<lambda>t. t \<notin> set (dict_keys previous)) ts \<and>
    previous' = previous @ map (\<lambda>t. (t, Some n)) (filter (\<lambda>t. t \<notin> set (dict_keys previous)) ts)"
  proof (induction n ts previous queue rule: discover_from.induct)
    case (2 n t ts previous queue)
    have "filter (\<lambda>u. u \<notin> insert t (set (dict_keys previous))) ts = filter (\<lambda>u. u \<notin> set (dict_keys previous)) ts"
      using 2(3) by (intro filter_cong) auto
    with 2 show ?case by (auto split: if_splits)
  qed simp
  then show "queue' = queue @ filter (\<lambda>t. t \<notin> set (dict_keys previous)) ts"
    and "previous' = previous @ map (\<lambda>t. (t, Some n)) (filter (\<lambda>t. t \<notin> set (dict_keys previous)) ts)" by blast+
qed

lemma reachable_nodes:
  "graph_ok g \<Longrightarrow> s \<in> set (nodes g) \<Longrightarrow> (s, v) \<in> (edges g)\<^sup>* \<Longrightarrow> v \<in> set (nodes g)"
  by (metis edges_nodes rtranclE)

lemma reachable_entry:
  assumes "graph_ok g" "s \<in> set (nodes g)" "(s, v) \<in> (edges g)\<^sup>*"
  obtains ts where "map_of g v = Some ts" "distinct ts" "\<And>w. (v, w) \<in> edges g \<longleftrightarrow> w \<in> set ts"
proof -
  from reachable_nodes [OF assms] obtain ts where ts: "map_of g v = Some ts" using nodes_map_of [of v g] by blast
  moreover from graph_ok_targets [OF assms(1) ts] have "distinct ts" by blast
  moreover from ts have "(v, w) \<in> edges g \<longleftrightarrow> w \<in> set ts" for w by (simp add: edges_def)
  ultimately show ?thesis using that by blast
qed

lemma bfs_loop_result:
  "graph_ok g \<Longrightarrow> s \<in> set (nodes g) \<Longrightarrow> bfs_inv (edges g) s finished queue \<Longrightarrow>
   \<exists>order. bfs_loop g (set (finished @ queue)) queue finished = Inr order \<and> bfs_inv (edges g) s order []"
proof (induction g "set (finished @ queue)" queue finished rule: bfs_loop.induct)
  case (2 g n queue finished)
  from "2.prems"(3) have "(s, n) \<in> (edges g)\<^sup>*" by (simp add: bfs_inv_def)
  from reachable_entry [OF "2.prems"(1,2) this] obtain ts where
    ts: "map_of g n = Some ts" "distinct ts" "\<And>w. (n, w) \<in> edges g \<longleftrightarrow> w \<in> set ts" by blast
  let ?new = "filter (\<lambda>t. t \<notin> set (finished @ n # queue)) ts"
  have v: "set (finished @ n # queue) \<union> set ts = set ((finished @ [n]) @ queue @ ?new)" by auto
  note d = discover_result [OF ts(2), of "set (finished @ n # queue)" queue, unfolded v]
  note inv = bfs_inv_step(1) [OF "2.prems"(3) ts(2,3)]
  have "bfs_loop g (set (finished @ n # queue)) (n # queue) finished =
      bfs_loop g (set ((finished @ [n]) @ queue @ ?new)) (queue @ ?new) (finished @ [n])"
    by (simp only: bfs_loop.simps ts(1) d option.case prod.case)
  with "2.hyps" [OF ts(1) d [symmetric] "2.prems"(1,2) inv] show ?case by simp
qed auto

section \<open>Shortest paths\<close>

text \<open>A non-empty sequence of nodes each of which has an edge to the next.\<close>

fun walk :: "('a \<times> 'a) set \<Rightarrow> 'a list \<Rightarrow> bool" where
  "walk E [] = False"
| "walk E [x] = True"
| "walk E (x # y # xs) = ((x, y) \<in> E \<and> walk E (y # xs))"

lemma walk_relpow: "walk E p \<Longrightarrow> (hd p, last p) \<in> E ^^ (length p - 1)"
proof (induction E p rule: walk.induct)
  case (3 E x y xs)
  then have "(x, y) \<in> E" "(y, last (y # xs)) \<in> E ^^ length xs" by simp_all
  from relpow_Suc_I2 [OF this] show ?case by (simp del: relpow.simps)
qed auto

lemma walk_snoc: "p \<noteq> [] \<Longrightarrow> walk E (p @ [v]) \<longleftrightarrow> walk E p \<and> (last p, v) \<in> E"
  by (induction E p rule: walk.induct) auto

definition previous_inv :: "('a \<times> 'a) set \<Rightarrow> 'a \<Rightarrow> ('a \<times> 'a option) list \<Rightarrow> bool" where
  "previous_inv E s previous \<longleftrightarrow>
     (\<forall>v \<in> set (dict_keys previous). (s, v) \<in> E\<^sup>* \<and>
        (if v = s then map_of previous v = Some None
         else \<exists>u \<in> set (dict_keys previous). map_of previous v = Some (Some u) \<and> (u, v) \<in> E \<and> hops E s v = Suc (hops E s u)))"

lemma path_back_result:
  assumes inv: "previous_inv E s previous"
  shows "v \<in> set (dict_keys previous) \<Longrightarrow>
    \<exists>p. path_back previous (Some v) path = Some (Inr (p @ rev path)) \<and>
      walk E p \<and> hd p = s \<and> last p = v \<and> length p = Suc (hops E s v)"
proof (induction "hops E s v" arbitrary: v path rule: less_induct)
  case less
  show ?case
  proof (cases "v = s")
    case True
    with inv less.prems have "map_of previous s = Some None" by (auto simp: previous_inv_def simp del: set_map)
    then have "path_back previous (Some v) path = Some (Inr ([s] @ rev path))"
      by (simp add: True path_back.simps [of previous "Some s"] path_back.simps [of previous None])
    with True show ?thesis by (intro exI [of _ "[s]"]) simp
  next
    case False
    with inv less.prems obtain u where u: "u \<in> set (dict_keys previous)" "map_of previous v = Some (Some u)"
        "(u, v) \<in> E" "hops E s v = Suc (hops E s u)"
      unfolding previous_inv_def by meson
    with less.hyps [of u "path @ [v]"] obtain p where
      p: "path_back previous (Some u) (path @ [v]) = Some (Inr (p @ rev (path @ [v])))"
        "walk E p" "hd p = s" "last p = u" "length p = Suc (hops E s u)" by auto
    from p(5) have "p \<noteq> []" by auto
    with p u show ?thesis
      by (intro exI [of _ "p @ [v]"]) (simp add: path_back.simps [of previous "Some v"] walk_snoc)
  qed
qed

lemma previous_inv_step:
  assumes "previous_inv E s previous" "n \<in> set (dict_keys previous)"
    and new: "\<And>t. t \<in> set new \<Longrightarrow> t \<notin> set (dict_keys previous) \<and> (s, t) \<in> E\<^sup>* \<and> t \<noteq> s \<and> (n, t) \<in> E \<and> hops E s t = Suc (hops E s n)"
  shows "previous_inv E s (previous @ map (\<lambda>t. (t, Some n)) new)"
proof -
  let ?p = "previous @ map (\<lambda>t. (t, Some n)) new"
  have keys: "set (dict_keys ?p) = set (dict_keys previous) \<union> set new" by (force simp: comp_def)
  have old: "map_of ?p v = map_of previous v" if "v \<in> set (dict_keys previous)" for v
  proof -
    from that have "map_of previous v \<noteq> None" by (simp add: map_of_eq_None_iff)
    then show ?thesis by (auto simp: map_add_def split: option.split)
  qed
  have fresh: "map_of ?p v = Some (Some n)" if "v \<in> set new" for v
  proof -
    from new [OF that] have "map_of previous v = None" by (simp add: map_of_eq_None_iff)
    then show ?thesis using that by (simp add: map_add_def map_of_map_keys)
  qed
  show ?thesis
    unfolding previous_inv_def keys
  proof
    fix v assume "v \<in> set (dict_keys previous) \<union> set new"
    then consider "v \<in> set (dict_keys previous)" | "v \<in> set new" by blast
    then show "(s, v) \<in> E\<^sup>* \<and> (if v = s then map_of ?p v = Some None
      else \<exists>u \<in> set (dict_keys previous) \<union> set new. map_of ?p v = Some (Some u) \<and> (u, v) \<in> E \<and> hops E s v = Suc (hops E s u))"
    proof cases
      case 1
      with assms(1) old [OF 1] show ?thesis unfolding previous_inv_def by (metis UnI1)
    next
      case 2
      with new [OF 2] fresh [OF 2] assms(2) show ?thesis by (metis UnI1)
    qed
  qed
qed

lemma path_loop_result:
  "graph_ok g \<Longrightarrow> s \<in> set (nodes g) \<Longrightarrow> bfs_inv (edges g) s finished queue \<Longrightarrow>
   dict_keys previous = finished @ queue \<Longrightarrow> previous_inv (edges g) s previous \<Longrightarrow> target \<notin> set finished \<Longrightarrow>
   (\<exists>p. path_loop g s target previous queue = Some (Inr p) \<and> walk (edges g) p \<and> hd p = s \<and> last p = target \<and>
      length p = Suc (hops (edges g) s target)) \<or>
   path_loop g s target previous queue = Some (Inl (NoRoute s target)) \<and> (s, target) \<notin> (edges g)\<^sup>*"
proof (induction g s target previous queue arbitrary: finished rule: path_loop.induct)
  case (1 g s target previous)
  then show ?case using bfs_inv_end [OF "1.prems"(3)] by auto
next
  case (2 g s target previous n queue)
  show ?case
  proof (cases "n = target")
    case True
    with "2.prems"(4) have "target \<in> set (dict_keys previous)" by simp
    from path_back_result [OF "2.prems"(5) this, of "[]"] True show ?thesis by simp
  next
    case False
    from "2.prems"(3) have n: "(s, n) \<in> (edges g)\<^sup>*" by (simp add: bfs_inv_def)
    from reachable_entry [OF "2.prems"(1,2) n] obtain ts where
      ts: "map_of g n = Some ts" "distinct ts" "\<And>w. (n, w) \<in> edges g \<longleftrightarrow> w \<in> set ts" by blast
    let ?new = "filter (\<lambda>t. t \<notin> set (finished @ n # queue)) ts"
    obtain previous' queue' where d: "discover_from n ts previous queue = (previous', queue')" by fastforce
    from discover_from_result [OF ts(2) d] have d':
      "queue' = queue @ ?new" "previous' = previous @ map (\<lambda>t. (t, Some n)) ?new"
      by (simp_all only: "2.prems"(4))
    note inv = bfs_inv_step [OF "2.prems"(3) ts(2,3)]
    have inv': "bfs_inv (edges g) s (finished @ [n]) queue'" using inv(1) d'(1) by simp
    have keys: "dict_keys previous' = (finished @ [n]) @ queue'"
      using "2.prems"(4) by (simp add: d' comp_def)
    have src: "s \<in> set (finished @ n # queue)" using "2.prems"(3) unfolding bfs_inv_def by blast
    have "previous_inv (edges g) s previous'"
      unfolding d'(2)
    proof (rule previous_inv_step [OF "2.prems"(5)])
      show "n \<in> set (dict_keys previous)" by (simp only: "2.prems"(4)) simp
      fix t assume t: "t \<in> set ?new"
      then have E: "(n, t) \<in> edges g" by (simp add: ts(3))
      from n E have "(s, t) \<in> (edges g)\<^sup>*" by (rule rtrancl_into_rtrancl)
      moreover from t src have "t \<notin> set (dict_keys previous)" "t \<noteq> s"
        by (simp only: "2.prems"(4), simp, auto)
      ultimately show "t \<notin> set (dict_keys previous) \<and> (s, t) \<in> (edges g)\<^sup>* \<and> t \<noteq> s \<and> (n, t) \<in> edges g \<and>
          hops (edges g) s t = Suc (hops (edges g) s n)"
        using E inv(2) [OF t] by blast
    qed
    moreover have "target \<notin> set (finished @ [n])" using "2.prems"(6) False by simp
    ultimately show ?thesis
      using "2.IH" [OF False ts(1) d [symmetric] "2.prems"(1,2) inv' keys] False ts(1) d by simp
  qed
qed

section \<open>Depth-first search\<close>

definition dfs_inv :: "('a \<times> 'a) set \<Rightarrow> 'a \<Rightarrow> 'a list \<Rightarrow> 'a list \<Rightarrow> bool" where
  "dfs_inv E s order stack \<longleftrightarrow>
     distinct order \<and> s \<in> set order \<union> set stack \<and> (\<forall>v \<in> set order \<union> set stack. (s, v) \<in> E\<^sup>*) \<and>
     (\<forall>u \<in> set order. \<forall>v. (u, v) \<in> E \<longrightarrow> v \<in> set order \<union> set stack)"

lemma dfs_loop_result:
  "graph_ok g \<Longrightarrow> s \<in> set (nodes g) \<Longrightarrow> dfs_inv (edges g) s order stack \<Longrightarrow>
   \<exists>order'. dfs_loop g (set order) stack order = Inr order' \<and> dfs_inv (edges g) s order' [] \<and> prefix order order'"
proof (induction g "set order" stack order rule: dfs_loop.induct)
  case (2 g n stack order)
  have n: "(s, n) \<in> (edges g)\<^sup>*" using "2.prems"(3) by (simp add: dfs_inv_def)
  from reachable_entry [OF "2.prems"(1,2) n] obtain ts where
    ts: "map_of g n = Some ts" "\<And>w. (n, w) \<in> edges g \<longleftrightarrow> w \<in> set ts" by metis
  show ?case
  proof (cases "n \<in> set order")
    case True
    then have eq: "set order \<union> set (n # stack) = set order \<union> set stack" by auto
    from "2.prems"(3) have "dfs_inv (edges g) s order stack" unfolding dfs_inv_def eq .
    from "2.hyps"(1) [OF True "2.prems"(1,2) this] True show ?thesis by simp
  next
    case False
    with "2.prems"(3) n ts(2) have "dfs_inv (edges g) s (order @ [n]) (ts @ stack)"
      by (auto simp: dfs_inv_def intro: rtrancl_into_rtrancl)
    with "2.hyps"(2) [OF False ts(1) _ "2.prems"(1,2)] False ts(1) show ?thesis
      by (auto intro: append_prefixD)
  qed
qed auto

lemma dfs_inv_end: "dfs_inv E s order [] \<Longrightarrow> set order = E\<^sup>* `` {s}"
proof
  assume inv: "dfs_inv E s order []"
  then show "set order \<subseteq> E\<^sup>* `` {s}" by (auto simp: dfs_inv_def)
  have "v \<in> set order" if "(s, v) \<in> E\<^sup>*" for v
    using that by (induction rule: rtrancl_induct) (use inv in \<open>auto simp: dfs_inv_def\<close>)
  then show "E\<^sup>* `` {s} \<subseteq> set order" by auto
qed

section \<open>Removal\<close>

lemma remove_edge_ok:
  assumes ok: "graph_ok g" and r: "remove_edge s t g = Inr g'"
  shows "graph_ok g' \<and> nodes g' = nodes g \<and> edges g' = edges g - {(s, t)} \<and> (s, t) \<in> edges g"
proof -
  from r obtain ts where ts: "map_of g s = Some ts" "t \<in> set ts" "g' = AList.map_entry s (remove1 t) g"
    by (auto simp: remove_edge_def split: option.splits if_splits)
  have entry: "map_of g' = (map_of g)(s \<mapsto> remove1 t ts)"
    by (simp add: ts map_of_map_entry)
  have nodes: "nodes g' = nodes g" by (simp add: ts(3) nodes_def)
  note d = graph_ok_targets [OF ok]
  have "distinct us \<and> set us \<subseteq> set (nodes g')" if "map_of g' n = Some us" for n us
  proof (cases "n = s")
    case True
    with that have "us = remove1 t ts" by (simp add: entry)
    with d [OF ts(1)] nodes show ?thesis using set_remove1_subset [of t ts] by auto
  next
    case False
    with that d [of n us] nodes show ?thesis by (simp add: entry)
  qed
  moreover have "distinct (nodes g')" using graph_ok_distinct [OF ok] nodes by simp
  ultimately have "graph_ok g'" unfolding graph_ok_def by blast
  moreover have "edges g' = edges g - {(s, t)}"
    using d [OF ts(1)] ts(1) by (auto simp: edges_def entry split: if_splits)
  ultimately show ?thesis using nodes ts by (simp add: edges_def)
qed

lemma remove_node_ok:
  assumes ok: "graph_ok g" and r: "remove_node n g = Inr g'"
  shows "graph_ok g' \<and> nodes g' = filter (\<lambda>x. x \<noteq> n) (nodes g) \<and>
    edges g' = {(u, v) \<in> edges g. u \<noteq> n \<and> v \<noteq> n} \<and> n \<in> set (nodes g)"
proof -
  from r have n: "n \<in> set (nodes g)" and g': "g' = map (\<lambda>(k, ts). (k, remove1 n ts)) (AList.delete n g)"
    by (auto simp: remove_node_def split: if_splits)
  have "map_of (map (\<lambda>(k, ts). (k, remove1 n ts)) h) x = map_option (remove1 n) (map_of h x)" for h :: "'a digraph" and x
    by (induction h) auto
  then have entry: "map_of g' x = (if x = n then None else map_option (remove1 n) (map_of g x))" for x
    by (simp add: g' delete_conv)
  have "map fst (map (\<lambda>(k, ts). (k, remove1 n ts)) h) = map fst h" for h :: "'a digraph"
    by (induction h) auto
  moreover have "map fst (AList.delete n h) = filter (\<lambda>x. x \<noteq> n) (map fst h)" for h :: "'a digraph"
    by (induction h) auto
  ultimately have nodes: "nodes g' = filter (\<lambda>x. x \<noteq> n) (nodes g)"
    by (simp only: g' nodes_def)
  note d = graph_ok_targets [OF ok]
  have "distinct us \<and> set us \<subseteq> set (nodes g')" if us: "map_of g' m = Some us" for m us
  proof -
    from us entry [of m] obtain ts where ts: "map_of g m = Some ts" "us = remove1 n ts" by (auto split: if_splits)
    from d [OF ts(1)] show ?thesis by (auto simp: ts(2) nodes)
  qed
  moreover have "distinct (nodes g')" using graph_ok_distinct [OF ok] nodes by simp
  ultimately have "graph_ok g'" unfolding graph_ok_def by blast
  moreover have "edges g' = {(u, v) \<in> edges g. u \<noteq> n \<and> v \<noteq> n}"
  proof -
    have "(u, v) \<in> edges g' \<longleftrightarrow> (u, v) \<in> edges g \<and> u \<noteq> n \<and> v \<noteq> n" for u v
    proof (cases "map_of g u")
      case None
      then show ?thesis by (simp add: edges_def entry)
    next
      case (Some ts)
      with d [OF Some] show ?thesis by (auto simp: edges_def entry)
    qed
    then show ?thesis by auto
  qed
  ultimately show ?thesis using nodes n by blast
qed

section \<open>Properties\<close>

text \<open>
  Every operation keeps a graph well formed (one adjacency entry per node, no repeated
  target, every target a node) and changes exactly the nodes and edges it names; a removal that
  succeeds removed something that was there.
\<close>
theorem graph_operations_well_formed:
  assumes "graph_ok g"
  shows "graph_ok (add_node n g) \<and> set (nodes (add_node n g)) = insert n (set (nodes g)) \<and> edges (add_node n g) = edges g \<and>
    graph_ok (add_edge s t g) \<and> set (nodes (add_edge s t g)) = {s, t} \<union> set (nodes g) \<and>
    edges (add_edge s t g) = insert (s, t) (edges g) \<and>
    (case remove_edge s t g of
       Inl e \<Rightarrow> e = EdgeNotFound s t \<and> (s, t) \<notin> edges g
     | Inr g' \<Rightarrow> graph_ok g' \<and> nodes g' = nodes g \<and> edges g' = edges g - {(s, t)} \<and> (s, t) \<in> edges g) \<and>
    (case remove_node n g of
       Inl e \<Rightarrow> e = NodeNotFound n \<and> n \<notin> set (nodes g)
     | Inr g' \<Rightarrow> graph_ok g' \<and> nodes g' = filter (\<lambda>x. x \<noteq> n) (nodes g) \<and>
         edges g' = {(u, v) \<in> edges g. u \<noteq> n \<and> v \<noteq> n} \<and> n \<in> set (nodes g))"
proof -
  have "case remove_edge s t g of
       Inl e \<Rightarrow> e = EdgeNotFound s t \<and> (s, t) \<notin> edges g
     | Inr g' \<Rightarrow> graph_ok g' \<and> nodes g' = nodes g \<and> edges g' = edges g - {(s, t)} \<and> (s, t) \<in> edges g"
  proof (cases "remove_edge s t g")
    case (Inl e)
    then show ?thesis by (auto simp: remove_edge_def edges_def split: option.splits if_splits)
  next
    case (Inr g')
    from remove_edge_ok [OF assms this] Inr show ?thesis by simp
  qed
  moreover have "case remove_node n g of
       Inl e \<Rightarrow> e = NodeNotFound n \<and> n \<notin> set (nodes g)
     | Inr g' \<Rightarrow> graph_ok g' \<and> nodes g' = filter (\<lambda>x. x \<noteq> n) (nodes g) \<and>
         edges g' = {(u, v) \<in> edges g. u \<noteq> n \<and> v \<noteq> n} \<and> n \<in> set (nodes g)"
  proof (cases "remove_node n g")
    case (Inl e)
    then show ?thesis by (auto simp: remove_node_def split: if_splits)
  next
    case (Inr g')
    from remove_node_ok [OF assms this] Inr show ?thesis by simp
  qed
  ultimately show ?thesis
    using add_node_ok [OF assms] add_edge_ok [OF assms]
    by (auto simp: nodes_add_edge edges_add_node edges_add_edge)
qed

definition example_graph :: "int digraph" where
  "example_graph = from_edges [(1, 2), (1, 3), (2, 4), (3, 5), (5, 4), (4, 6)]"

theorem graph_operations_well_formed_witness:
  "graph_ok (add_edge 6 1 example_graph) \<and> edges (add_edge 6 1 example_graph) = insert (6, 1) (edges example_graph) \<and>
   \<not> isl (remove_node 4 example_graph)"
proof -
  have ok: "graph_ok example_graph" by (simp add: example_graph_def from_edges_ok)
  have "\<not> isl (remove_node 4 example_graph)" by code_simp
  with graph_operations_well_formed [OF ok, of 4 6 1] show ?thesis by simp
qed

text \<open>
  Property C14.  topological_order always returns or raises CycleError: on an acyclic graph it lists
  every node once and after all its predecessors; on a cyclic one it raises CycleError naming blocked
  nodes, each of which has a blocked predecessor.
\<close>
theorem topological_order_correct:
  assumes "graph_ok g"
  shows "(if acyclic (edges g)
     then \<exists>ordered. topological_order g = Inr ordered \<and> distinct ordered \<and> set ordered = set (nodes g) \<and>
       (\<forall>i < length ordered. {u. (u, ordered ! i) \<in> edges g} \<subseteq> set (take i ordered))
     else \<exists>blocked. topological_order g = Inl (Cycle blocked) \<and> blocked \<noteq> [] \<and>
       (\<forall>v \<in> set blocked. \<exists>u \<in> set blocked. (u, v) \<in> edges g))"
  using topological_order_cases [OF assms] by auto

theorem topological_order_correct_witness:
  "topological_order example_graph = Inr [1, 2, 3, 5, 4, 6] \<and> acyclic (edges example_graph) \<and>
   topological_order (add_edge 6 3 example_graph) = Inl (Cycle [3, 4, 5, 6]) \<and>
   \<not> acyclic (edges (add_edge 6 3 example_graph))"
proof -
  have ok: "graph_ok example_graph" by (simp add: example_graph_def from_edges_ok)
  have t: "topological_order example_graph = Inr [1, 2, 3, 5, 4, 6]"
      "topological_order (add_edge 6 3 example_graph) = Inl (Cycle [3, 4, 5, 6])" by code_simp+
  with topological_order_correct [OF ok] topological_order_correct [OF add_edge_ok [OF ok, of 6 3]]
  show ?thesis by (auto split: if_splits)
qed

text \<open>
  Property C27.  shortest_path always ends, and from a node of the graph to another it returns a path
  along edges than which no path between them is shorter, or raises LookupError when there is none.
\<close>
theorem shortest_path_correct:
  assumes "graph_ok g" "s \<in> set (nodes g)" "t \<in> set (nodes g)"
  shows "(if (s, t) \<in> (edges g)\<^sup>*
     then \<exists>p. shortest_path g s t = Some (Inr p) \<and> walk (edges g) p \<and> hd p = s \<and> last p = t \<and>
       (\<forall>q. walk (edges g) q \<and> hd q = s \<and> last q = t \<longrightarrow> length p \<le> length q)
     else shortest_path g s t = Some (Inl (NoRoute s t)))"
proof -
  have "previous_inv (edges g) s [(s, None)]" by (simp add: previous_inv_def)
  from path_loop_result [OF assms(1,2) bfs_inv_start _ this, of t]
  consider p where "shortest_path g s t = Some (Inr p)" "walk (edges g) p" "hd p = s" "last p = t"
      "length p = Suc (hops (edges g) s t)"
    | "shortest_path g s t = Some (Inl (NoRoute s t))" "(s, t) \<notin> (edges g)\<^sup>*"
    using assms(2,3) by (auto simp: shortest_path_def)
  then show ?thesis
  proof cases
    case (1 p)
    have "length p \<le> length q" if "walk (edges g) q" "hd q = s" "last q = t" for q
    proof -
      have "hops (edges g) s t \<le> length q - 1" using walk_relpow [OF that(1)] that(2,3) by (auto intro: hops_le)
      moreover have "q \<noteq> []" using that(1) by auto
      ultimately show ?thesis using 1(5) by (cases q) auto
    qed
    moreover have "(s, t) \<in> (edges g)\<^sup>*"
      using walk_relpow [OF 1(2)] 1(3,4) by (auto dest: relpow_imp_rtrancl)
    ultimately show ?thesis using 1 by auto
  qed simp
qed

theorem shortest_path_correct_witness:
  "(1, 6) \<in> (edges example_graph)\<^sup>* \<and>
   (\<exists>p. shortest_path example_graph 1 6 = Some (Inr p) \<and> walk (edges example_graph) p \<and>
     (\<forall>q. walk (edges example_graph) q \<and> hd q = 1 \<and> last q = 6 \<longrightarrow> length p \<le> length q))"
proof -
  have ok: "graph_ok example_graph" by (simp add: example_graph_def from_edges_ok)
  have n: "1 \<in> set (nodes example_graph) \<and> 6 \<in> set (nodes example_graph)" by code_simp
  have "edges example_graph = {(1, 2), (1, 3), (2, 4), (3, 5), (5, 4), (4, 6)}"
    by (auto simp: example_graph_def edges_from_edges)
  then have "(1, 2) \<in> edges example_graph" "(2, 4) \<in> edges example_graph" "(4, 6) \<in> edges example_graph" by auto
  then have r: "(1, 6) \<in> (edges example_graph)\<^sup>*" by (meson r_into_rtrancl rtrancl_trans)
  with shortest_path_correct [OF ok, of 1 6] n show ?thesis by auto
qed

text \<open>
  Breadth-first and depth-first search never raise from a node of the graph, start
  with it and visit exactly the same nodes, those reachable from it, each once; breadth-first search
  visits them in order of their distance in hops.
\<close>
theorem searches_visit_reachable:
  assumes "graph_ok g" "s \<in> set (nodes g)"
  shows "\<exists>bfs dfs. breadth_first g s = Inr bfs \<and> depth_first g s = Inr dfs \<and>
    distinct bfs \<and> distinct dfs \<and> set bfs = (edges g)\<^sup>* `` {s} \<and> set dfs = set bfs \<and> hd dfs = s \<and>
    sorted (map (hops (edges g) s) bfs)"
proof -
  from bfs_loop_result [OF assms bfs_inv_start] assms(2) obtain bfs where
    b: "breadth_first g s = Inr bfs" "bfs_inv (edges g) s bfs []" by (auto simp: breadth_first_def)
  from assms obtain ts where ts: "map_of g s = Some ts" using nodes_map_of [of s g] by auto
  have inE: "(s, w) \<in> edges g \<longleftrightarrow> w \<in> set ts" for w using ts by (simp add: edges_def)
  have "dfs_inv (edges g) s [s] ts" by (auto simp: dfs_inv_def inE)
  from dfs_loop_result [OF assms this] obtain dfs where
    d: "dfs_loop g {s} ts [s] = Inr dfs" "dfs_inv (edges g) s dfs []" "prefix [s] dfs" by auto
  then have "depth_first g s = Inr dfs" using assms(2) ts by (simp add: depth_first_def)
  moreover have "hd dfs = s" using d(3) by (auto simp: prefix_def)
  ultimately show ?thesis
    using b d(2) bfs_inv_end [OF b(2)] dfs_inv_end [OF d(2)] by (auto simp: bfs_inv_def dfs_inv_def)
qed

theorem searches_visit_reachable_witness:
  "breadth_first example_graph 1 = Inr [1, 2, 3, 4, 5, 6] \<and> depth_first example_graph 1 = Inr [1, 2, 4, 6, 3, 5] \<and>
   {1, 2, 3, 4, 5, 6} = (edges example_graph)\<^sup>* `` {1}"
proof -
  have ok: "graph_ok example_graph" by (simp add: example_graph_def from_edges_ok)
  have s: "1 \<in> set (nodes example_graph)" "breadth_first example_graph 1 = Inr [1, 2, 3, 4, 5, 6]"
      "depth_first example_graph 1 = Inr [1, 2, 4, 6, 3, 5]" by code_simp+
  with searches_visit_reachable [OF ok s(1)] show ?thesis by auto
qed

end
