(* ===== verification/RelayPlan.thy ===== *)
theory RelayPlan
  imports RedBlack DirectedGraph "HOL-Library.Product_Lexorder"
begin

text \<open>
  Lab 06, \<open>lab_06_trees_and_graphs/planner.py\<close>: \<open>RelayPlan\<close> combines the dependency graph and
  the red-black priority index, the latter used through the interface \<open>ordered_map\<close>.
\<close>

section \<open>Plans\<close>

record task_spec =
  ts_id :: string
  ts_action :: string
  ts_priority :: int

datatype plan_error =
    InvalidTask string
  | TaskExists string
  | UnknownDependencies "string list"
  | IndexFailed "(int \<times> string) map_error"
  | GraphFailed "string graph_error"

definition task_spec_checked :: "string \<Rightarrow> string \<Rightarrow> int \<Rightarrow> plan_error + task_spec" where
  "task_spec_checked tid action priority =
     (if take 5 tid \<noteq> ''task-'' \<or> drop 5 tid = [] \<or> \<not> list_all is_digit (drop 5 tid)
      then Inl (InvalidTask ''id must match task-<integer>'')
      else if strip action = [] then Inl (InvalidTask ''action must not be empty'')
      else Inr \<lparr>ts_id = tid, ts_action = action, ts_priority = priority\<rparr>)"

record relay_plan =
  plan_tasks :: "(string \<times> task_spec) list"
  plan_dependencies :: "string digraph"
  plan_priorities :: "(int \<times> string, task_spec) rb_tree"

definition new_relay_plan :: relay_plan where
  "new_relay_plan = \<lparr>plan_tasks = [], plan_dependencies = [], plan_priorities = new_rb_tree\<rparr>"

definition plan_add :: "task_spec \<Rightarrow> string list \<Rightarrow> relay_plan \<Rightarrow> (plan_error + unit) \<times> relay_plan" where
  "plan_add task after p =
     (let missing = filter (\<lambda>d. d \<notin> set (dict_keys (plan_tasks p))) after
      in if ts_id task \<in> set (dict_keys (plan_tasks p)) then (Inl (TaskExists (ts_id task)), p)
         else if missing \<noteq> [] then (Inl (UnknownDependencies missing), p)
         else
           let g = fold (\<lambda>d. add_edge d (ts_id task)) after (add_node (ts_id task) (plan_dependencies p));
               p1 = p\<lparr>plan_tasks := AList.update (ts_id task) task (plan_tasks p), plan_dependencies := g\<rparr>
           in case rb_put (- ts_priority task, ts_id task) task (plan_priorities p1) of
                Inl e \<Rightarrow> (Inl (IndexFailed e), p1)
              | Inr t \<Rightarrow>
                  (let p2 = p1\<lparr>plan_priorities := t\<rparr>
                   in case topological_order g of
                        Inl e \<Rightarrow> (Inl (GraphFailed e), p2)
                      | Inr order \<Rightarrow> (Inr (), p2)))"

definition execution_order :: "relay_plan \<Rightarrow> plan_error + string list" where
  "execution_order p =
     (case topological_order (plan_dependencies p) of Inl e \<Rightarrow> Inl (GraphFailed e) | Inr order \<Rightarrow> Inr order)"

definition priority_order :: "relay_plan \<Rightarrow> plan_error + string list" where
  "priority_order p =
     (case validate (plan_priorities p) of
        Inl e \<Rightarrow> Inl (IndexFailed e)
      | Inr h \<Rightarrow> Inr (map (\<lambda>(k, task). ts_id task) (rb_items (plan_priorities p))))"

section \<open>The invariant\<close>

definition index_key :: "task_spec \<Rightarrow> int \<times> string" where
  "index_key task = (- ts_priority task, ts_id task)"

definition plan_ok :: "relay_plan \<Rightarrow> bool" where
  "plan_ok p \<longleftrightarrow>
     distinct (dict_keys (plan_tasks p)) \<and> (\<forall>(k, task) \<in> set (plan_tasks p). k = ts_id task) \<and>
     graph_ok (plan_dependencies p) \<and> nodes (plan_dependencies p) = dict_keys (plan_tasks p) \<and>
     acyclic (edges (plan_dependencies p)) \<and> rb_ok (plan_priorities p) \<and>
     (\<forall>k task. rb_look (plan_priorities p) k = Some task \<longleftrightarrow> (ts_id task, task) \<in> set (plan_tasks p) \<and> k = index_key task)"

lemma dependencies_fold:
  assumes "graph_ok g" "acyclic (edges g)" "n \<in> set (nodes g)" "\<forall>v. (n, v) \<notin> edges g"
    "set ds \<subseteq> set (nodes g)" "n \<notin> set ds"
  shows "graph_ok (fold (\<lambda>d. add_edge d n) ds g) \<and> nodes (fold (\<lambda>d. add_edge d n) ds g) = nodes g \<and>
    edges (fold (\<lambda>d. add_edge d n) ds g) = edges g \<union> set ds \<times> {n} \<and> acyclic (edges (fold (\<lambda>d. add_edge d n) ds g))"
  using assms
proof (induction ds arbitrary: g)
  case (Cons d ds)
  let ?g = "add_edge d n g"
  have nodes: "nodes ?g = nodes g" using Cons.prems(3,5) by (simp add: nodes_add_edge)
  have "(n, d) \<notin> (edges g)\<^sup>*"
    using Cons.prems(4,6) by (metis converse_rtranclE list.set_intros(1))
  then have "acyclic (edges ?g)" using Cons.prems(2) by (simp add: edges_add_edge acyclic_insert)
  moreover have "\<forall>v. (n, v) \<notin> edges ?g" using Cons.prems(4,6) by (auto simp: edges_add_edge)
  ultimately show ?case
    using Cons.IH [of ?g] Cons.prems add_edge_ok [of g d n] nodes by (auto simp: edges_add_edge)
qed simp

lemma plan_ok_new: "plan_ok new_relay_plan"
proof -
  have "graph_ok ([] :: string digraph)" using from_edges_Nil(1) by (simp add: from_edges_def)
  moreover have "edges ([] :: string digraph) = {}" by (simp add: edges_def)
  ultimately show ?thesis
    by (simp add: plan_ok_def new_relay_plan_def nodes_def acyclic_def rbt.inv_empty rbt.look_empty)
qed

lemma plan_add_success:
  assumes ok: "plan_ok p" and new: "ts_id task \<notin> set (dict_keys (plan_tasks p))"
    and deps: "set after \<subseteq> set (dict_keys (plan_tasks p))"
  shows "\<exists>q. plan_add task after p = (Inr (), q) \<and> plan_ok q \<and> plan_tasks q = plan_tasks p @ [(ts_id task, task)] \<and>
    edges (plan_dependencies q) = edges (plan_dependencies p) \<union> set after \<times> {ts_id task}"
proof -
  let ?n = "ts_id task" and ?d = "plan_dependencies p"
  let ?g = "fold (\<lambda>d. add_edge d ?n) after (add_node ?n ?d)"
  have inv: "distinct (dict_keys (plan_tasks p))" "\<forall>(k, task) \<in> set (plan_tasks p). k = ts_id task" "graph_ok ?d"
      "nodes ?d = dict_keys (plan_tasks p)" "acyclic (edges ?d)" "rb_ok (plan_priorities p)"
      "\<And>k task. rb_look (plan_priorities p) k = Some task \<longleftrightarrow> (ts_id task, task) \<in> set (plan_tasks p) \<and> k = index_key task"
    using ok unfolding plan_ok_def by blast+
  have nodes: "nodes (add_node ?n ?d) = nodes ?d @ [?n]" using new inv(4) by simp
  have "\<forall>v. (?n, v) \<notin> edges (add_node ?n ?d)"
    using edges_nodes [OF inv(3), of ?n] new inv(4) by (auto simp: edges_add_node)
  then have g: "graph_ok ?g" "nodes ?g = nodes ?d @ [?n]" "edges ?g = edges ?d \<union> set after \<times> {?n}" "acyclic (edges ?g)"
    using dependencies_fold [OF add_node_ok [OF inv(3)], of ?n ?n after] nodes inv(4,5) new deps
    by (auto simp: edges_add_node)
  from topological_order_cases [OF g(1)] g(4) obtain order where order: "topological_order ?g = Inr order" by blast
  from rb_put_ok [OF inv(6), of "(- ts_priority task, ?n)" task] obtain t where
    t: "rb_put (- ts_priority task, ?n) task (plan_priorities p) = Inr t" "rb_ok t" by blast
  then have look: "rb_look t k = (if k = index_key task then Some task else rb_look (plan_priorities p) k)" for k
    using rbt.look_put [OF inv(6), of "index_key task" task k] by (simp add: rb_store_def index_key_def)
  define q where "q = \<lparr>plan_tasks = plan_tasks p @ [(?n, task)], plan_dependencies = ?g, plan_priorities = t\<rparr>"
  have "AList.update ?n task (plan_tasks p) = plan_tasks p @ [(?n, task)]" using new by (rule update_fresh)
  then have run: "plan_add task after p = (Inr (), q)"
    using new deps t(1) order by (auto simp: plan_add_def Let_def q_def filter_empty_conv simp del: set_map)
  have fresh: "(?n, x) \<notin> set (plan_tasks p)" for x using new by force
  have "rb_look t k = Some x \<longleftrightarrow> (ts_id x, x) \<in> set (plan_tasks p @ [(?n, task)]) \<and> k = index_key x" for k x
  proof (cases "k = index_key task")
    case True
    then show ?thesis using fresh [of x] by (auto simp: look index_key_def)
  next
    case False
    then show ?thesis using inv(7) [of k x] by (auto simp: look)
  qed
  then have "plan_ok q"
    using inv(1,2,4) new g t(2) by (auto simp: plan_ok_def q_def simp del: set_map) 
  with run g(3) show ?thesis by (simp add: q_def)
qed

lemma plan_add_ok [keep]: "plan_ok p \<Longrightarrow> plan_ok (snd (plan_add task after p))"
proof (cases "ts_id task \<notin> set (dict_keys (plan_tasks p)) \<and> set after \<subseteq> set (dict_keys (plan_tasks p))")
  case True
  assume "plan_ok p"
  with plan_add_success [OF this] True show ?thesis by fastforce
next
  case False
  assume "plan_ok p"
  with False show ?thesis
    by (auto simp: plan_add_def Let_def filter_empty_conv simp del: set_map)
qed

interpretation plans: machine "\<lambda>p. p = new_relay_plan" "\<lambda>(task, after) p. snd (plan_add task after p)" plan_ok
  by unfold_locales (auto intro: plan_ok_new plan_add_ok)

section \<open>Properties\<close>

text \<open>
  add either fails with no effect (a task that exists, a dependency that does not) or
  adds the task with exactly its dependencies; a well-formed plan stays so, and neither the cycle
  check nor the index ever fails.
\<close>
theorem plan_add_correct:
  assumes "plan_ok p"
  shows "(if ts_id task \<in> set (dict_keys (plan_tasks p)) then plan_add task after p = (Inl (TaskExists (ts_id task)), p)
     else if set after \<subseteq> set (dict_keys (plan_tasks p))
     then \<exists>q. plan_add task after p = (Inr (), q) \<and> plan_ok q \<and> plan_tasks q = plan_tasks p @ [(ts_id task, task)] \<and>
        edges (plan_dependencies q) = edges (plan_dependencies p) \<union> set after \<times> {ts_id task}
     else plan_add task after p =
       (Inl (UnknownDependencies (filter (\<lambda>d. d \<notin> set (dict_keys (plan_tasks p))) after)), p))"
proof -
  have "filter (\<lambda>d. d \<notin> set (dict_keys (plan_tasks p))) after \<noteq> []" if "\<not> set after \<subseteq> set (dict_keys (plan_tasks p))"
    using that by (auto simp: filter_empty_conv)
  then show ?thesis
    using plan_add_success [OF assms] by (simp add: plan_add_def Let_def)
qed

definition example_adds :: "(task_spec \<times> string list) list" where
  "example_adds =
     [(\<lparr>ts_id = ''task-1'', ts_action = ''build'', ts_priority = 1\<rparr>, []),
      (\<lparr>ts_id = ''task-2'', ts_action = ''lint'', ts_priority = 3\<rparr>, []),
      (\<lparr>ts_id = ''task-3'', ts_action = ''test'', ts_priority = 7\<rparr>, [''task-1'', ''task-2'']),
      (\<lparr>ts_id = ''task-4'', ts_action = ''ship'', ts_priority = 3\<rparr>, [''task-3''])]"

definition example_plan :: relay_plan where
  "example_plan = fold (\<lambda>(task, after) p. snd (plan_add task after p)) example_adds new_relay_plan"

lemma example_plan_ok: "plan_ok example_plan"
  unfolding example_plan_def by (rule plans.ok_run) simp

theorem plan_add_correct_witness:
  "plan_add \<lparr>ts_id = ''task-5'', ts_action = ''x'', ts_priority = 0\<rparr> [''task-9'', ''task-1''] example_plan =
   (Inl (UnknownDependencies [''task-9'']), example_plan)"
proof -
  have "''task-5'' \<notin> set (dict_keys (plan_tasks example_plan)) \<and>
    \<not> set [''task-9'', ''task-1''] \<subseteq> set (dict_keys (plan_tasks example_plan)) \<and>
    filter (\<lambda>d. d \<notin> set (dict_keys (plan_tasks example_plan))) [''task-9'', ''task-1''] = [''task-9'']"
    by code_simp
  with plan_add_correct [OF example_plan_ok, of "\<lparr>ts_id = ''task-5'', ts_action = ''x'', ts_priority = 0\<rparr>" "[''task-9'', ''task-1'']"]
  show ?thesis by simp
qed

text \<open>
  Whatever sequence of adds made a plan, both of its orders are permutations of its
  tasks: execution_order never finds a cycle and puts every task after its dependencies, and
  priority_order never finds the index invalid and ranks by descending priority, ties by id.
\<close>
theorem plan_orders_correct:
  "\<exists>p order ranking. p = fold (\<lambda>(task, after) p. snd (plan_add task after p)) adds new_relay_plan \<and>
     execution_order p = Inr order \<and> priority_order p = Inr ranking \<and>
     distinct order \<and> set order = set (dict_keys (plan_tasks p)) \<and>
     (\<forall>i < length order. {d. (d, order ! i) \<in> edges (plan_dependencies p)} \<subseteq> set (take i order)) \<and>
     distinct ranking \<and> set ranking = set (dict_keys (plan_tasks p)) \<and>
     sorted_wrt (\<lambda>a b. index_key (the (map_of (plan_tasks p) a)) < index_key (the (map_of (plan_tasks p) b))) ranking"
proof -
  define p where "p = fold (\<lambda>(task, after) p. snd (plan_add task after p)) adds new_relay_plan"
  have ok: "plan_ok p" unfolding p_def by (rule plans.ok_run) simp
  then have inv: "distinct (dict_keys (plan_tasks p))" "\<forall>(k, task) \<in> set (plan_tasks p). k = ts_id task"
      "graph_ok (plan_dependencies p)"
      "nodes (plan_dependencies p) = dict_keys (plan_tasks p)" "acyclic (edges (plan_dependencies p))" "rb_ok (plan_priorities p)"
      "\<And>k task. rb_look (plan_priorities p) k = Some task \<longleftrightarrow> (ts_id task, task) \<in> set (plan_tasks p) \<and> k = index_key task"
    unfolding plan_ok_def by blast+
  from topological_order_cases [OF inv(3)] inv(4,5) obtain order where
    order: "execution_order p = Inr order" "distinct order" "set order = set (dict_keys (plan_tasks p))"
      "\<forall>i < length order. {d. (d, order ! i) \<in> edges (plan_dependencies p)} \<subseteq> set (take i order)"
    by (auto simp: execution_order_def simp del: set_map)
  define items where "items = rb_items (plan_priorities p)"
  have "validate (plan_priorities p) = Inr (int (black_height (rb_root (plan_priorities p))) + 1)"
    using inv(6) by (auto simp: rb_ok_def validate_iff)
  then have ranking: "priority_order p = Inr (map (\<lambda>(k, task). ts_id task) items)"
    by (simp add: priority_order_def items_def)
  have s: "sorted_wrt (<) (map fst items)" using rbt.items_sorted [OF inv(6)] by (simp add: items_def)
  then have d: "distinct (map fst items)" by (simp add: strict_sorted_iff)
  have mem: "(k, task) \<in> set items \<longleftrightarrow> (ts_id task, task) \<in> set (plan_tasks p) \<and> k = index_key task" for k task
    using rbt.items_look [OF inv(6), of k] inv(7) [of k task] d map_of_eq_Some_iff [of items k task] by (simp add: items_def)
  have task_of: "the (map_of (plan_tasks p) (ts_id task)) = task" if "(k, task) \<in> set items" for k task
    using mem [of k task] that map_of_is_SomeI [OF inv(1), of "ts_id task" task] by simp
  have sorted: "sorted_wrt (\<lambda>a b. index_key (the (map_of (plan_tasks p) a)) < index_key (the (map_of (plan_tasks p) b)))
      (map (\<lambda>(k, task). ts_id task) items)"
    using s mem task_of unfolding sorted_wrt_map by (elim sorted_wrt_mono_rel [rotated]) auto
  moreover have "distinct (map id (map (\<lambda>(k, task). ts_id task) items))"
    by (rule distinct_map_sorted_wrt) (rule sorted_wrt_mono_rel [OF _ sorted], auto)
  moreover have "set (map (\<lambda>(k, task). ts_id task) items) = set (dict_keys (plan_tasks p))"
  proof (intro subset_antisym subsetI)
    fix x assume "x \<in> set (map (\<lambda>(k, task). ts_id task) items)"
    then obtain k task where "(k, task) \<in> set items" "x = ts_id task" by auto
    with mem [of k task] have "(x, task) \<in> set (plan_tasks p)" by simp
    from imageI [OF this, of fst] show "x \<in> set (dict_keys (plan_tasks p))" by simp
  next
    fix x assume "x \<in> set (dict_keys (plan_tasks p))"
    then obtain task where task: "(x, task) \<in> set (plan_tasks p)" by auto
    with inv(2) mem [of "index_key task" task] have "(index_key task, task) \<in> set items" "x = ts_id task" by auto
    from imageI [OF this(1), of "\<lambda>(k, task). ts_id task"] this(2)
    show "x \<in> set (map (\<lambda>(k, task). ts_id task) items)" by simp
  qed
  ultimately show ?thesis
    using order ranking p_def unfolding list.map_id by (intro exI conjI) (assumption | rule refl)+
qed

theorem plan_orders_correct_witness:
  "\<exists>order. execution_order (fold (\<lambda>(task, after) p. snd (plan_add task after p))
      [(\<lparr>ts_id = ''task-1'', ts_action = ''x'', ts_priority = 0\<rparr>, []),
       (\<lparr>ts_id = ''task-2'', ts_action = ''x'', ts_priority = 5\<rparr>, [''task-1''])] new_relay_plan) = Inr order \<and>
     distinct order \<and> set order = {''task-1'', ''task-2''}"
proof -
  let ?p = "fold (\<lambda>(task, after) p. snd (plan_add task after p))
      [(\<lparr>ts_id = ''task-1'', ts_action = ''x'', ts_priority = 0\<rparr>, []),
       (\<lparr>ts_id = ''task-2'', ts_action = ''x'', ts_priority = 5\<rparr>, [''task-1''])] new_relay_plan"
  have "set (dict_keys (plan_tasks ?p)) = {''task-1'', ''task-2''}" by code_simp
  with plan_orders_correct [of "[(\<lparr>ts_id = ''task-1'', ts_action = ''x'', ts_priority = 0\<rparr>, []),
       (\<lparr>ts_id = ''task-2'', ts_action = ''x'', ts_priority = 5\<rparr>, [''task-1''])]"]
  show ?thesis by (metis (no_types, lifting))
qed

end
