(* ===== verification/PartitionedStore.thy ===== *)
theory PartitionedStore
  imports Prelude "HOL-Library.Sublist"
begin

text \<open>
  Lab 28, \<open>lab_28_partitioned_store/contract.py\<close> and \<open>store.py\<close>: the consistent hash ring and
  the replicated store of immutable versions on it.  The hash \<open>stable_hash\<close> (blake2b of the
  standard library) is the argument \<open>h\<close> of every definition that hashes; nothing is assumed of it.
  A frozenset is a set, \<open>count(1)\<close> the number it yields next.
\<close>

section \<open>Contract\<close>

datatype task_status = QUEUED | RUNNING | SUCCEEDED | FAILED

record task_key =
  tk_tenant :: string
  tk_task :: string

definition ring_key :: "task_key \<Rightarrow> string" where
  "ring_key key = tk_tenant key @ '':'' @ tk_task key"

record task_record =
  tr_key :: task_key
  tr_title :: string
  tr_status :: task_status
  tr_payload :: "(string \<times> string) list"
  tr_depends_on :: "string list"

section \<open>The ring\<close>

record quorum_config =
  qc_replica_count :: int
  qc_read_quorum :: int
  qc_write_quorum :: int

definition check_quorum :: "quorum_config \<Rightarrow> quorum_config res" where
  "check_quorum q =
     (if qc_replica_count q < 1 then Inl (ValueError ''replica_count must be positive'')
      else if \<not> (1 \<le> qc_read_quorum q \<and> qc_read_quorum q \<le> qc_replica_count q)
      then Inl (ValueError ''read_quorum must be within replica_count'')
      else if \<not> (1 \<le> qc_write_quorum q \<and> qc_write_quorum q \<le> qc_replica_count q)
      then Inl (ValueError ''write_quorum must be within replica_count'')
      else Inr q)"

record ring_point =
  rp_point :: int
  rp_node :: string

record hash_ring =
  hr_nodes :: "string list"
  hr_virtual_nodes :: int
  hr_points :: "ring_point list"

definition point_for :: "(string \<Rightarrow> int) \<Rightarrow> string \<Rightarrow> nat \<Rightarrow> ring_point" where
  "point_for h node index = \<lparr>rp_point = h (node @ ''#'' @ show_nat index), rp_node = node\<rparr>"

definition all_points :: "(string \<Rightarrow> int) \<Rightarrow> string list \<Rightarrow> int \<Rightarrow> ring_point list" where
  "all_points h nodes virtual_nodes =
     concat (map (\<lambda>node. map (point_for h node) [0..<nat virtual_nodes]) nodes)"

definition new_ring :: "(string \<Rightarrow> int) \<Rightarrow> string list \<Rightarrow> int \<Rightarrow> hash_ring res" where
  "new_ring h node_ids virtual_nodes =
     (if virtual_nodes < 1 then Inl (ValueError ''virtual_nodes must be positive'')
      else let unique_nodes = from_keys node_ids
        in if length unique_nodes \<noteq> length node_ids then Inl (ValueError ''node_ids must be unique'')
           else if unique_nodes = [] then Inl (ValueError ''node_ids must not be empty'')
           else Inr \<lparr>hr_nodes = unique_nodes, hr_virtual_nodes = virtual_nodes,
             hr_points = sort_key rp_point (all_points h unique_nodes virtual_nodes)\<rparr>)"

text \<open>\<open>bisect_right\<close> on a sorted list: the number of leading values not above the needle.\<close>

definition bisect_right :: "int list \<Rightarrow> int \<Rightarrow> nat" where
  "bisect_right values x = length (takeWhile (\<lambda>v. v \<le> x) values)"

text \<open>The loop of \<open>owners_for_key\<close>; None when it does not end.\<close>

partial_function (option) owners_loop ::
    "ring_point list \<Rightarrow> nat \<Rightarrow> nat \<Rightarrow> string list \<Rightarrow> string list option" where
  "owners_loop points count index owners =
     (if length owners < count
      then let node = rp_node (points ! (index mod length points))
           in owners_loop points count (index + 1) (if node \<in> set owners then owners else owners @ [node])
      else Some owners)"

definition owners_for_key ::
    "(string \<Rightarrow> int) \<Rightarrow> hash_ring \<Rightarrow> string \<Rightarrow> int \<Rightarrow> string list res option" where
  "owners_for_key h ring lookup count =
     (if count < 1 then Some (Inl (ValueError ''count must be positive''))
      else if int (length (hr_nodes ring)) < count then Some (Inl (ValueError ''count exceeds node count''))
      else let start = bisect_right (map rp_point (hr_points ring)) (h lookup)
        in map_option Inr (owners_loop (hr_points ring) (nat count) start []))"

text \<open>The dictionary of primary counts and the number of moved keys, before they become ratios.\<close>

fun primary_counts ::
    "(string \<Rightarrow> int) \<Rightarrow> hash_ring \<Rightarrow> task_key list \<Rightarrow> (string \<times> int) list \<Rightarrow> (string \<times> int) list res option" where
  "primary_counts h ring [] counts = Some (Inr counts)"
| "primary_counts h ring (key # keys) counts =
     (case owners_for_key h ring (ring_key key) 1 of
        None \<Rightarrow> None
      | Some (Inl e) \<Rightarrow> Some (Inl e)
      | Some (Inr []) \<Rightarrow> Some (Inl IndexError)
      | Some (Inr (owner # owners)) \<Rightarrow>
          (case map_of counts owner of
             None \<Rightarrow> Some (Inl (KeyError owner))
           | Some c \<Rightarrow> primary_counts h ring keys (AList.update owner (c + 1) counts)))"

definition distribution_counts :: "(string \<Rightarrow> int) \<Rightarrow> hash_ring \<Rightarrow> task_key list \<Rightarrow> (string \<times> int) list res option" where
  "distribution_counts h ring keys = primary_counts h ring keys (map (\<lambda>node. (node, 0)) (hr_nodes ring))"

definition moved_keys :: "(string \<Rightarrow> int) \<Rightarrow> hash_ring \<Rightarrow> hash_ring \<Rightarrow> task_key list \<Rightarrow> int" where
  "moved_keys h ring other keys =
     int (length (filter (\<lambda>key. owners_for_key h ring (ring_key key) 1 \<noteq> owners_for_key h other (ring_key key) 1) keys))"

section \<open>The store\<close>

record task_version =
  tv_id :: string
  tv_parents :: "string set"
  tv_record :: task_record

record write_result =
  wr_owners :: "string list"
  wr_acknowledged_by :: "string list"
  wr_pending_replicas :: "string list"
  wr_version :: task_version

record read_result =
  rr_owners :: "string list"
  rr_contacted :: "string list"
  rr_versions :: "task_version list"

definition is_concurrent :: "read_result \<Rightarrow> bool" where
  "is_concurrent r \<longleftrightarrow> 1 < length (rr_versions r)"

text \<open>A replica: the dictionary from keys to the dictionary of their versions.\<close>

type_synonym replica = "(task_key \<times> (string \<times> task_version) list) list"

definition bucket :: "replica \<Rightarrow> task_key \<Rightarrow> (string \<times> task_version) list" where
  "bucket store key = (case map_of store key of None \<Rightarrow> [] | Some b \<Rightarrow> b)"

definition apply_version :: "task_version \<Rightarrow> replica \<Rightarrow> replica" where
  "apply_version version store =
     (let key = tr_key (tv_record version)
      in AList.update key (AList.update (tv_id version) version (bucket store key)) store)"

definition versions_for :: "replica \<Rightarrow> task_key \<Rightarrow> task_version list" where
  "versions_for store key = sort_key tv_id (dict_values (bucket store key))"

record task_store =
  st_ring :: hash_ring
  st_quorum :: quorum_config
  st_nodes :: "(string \<times> replica) list"
  st_pending :: "(string \<times> task_version) list"
  st_counter :: nat

definition new_task_store :: "(string \<Rightarrow> int) \<Rightarrow> string list \<Rightarrow> quorum_config \<Rightarrow> int \<Rightarrow> task_store res" where
  "new_task_store h node_ids quorum virtual_nodes =
     (if int (length node_ids) < qc_replica_count quorum then Inl (ValueError ''replica_count exceeds node count'')
      else case new_ring h node_ids virtual_nodes of
             Inl e \<Rightarrow> Inl e
           | Inr ring \<Rightarrow> Inr \<lparr>st_ring = ring, st_quorum = quorum,
               st_nodes = map (\<lambda>node. (node, [])) (hr_nodes ring), st_pending = [], st_counter = 1\<rparr>)"

definition store_owners :: "(string \<Rightarrow> int) \<Rightarrow> task_store \<Rightarrow> task_key \<Rightarrow> string list res option" where
  "store_owners h s key = owners_for_key h (st_ring s) (ring_key key) (qc_replica_count (st_quorum s))"

text \<open>\<open>self._nodes[node_id]\<close> exists for every node of the ring.\<close>

definition replica_of :: "task_store \<Rightarrow> string \<Rightarrow> replica" where
  "replica_of s node = (case map_of (st_nodes s) node of None \<Rightarrow> [] | Some store \<Rightarrow> store)"

definition known_version_ids :: "task_store \<Rightarrow> string list \<Rightarrow> task_key \<Rightarrow> string set" where
  "known_version_ids s owners key =
     set (concat (map (\<lambda>node. map tv_id (versions_for (replica_of s node) key)) owners))"

definition apply_at :: "string \<Rightarrow> task_version \<Rightarrow> (string \<times> replica) list \<Rightarrow> (string \<times> replica) list" where
  "apply_at node version nodes = AList.map_entry node (apply_version version) nodes"

definition version_name :: "nat \<Rightarrow> string" where
  "version_name n = ''v'' @ zero_pad 8 n"

definition write_task ::
    "(string \<Rightarrow> int) \<Rightarrow> task_record \<Rightarrow> string list \<Rightarrow> task_store \<Rightarrow> (write_result res \<times> task_store) option" where
  "write_task h rec observed s =
     (case store_owners h s (tr_key rec) of
        None \<Rightarrow> None
      | Some (Inl e) \<Rightarrow> Some (Inl e, s)
      | Some (Inr owners) \<Rightarrow>
          let unknown = set observed - known_version_ids s owners (tr_key rec)
          in if unknown \<noteq> {} then Some (Inl (UnknownVersionError (join '','' (sorted_list_of_set unknown))), s)
             else
               let version = \<lparr>tv_id = version_name (st_counter s), tv_parents = set observed, tv_record = rec\<rparr>;
                   w = nat (qc_write_quorum (st_quorum s));
                   acknowledged = take w owners;
                   pending = drop w owners
               in Some (Inr \<lparr>wr_owners = owners, wr_acknowledged_by = acknowledged,
                     wr_pending_replicas = pending, wr_version = version\<rparr>,
                   s\<lparr>st_counter := st_counter s + 1,
                     st_nodes := fold (\<lambda>node. apply_at node version) acknowledged (st_nodes s),
                     st_pending := st_pending s @ map (\<lambda>node. (node, version)) pending\<rparr>))"

definition replicate_pending :: "task_store \<Rightarrow> int \<times> task_store" where
  "replicate_pending s =
     (let pending = st_pending s
      in (int (length pending),
          s\<lparr>st_pending := [], st_nodes := fold (\<lambda>(node, version). apply_at node version) pending (st_nodes s)\<rparr>))"

definition pending_replication_count :: "task_store \<Rightarrow> int" where
  "pending_replication_count s = int (length (st_pending s))"

text \<open>\<open>setdefault\<close> over the versions of the contacted nodes.\<close>

fun collect_visible :: "task_version list \<Rightarrow> (string \<times> task_version) list \<Rightarrow> (string \<times> task_version) list" where
  "collect_visible [] visible = visible"
| "collect_visible (v # vs) visible =
     collect_visible vs (if tv_id v \<in> set (dict_keys visible) then visible else visible @ [(tv_id v, v)])"

definition visible_versions :: "task_store \<Rightarrow> string list \<Rightarrow> task_key \<Rightarrow> task_version list" where
  "visible_versions s contacted key =
     dict_values (collect_visible (concat (map (\<lambda>node. versions_for (replica_of s node) key) contacted)) [])"

definition head_versions :: "task_version list \<Rightarrow> task_version list" where
  "head_versions versions =
     (let visible = fold (\<lambda>v. AList.update (tv_id v) v) versions [];
          parent_ids = {p \<in> \<Union> (set (map tv_parents (dict_values visible))). p \<in> set (dict_keys visible)};
          heads = filter (\<lambda>v. tv_id v \<notin> parent_ids) (dict_values visible)
      in sort_key tv_id heads)"

definition read_task :: "(string \<Rightarrow> int) \<Rightarrow> task_key \<Rightarrow> int \<Rightarrow> task_store \<Rightarrow> read_result res option" where
  "read_task h key replica_offset s =
     (case store_owners h s key of
        None \<Rightarrow> None
      | Some (Inl e) \<Rightarrow> Some (Inl e)
      | Some (Inr owners) \<Rightarrow>
          let start = nat (replica_offset mod int (length owners));
              rotated = drop start owners @ take start owners;
              contacted = take (nat (qc_read_quorum (st_quorum s))) rotated;
              heads = head_versions (visible_versions s contacted key)
          in if heads = [] then Some (Inl (TaskNotFoundError (ring_key key)))
             else Some (Inr \<lparr>rr_owners = owners, rr_contacted = contacted, rr_versions = heads\<rparr>))"

definition read_all_replicas :: "(string \<Rightarrow> int) \<Rightarrow> task_key \<Rightarrow> task_store \<Rightarrow> task_version list res option" where
  "read_all_replicas h key s =
     (case store_owners h s key of
        None \<Rightarrow> None
      | Some (Inl e) \<Rightarrow> Some (Inl e)
      | Some (Inr owners) \<Rightarrow> Some (Inr (head_versions (visible_versions s owners key))))"

section \<open>Owners of a key\<close>

definition ring_ok :: "hash_ring \<Rightarrow> bool" where
  "ring_ok ring \<longleftrightarrow> distinct (hr_nodes ring) \<and> hr_nodes ring \<noteq> [] \<and> rp_node ` set (hr_points ring) = set (hr_nodes ring)"

lemma from_keys_id: "length (from_keys xs) = length xs \<Longrightarrow> from_keys xs = xs"
proof -
  have le: "length (from_keys xs) \<le> length xs" for xs :: "'a list"
    by (induction xs) (auto intro: le_trans [OF length_filter_le])
  show "length (from_keys xs) = length xs \<Longrightarrow> from_keys xs = xs"
  proof (induction xs)
    case (Cons x xs)
    let ?ys = "from_keys xs" and ?P = "\<lambda>y. y \<noteq> x"
    have eq: "length (filter ?P ?ys) = length xs" using Cons.prems by simp
    have len: "length ?ys = length xs" "length (filter ?P ?ys) = length ?ys"
      using eq le [of xs] length_filter_le [of ?P ?ys] by linarith+
    have "\<forall>y \<in> set ?ys. ?P y"
      using length_filter_less [of _ ?ys ?P] len(2) by fastforce
    then have "filter ?P ?ys = ?ys" by (simp add: filter_id_conv)
    with Cons.IH [OF len(1)] show ?case by simp
  qed simp
qed

lemma all_points_nodes: "1 \<le> v \<Longrightarrow> rp_node ` set (all_points h nodes v) = set nodes"
  by (force simp: all_points_def point_for_def image_UN image_image intro: image_eqI [of _ _ 0])

lemma new_ring_ok:
  assumes "new_ring h node_ids v = Inr ring"
  shows "ring_ok ring \<and> hr_nodes ring = node_ids \<and> distinct node_ids \<and> 1 \<le> v \<and>
    hr_points ring = sort_key rp_point (all_points h node_ids v)"
proof -
  from assms have v: "1 \<le> v" and len: "length (from_keys node_ids) = length node_ids" and ne: "from_keys node_ids \<noteq> []"
    by (auto simp: new_ring_def Let_def split: if_splits)
  note fk = from_keys_id [OF len]
  from assms v len ne have "ring = \<lparr>hr_nodes = node_ids, hr_virtual_nodes = v,
      hr_points = sort_key rp_point (all_points h node_ids v)\<rparr>"
    by (auto simp: new_ring_def Let_def fk)
  moreover have "distinct node_ids" using distinct_from_keys [of node_ids] fk by simp
  ultimately show ?thesis using v ne fk all_points_nodes [OF v, of h node_ids] by (simp add: ring_ok_def)
qed

text \<open>
  The owners are the first \<open>count\<close> distinct nodes of the points in ring order, from the position
  after the key's hash.
\<close>

definition ring_order :: "ring_point list \<Rightarrow> nat \<Rightarrow> string list" where
  "ring_order points start = map (\<lambda>i. rp_node (points ! ((start + i) mod length points))) [0..<length points]"

lemma set_ring_order: "points \<noteq> [] \<Longrightarrow> set (ring_order points start) = rp_node ` set points"
proof -
  assume ne: "points \<noteq> []"
  let ?n = "length points"
  have "\<exists>i < ?n. (start + i) mod ?n = j" if "j < ?n" for j
  proof (intro exI [of _ "(j + (?n - start mod ?n)) mod ?n"] conjI)
    have "(start + (j + (?n - start mod ?n)) mod ?n) mod ?n = (start mod ?n + (j + (?n - start mod ?n))) mod ?n"
      by (simp add: mod_simps)
    also have "start mod ?n + (j + (?n - start mod ?n)) = j + ?n"
    proof -
      have "start mod ?n < ?n" using ne by simp
      then show ?thesis by linarith
    qed
    finally show "(start + (j + (?n - start mod ?n)) mod ?n) mod ?n = j" using that by simp
  qed (use ne in simp)
  then have "set points \<subseteq> (\<lambda>i. points ! ((start + i) mod ?n)) ` {0..<?n}"
    by (auto simp: set_conv_nth image_iff) (metis atLeastLessThan_iff le0)
  moreover have "(\<lambda>i. points ! ((start + i) mod ?n)) ` {0..<?n} \<subseteq> set points"
    using ne by auto
  ultimately have "(\<lambda>i. points ! ((start + i) mod ?n)) ` {0..<?n} = set points" by blast
  moreover have "set (ring_order points start) = rp_node ` ((\<lambda>i. points ! ((start + i) mod ?n)) ` {0..<?n})"
    by (simp add: ring_order_def image_image)
  ultimately show ?thesis by simp
qed

text \<open>First occurrences, kept by appending.\<close>

definition add_owner :: "string list \<Rightarrow> string \<Rightarrow> string list" where
  "add_owner owners node = (if node \<in> set owners then owners else owners @ [node])"

fun first_owners :: "nat \<Rightarrow> string list \<Rightarrow> string list \<Rightarrow> string list" where
  "first_owners count owners [] = owners"
| "first_owners count owners (n # ns) =
     (if length owners < count then first_owners count (add_owner owners n) ns else owners)"

lemma owners_loop_first_owners:
  assumes "points \<noteq> []"
  shows "length (first_owners count owners (map (\<lambda>i. rp_node (points ! (i mod length points))) [index..<stop])) \<ge> count \<Longrightarrow>
   owners_loop points count index owners =
     Some (first_owners count owners (map (\<lambda>i. rp_node (points ! (i mod length points))) [index..<stop]))"
proof (induction "stop - index" arbitrary: index owners)
  case 0
  then show ?case by (simp add: owners_loop.simps [of points count index])
next
  case (Suc d)
  then have step: "[index..<stop] = index # [index + 1..<stop]" "d = stop - (index + 1)" by (simp_all add: upt_rec)
  show ?case
  proof (cases "length owners < count")
    case True
    with Suc.hyps(1) [OF step(2)] Suc.prems show ?thesis
      by (simp add: owners_loop.simps [of points count index] step(1) add_owner_def Let_def split: if_splits)
  next
    case False
    then show ?thesis by (simp add: owners_loop.simps [of points count index] step(1))
  qed
qed

lemma first_owners_props:
  "distinct owners \<Longrightarrow> length owners \<le> count \<Longrightarrow> count \<le> card (set owners \<union> set ns) \<Longrightarrow>
   length (first_owners count owners ns) = count \<and> distinct (first_owners count owners ns) \<and>
   set (first_owners count owners ns) \<subseteq> set owners \<union> set ns \<and> prefix owners (first_owners count owners ns)"
proof (induction count owners ns rule: first_owners.induct)
  case (1 count owners)
  then show ?case by (simp add: distinct_card)
next
  case (2 count owners n ns)
  show ?case
  proof (cases "length owners < count")
    case True
    have set: "set (add_owner owners n) \<union> set ns = set owners \<union> set (n # ns)" by (auto simp: add_owner_def)
    have pre: "prefix owners (add_owner owners n)" by (simp add: add_owner_def)
    from "2.IH" [OF True] "2.prems" True have "length (first_owners count (add_owner owners n) ns) = count \<and>
        distinct (first_owners count (add_owner owners n) ns) \<and>
        set (first_owners count (add_owner owners n) ns) \<subseteq> set (add_owner owners n) \<union> set ns \<and>
        prefix (add_owner owners n) (first_owners count (add_owner owners n) ns)"
      unfolding set by (simp add: add_owner_def)
    with True pre show ?thesis unfolding set by (auto intro: prefix_order.trans)
  next
    case False
    with "2.prems" show ?thesis by auto
  qed
qed

lemma owners_for_key_result:
  assumes ok: "ring_ok ring" and c: "1 \<le> count" "count \<le> int (length (hr_nodes ring))"
  shows "\<exists>owners. owners_for_key h ring key count = Some (Inr owners) \<and> int (length owners) = count \<and>
    distinct owners \<and> set owners \<subseteq> set (hr_nodes ring) \<and>
    owners = first_owners (nat count) [] (ring_order (hr_points ring) (bisect_right (map rp_point (hr_points ring)) (h key)))"
proof -
  let ?points = "hr_points ring" and ?start = "bisect_right (map rp_point (hr_points ring)) (h key)"
  have ne: "?points \<noteq> []" using ok by (auto simp: ring_ok_def)
  have set: "set (ring_order ?points ?start) = set (hr_nodes ring)"
    using set_ring_order [OF ne] ok by (simp add: ring_ok_def)
  have "nat count \<le> card (set [] \<union> set (ring_order ?points ?start))"
    using set ok c by (simp add: ring_ok_def distinct_card)
  from first_owners_props [OF _ _ this]
  have fo: "length (first_owners (nat count) [] (ring_order ?points ?start)) = nat count"
      "distinct (first_owners (nat count) [] (ring_order ?points ?start))"
      "set (first_owners (nat count) [] (ring_order ?points ?start)) \<subseteq> set (hr_nodes ring)"
    using set by auto
  have order: "ring_order ?points ?start = map (\<lambda>i. rp_node (?points ! (i mod length ?points))) [?start..<?start + length ?points]"
    by (rule nth_equalityI) (auto simp: ring_order_def)
  from owners_loop_first_owners [OF ne, of "nat count" "[]" ?start "?start + length ?points"] fo(1) order
  have "owners_loop ?points (nat count) ?start [] = Some (first_owners (nat count) [] (ring_order ?points ?start))" by simp
  with fo c show ?thesis by (simp add: owners_for_key_def)
qed

section \<open>Primary owners\<close>

definition primary_node :: "ring_point list \<Rightarrow> int \<Rightarrow> string" where
  "primary_node points x = rp_node (hd (filter (\<lambda>p. x < rp_point p) points @ points))"

lemma dropWhile_sorted_filter:
  "sorted (map rp_point points) \<Longrightarrow> dropWhile (\<lambda>p. rp_point p \<le> x) points = filter (\<lambda>p. x < rp_point p) points"
  by (induction points) (auto simp: not_le intro!: filter_True [symmetric])

lemma ring_order_primary:
  assumes "sorted (map rp_point points)" "points \<noteq> []"
  shows "ring_order points (bisect_right (map rp_point points) x) = primary_node points x # tl (ring_order points (bisect_right (map rp_point points) x))"
proof -
  let ?P = "\<lambda>p. rp_point p \<le> x" and ?n = "length points"
  let ?start = "length (takeWhile ?P points)"
  have start: "bisect_right (map rp_point points) x = ?start"
    by (simp add: bisect_right_def takeWhile_map comp_def)
  have "points ! (?start mod ?n) = hd (dropWhile ?P points @ points)"
  proof (cases "dropWhile ?P points")
    case Nil
    then have "takeWhile ?P points = points" by (simp add: dropWhile_eq_Nil_conv)
    then have "?start = ?n" by metis
    then show ?thesis using assms(2) by (simp add: Nil hd_conv_nth del: dropWhile_eq_Nil_conv)
  next
    case (Cons p ps)
    have "takeWhile ?P points @ dropWhile ?P points = points" by simp
    with Cons have "points ! ?start = p" "?start < ?n"
      by (metis nth_append_length, metis length_append length_Cons less_add_Suc1 add_Suc_right)
    with Cons show ?thesis by simp
  qed
  then have "hd (ring_order points ?start) = primary_node points x"
    using assms(2) by (simp add: ring_order_def primary_node_def dropWhile_sorted_filter [OF assms(1)] hd_map)
  moreover have "ring_order points ?start \<noteq> []" using assms(2) by (simp add: ring_order_def)
  ultimately show ?thesis by (metis list.collapse start)
qed

lemma owners_for_key_one:
  assumes "new_ring h node_ids v = Inr ring"
  shows "owners_for_key h ring key 1 = Some (Inr [primary_node (hr_points ring) (h key)])"
proof -
  from new_ring_ok [OF assms] have ok: "ring_ok ring" and sorted: "sorted (map rp_point (hr_points ring))" by auto
  then have ne: "hr_points ring \<noteq> []" and len: "(1 :: int) \<le> int (length (hr_nodes ring))"
    by (auto simp: ring_ok_def Suc_le_eq)
  from owners_for_key_result [OF ok _ len, of h key] obtain owners where
    o: "owners_for_key h ring key 1 = Some (Inr owners)"
      "owners = first_owners 1 [] (ring_order (hr_points ring) (bisect_right (map rp_point (hr_points ring)) (h key)))"
    by auto
  have one: "first_owners (Suc 0) [n] ns = [n]" for n ns by (cases ns) auto
  from ring_order_primary [OF sorted ne, of "h key"] obtain ns where
    "ring_order (hr_points ring) (bisect_right (map rp_point (hr_points ring)) (h key)) =
      primary_node (hr_points ring) (h key) # ns" by blast
  with o show ?thesis by (simp add: add_owner_def one)
qed

lemma primary_node_filter:
  assumes "node \<noteq> n" "primary_node points x = node" "points \<noteq> []"
  shows "primary_node (filter (\<lambda>p. rp_node p \<noteq> n) points) x = node"
proof -
  let ?Q = "\<lambda>p. rp_node p \<noteq> n" and ?P = "\<lambda>p. x < rp_point p"
  have swap: "filter ?P (filter ?Q points) = filter ?Q (filter ?P points)"
    by (simp add: conj_commute)
  show ?thesis
  proof (cases "filter ?P points")
    case Nil
    then have "filter ?P (filter ?Q points) = []" by (simp add: filter_empty_conv)
    with Nil assms show ?thesis by (cases points) (auto simp: primary_node_def)
  next
    case (Cons p ps)
    with assms have "filter ?P (filter ?Q points) = p # filter ?Q ps" "rp_node p = node"
      unfolding swap by (auto simp: primary_node_def)
    then show ?thesis by (simp add: primary_node_def)
  qed
qed

lemma all_points_without:
  "n \<notin> set nodes \<Longrightarrow> filter (\<lambda>p. rp_node p \<noteq> n) (all_points h (nodes @ n # rest) v) =
   filter (\<lambda>p. rp_node p \<noteq> n) (all_points h (nodes @ rest) v)"
  by (simp add: all_points_def point_for_def filter_empty_conv)

section \<open>Replicas\<close>

definition holds :: "task_store \<Rightarrow> string \<Rightarrow> task_version \<Rightarrow> bool" where
  "holds s node v \<longleftrightarrow> map_of (bucket (replica_of s node) (tr_key (tv_record v))) (tv_id v) = Some v"

lemma version_name_inject [simp]: "version_name m = version_name n \<longleftrightarrow> m = n"
  by (simp add: version_name_def)

lemma bucket_apply:
  "bucket (apply_version v store) key =
     (if key = tr_key (tv_record v) then AList.update (tv_id v) v (bucket store key) else bucket store key)"
  by (simp add: bucket_def apply_version_def Let_def update_conv')

lemma map_of_apply_at:
  "map_of (apply_at n v nodes) node = (if node = n then map_option (apply_version v) (map_of nodes n) else map_of nodes node)"
  by (simp add: apply_at_def map_of_map_entry)

lemma keys_apply_at [simp]: "dict_keys (apply_at n v nodes) = dict_keys nodes"
  by (simp add: apply_at_def)

lemma keys_apply_fold [simp]:
  "dict_keys (fold (\<lambda>(node, version). apply_at node version) ups nodes) = dict_keys nodes"
  by (induction ups arbitrary: nodes) (auto split: prod.splits)

lemma replica_of_apply:
  assumes "set (map fst ups) \<subseteq> set (dict_keys (st_nodes s))" "st_nodes s' = fold (\<lambda>(node, version). apply_at node version) ups (st_nodes s)"
  shows "replica_of s' node = fold apply_version (map snd (filter (\<lambda>u. fst u = node) ups)) (replica_of s node)"
proof -
  have "map_of (fold (\<lambda>(node, version). apply_at node version) ups nodes) node =
      map_option (fold apply_version (map snd (filter (\<lambda>u. fst u = node) ups))) (map_of nodes node)" for nodes
    by (induction ups arbitrary: nodes)
      (auto simp: map_of_apply_at option.map_comp comp_def option.map_ident option.map_id split: prod.splits)
  moreover have "filter (\<lambda>u. fst u = node) ups = []" if "map_of (st_nodes s) node = None"
    using that assms(1) by (auto simp: filter_empty_conv map_of_eq_None_iff)
  ultimately show ?thesis
    using assms(2) by (cases "map_of (st_nodes s) node") (simp_all add: replica_of_def)
qed

text \<open>The versions written so far, in order: version i + 1 is at position i.\<close>

definition log_ok :: "task_version list \<Rightarrow> bool" where
  "log_ok vs \<longleftrightarrow>
     (\<forall>i < length vs. tv_id (vs ! i) = version_name (i + 1) \<and> tv_parents (vs ! i) \<subseteq> version_name ` {1..i})"

lemma log_ok_id:
  assumes "log_ok vs" "u \<in> set vs" "v \<in> set vs" "tv_id u = tv_id v"
  shows "u = v"
  using assms unfolding log_ok_def by (metis add_right_cancel in_set_conv_nth version_name_inject)

definition replica_ok :: "task_version list \<Rightarrow> replica \<Rightarrow> bool" where
  "replica_ok vs store \<longleftrightarrow>
     (\<forall>key. distinct (dict_keys (bucket store key)) \<and>
        (\<forall>(vid, v) \<in> set (bucket store key). v \<in> set vs \<and> tv_id v = vid \<and> tr_key (tv_record v) = key))"

lemma replica_ok_apply: "replica_ok vs store \<Longrightarrow> v \<in> set vs \<Longrightarrow> replica_ok vs (apply_version v store)"
  by (auto simp: replica_ok_def bucket_apply distinct_update dest!: set_update_cases)

lemma replica_ok_fold:
  "replica_ok vs store \<Longrightarrow> set ups \<subseteq> set vs \<Longrightarrow> replica_ok vs (fold apply_version ups store)"
  by (induction ups arbitrary: store) (auto intro: replica_ok_apply)

lemma replica_ok_mono: "replica_ok vs store \<Longrightarrow> set vs \<subseteq> set ws \<Longrightarrow> replica_ok ws store"
  unfolding replica_ok_def by fast

definition has_version :: "replica \<Rightarrow> task_version \<Rightarrow> bool" where
  "has_version store v \<longleftrightarrow> (tv_id v, v) \<in> set (bucket store (tr_key (tv_record v)))"

lemma has_version_apply:
  assumes "log_ok vs" "replica_ok vs store" "u \<in> set vs" "v \<in> set vs"
  shows "has_version (apply_version v store) u \<longleftrightarrow> has_version store u \<or> u = v"
proof -
  have d: "distinct (dict_keys (bucket store key))" for key using assms(2) by (auto simp: replica_ok_def)
  show ?thesis
  proof (cases "tr_key (tv_record u) = tr_key (tv_record v)")
    case True
    have "(tv_id u, u) \<in> set (AList.update (tv_id v) v (bucket store (tr_key (tv_record v)))) \<longleftrightarrow>
        map_of (AList.update (tv_id v) v (bucket store (tr_key (tv_record v)))) (tv_id u) = Some u"
      using d by (simp add: distinct_update)
    also have "\<dots> \<longleftrightarrow> (tv_id u, u) \<in> set (bucket store (tr_key (tv_record v))) \<or> u = v"
      using d log_ok_id [OF assms(1,3,4)] by (auto simp: update_conv')
    finally show ?thesis using True by (simp add: has_version_def bucket_apply)
  next
    case False
    then show ?thesis by (auto simp: has_version_def bucket_apply)
  qed
qed

lemma has_version_fold:
  "log_ok vs \<Longrightarrow> replica_ok vs store \<Longrightarrow> u \<in> set vs \<Longrightarrow> set ups \<subseteq> set vs \<Longrightarrow>
   has_version (fold apply_version ups store) u \<longleftrightarrow> has_version store u \<or> u \<in> set ups"
  by (induction ups arbitrary: store) (auto simp: has_version_apply replica_ok_apply)

lemma set_versions_for:
  assumes "replica_ok vs store"
  shows "set (versions_for store key) = {v \<in> set vs. has_version store v \<and> tr_key (tv_record v) = key}"
  using assms by (force simp: versions_for_def replica_ok_def has_version_def)

section \<open>Heads\<close>

lemma collect_visible_result:
  "map tv_id (dict_values visible) = dict_keys visible \<Longrightarrow> distinct (dict_keys visible) \<Longrightarrow>
   inj_on tv_id (set vs \<union> set (dict_values visible)) \<Longrightarrow>
   set (dict_values (collect_visible vs visible)) = set vs \<union> set (dict_values visible) \<and>
   distinct (map tv_id (dict_values (collect_visible vs visible)))"
proof (induction vs visible rule: collect_visible.induct)
  case (1 visible)
  from 1(1,2) show ?case by (simp del: map_map)
next
  case (2 v vs visible)
  show ?case
  proof (cases "tv_id v \<in> set (dict_keys visible)")
    case True
    then have "tv_id v \<in> tv_id ` set (dict_values visible)"
      using 2(2) by (metis set_map)
    then obtain u where u: "u \<in> set (dict_values visible)" "tv_id v = tv_id u" by blast
    with inj_onD [OF 2(4), of v u] have v: "v \<in> set (dict_values visible)" by simp
    then have "set (v # vs) \<union> set (dict_values visible) = set vs \<union> set (dict_values visible)" by auto
    with True 2 show ?thesis by (simp del: set_map)
  next
    case False
    have eq: "set vs \<union> set (dict_values (visible @ [(tv_id v, v)])) = set (v # vs) \<union> set (dict_values visible)" by auto
    with 2(4) have "inj_on tv_id (set vs \<union> set (dict_values (visible @ [(tv_id v, v)])))" by metis
    with False 2 eq show ?thesis by (simp del: set_map set_append add: eq)
  qed
qed

lemma fold_update_ids:
  "distinct (map tv_id vs) \<Longrightarrow> \<forall>v \<in> set vs. tv_id v \<notin> set (dict_keys d) \<Longrightarrow>
   fold (\<lambda>v. AList.update (tv_id v) v) vs d = d @ map (\<lambda>v. (tv_id v, v)) vs"
proof (induction vs arbitrary: d)
  case (Cons v vs)
  have "tv_id u \<notin> set (dict_keys (d @ [(tv_id v, v)]))" if "u \<in> set vs" for u
  proof -
    have "tv_id u \<in> tv_id ` set vs" using that by simp
    with Cons.prems have "tv_id u \<noteq> tv_id v" by auto
    with Cons.prems(2) that show ?thesis by simp
  qed
  with Cons.IH [of "d @ [(tv_id v, v)]"] Cons.prems show ?case by (simp add: update_fresh)
qed simp

lemma head_versions_distinct:
  assumes "distinct (map tv_id vs)"
  shows "head_versions vs = sort_key tv_id (filter (\<lambda>v. \<forall>u \<in> set vs. tv_id v \<notin> tv_parents u) vs)"
proof -
  have "fold (\<lambda>v. AList.update (tv_id v) v) vs [] = map (\<lambda>v. (tv_id v, v)) vs"
    using fold_update_ids [OF assms, of "[]"] by simp
  moreover have "filter (\<lambda>v. tv_id v \<notin> {p \<in> \<Union> (set (map tv_parents vs)). p \<in> set (map tv_id vs)}) vs =
      filter (\<lambda>v. \<forall>u \<in> set vs. tv_id v \<notin> tv_parents u) vs"
    by (rule filter_cong) auto
  ultimately show ?thesis by (simp add: head_versions_def Let_def comp_def image_image)
qed

lemma sorted_key_unique:
  assumes "sorted (map f xs)" "sorted (map f ys)" "distinct (map f xs)" "distinct (map f ys)" "set xs = set ys"
  shows "xs = ys"
proof -
  have "map f xs = map f ys" using assms by (intro sorted_distinct_set_unique) auto
  moreover have "inj_on f (set xs \<union> set ys)" using assms(3,5) by (simp add: distinct_map)
  ultimately show ?thesis by (meson map_inj_on)
qed

lemma head_versions_set:
  assumes "distinct (map tv_id vs)" "distinct (map tv_id ws)" "set vs = set ws"
  shows "head_versions vs = head_versions ws"
  unfolding head_versions_distinct [OF assms(1)] head_versions_distinct [OF assms(2)]
  by (rule sorted_key_unique [of tv_id]) (use assms in \<open>auto intro!: distinct_map_sort_key distinct_map_filter\<close>)

section \<open>The invariant of the store\<close>

definition quorum_ok :: "quorum_config \<Rightarrow> bool" where
  "quorum_ok q \<longleftrightarrow> \<not> isl (check_quorum q)"

definition owners_of :: "(string \<Rightarrow> int) \<Rightarrow> task_store \<Rightarrow> task_key \<Rightarrow> string list" where
  "owners_of h s key = (case store_owners h s key of Some (Inr owners) \<Rightarrow> owners | _ \<Rightarrow> [])"

definition store_ok :: "(string \<Rightarrow> int) \<Rightarrow> task_version list \<Rightarrow> task_store \<Rightarrow> bool" where
  "store_ok h vs s \<longleftrightarrow>
     ring_ok (st_ring s) \<and> quorum_ok (st_quorum s) \<and>
     qc_replica_count (st_quorum s) \<le> int (length (hr_nodes (st_ring s))) \<and>
     dict_keys (st_nodes s) = hr_nodes (st_ring s) \<and> st_counter s = length vs + 1 \<and> log_ok vs \<and>
     (\<forall>(node, v) \<in> set (st_pending s). node \<in> set (hr_nodes (st_ring s)) \<and> v \<in> set vs) \<and>
     (\<forall>node. replica_ok vs (replica_of s node)) \<and>
     (\<forall>v \<in> set vs. \<forall>node \<in> set (owners_of h s (tr_key (tv_record v))).
        has_version (replica_of s node) v \<or> (node, v) \<in> set (st_pending s))"

lemma quorum_ok_iff:
  "quorum_ok q \<longleftrightarrow> 1 \<le> qc_read_quorum q \<and> qc_read_quorum q \<le> qc_replica_count q \<and>
     1 \<le> qc_write_quorum q \<and> qc_write_quorum q \<le> qc_replica_count q"
  by (auto simp: quorum_ok_def check_quorum_def)

lemma store_ok_owners:
  assumes "store_ok h vs s"
  shows "store_owners h s key = Some (Inr (owners_of h s key))" "distinct (owners_of h s key)"
    "int (length (owners_of h s key)) = qc_replica_count (st_quorum s)"
    "set (owners_of h s key) \<subseteq> set (hr_nodes (st_ring s))"
proof -
  have "1 \<le> qc_replica_count (st_quorum s)" using assms by (auto simp: store_ok_def quorum_ok_iff)
  with assms owners_for_key_result [of "st_ring s" "qc_replica_count (st_quorum s)" h "ring_key key"]
  obtain owners where "store_owners h s key = Some (Inr owners)" "distinct owners"
      "int (length owners) = qc_replica_count (st_quorum s)" "set owners \<subseteq> set (hr_nodes (st_ring s))"
    by (auto simp: store_ok_def store_owners_def)
  then show "store_owners h s key = Some (Inr (owners_of h s key))" "distinct (owners_of h s key)"
    "int (length (owners_of h s key)) = qc_replica_count (st_quorum s)"
    "set (owners_of h s key) \<subseteq> set (hr_nodes (st_ring s))"
    by (simp_all add: owners_of_def)
qed

lemma new_task_store_ok:
  assumes "new_task_store h node_ids q v = Inr s" "quorum_ok q"
  shows "store_ok h [] s"
proof -
  from assms(1) obtain ring where ring: "new_ring h node_ids v = Inr ring" "qc_replica_count q \<le> int (length node_ids)"
      "s = \<lparr>st_ring = ring, st_quorum = q, st_nodes = map (\<lambda>node. (node, [])) (hr_nodes ring), st_pending = [], st_counter = 1\<rparr>"
    by (auto simp: new_task_store_def split: if_splits sum.splits)
  have "replica_of s node = []" for node
    by (simp add: replica_of_def ring(3) map_of_map_keys)
  then show ?thesis
    using new_ring_ok [OF ring(1)] ring(2,3) assms(2)
    by (simp add: store_ok_def log_ok_def replica_ok_def bucket_def comp_def)
qed

text \<open>The state after a successful write, and the version it added.\<close>

definition written :: "task_store \<Rightarrow> task_record \<Rightarrow> string list \<Rightarrow> task_version" where
  "written s rec observed = \<lparr>tv_id = version_name (st_counter s), tv_parents = set observed, tv_record = rec\<rparr>"

lemma visible_versions_set:
  assumes "log_ok vs" "\<And>node. node \<in> set contacted \<Longrightarrow> replica_ok vs (replica_of s node)"
  shows "set (visible_versions s contacted key) =
      {v \<in> set vs. tr_key (tv_record v) = key \<and> (\<exists>node \<in> set contacted. has_version (replica_of s node) v)}"
    and "distinct (map tv_id (visible_versions s contacted key))"
proof -
  let ?all = "concat (map (\<lambda>node. versions_for (replica_of s node) key) contacted)"
  have all: "set ?all = {v \<in> set vs. tr_key (tv_record v) = key \<and> (\<exists>node \<in> set contacted. has_version (replica_of s node) v)}"
    using set_versions_for [OF assms(2)] by auto
  have "inj_on tv_id (set ?all \<union> set (dict_values []))"
    using log_ok_id [OF assms(1)] unfolding all by (intro inj_onI) auto
  from collect_visible_result [OF _ _ this] all
  show "set (visible_versions s contacted key) =
      {v \<in> set vs. tr_key (tv_record v) = key \<and> (\<exists>node \<in> set contacted. has_version (replica_of s node) v)}"
    and "distinct (map tv_id (visible_versions s contacted key))"
    by (simp_all add: visible_versions_def)
qed

lemma store_ok_known:
  assumes "store_ok h vs s"
  shows "known_version_ids s owners key \<subseteq> version_name ` {1..length vs}"
proof -
  have "\<exists>n \<in> {1..length vs}. tv_id v = version_name n" if "v \<in> set vs" for v
    using that assms unfolding store_ok_def log_ok_def in_set_conv_nth by (metis One_nat_def Suc_eq_plus1
        Suc_leI atLeastAtMost_iff le_add2)
  moreover have "v \<in> set vs" if "v \<in> set (versions_for (replica_of s node) key)" for v node
    using that assms set_versions_for [of vs "replica_of s node" key] by (auto simp: store_ok_def)
  ultimately show ?thesis by (fastforce simp: known_version_ids_def)
qed

lemma write_task_ok:
  assumes ok: "store_ok h vs s" and w: "write_task h rec observed s = Some (Inr r, s')"
  shows "store_ok h (vs @ [written s rec observed]) s' \<and> wr_version r = written s rec observed \<and>
    st_ring s' = st_ring s \<and> st_quorum s' = st_quorum s \<and> wr_owners r = owners_of h s (tr_key rec) \<and>
    wr_acknowledged_by r = take (nat (qc_write_quorum (st_quorum s))) (wr_owners r) \<and>
    (\<forall>node \<in> set (wr_acknowledged_by r). has_version (replica_of s' node) (written s rec observed))"
proof -
  let ?v = "written s rec observed" and ?key = "tr_key rec"
  let ?owners = "owners_of h s ?key" and ?w = "nat (qc_write_quorum (st_quorum s))"
  let ?ack = "take ?w ?owners" and ?pend = "drop ?w ?owners"
  note owners = store_ok_owners [OF ok, of ?key]
  from w owners(1) have known: "set observed \<subseteq> known_version_ids s ?owners ?key"
    and r: "r = \<lparr>wr_owners = ?owners, wr_acknowledged_by = ?ack, wr_pending_replicas = ?pend, wr_version = ?v\<rparr>"
    and s': "s' = s\<lparr>st_counter := st_counter s + 1, st_nodes := fold (\<lambda>node. apply_at node ?v) ?ack (st_nodes s),
        st_pending := st_pending s @ map (\<lambda>node. (node, ?v)) ?pend\<rparr>"
    by (auto simp: write_task_def Let_def written_def split: if_splits)
  let ?ws = "vs @ [?v]"
  have parts: "log_ok vs" "st_counter s = length vs + 1" "\<And>node. replica_ok vs (replica_of s node)"
      "dict_keys (st_nodes s) = hr_nodes (st_ring s)"
    using ok by (auto simp: store_ok_def)
  have log: "log_ok ?ws"
    using parts(1,2) known store_ok_known [OF ok, of ?owners ?key]
    unfolding log_ok_def by (auto simp: nth_append written_def less_Suc_eq)
  have ack_keys: "set ?ack \<subseteq> set (dict_keys (st_nodes s))"
    using owners(4) parts(4) set_take_subset [of ?w ?owners] by auto
  have nodes: "st_nodes s' = fold (\<lambda>(node, version). apply_at node version) (map (\<lambda>node. (node, ?v)) ?ack) (st_nodes s)"
    by (simp add: s' fold_map comp_def)
  have replica: "replica_of s' node = fold apply_version (map snd (filter (\<lambda>u. fst u = node) (map (\<lambda>node. (node, ?v)) ?ack))) (replica_of s node)" for node
    using ack_keys by (intro replica_of_apply [OF _ nodes]) (auto simp: comp_def)
  let ?ups = "\<lambda>node. map snd (filter (\<lambda>u. fst u = node) (map (\<lambda>node. (node, ?v)) ?ack))"
  have ups: "set (?ups node) = (if node \<in> set ?ack then {?v} else {})" for node by force
  have old: "replica_ok ?ws (replica_of s node)" for node
    using parts(3) by (rule replica_ok_mono) auto
  have has: "has_version (replica_of s' node) u \<longleftrightarrow> has_version (replica_of s node) u \<or> node \<in> set ?ack \<and> u = ?v"
    if "u \<in> set ?ws" for u node
    unfolding replica using has_version_fold [OF log old that, of "?ups node"] ups by auto
  have "replica_ok ?ws (replica_of s' node)" for node
    unfolding replica by (rule replica_ok_fold [OF old]) (use ups in auto)
  moreover have same_owners: "owners_of h s' k = owners_of h s k" for k by (simp add: s' owners_of_def store_owners_def)
  have complete: "has_version (replica_of s' node) u \<or> (node, u) \<in> set (st_pending s')"
    if u: "u \<in> set ?ws" "node \<in> set (owners_of h s (tr_key (tv_record u)))" for u node
  proof (cases "u = ?v")
    case True
    then have "node \<in> set (take ?w ?owners @ drop ?w ?owners)" using u(2) by (simp add: written_def)
    then have "node \<in> set ?ack \<or> node \<in> set ?pend" unfolding set_append by blast
    with True has [OF u(1)] show ?thesis by (auto simp: s')
  next
    case False
    with u ok have "has_version (replica_of s node) u \<or> (node, u) \<in> set (st_pending s)" by (auto simp: store_ok_def)
    with has [OF u(1)] show ?thesis by (auto simp: s')
  qed
  moreover have "\<forall>(node, v) \<in> set (st_pending s'). node \<in> set (hr_nodes (st_ring s)) \<and> v \<in> set ?ws"
  proof -
    have "set ?pend \<subseteq> set (hr_nodes (st_ring s))" using owners(4) set_drop_subset [of ?w ?owners] by blast
    then show ?thesis using ok by (auto simp: s' store_ok_def)
  qed
  ultimately have "store_ok h ?ws s'"
    using ok log keys_apply_fold [of "map (\<lambda>node. (node, ?v)) ?ack" "st_nodes s"] nodes
    unfolding store_ok_def same_owners by (simp add: s' )
  moreover have "\<forall>node \<in> set ?ack. has_version (replica_of s' node) ?v" using has by auto
  ultimately show ?thesis by (simp add: r s')
qed

lemma replicate_pending_ok:
  assumes ok: "store_ok h vs s"
  shows "store_ok h vs (snd (replicate_pending s)) \<and> st_pending (snd (replicate_pending s)) = [] \<and>
    st_ring (snd (replicate_pending s)) = st_ring s \<and> st_quorum (snd (replicate_pending s)) = st_quorum s"
proof -
  let ?s = "snd (replicate_pending s)"
  have s': "?s = s\<lparr>st_pending := [], st_nodes := fold (\<lambda>(node, version). apply_at node version) (st_pending s) (st_nodes s)\<rparr>"
    by (simp add: replicate_pending_def Let_def)
  have parts: "log_ok vs" "\<And>node. replica_ok vs (replica_of s node)"
      "dict_keys (st_nodes s) = hr_nodes (st_ring s)"
      "\<And>node v. (node, v) \<in> set (st_pending s) \<Longrightarrow> node \<in> set (hr_nodes (st_ring s)) \<and> v \<in> set vs"
    using ok by (auto simp: store_ok_def)
  have "set (map fst (st_pending s)) \<subseteq> set (dict_keys (st_nodes s))"
    using parts(3,4) by auto
  from replica_of_apply [OF this, of ?s]
  have replica: "replica_of ?s node = fold apply_version (map snd (filter (\<lambda>u. fst u = node) (st_pending s))) (replica_of s node)" for node
    by (simp add: s')
  have sub: "set (map snd (filter (\<lambda>u. fst u = node) (st_pending s))) \<subseteq> set vs" for node
    using parts(4) by auto
  have has: "has_version (replica_of ?s node) u \<longleftrightarrow> has_version (replica_of s node) u \<or> (node, u) \<in> set (st_pending s)"
    if "u \<in> set vs" for u node
    unfolding replica has_version_fold [OF parts(1,2) that sub] by force
  have "owners_of h ?s k = owners_of h s k" for k by (simp add: s' owners_of_def store_owners_def)
  moreover have "replica_ok vs (replica_of ?s node)" for node
    unfolding replica by (rule replica_ok_fold [OF parts(2) sub])
  ultimately have "store_ok h vs ?s"
    using ok has by (simp add: store_ok_def s')
  then show ?thesis by (simp add: s')
qed

lemma read_task_result:
  assumes ok: "store_ok h vs s"
  shows "\<exists>contacted. set contacted \<subseteq> set (owners_of h s key) \<and> distinct contacted \<and>
    int (length contacted) = qc_read_quorum (st_quorum s) \<and>
    read_task h key off s =
      Some (let heads = head_versions (visible_versions s contacted key)
        in if heads = [] then Inl (TaskNotFoundError (ring_key key))
           else Inr \<lparr>rr_owners = owners_of h s key, rr_contacted = contacted, rr_versions = heads\<rparr>)"
proof -
  let ?owners = "owners_of h s key"
  let ?start = "nat (off mod int (length ?owners))"
  let ?rotated = "drop ?start ?owners @ take ?start ?owners"
  let ?contacted = "take (nat (qc_read_quorum (st_quorum s))) ?rotated"
  note owners = store_ok_owners [OF ok, of key]
  have q: "1 \<le> qc_read_quorum (st_quorum s)" "qc_read_quorum (st_quorum s) \<le> qc_replica_count (st_quorum s)"
    using ok by (auto simp: store_ok_def quorum_ok_iff)
  have set: "set ?rotated = set ?owners"
    by (metis Un_commute append_take_drop_id set_append)
  have "distinct ?rotated" using owners(2)
    by (metis append_take_drop_id distinct_append inf_commute)
  then have "distinct ?contacted" by (rule distinct_take)
  moreover have "length ?rotated = length ?owners" by simp
  then have "length ?contacted = min (length ?owners) (nat (qc_read_quorum (st_quorum s)))"
    by (simp only: length_take)
  then have "int (length ?contacted) = qc_read_quorum (st_quorum s)"
    using owners(3) q by linarith
  moreover have "set ?contacted \<subseteq> set ?owners" using set set_take_subset by metis
  moreover have "read_task h key off s =
      Some (let heads = head_versions (visible_versions s ?contacted key)
        in if heads = [] then Inl (TaskNotFoundError (ring_key key))
           else Inr \<lparr>rr_owners = ?owners, rr_contacted = ?contacted, rr_versions = heads\<rparr>)"
    using owners(1) by (simp add: read_task_def Let_def)
  ultimately show ?thesis by blast
qed

lemma set_head_versions:
  "distinct (map tv_id vs) \<Longrightarrow> set (head_versions vs) = {v \<in> set vs. \<forall>u \<in> set vs. tv_id v \<notin> tv_parents u}"
  by (simp add: head_versions_distinct)

section \<open>Runs\<close>

datatype store_op = Write task_record "string list" | Replicate

text \<open>A write that raises leaves the store as it was, and the state has no step for a loop that does not end.\<close>

fun store_step :: "(string \<Rightarrow> int) \<Rightarrow> store_op \<Rightarrow> task_store \<Rightarrow> task_store" where
  "store_step h (Write rec observed) s = (case write_task h rec observed s of None \<Rightarrow> s | Some (r, s') \<Rightarrow> s')"
| "store_step h Replicate s = snd (replicate_pending s)"

lemma store_step_ok: "store_ok h vs s \<Longrightarrow> \<exists>ws. store_ok h ws (store_step h e s)"
proof (cases e)
  case (Write rec observed)
  assume ok: "store_ok h vs s"
  show ?thesis
  proof (cases "write_task h rec observed s")
    case None
    with ok Write show ?thesis by auto
  next
    case (Some p)
    obtain r s' where p: "p = (r, s')" by fastforce
    show ?thesis
    proof (cases r)
      case (Inl e)
      with Some p have "s' = s"
        by (auto simp: write_task_def Let_def split: option.splits sum.splits if_splits)
      with ok Some p Write show ?thesis by auto
    next
      case (Inr w)
      with write_task_ok [OF ok] Some p Write show ?thesis by fastforce
    qed
  qed
next
  case Replicate
  assume "store_ok h vs s"
  from replicate_pending_ok [OF this] Replicate show ?thesis by auto
qed

definition store_start :: "(string \<Rightarrow> int) \<Rightarrow> task_store \<Rightarrow> bool" where
  "store_start h s \<longleftrightarrow> (\<exists>node_ids q v. quorum_ok q \<and> new_task_store h node_ids q v = Inr s)"

interpretation stores: machine "store_start h" "store_step h" "\<lambda>s. \<exists>vs. store_ok h vs s" for h
  by unfold_locales (auto simp: store_start_def intro: new_task_store_ok store_step_ok)

definition store_reachable :: "(string \<Rightarrow> int) \<Rightarrow> task_store \<Rightarrow> bool" where
  "store_reachable h s \<longleftrightarrow> (\<exists>s0 es. store_start h s0 \<and> s = fold (store_step h) es s0)"

lemma store_reachable_ok: "store_reachable h s \<Longrightarrow> \<exists>vs. store_ok h vs s"
  unfolding store_reachable_def using stores.ok_run by blast

section \<open>Properties\<close>

text \<open>
  For any hash function and any ring the constructor accepts, owners_for_key always
  ends: it raises ValueError outside 1 to the number of nodes, and otherwise returns exactly count
  distinct nodes of the ring; the owners for a smaller count are the first of those for a larger one.
\<close>
theorem owners_distinct:
  assumes "new_ring h node_ids v = Inr ring"
  shows "(if 1 \<le> count \<and> count \<le> int (length node_ids)
     then \<exists>owners. owners_for_key h ring key count = Some (Inr owners) \<and> int (length owners) = count \<and>
       distinct owners \<and> set owners \<subseteq> set node_ids \<and>
       (\<forall>n. 1 \<le> n \<and> n \<le> count \<longrightarrow> owners_for_key h ring key n = Some (Inr (take (nat n) owners)))
     else \<exists>e. owners_for_key h ring key count = Some (Inl (ValueError e)))"
proof (cases "1 \<le> count \<and> count \<le> int (length node_ids)")
  case True
  note ok = new_ring_ok [OF assms]
  let ?order = "ring_order (hr_points ring) (bisect_right (map rp_point (hr_points ring)) (h key))"
  have take: "first_owners m ows ns = take m (first_owners k ows ns)" if "m \<le> k" "length ows \<le> m" for m k ows ns
    using that
  proof (induction k ows ns rule: first_owners.induct)
    case (2 k ows n ns)
    show ?case
    proof (cases "length ows < m")
      case True
      with 2 show ?thesis by (simp add: add_owner_def)
    next
      case False
      with 2(3) have "length ows = m" by simp
      moreover have "prefix ows (first_owners k ows ns)" for ows ns
        by (induction k ows ns rule: first_owners.induct) (auto simp: add_owner_def intro: append_prefixD)
      then have "prefix ows (first_owners k ows (n # ns))" .
      ultimately show ?thesis by (auto simp: prefix_def)
    qed
  qed simp
  from owners_for_key_result [of ring count h key] ok True obtain owners where
    o: "owners_for_key h ring key count = Some (Inr owners)" "int (length owners) = count" "distinct owners"
      "set owners \<subseteq> set node_ids" "owners = first_owners (nat count) [] ?order" by auto
  have "owners_for_key h ring key n = Some (Inr (take (nat n) owners))" if n: "1 \<le> n" "n \<le> count" for n
  proof -
    from owners_for_key_result [of ring n h key] ok True n
    have "owners_for_key h ring key n = Some (Inr (first_owners (nat n) [] ?order))" by auto
    with take [of "nat n" "nat count" "[]" ?order] n o(5) show ?thesis by (simp add: nat_mono)
  qed
  with True o show ?thesis by auto
next
  case False
  then show ?thesis using new_ring_ok [OF assms] by (auto simp: owners_for_key_def)
qed

text \<open>A small hash for the witnesses: the code points of the text, weighted by position.\<close>

definition text_hash :: "string \<Rightarrow> int" where
  "text_hash s = foldl (\<lambda>a c. (a * 31 + of_char c) mod 1009) 7 s"

definition example_ring :: hash_ring where
  "example_ring = projr (new_ring text_hash [''n1'', ''n2'', ''n3''] 4)"

lemma example_ring_new: "new_ring text_hash [''n1'', ''n2'', ''n3''] 4 = Inr example_ring"
  by (simp add: example_ring_def new_ring_def Let_def)

theorem owners_distinct_witness:
  "\<exists>owners. owners_for_key text_hash example_ring ''acme:t1'' 2 = Some (Inr owners) \<and> length owners = 2 \<and> distinct owners"
  using owners_distinct [OF example_ring_new, of 2 "''acme:t1''"] by auto

text \<open>
  Property C28.  Consistent hashing: when a node joins a ring, at whatever place of the node list, a
  key keeps its primary owner unless it moves to the new node; so a key whose primary is another node
  is unmoved, and the same holds backwards for a node that leaves.
\<close>
theorem join_moves_keys_to_new_node:
  assumes "new_ring h (nodes @ rest) v = Inr ring" "new_ring h (nodes @ n # rest) v = Inr larger"
  shows "\<exists>old new. owners_for_key h ring key 1 = Some (Inr [old]) \<and> owners_for_key h larger key 1 = Some (Inr [new]) \<and>
    (new = n \<or> new = old) \<and> old \<noteq> n"
proof -
  note r = new_ring_ok [OF assms(1)] and l = new_ring_ok [OF assms(2)]
  let ?new = "primary_node (hr_points larger) (h key)" and ?old = "primary_node (hr_points ring) (h key)"
  have n: "n \<notin> set (nodes @ rest)" using l by auto
  have nodes: "rp_node ` set (hr_points ring) = set (nodes @ rest)" using r by (auto simp: ring_ok_def)
  then have id: "filter (\<lambda>p. rp_node p \<noteq> n) (all_points h (nodes @ rest) v) = all_points h (nodes @ rest) v"
    using n r all_points_nodes [of v h "nodes @ rest"] by (auto simp: filter_id_conv)
  have points: "hr_points ring = filter (\<lambda>p. rp_node p \<noteq> n) (hr_points larger)"
    using r l n id all_points_without [of n nodes h rest v] by (simp add: filter_sort)
  have ne: "hr_points larger \<noteq> []" "hr_points ring \<noteq> []" using l r by (auto simp: ring_ok_def)
  have "?new = ?old" if "?new \<noteq> n"
    using primary_node_filter [OF that refl ne(1)] points by simp
  moreover have "?old \<in> rp_node ` set (hr_points ring)"
    using ne(2) hd_in_set [of "filter (\<lambda>p. h key < rp_point p) (hr_points ring) @ hr_points ring"]
    by (auto simp: primary_node_def)
  ultimately show ?thesis
    using owners_for_key_one [OF assms(1)] owners_for_key_one [OF assms(2)] nodes n by auto
qed

theorem join_moves_keys_to_new_node_witness:
  "owners_for_key text_hash example_ring ''acme:t1'' 1 = Some (Inr [''n1'']) \<or>
   (\<exists>smaller old. new_ring text_hash [''n2'', ''n3''] 4 = Inr smaller \<and> old \<noteq> ''n1'' \<and>
     owners_for_key text_hash smaller ''acme:t1'' 1 = Some (Inr [old]) \<and>
     owners_for_key text_hash example_ring ''acme:t1'' 1 = Some (Inr [old]))"
proof -
  obtain smaller where s: "new_ring text_hash ([] @ [''n2'', ''n3'']) 4 = Inr smaller"
    by (simp add: new_ring_def Let_def)
  have l: "new_ring text_hash ([] @ ''n1'' # [''n2'', ''n3'']) 4 = Inr example_ring"
    using example_ring_new by simp
  from join_moves_keys_to_new_node [OF s l, of "''acme:t1''"] s show ?thesis by auto
qed

lemma read_visible:
  assumes ok: "store_ok h vs s" and c: "set contacted \<subseteq> set (owners_of h s key)"
  shows "set (head_versions (visible_versions s contacted key)) =
    {v \<in> set (visible_versions s contacted key). \<forall>u \<in> set (visible_versions s contacted key). tv_id v \<notin> tv_parents u}"
    and "set (visible_versions s contacted key) =
      {v \<in> set vs. tr_key (tv_record v) = key \<and> (\<exists>node \<in> set contacted. has_version (replica_of s node) v)}"
    and "distinct (map tv_id (visible_versions s contacted key))"
proof -
  have "log_ok vs" "\<And>node. replica_ok vs (replica_of s node)" using ok by (auto simp: store_ok_def)
  from visible_versions_set [OF this]
  show v: "set (visible_versions s contacted key) =
      {v \<in> set vs. tr_key (tv_record v) = key \<and> (\<exists>node \<in> set contacted. has_version (replica_of s node) v)}"
    and d: "distinct (map tv_id (visible_versions s contacted key))" by auto
  from set_head_versions [OF d] show "set (head_versions (visible_versions s contacted key)) =
    {v \<in> set (visible_versions s contacted key). \<forall>u \<in> set (visible_versions s contacted key). tv_id v \<notin> tv_parents u}" .
qed

text \<open>
  Property C9.  Read your writes under overlapping quorums: in any reachable store whose read and
  write quorums add up to more than the replica count, a read of the key right after a write returns,
  from any slice of the replicas, the version just written as one of the heads.
\<close>
theorem quorum_read_sees_write:
  assumes "store_reachable h s" "write_task h rec observed s = Some (Inr w, s')"
    and "qc_replica_count (st_quorum s) < qc_read_quorum (st_quorum s) + qc_write_quorum (st_quorum s)"
  shows "\<exists>r. read_task h (tr_key rec) offset s' = Some (Inr r) \<and> wr_version w \<in> set (rr_versions r) \<and>
    set (rr_contacted r) \<inter> set (wr_acknowledged_by w) \<noteq> {}"
proof -
  let ?v = "written s rec observed" and ?key = "tr_key rec"
  from store_reachable_ok [OF assms(1)] obtain vs where ok: "store_ok h vs s" by blast
  from write_task_ok [OF ok assms(2)] have ok': "store_ok h (vs @ [?v]) s'" and w: "wr_version w = ?v"
      "st_quorum s' = st_quorum s" "wr_owners w = owners_of h s ?key"
      "wr_acknowledged_by w = take (nat (qc_write_quorum (st_quorum s))) (wr_owners w)"
      "\<forall>node \<in> set (wr_acknowledged_by w). has_version (replica_of s' node) ?v"
    and ring: "st_ring s' = st_ring s" by auto
  have same: "owners_of h s' ?key = owners_of h s ?key" using ring w(2) by (simp add: owners_of_def store_owners_def)
  let ?owners = "owners_of h s ?key"
  note owners = store_ok_owners [OF ok, of ?key]
  from read_task_result [OF ok', of ?key offset] obtain contacted where
    c: "set contacted \<subseteq> set ?owners" "distinct contacted" "int (length contacted) = qc_read_quorum (st_quorum s)"
      "read_task h ?key offset s' = Some (let heads = head_versions (visible_versions s' contacted ?key)
        in if heads = [] then Inl (TaskNotFoundError (ring_key ?key))
           else Inr \<lparr>rr_owners = ?owners, rr_contacted = contacted, rr_versions = heads\<rparr>)"
    unfolding same w(2) by blast
  have wq: "1 \<le> qc_write_quorum (st_quorum s)" "qc_write_quorum (st_quorum s) \<le> qc_replica_count (st_quorum s)"
    using ok by (auto simp: store_ok_def quorum_ok_iff)
  have ack: "set (wr_acknowledged_by w) \<subseteq> set ?owners" "distinct (wr_acknowledged_by w)"
      "int (length (wr_acknowledged_by w)) = qc_write_quorum (st_quorum s)"
    using owners wq w(3,4) by (auto dest: in_set_takeD)
  have meet: "set contacted \<inter> set (wr_acknowledged_by w) \<noteq> {}"
  proof (rule quorums_meet [of "set ?owners"])
    show "card (set ?owners) < card (set contacted) + card (set (wr_acknowledged_by w))"
      using assms(3) owners(2,3) c(2,3) ack(2,3) by (simp add: distinct_card)
  qed (use c(1) ack(1) in auto)
  then obtain node where node: "node \<in> set contacted" "has_version (replica_of s' node) ?v" using w(5) by blast
  note vis = read_visible [OF ok', of contacted ?key, unfolded same, OF c(1)]
  have visible: "?v \<in> set (visible_versions s' contacted ?key)"
    unfolding vis(2) using node by (auto simp: written_def)
  moreover have "tv_id ?v \<notin> tv_parents u" if "u \<in> set (visible_versions s' contacted ?key)" for u
  proof -
    from that vis(2) have "u \<in> set (vs @ [?v])" by blast
    then obtain i where i: "i < length (vs @ [?v])" "u = (vs @ [?v]) ! i" by (metis in_set_conv_nth)
    have "log_ok (vs @ [?v])" "st_counter s = length vs + 1" using ok ok' by (auto simp: store_ok_def)
    with i have "tv_parents u \<subseteq> version_name ` {1..i}" "tv_id ?v = version_name (length vs + 1)" "i \<le> length vs"
      by (auto simp: log_ok_def written_def)
    then show ?thesis by auto
  qed
  ultimately have "?v \<in> set (head_versions (visible_versions s' contacted ?key))" unfolding vis(1) by blast
  moreover from this have "head_versions (visible_versions s' contacted ?key) \<noteq> []" by auto
  ultimately show ?thesis using c(4) w(1) meet by simp
qed

definition example_quorum :: quorum_config where
  "example_quorum = \<lparr>qc_replica_count = 3, qc_read_quorum = 2, qc_write_quorum = 2\<rparr>"

definition example_store :: task_store where
  "example_store = projr (new_task_store text_hash [''n1'', ''n2'', ''n3''] example_quorum 4)"

definition example_record :: task_record where
  "example_record = \<lparr>tr_key = \<lparr>tk_tenant = ''acme'', tk_task = ''t1''\<rparr>, tr_title = ''mail'', tr_status = QUEUED,
     tr_payload = [], tr_depends_on = []\<rparr>"

lemma example_store_start: "store_start text_hash example_store"
proof -
  have "quorum_ok example_quorum" by (simp add: quorum_ok_iff example_quorum_def)
  moreover have "new_task_store text_hash [''n1'', ''n2'', ''n3''] example_quorum 4 = Inr example_store"
    using example_ring_new by (simp add: example_store_def new_task_store_def example_quorum_def)
  ultimately show ?thesis unfolding store_start_def by blast
qed

lemma example_store_reachable: "store_reachable text_hash (fold (store_step text_hash) es example_store)"
  using example_store_start unfolding store_reachable_def by blast

theorem quorum_read_sees_write_witness:
  "\<exists>w s' r. write_task text_hash example_record [] example_store = Some (Inr w, s') \<and>
     read_task text_hash (tr_key example_record) 1 s' = Some (Inr r) \<and> wr_version w \<in> set (rr_versions r)"
proof -
  from stores.ok_start [OF example_store_start] obtain vs where ok: "store_ok text_hash vs example_store" by blast
  from store_ok_owners(1) [OF ok] obtain w s' where w: "write_task text_hash example_record [] example_store = Some (Inr w, s')"
    by (simp add: write_task_def Let_def)
  have "st_quorum example_store = example_quorum"
    by (simp add: example_store_def new_task_store_def example_ring_new example_quorum_def)
  then have "qc_replica_count (st_quorum example_store) < qc_read_quorum (st_quorum example_store) + qc_write_quorum (st_quorum example_store)"
    by (simp add: example_quorum_def)
  from quorum_read_sees_write [OF example_store_reachable [of "[]", simplified] w this, of 1] w
  show ?thesis by auto
qed

text \<open>
  Convergence: once the pending replications of a reachable store have been applied,
  none is left, and a read of any key from any slice of the replicas sees the same versions: exactly
  the heads over all replicas, or TaskNotFoundError when there are none.
\<close>
theorem replication_converges:
  assumes "store_reachable h s" "replicate_pending s = (n, s')"
  shows "n = pending_replication_count s \<and> pending_replication_count s' = 0 \<and>
    (\<exists>heads. read_all_replicas h key s' = Some (Inr heads) \<and>
       (if heads = [] then read_task h key offset s' = Some (Inl (TaskNotFoundError (ring_key key)))
        else \<exists>r. read_task h key offset s' = Some (Inr r) \<and> rr_versions r = heads))"
proof -
  from store_reachable_ok [OF assms(1)] obtain vs where ok: "store_ok h vs s" by blast
  from replicate_pending_ok [OF ok] assms(2) have ok': "store_ok h vs s'" and none: "st_pending s' = []" by auto
  let ?owners = "owners_of h s' key"
  from read_task_result [OF ok', of key offset] obtain contacted where
    c: "set contacted \<subseteq> set ?owners" "int (length contacted) = qc_read_quorum (st_quorum s')"
      "read_task h key offset s' = Some (let heads = head_versions (visible_versions s' contacted key)
        in if heads = [] then Inl (TaskNotFoundError (ring_key key))
           else Inr \<lparr>rr_owners = ?owners, rr_contacted = contacted, rr_versions = heads\<rparr>)" by blast
  have "contacted \<noteq> []" using c(2) ok' by (auto simp: store_ok_def quorum_ok_iff)
  then obtain node where node: "node \<in> set contacted" by (cases contacted) auto
  have everywhere: "has_version (replica_of s' m) v"
    if "v \<in> set vs" "tr_key (tv_record v) = key" "m \<in> set ?owners" for v m
    using that ok' none by (auto simp: store_ok_def)
  have "set (visible_versions s' contacted key) = set (visible_versions s' ?owners key)"
    unfolding read_visible(2) [OF ok' c(1)] read_visible(2) [OF ok' subset_refl]
    using everywhere node c(1) by auto
  from head_versions_set [OF read_visible(3) [OF ok' c(1)] read_visible(3) [OF ok' subset_refl] this]
  have "head_versions (visible_versions s' contacted key) = head_versions (visible_versions s' ?owners key)" .
  moreover have "read_all_replicas h key s' = Some (Inr (head_versions (visible_versions s' ?owners key)))"
    using store_ok_owners(1) [OF ok', of key] by (simp add: read_all_replicas_def)
  moreover have "n = pending_replication_count s" "pending_replication_count s' = 0"
    using assms(2) none by (auto simp: replicate_pending_def Let_def pending_replication_count_def)
  ultimately show ?thesis using c(3) by (auto simp: Let_def)
qed

theorem replication_converges_witness:
  "\<exists>s n s' heads. store_reachable text_hash s \<and> replicate_pending s = (n, s') \<and> pending_replication_count s' = 0 \<and>
     read_all_replicas text_hash (tr_key example_record) s' = Some (Inr heads) \<and>
     (if heads = [] then read_task text_hash (tr_key example_record) 2 s' = Some (Inl (TaskNotFoundError ''acme:t1''))
      else \<exists>r. read_task text_hash (tr_key example_record) 2 s' = Some (Inr r) \<and> rr_versions r = heads)"
proof -
  define s where "s = fold (store_step text_hash) [Write example_record []] example_store"
  have reach: "store_reachable text_hash s" unfolding s_def by (rule example_store_reachable)
  obtain n s' where r: "replicate_pending s = (n, s')" by fastforce
  have "ring_key (tr_key example_record) = ''acme:t1''" by (simp add: ring_key_def example_record_def)
  with replication_converges [OF reach r, of "tr_key example_record" 2] obtain heads where
    "pending_replication_count s' = 0" "read_all_replicas text_hash (tr_key example_record) s' = Some (Inr heads)"
    "if heads = [] then read_task text_hash (tr_key example_record) 2 s' = Some (Inl (TaskNotFoundError ''acme:t1''))
      else \<exists>r. read_task text_hash (tr_key example_record) 2 s' = Some (Inr r) \<and> rr_versions r = heads"
    by metis
  with reach r show ?thesis by blast
qed

end
