(* ===== verification/FramedProtocol.thy ===== *)
theory FramedProtocol
  imports Prelude "HOL-Library.Word"
begin

text \<open>
  Lab 16, \<open>lab_16_framed_protocol/framing.py\<close>: frames with a 4-byte big-endian length, the bounded
  ring buffer and the incremental reader on it.  A byte is an 8-bit word, bytes-like objects are lists
  of bytes; the indices of the ring buffer, never negative, are natural numbers, and the sizes a
  caller passes are integers.
\<close>

section \<open>Bytes\<close>

type_synonym byte = "8 word"

definition HEADER_SIZE :: nat where
  "HEADER_SIZE = 4"

definition MAX_FRAME_SIZE :: int where
  "MAX_FRAME_SIZE = 1024 * 1024"

text \<open>\<open>n.to_bytes(4, "big")\<close> raises OverflowError when \<open>n\<close> needs found bytes.\<close>

definition to_bytes4 :: "nat \<Rightarrow> byte list res" where
  "to_bytes4 n =
     (if n < 2 ^ 32 then Inr [of_nat (n div 2 ^ 24), of_nat (n div 2 ^ 16), of_nat (n div 2 ^ 8), of_nat n]
      else Inl (OverflowError ''int too big to convert''))"

definition from_bytes :: "byte list \<Rightarrow> nat" where
  "from_bytes bs = foldl (\<lambda>a b. a * 256 + unat b) 0 bs"

text \<open>Python slices with bounds in order: reading \<open>xs[i:j]\<close> and assigning \<open>xs[i:j] = ys\<close>.\<close>

definition slice :: "nat \<Rightarrow> nat \<Rightarrow> 'a list \<Rightarrow> 'a list" where
  "slice i j xs = take (j - i) (drop i xs)"

definition set_slice :: "nat \<Rightarrow> nat \<Rightarrow> 'a list \<Rightarrow> 'a list \<Rightarrow> 'a list" where
  "set_slice i j ys xs = take i xs @ ys @ drop j xs"

section \<open>The ring buffer\<close>

record ring_buffer =
  buf_storage :: "byte list"
  buf_head :: nat
  buf_size :: nat

definition new_ring_buffer :: "int \<Rightarrow> ring_buffer res" where
  "new_ring_buffer capacity =
     (if capacity < 1 then Inl (ValueError ''capacity must be positive'')
      else Inr \<lparr>buf_storage = replicate (nat capacity) 0, buf_head = 0, buf_size = 0\<rparr>)"

definition capacity :: "ring_buffer \<Rightarrow> nat" where
  "capacity b = length (buf_storage b)"

definition free :: "ring_buffer \<Rightarrow> nat" where
  "free b = capacity b - buf_size b"

definition buffer_write :: "byte list \<Rightarrow> ring_buffer \<Rightarrow> unit res \<times> ring_buffer" where
  "buffer_write raw b =
     (if free b < length raw
      then (Inl (BufferFullError (''write of '' @ show_nat (length raw) @ '' bytes exceeds '' @ show_nat (free b) @ '' bytes free'')), b)
      else
        let tail = (buf_head b + buf_size b) mod capacity b;
            first = min (length raw) (capacity b - tail);
            s1 = set_slice tail (tail + first) (take first raw) (buf_storage b);
            s2 = set_slice 0 (length raw - first) (drop first raw) s1
        in (Inr (), b\<lparr>buf_storage := s2, buf_size := buf_size b + length raw\<rparr>))"

definition buffer_peek :: "int \<Rightarrow> int \<Rightarrow> ring_buffer \<Rightarrow> byte list res" where
  "buffer_peek count offset b =
     (if count < 0 \<or> offset < 0 then Inl (ValueError ''size and offset must not be negative'')
      else if int (buf_size b) < offset + count
      then Inl (UnexpectedEOFError ''ring buffer does not contain requested bytes'')
      else
        let start = (buf_head b + nat offset) mod capacity b;
            first = min (nat count) (capacity b - start)
        in Inr (slice start (start + first) (buf_storage b) @ slice 0 (nat count - first) (buf_storage b)))"

definition buffer_read :: "int \<Rightarrow> ring_buffer \<Rightarrow> byte list res \<times> ring_buffer" where
  "buffer_read count b =
     (case buffer_peek count 0 b of
        Inl e \<Rightarrow> (Inl e, b)
      | Inr data \<Rightarrow>
          let head = (buf_head b + nat count) mod capacity b;
              size' = buf_size b - nat count
          in (Inr data, b\<lparr>buf_head := (if size' = 0 then 0 else head), buf_size := size'\<rparr>))"

section \<open>Frames\<close>

definition too_large :: "int \<Rightarrow> exn" where
  "too_large maximum = FrameTooLargeError (''frame exceeds maximum size of '' @ show_int maximum @ '' bytes'')"

definition encode_frame :: "int \<Rightarrow> byte list \<Rightarrow> byte list res" where
  "encode_frame maximum raw =
     (if maximum < int (length raw) then Inl (too_large maximum)
      else case to_bytes4 (length raw) of Inl e \<Rightarrow> Inl e | Inr header \<Rightarrow> Inr (header @ raw))"

definition parse_header :: "int \<Rightarrow> byte list \<Rightarrow> nat res" where
  "parse_header maximum raw =
     (if length raw < HEADER_SIZE then Inl (UnexpectedEOFError ''frame header requires 4 bytes'')
      else let payload_length = from_bytes (take HEADER_SIZE raw)
        in if maximum < int payload_length then Inl (too_large maximum) else Inr payload_length)"

definition decode_frame :: "int \<Rightarrow> byte list \<Rightarrow> byte list res" where
  "decode_frame maximum raw =
     (case parse_header maximum raw of
        Inl e \<Rightarrow> Inl e
      | Inr n \<Rightarrow>
          (let payload = drop HEADER_SIZE raw
           in if length payload \<noteq> n then Inl (UnexpectedEOFError ''stream ended mid-frame'') else Inr payload))"

text \<open>
  The writer is any object with a \<open>send\<close> method: its state and its \<open>send\<close>, which returns a count,
  are arguments.  A count beyond the frame empties it, as the slice does.
\<close>

function send_loop :: "('w \<Rightarrow> byte list \<Rightarrow> int \<times> 'w) \<Rightarrow> byte list \<Rightarrow> int \<Rightarrow> 'w \<Rightarrow> int res \<times> 'w" where
  "send_loop send [] total_sent w = (Inr total_sent, w)"
| "send_loop send (x # xs) total_sent w =
     (let (sent, w') = send w (x # xs)
      in if sent \<le> 0 then (Inl (ConnectionError ''writer made no forward progress''), w')
         else send_loop send (drop (nat sent) (x # xs)) (total_sent + sent) w')"
  by pat_completeness auto

termination
  by (relation "measure (\<lambda>(send, frame, total_sent, w). length frame)") auto

definition send_frame ::
    "('w \<Rightarrow> byte list \<Rightarrow> int \<times> 'w) \<Rightarrow> int \<Rightarrow> byte list \<Rightarrow> 'w \<Rightarrow> int res \<times> 'w" where
  "send_frame send maximum payload w =
     (case encode_frame maximum payload of
        Inl e \<Rightarrow> (Inl e, w)
      | Inr frame \<Rightarrow> send_loop send frame 0 w)"

section \<open>The incremental reader\<close>

record frame_reader =
  fr_maximum :: int
  fr_buffer :: ring_buffer

definition new_frame_reader :: "int \<Rightarrow> int option \<Rightarrow> frame_reader res" where
  "new_frame_reader maximum buffer_capacity =
     (let minimum_capacity = int HEADER_SIZE + maximum;
          actual_capacity = (case buffer_capacity of
              None \<Rightarrow> minimum_capacity | Some c \<Rightarrow> if c = 0 then minimum_capacity else c)
      in if actual_capacity < minimum_capacity
         then Inl (ValueError ''buffer capacity must hold one header and maximum-sized payload'')
         else case new_ring_buffer actual_capacity of
                Inl e \<Rightarrow> Inl e
              | Inr b \<Rightarrow> Inr \<lparr>fr_maximum = maximum, fr_buffer = b\<rparr>)"

lemma buffer_read_size: "buffer_read n b = (Inr x, b') \<Longrightarrow> buf_size b' = buf_size b - nat n"
  by (auto simp: buffer_read_def Let_def split: sum.splits)

text \<open>The loop of \<open>_drain_frames\<close>; the buffer keeps what was read from it when the loop raises.\<close>

function drain_loop :: "int \<Rightarrow> byte list list \<Rightarrow> ring_buffer \<Rightarrow> byte list list res \<times> ring_buffer" where
  "drain_loop maximum frames b =
     (if buf_size b < HEADER_SIZE then (Inr frames, b)
      else case buffer_peek (int HEADER_SIZE) 0 b of
        Inl e \<Rightarrow> (Inl e, b)
      | Inr raw \<Rightarrow>
          (case parse_header maximum raw of
             Inl e \<Rightarrow> (Inl e, b)
           | Inr n \<Rightarrow>
               if buf_size b < HEADER_SIZE + n then (Inr frames, b)
               else
                 case buffer_read (int HEADER_SIZE) b of
                   (Inl e, b1) \<Rightarrow> (Inl e, b1)
                 | (Inr header, b1) \<Rightarrow>
                     (case buffer_read (int n) b1 of
                        (Inl e, b2) \<Rightarrow> (Inl e, b2)
                      | (Inr payload, b2) \<Rightarrow> drain_loop maximum (frames @ [payload]) b2)))"
  by pat_completeness auto

termination
  by (relation "measure (\<lambda>(maximum, frames, b). buf_size b)")
    (auto simp: HEADER_SIZE_def dest!: sym [of "(Inr _, _)"] buffer_read_size)

declare drain_loop.simps [simp del]

definition drain_frames :: "frame_reader \<Rightarrow> byte list list res \<times> frame_reader" where
  "drain_frames r =
     (let (frames, b) = drain_loop (fr_maximum r) [] (fr_buffer r) in (frames, r\<lparr>fr_buffer := b\<rparr>))"

text \<open>The loop of \<open>feed\<close>; None when it does not end.\<close>

definition make_room :: "byte list list \<Rightarrow> frame_reader \<Rightarrow> byte list list res \<times> frame_reader" where
  "make_room frames r =
     (if free (fr_buffer r) \<noteq> 0 then (Inr frames, r)
      else case drain_frames r of
             (Inl e, r1) \<Rightarrow> (Inl e, r1)
           | (Inr drained, r1) \<Rightarrow>
               (if drained = [] then Inl (BufferFullError ''frame reader made no buffer progress'')
                else Inr (frames @ drained), r1))"

partial_function (option) feed_loop ::
    "byte list \<Rightarrow> byte list list \<Rightarrow> frame_reader \<Rightarrow> (byte list list res \<times> frame_reader) option" where
  "feed_loop remaining frames r =
     (if remaining = [] then Some (Inr frames, r)
      else case make_room frames r of
        (Inl e, r1) \<Rightarrow> Some (Inl e, r1)
      | (Inr frames1, r1) \<Rightarrow>
          (let accepted = min (length remaining) (free (fr_buffer r1))
           in case buffer_write (take accepted remaining) (fr_buffer r1) of
                (Inl e, b) \<Rightarrow> Some (Inl e, r1\<lparr>fr_buffer := b\<rparr>)
              | (Inr u, b) \<Rightarrow>
                  (case drain_frames (r1\<lparr>fr_buffer := b\<rparr>) of
                     (Inl e, r2) \<Rightarrow> Some (Inl e, r2)
                   | (Inr drained, r2) \<Rightarrow> feed_loop (drop accepted remaining) (frames1 @ drained) r2)))"

definition feed :: "byte list \<Rightarrow> frame_reader \<Rightarrow> (byte list list res \<times> frame_reader) option" where
  "feed chunk r = feed_loop chunk [] r"

definition finish :: "frame_reader \<Rightarrow> byte list list res \<times> frame_reader" where
  "finish r =
     (case drain_frames r of
        (Inl e, r1) \<Rightarrow> (Inl e, r1)
      | (Inr frames, r1) \<Rightarrow>
          (if buf_size (fr_buffer r1) \<noteq> 0 then Inl (UnexpectedEOFError ''stream ended mid-frame'') else Inr frames, r1))"

fun read_chunks_loop ::
    "byte list list \<Rightarrow> byte list list \<Rightarrow> frame_reader \<Rightarrow> (byte list list res \<times> frame_reader) option" where
  "read_chunks_loop [] frames r =
     (case finish r of
        (Inl e, r1) \<Rightarrow> Some (Inl e, r1)
      | (Inr found, r1) \<Rightarrow> Some (Inr (frames @ found), r1))"
| "read_chunks_loop (chunk # chunks) frames r =
     (case feed chunk r of
        None \<Rightarrow> None
      | Some (Inl e, r1) \<Rightarrow> Some (Inl e, r1)
      | Some (Inr found, r1) \<Rightarrow> read_chunks_loop chunks (frames @ found) r1)"

definition read_chunks :: "byte list list \<Rightarrow> frame_reader \<Rightarrow> (byte list list res \<times> frame_reader) option" where
  "read_chunks chunks r = read_chunks_loop chunks [] r"

section \<open>The ring buffer is a queue of bytes\<close>

definition buffer_ok :: "ring_buffer \<Rightarrow> bool" where
  "buffer_ok b \<longleftrightarrow> 0 < capacity b \<and> buf_head b < capacity b \<and> buf_size b \<le> capacity b"

definition contents :: "ring_buffer \<Rightarrow> byte list" where
  "contents b = map (\<lambda>i. buf_storage b ! ((buf_head b + i) mod capacity b)) [0..<buf_size b]"

lemma length_contents [simp]: "length (contents b) = buf_size b"
  by (simp add: contents_def)

lemma nth_set_slice:
  assumes "i \<le> j" "j \<le> length xs" "length ys = j - i" "p < length xs"
  shows "set_slice i j ys xs ! p = (if i \<le> p \<and> p < j then ys ! (p - i) else xs ! p)"
  using assms by (auto simp: set_slice_def nth_append min_def)

lemma length_set_slice: "i \<le> j \<Longrightarrow> j \<le> length xs \<Longrightarrow> length ys = j - i \<Longrightarrow> length (set_slice i j ys xs) = length xs"
  by (simp add: set_slice_def)

lemma wrap_index: "(start :: nat) < n \<Longrightarrow> i < n \<Longrightarrow> (start + i) mod n = (if start + i < n then start + i else start + i - n)"
  by (auto simp: le_mod_geq)

lemma buffer_write_result:
  assumes ok: "buffer_ok b" and fits: "length raw \<le> free b"
  shows "\<exists>b'. buffer_write raw b = (Inr (), b') \<and> buffer_ok b' \<and> contents b' = contents b @ raw \<and> capacity b' = capacity b"
proof -
  let ?n = "capacity b" and ?L = "length raw" and ?st = "buf_storage b"
  define tail where "tail = (buf_head b + buf_size b) mod ?n"
  define first where "first = min ?L (?n - tail)"
  let ?s1 = "set_slice tail (tail + first) (take first raw) ?st"
  let ?s2 = "set_slice 0 (?L - first) (drop first raw) ?s1"
  define b' where "b' = b\<lparr>buf_storage := ?s2, buf_size := buf_size b + ?L\<rparr>"
  have n: "0 < ?n" "length ?st = ?n" "buf_head b < ?n" "?L + buf_size b \<le> ?n"
    using ok fits by (auto simp: buffer_ok_def free_def capacity_def)
  have tail: "tail < ?n" "tail + first \<le> ?n" "first \<le> ?L" "?L - first \<le> ?n"
  proof -
    show lt: "tail < ?n" using n by (simp add: tail_def)
    then show "tail + first \<le> ?n" "first \<le> ?L" "?L - first \<le> ?n" using n(4) by (auto simp: first_def)
  qed
  have len1: "length ?s1 = ?n" using n tail by (simp add: length_set_slice)
  have len2: "length ?s2 = ?n" using len1 tail by (simp add: length_set_slice)
  have nth2: "?s2 ! p = (if p < ?L - first then raw ! (first + p) else if tail \<le> p \<and> p < tail + first then raw ! (p - tail) else ?st ! p)"
    if "p < ?n" for p
  proof -
    have "?s2 ! p = (if p < ?L - first then drop first raw ! p else ?s1 ! p)"
      using that len1 tail by (subst nth_set_slice) auto
    moreover have "?s1 ! p = (if tail \<le> p \<and> p < tail + first then take first raw ! (p - tail) else ?st ! p)"
      using that n tail by (subst nth_set_slice) auto
    ultimately show ?thesis using tail by auto
  qed
  have new: "?s2 ! ((tail + k) mod ?n) = raw ! k" if k: "k < ?L" for k
  proof (cases "k < first")
    case True
    with tail have "(tail + k) mod ?n = tail + k" by simp
    moreover have "\<not> tail + k < ?L - first" using True n(4) by (auto simp: first_def min_def split: if_splits)
    ultimately show ?thesis using True tail by (subst nth2) auto
  next
    case False
    with k have f: "first = ?n - tail" by (simp add: first_def min_def split: if_splits)
    have "k < ?n" using k n(4) by simp
    with False f tail have p: "(tail + k) mod ?n = k - first" by (subst wrap_index) auto
    have "k - first < ?L - first" "k - first < ?n" using k False \<open>k < ?n\<close> by auto
    with False show ?thesis unfolding p by (subst nth2) auto
  qed
  have old: "?s2 ! ((buf_head b + i) mod ?n) = ?st ! ((buf_head b + i) mod ?n)" if i: "i < buf_size b" for i
  proof -
    let ?p = "(buf_head b + i) mod ?n"
    have p: "?p < ?n" using n by simp
    have "?p \<noteq> (tail + k) mod ?n" if "k < ?L" for k
    proof
      assume "?p = (tail + k) mod ?n"
      then have "(buf_head b + i) mod ?n = (buf_head b + (buf_size b + k)) mod ?n" by (simp add: tail_def mod_simps add.assoc)
      moreover have "i < ?n" "buf_size b + k < ?n" using i that n(4) by auto
      ultimately have "i = buf_size b + k"
        using n(3) by (simp add: wrap_index split: if_splits)
      with i show False by simp
    qed
    then have hit: "\<forall>k < ?L. (tail + k) mod ?n \<noteq> ?p" by metis
    have "\<not> ?p < ?L - first"
    proof
      assume lt: "?p < ?L - first"
      then have f: "first = ?n - tail" by (simp add: first_def min_def split: if_splits)
      have "first + ?p < ?L" "first + ?p < ?n" using lt n(4) by auto
      then have "(tail + (first + ?p)) mod ?n = ?p" using f tail p by (subst wrap_index) auto
      with hit \<open>first + ?p < ?L\<close> show False by blast
    qed
    moreover have "\<not> (tail \<le> ?p \<and> ?p < tail + first)"
    proof
      assume "tail \<le> ?p \<and> ?p < tail + first"
      then have "?p - tail < ?L" "(tail + (?p - tail)) mod ?n = ?p" using p tail(3) by auto
      with hit show False by blast
    qed
    ultimately show ?thesis using nth2 [OF p] by presburger
  qed
  have "contents b' = contents b @ raw"
  proof (rule nth_equalityI)
    show "length (contents b') = length (contents b @ raw)" by (simp add: b'_def)
    fix i assume "i < length (contents b')"
    then have i: "i < buf_size b + ?L" by (simp add: b'_def)
    have cap: "capacity b' = ?n" using len2 by (simp add: b'_def capacity_def)
    show "contents b' ! i = (contents b @ raw) ! i"
    proof (cases "i < buf_size b")
      case True
      then show ?thesis using old [OF True] i cap by (simp add: contents_def b'_def nth_append)
    next
      case False
      have "(buf_head b + (buf_size b + k)) mod ?n = (tail + k) mod ?n" for k
        by (simp add: tail_def mod_simps add.assoc)
      from this [of "i - buf_size b"] False have "(buf_head b + i) mod ?n = (tail + (i - buf_size b)) mod ?n" by simp
      with False i new [of "i - buf_size b"] cap show ?thesis by (simp add: contents_def b'_def nth_append)
    qed
  qed
  moreover have "buffer_write raw b = (Inr (), b')"
    using fits by (simp add: buffer_write_def Let_def b'_def tail_def first_def)
  moreover have cap: "capacity b' = capacity b" using len2 by (simp add: b'_def capacity_def)
  moreover have "buffer_ok b'" using n(1,3,4) unfolding buffer_ok_def cap by (simp add: b'_def add.commute)
  ultimately show ?thesis by blast
qed

lemma buffer_peek_result:
  assumes ok: "buffer_ok b" and fits: "offset + count \<le> buf_size b"
  shows "buffer_peek (int count) (int offset) b = Inr (take count (drop offset (contents b)))"
proof -
  let ?n = "capacity b" and ?st = "buf_storage b"
  define start where "start = (buf_head b + offset) mod ?n"
  define first where "first = min count (?n - start)"
  have n: "0 < ?n" "length ?st = ?n" "buf_size b \<le> ?n" using ok by (auto simp: buffer_ok_def capacity_def)
  have start: "start < ?n" using n by (simp add: start_def)
  then have f: "first \<le> count" "start + first \<le> ?n" "count - first \<le> ?n" using fits n by (auto simp: first_def)
  have "slice start (start + first) ?st @ slice 0 (count - first) ?st = take count (drop offset (contents b))"
  proof (rule nth_equalityI)
    show "length (slice start (start + first) ?st @ slice 0 (count - first) ?st) = length (take count (drop offset (contents b)))"
      using f n fits by (simp add: slice_def)
    fix i assume "i < length (slice start (start + first) ?st @ slice 0 (count - first) ?st)"
    then have i: "i < count" using f n by (simp add: slice_def)
    have "(buf_head b + (offset + i)) mod ?n = (start + i) mod ?n" by (simp add: start_def mod_simps add.assoc)
    moreover have "(start + i) mod ?n = (if i < first then start + i else i - first)"
      using i start fits n(3) by (subst wrap_index) (auto simp: first_def)
    ultimately have "take count (drop offset (contents b)) ! i = ?st ! (if i < first then start + i else i - first)"
      using i fits by (simp add: contents_def add.assoc)
    then show "(slice start (start + first) ?st @ slice 0 (count - first) ?st) ! i = take count (drop offset (contents b)) ! i"
      using i f n by (simp add: slice_def nth_append)
  qed
  then show ?thesis using fits by (simp add: buffer_peek_def Let_def start_def first_def)
qed

lemma buffer_read_result:
  assumes ok: "buffer_ok b" and fits: "count \<le> buf_size b"
  shows "\<exists>b'. buffer_read (int count) b = (Inr (take count (contents b)), b') \<and> buffer_ok b' \<and>
    contents b' = drop count (contents b) \<and> capacity b' = capacity b"
proof -
  let ?head = "(buf_head b + count) mod capacity b"
  define b' where "b' = b\<lparr>buf_head := (if buf_size b - count = 0 then 0 else ?head), buf_size := buf_size b - count\<rparr>"
  have "buffer_peek (int count) 0 b = Inr (take count (contents b))"
    using buffer_peek_result [OF ok, of 0 count] fits by simp
  then have "buffer_read (int count) b = (Inr (take count (contents b)), b')"
    by (simp add: buffer_read_def b'_def Let_def)
  moreover have "contents b' = drop count (contents b)"
    by (rule nth_equalityI) (auto simp: contents_def b'_def capacity_def mod_simps add.assoc)
  moreover have "buffer_ok b'" "capacity b' = capacity b" using ok by (auto simp: buffer_ok_def b'_def capacity_def)
  ultimately show ?thesis by blast
qed

section \<open>The frames of a stream\<close>

text \<open>The reference: the complete frames at the front of a stream and what is left of it.\<close>

function split_frames :: "int \<Rightarrow> byte list \<Rightarrow> (byte list list \<times> byte list) res" where
  "split_frames maximum xs =
     (if length xs < HEADER_SIZE then Inr ([], xs)
      else case parse_header maximum (take HEADER_SIZE xs) of
        Inl e \<Rightarrow> Inl e
      | Inr n \<Rightarrow>
          if length xs < HEADER_SIZE + n then Inr ([], xs)
          else case split_frames maximum (drop (HEADER_SIZE + n) xs) of
            Inl e \<Rightarrow> Inl e
          | Inr (fs, rest) \<Rightarrow> Inr (take n (drop HEADER_SIZE xs) # fs, rest))"
  by pat_completeness auto

termination
  by (relation "measure (\<lambda>(maximum, xs). length xs)") (auto simp: HEADER_SIZE_def)

declare split_frames.simps [simp del]

lemma drain_loop_split:
  "buffer_ok b \<Longrightarrow>
   case split_frames maximum (contents b) of
     Inl e \<Rightarrow> fst (drain_loop maximum frames b) = Inl e
   | Inr (fs, rest) \<Rightarrow> \<exists>b'. drain_loop maximum frames b = (Inr (frames @ fs), b') \<and> buffer_ok b' \<and>
       contents b' = rest \<and> capacity b' = capacity b"
proof (induction maximum frames b rule: drain_loop.induct)
  case (1 maximum frames b)
  show ?case
  proof (cases "buf_size b < HEADER_SIZE")
    case True
    with "1.prems" show ?thesis
      by (simp add: drain_loop.simps [of maximum frames b] split_frames.simps [of maximum "contents b"])
  next
    case False
    have peek: "buffer_peek (int HEADER_SIZE) 0 b = Inr (take HEADER_SIZE (contents b))"
      using buffer_peek_result [OF "1.prems", of 0 HEADER_SIZE] False by simp
    show ?thesis
    proof (cases "parse_header maximum (take HEADER_SIZE (contents b))")
      case (Inl e)
      with False peek show ?thesis
        by (simp add: drain_loop.simps [of maximum frames b] split_frames.simps [of maximum "contents b"])
    next
      case (Inr n)
      show ?thesis
      proof (cases "buf_size b < HEADER_SIZE + n")
        case True
        with False peek Inr "1.prems" show ?thesis
          by (simp add: drain_loop.simps [of maximum frames b] split_frames.simps [of maximum "contents b"])
      next
        case enough: False
        from buffer_read_result [OF "1.prems", of HEADER_SIZE] False obtain b1 where
          b1: "buffer_read (int HEADER_SIZE) b = (Inr (take HEADER_SIZE (contents b)), b1)" "buffer_ok b1"
            "contents b1 = drop HEADER_SIZE (contents b)" "capacity b1 = capacity b" by auto
        then have "buf_size b1 = buf_size b - HEADER_SIZE" by (metis length_contents length_drop)
        with enough False have "n \<le> buf_size b1" by simp
        from buffer_read_result [OF b1(2) this] obtain b2 where
          b2: "buffer_read (int n) b1 = (Inr (take n (contents b1)), b2)" "buffer_ok b2"
            "contents b2 = drop n (contents b1)" "capacity b2 = capacity b1" by blast
        let ?p = "take n (drop HEADER_SIZE (contents b))"
        have run: "drain_loop maximum frames b = drain_loop maximum (frames @ [?p]) b2"
          using False peek Inr enough b1 b2 by (simp add: drain_loop.simps [of maximum frames b])
        have spec: "split_frames maximum (contents b) =
            (case split_frames maximum (contents b2) of Inl e \<Rightarrow> Inl e | Inr (fs, rest) \<Rightarrow> Inr (?p # fs, rest))"
          using False Inr enough b1(3) b2(3) by (simp add: split_frames.simps [of maximum "contents b"] add.commute)
        from "1.IH" [OF False peek Inr enough b1(1) [symmetric] refl b2(1) [symmetric] refl b2(2)] b1(3,4) b2(4)
        show ?thesis unfolding run spec by (auto split: sum.splits prod.splits)
      qed
    qed
  qed
qed

lemma split_frames_append:
  "case split_frames maximum xs of
     Inl e \<Rightarrow> split_frames maximum (xs @ ys) = Inl e
   | Inr (fs, rest) \<Rightarrow> split_frames maximum (xs @ ys) =
       (case split_frames maximum (rest @ ys) of Inl e \<Rightarrow> Inl e | Inr (gs, rest') \<Rightarrow> Inr (fs @ gs, rest'))"
proof (induction maximum xs rule: split_frames.induct)
  case (1 maximum xs)
  show ?case
  proof (cases "length xs < HEADER_SIZE")
    case True
    then show ?thesis by (simp add: split_frames.simps [of maximum xs] split: sum.splits)
  next
    case False
    then have header: "take HEADER_SIZE (xs @ ys) = take HEADER_SIZE xs" "\<not> length (xs @ ys) < HEADER_SIZE" by auto
    show ?thesis
    proof (cases "parse_header maximum (take HEADER_SIZE xs)")
      case (Inl e)
      with False header show ?thesis
        by (simp add: split_frames.simps [of maximum xs] split_frames.simps [of maximum "xs @ ys"])
    next
      case (Inr n)
      show ?thesis
      proof (cases "length xs < HEADER_SIZE + n")
        case True
        with False Inr show ?thesis by (simp add: split_frames.simps [of maximum xs] split: sum.splits)
      next
        case enough: False
        let ?rest = "drop (HEADER_SIZE + n) xs"
        have drop: "drop (HEADER_SIZE + n) (xs @ ys) = ?rest @ ys"
            "take n (drop HEADER_SIZE (xs @ ys)) = take n (drop HEADER_SIZE xs)" "\<not> length (xs @ ys) < HEADER_SIZE + n"
          using enough by auto
        have a: "split_frames maximum xs = (case split_frames maximum ?rest of Inl e \<Rightarrow> Inl e
            | Inr (fs, rest) \<Rightarrow> Inr (take n (drop HEADER_SIZE xs) # fs, rest))"
          using False Inr enough by (simp add: split_frames.simps [of maximum xs])
        have b: "split_frames maximum (xs @ ys) = (case split_frames maximum (?rest @ ys) of Inl e \<Rightarrow> Inl e
            | Inr (fs, rest) \<Rightarrow> Inr (take n (drop HEADER_SIZE xs) # fs, rest))"
          using header(2) Inr drop by (subst split_frames.simps) (simp only: header(1) if_False sum.case drop)
        from "1.IH" [OF False Inr enough] show ?thesis
          unfolding a b by (auto split: sum.splits prod.splits)
      qed
    qed
  qed
qed

lemma split_frames_rest:
  "split_frames maximum xs = Inr (fs, rest) \<Longrightarrow> 0 \<le> maximum \<Longrightarrow>
   split_frames maximum rest = Inr ([], rest) \<and> int (length rest) < int HEADER_SIZE + maximum"
proof (induction maximum xs arbitrary: fs rest rule: split_frames.induct)
  case (1 maximum xs)
  show ?case
  proof (cases "length xs < HEADER_SIZE")
    case True
    then have "split_frames maximum xs = Inr ([], xs)" by (simp add: split_frames.simps [of maximum xs])
    with True "1.prems" show ?thesis by auto
  next
    case False
    with "1.prems" obtain n where n: "parse_header maximum (take HEADER_SIZE xs) = Inr n"
      by (auto simp: split_frames.simps [of maximum xs] split: sum.splits)
    show ?thesis
    proof (cases "length xs < HEADER_SIZE + n")
      case True
      moreover have "int n \<le> maximum" using n by (auto simp: parse_header_def Let_def split: if_splits)
      moreover have "split_frames maximum xs = Inr ([], xs)" using False n True by (simp add: split_frames.simps [of maximum xs])
      ultimately show ?thesis using "1.prems" by auto
    next
      case enough: False
      with "1.prems"(1) False n obtain gs where "split_frames maximum (drop (HEADER_SIZE + n) xs) = Inr (gs, rest)"
        by (auto simp: split_frames.simps [of maximum xs] split: sum.splits prod.splits)
      from "1.IH" [OF False n enough this "1.prems"(2)] show ?thesis .
    qed
  qed
qed

section \<open>The reader\<close>

definition reader_ok :: "frame_reader \<Rightarrow> bool" where
  "reader_ok r \<longleftrightarrow> buffer_ok (fr_buffer r) \<and> 0 \<le> fr_maximum r \<and>
     int HEADER_SIZE + fr_maximum r \<le> int (capacity (fr_buffer r)) \<and>
     split_frames (fr_maximum r) (contents (fr_buffer r)) = Inr ([], contents (fr_buffer r))"

lemma new_frame_reader_ok:
  assumes "new_frame_reader maximum c = Inr r" "0 \<le> maximum"
  shows "reader_ok r \<and> contents (fr_buffer r) = [] \<and> fr_maximum r = maximum"
proof -
  from assms(1) obtain cap b where b: "new_ring_buffer cap = Inr b" "int HEADER_SIZE + maximum \<le> cap"
      "r = \<lparr>fr_maximum = maximum, fr_buffer = b\<rparr>"
    by (auto simp: new_frame_reader_def Let_def split: if_splits sum.splits option.splits)
  then have "b = \<lparr>buf_storage = replicate (nat cap) 0, buf_head = 0, buf_size = 0\<rparr>" "1 \<le> cap"
    by (auto simp: new_ring_buffer_def split: if_splits)
  with b assms(2) show ?thesis
    by (auto simp: reader_ok_def buffer_ok_def capacity_def contents_def split_frames.simps [of maximum "[]"] HEADER_SIZE_def)
qed

lemma drain_frames_split:
  assumes "buffer_ok (fr_buffer r)"
  shows "case split_frames (fr_maximum r) (contents (fr_buffer r)) of
     Inl e \<Rightarrow> fst (drain_frames r) = Inl e
   | Inr (fs, rest) \<Rightarrow> \<exists>r'. drain_frames r = (Inr fs, r') \<and> buffer_ok (fr_buffer r') \<and> contents (fr_buffer r') = rest \<and>
       capacity (fr_buffer r') = capacity (fr_buffer r) \<and> fr_maximum r' = fr_maximum r"
  using drain_loop_split [OF assms, of "fr_maximum r" "[]"]
  by (auto simp: drain_frames_def split: sum.splits prod.splits)

lemma feed_loop_split:
  "reader_ok r \<Longrightarrow>
   case split_frames (fr_maximum r) (contents (fr_buffer r) @ remaining) of
     Inl e \<Rightarrow> \<exists>r'. feed_loop remaining frames r = Some (Inl e, r')
   | Inr (fs, rest) \<Rightarrow> \<exists>r'. feed_loop remaining frames r = Some (Inr (frames @ fs), r') \<and> reader_ok r' \<and>
       contents (fr_buffer r') = rest \<and> fr_maximum r' = fr_maximum r"
proof (induction "length remaining" arbitrary: remaining frames r rule: less_induct)
  case less
  let ?b = "fr_buffer r" and ?m = "fr_maximum r"
  have ok: "buffer_ok ?b" "0 \<le> ?m" "int HEADER_SIZE + ?m \<le> int (capacity ?b)"
      "split_frames ?m (contents ?b) = Inr ([], contents ?b)"
    using less.prems by (auto simp: reader_ok_def)
  show ?case
  proof (cases "remaining = []")
    case True
    then have "feed_loop remaining frames r = Some (Inr frames, r)" by (simp add: feed_loop.simps)
    with True ok less.prems show ?thesis by simp
  next
    case False
    define k where "k = min (length remaining) (free ?b)"
    have "int (buf_size ?b) < int (capacity ?b)" using split_frames_rest [OF ok(4,2)] ok(3) by simp
    then have free: "0 < free ?b" by (simp add: free_def)
    then have k: "0 < k" "k \<le> length remaining" "length (take k remaining) \<le> free ?b" using False by (auto simp: k_def)
    have room: "make_room frames r = (Inr frames, r)" using free by (simp add: make_room_def)
    from buffer_write_result [OF ok(1) k(3)] obtain b1 where
      b1: "buffer_write (take k remaining) ?b = (Inr (), b1)" "buffer_ok b1" "contents b1 = contents ?b @ take k remaining"
        "capacity b1 = capacity ?b" by blast
    let ?r1 = "r\<lparr>fr_buffer := b1\<rparr>"
    have step: "feed_loop remaining frames r = (case drain_frames ?r1 of (Inl e, r2) \<Rightarrow> Some (Inl e, r2)
        | (Inr drained, r2) \<Rightarrow> feed_loop (drop k remaining) (frames @ drained) r2)"
      using False room b1(1) by (subst feed_loop.simps) (simp add: Let_def split: sum.split prod.split flip: k_def)
    have whole: "contents ?b @ remaining = contents b1 @ drop k remaining" by (simp add: b1(3))
    note append = split_frames_append [of ?m "contents b1" "drop k remaining", folded whole]
    show ?thesis
    proof (cases "split_frames ?m (contents b1)")
      case (Inl e)
      with append drain_frames_split [of ?r1] b1(2) show ?thesis
        by (cases "drain_frames ?r1") (simp add: step)
    next
      case (Inr p)
      obtain fs rest where p: "split_frames ?m (contents b1) = Inr (fs, rest)" using Inr by (cases p) auto
      with drain_frames_split [of ?r1] b1(2,4) obtain r2 where
        r2: "drain_frames ?r1 = (Inr fs, r2)" "buffer_ok (fr_buffer r2)" "contents (fr_buffer r2) = rest"
          "capacity (fr_buffer r2) = capacity ?b" "fr_maximum r2 = ?m" by auto
      have "reader_ok r2"
        using split_frames_rest [OF p ok(2)] r2 ok(2,3) by (simp add: reader_ok_def)
      moreover have "length (drop k remaining) < length remaining" using k by simp
      ultimately have ih: "case split_frames ?m (rest @ drop k remaining) of
           Inl e \<Rightarrow> \<exists>r'. feed_loop (drop k remaining) (frames @ fs) r2 = Some (Inl e, r')
         | Inr (gs, rest') \<Rightarrow> \<exists>r'. feed_loop (drop k remaining) (frames @ fs) r2 = Some (Inr ((frames @ fs) @ gs), r') \<and>
             reader_ok r' \<and> contents (fr_buffer r') = rest' \<and> fr_maximum r' = ?m"
        using less.hyps [of "drop k remaining" r2 "frames @ fs"] unfolding r2(3,5) by blast
      have "feed_loop remaining frames r = feed_loop (drop k remaining) (frames @ fs) r2" by (simp add: step r2(1))
      with append p ih show ?thesis by (auto split: sum.splits prod.splits)
    qed
  qed
qed

lemma read_chunks_loop_split:
  "reader_ok r \<Longrightarrow>
   case split_frames (fr_maximum r) (contents (fr_buffer r) @ concat chunks) of
     Inl e \<Rightarrow> \<exists>r'. read_chunks_loop chunks frames r = Some (Inl e, r')
   | Inr (fs, rest) \<Rightarrow> \<exists>r'. read_chunks_loop chunks frames r =
       Some (if rest = [] then Inr (frames @ fs) else Inl (UnexpectedEOFError ''stream ended mid-frame''), r')"
proof (induction chunks arbitrary: frames r)
  case Nil
  then have "split_frames (fr_maximum r) (contents (fr_buffer r)) = Inr ([], contents (fr_buffer r))" "buffer_ok (fr_buffer r)"
    by (auto simp: reader_ok_def)
  with drain_frames_split [of r] obtain r' where
    r': "drain_frames r = (Inr [], r')" "contents (fr_buffer r') = contents (fr_buffer r)" by auto
  then have "buf_size (fr_buffer r') = 0 \<longleftrightarrow> contents (fr_buffer r) = []"
    by (metis length_0_conv length_contents)
  with r'(1) \<open>split_frames _ _ = _\<close> show ?case by (simp add: finish_def)
next
  case (Cons chunk chunks)
  let ?m = "fr_maximum r" and ?c = "contents (fr_buffer r)"
  note append = split_frames_append [of ?m "?c @ chunk" "concat chunks"]
  show ?case
  proof (cases "split_frames ?m (?c @ chunk)")
    case (Inl e)
    with feed_loop_split [OF Cons.prems, of chunk "[]"] append show ?thesis by (auto simp: feed_def)
  next
    case (Inr p)
    obtain fs rest where p: "split_frames ?m (?c @ chunk) = Inr (fs, rest)" using Inr by (cases p) auto
    with feed_loop_split [OF Cons.prems, of chunk "[]"] obtain r' where
      r': "feed chunk r = Some (Inr fs, r')" "reader_ok r'" "contents (fr_buffer r') = rest" "fr_maximum r' = ?m"
      by (auto simp: feed_def)
    from Cons.IH [OF r'(2), of "frames @ fs"] append p r' show ?thesis
      by (auto split: sum.splits prod.splits)
  qed
qed

section \<open>Encoding\<close>

lemma unat_byte: "unat (of_nat n :: byte) = n mod 256"
  by (simp add: unat_of_nat take_bit_eq_mod)

lemma to_bytes4_from_bytes:
  assumes "to_bytes4 n = Inr header"
  shows "length header = 4 \<and> from_bytes header = n"
proof -
  from assms have n: "n < 2 ^ 32"
    and h: "header = [of_nat (n div 2 ^ 24), of_nat (n div 2 ^ 16), of_nat (n div 2 ^ 8), of_nat n]"
    by (auto simp: to_bytes4_def split: if_splits)
  have "n div 16777216 mod 256 = n div 16777216" using n by simp
  moreover have "n div 65536 = n div 16777216 * 256 + n div 65536 mod 256"
    using div_mult_mod_eq [of "n div 65536" 256] by (simp add: div_mult2_eq [symmetric])
  moreover have "n div 256 = n div 65536 * 256 + n div 256 mod 256"
    using div_mult_mod_eq [of "n div 256" 256] by (simp add: div_mult2_eq [symmetric])
  moreover have "n = n div 256 * 256 + n mod 256" by simp
  moreover have "x3 mod 256 = x3 \<Longrightarrow> x2 = x3 * 256 + m2 \<Longrightarrow> x1 = x2 * 256 + m1 \<Longrightarrow> n = x1 * 256 + m0 \<Longrightarrow>
      ((x3 mod 256 * 256 + m2) * 256 + m1) * 256 + m0 = n" for x1 x2 x3 m0 m1 m2 :: nat
    by simp
  ultimately have sum: "((n div 16777216 mod 256 * 256 + n div 65536 mod 256) * 256 + n div 256 mod 256) * 256 + n mod 256 = n"
    by blast
  have "from_bytes header = ((n div 16777216 mod 256 * 256 + n div 65536 mod 256) * 256 + n div 256 mod 256) * 256 + n mod 256"
    by (simp add: h from_bytes_def unat_byte)
  from trans [OF this sum] show ?thesis by (simp add: h)
qed

lemma encode_frame_parts:
  assumes "encode_frame maximum raw = Inr frame"
  shows "\<exists>header. frame = header @ raw \<and> length header = HEADER_SIZE \<and> from_bytes header = length raw \<and>
    int (length raw) \<le> maximum"
  using assms to_bytes4_from_bytes [of "length raw"]
  by (auto simp: encode_frame_def HEADER_SIZE_def split: if_splits sum.splits)

lemma split_frames_encode:
  assumes "encode_frame maximum raw = Inr frame"
  shows "split_frames maximum (frame @ rest) =
    (case split_frames maximum rest of Inl e \<Rightarrow> Inl e | Inr (fs, rest') \<Rightarrow> Inr (raw # fs, rest'))"
proof -
  from encode_frame_parts [OF assms] obtain header where
    h: "frame = header @ raw" "length header = HEADER_SIZE" "from_bytes header = length raw" "int (length raw) \<le> maximum"
    by blast
  then have "parse_header maximum (take HEADER_SIZE (frame @ rest)) = Inr (length raw)"
    by (simp add: parse_header_def Let_def)
  with h show ?thesis unfolding h(1) by (subst split_frames.simps) (simp split: sum.split prod.split)
qed

lemma split_frames_encoded:
  "list_all2 (\<lambda>raw frame. encode_frame maximum raw = Inr frame) payloads frames \<Longrightarrow>
   split_frames maximum (concat frames) = Inr (payloads, [])"
proof (induction payloads frames rule: list_all2_induct)
  case Nil
  show ?case by (simp add: split_frames.simps [of maximum "[]"] HEADER_SIZE_def)
next
  case (Cons raw raws frame frames)
  then show ?case using split_frames_encode [of maximum raw frame "concat frames"] by simp
qed

section \<open>Properties\<close>

text \<open>
  The ring buffer is a bounded queue of bytes, wherever its content wraps around: write
  appends or raises BufferFullError without a change, peek returns the bytes at an offset, read
  removes them from the front, and a request beyond the content raises UnexpectedEOFError.
\<close>
theorem ring_buffer_is_byte_queue:
  assumes "buffer_ok b" "0 \<le> count" "0 \<le> offset"
  shows "(if length (contents b) + length raw \<le> capacity b
     then \<exists>b'. buffer_write raw b = (Inr (), b') \<and> buffer_ok b' \<and> contents b' = contents b @ raw \<and> capacity b' = capacity b
     else \<exists>text. buffer_write raw b = (Inl (BufferFullError text), b)) \<and>
    buffer_peek count offset b =
      (if offset + count \<le> int (length (contents b)) then Inr (take (nat count) (drop (nat offset) (contents b)))
       else Inl (UnexpectedEOFError ''ring buffer does not contain requested bytes'')) \<and>
    (if count \<le> int (length (contents b))
     then \<exists>b'. buffer_read count b = (Inr (take (nat count) (contents b)), b') \<and> buffer_ok b' \<and>
        contents b' = drop (nat count) (contents b) \<and> capacity b' = capacity b
     else \<exists>e. buffer_read count b = (Inl e, b))"
proof (intro conjI)
  show "if length (contents b) + length raw \<le> capacity b
     then \<exists>b'. buffer_write raw b = (Inr (), b') \<and> buffer_ok b' \<and> contents b' = contents b @ raw \<and> capacity b' = capacity b
     else \<exists>text. buffer_write raw b = (Inl (BufferFullError text), b)"
    using buffer_write_result [OF assms(1), of raw] assms(1) by (auto simp: buffer_write_def free_def buffer_ok_def)
  show peek: "buffer_peek count offset b =
      (if offset + count \<le> int (length (contents b)) then Inr (take (nat count) (drop (nat offset) (contents b)))
       else Inl (UnexpectedEOFError ''ring buffer does not contain requested bytes''))"
    using buffer_peek_result [OF assms(1), of "nat offset" "nat count"] assms(2,3)
    by (auto simp: buffer_peek_def) 
  show "if count \<le> int (length (contents b))
     then \<exists>b'. buffer_read count b = (Inr (take (nat count) (contents b)), b') \<and> buffer_ok b' \<and>
        contents b' = drop (nat count) (contents b) \<and> capacity b' = capacity b
     else \<exists>e. buffer_read count b = (Inl e, b)"
    using buffer_read_result [OF assms(1), of "nat count"] assms(2)
    by (auto simp: buffer_read_def buffer_peek_def)
qed

definition example_buffer :: ring_buffer where
  "example_buffer = snd (buffer_write [4, 5, 6] (snd (buffer_read 2 (snd (buffer_write [1, 2, 3] (projr (new_ring_buffer 5)))))))"

theorem ring_buffer_is_byte_queue_witness:
  "contents example_buffer = [3, 4, 5, 6] \<and> buf_storage example_buffer = [6, 2, 3, 4, 5] \<and>
   buffer_peek 3 1 example_buffer = Inr [4, 5, 6]"
proof -
  have c: "contents example_buffer = [3, 4, 5, 6]" "buf_storage example_buffer = [6, 2, 3, 4, 5]" by code_simp+
  have "buffer_ok example_buffer" unfolding buffer_ok_def by code_simp
  from ring_buffer_is_byte_queue [OF this, of 3 1] c show ?thesis by simp
qed

text \<open>
  Property C5.  Framing round-trips under any chunking: whatever payloads encode_frame accepts, and
  however the concatenated frames are cut into chunks, a new reader's read_chunks ends and returns
  exactly the payloads; a single frame decodes to its payload.
\<close>
theorem framing_roundtrip:
  assumes "new_frame_reader maximum buffer_capacity = Inr r" "0 \<le> maximum"
    and "list_all2 (\<lambda>raw frame. encode_frame maximum raw = Inr frame) payloads frames"
    and "concat chunks = concat frames"
  shows "(\<exists>r'. read_chunks chunks r = Some (Inr payloads, r')) \<and>
    list_all2 (\<lambda>raw frame. decode_frame maximum frame = Inr raw) payloads frames"
proof -
  from new_frame_reader_ok [OF assms(1,2)] have r: "reader_ok r" "contents (fr_buffer r) = []" "fr_maximum r = maximum" by auto
  from read_chunks_loop_split [OF r(1), of chunks "[]"] split_frames_encoded [OF assms(3)] r assms(4)
  have "\<exists>r'. read_chunks chunks r = Some (Inr payloads, r')" by (simp add: read_chunks_def)
  moreover have "decode_frame maximum frame = Inr raw" if "encode_frame maximum raw = Inr frame" for raw frame
    using encode_frame_parts [OF that] by (auto simp: decode_frame_def parse_header_def Let_def)
  with assms(3) have "list_all2 (\<lambda>raw frame. decode_frame maximum frame = Inr raw) payloads frames"
    by (auto elim: list_all2_mono)
  ultimately show ?thesis by blast
qed

definition example_reader :: frame_reader where
  "example_reader = projr (new_frame_reader 6 None)"

theorem framing_roundtrip_witness:
  "encode_frame 6 [9, 8, 7] = Inr [0, 0, 0, 3, 9, 8, 7] \<and>
   (\<exists>r'. read_chunks [[0, 0], [0, 3, 9], [8, 7, 0, 0, 0, 0]] example_reader = Some (Inr [[9, 8, 7], []], r'))"
proof -
  have e: "encode_frame 6 [9, 8, 7] = Inr [0, 0, 0, 3, 9, 8, 7]" "encode_frame 6 [] = Inr [0, 0, 0, 0]"
    by (simp_all add: encode_frame_def to_bytes4_def)
  then have l: "list_all2 (\<lambda>raw frame. encode_frame 6 raw = Inr frame) [[9, 8, 7], []] [[0, 0, 0, 3, 9, 8, 7], [0, 0, 0, 0]]"
    by simp
  have r: "new_frame_reader 6 None = Inr example_reader"
    by (simp add: example_reader_def new_frame_reader_def new_ring_buffer_def HEADER_SIZE_def Let_def)
  from framing_roundtrip [OF r _ l, of "[[0, 0], [0, 3, 9], [8, 7, 0, 0, 0, 0]]"] e(1) show ?thesis by simp
qed

text \<open>
  The reader never depends on chunk boundaries: on any bytes at all, from a new reader,
  read_chunks ends with the result of cutting the concatenated stream at once (the frames, the first
  oversized header, or UnexpectedEOFError when bytes are left), so equal streams give equal results.
\<close>
theorem reader_ignores_chunk_boundaries:
  assumes "new_frame_reader maximum buffer_capacity = Inr r" "0 \<le> maximum"
  shows "\<exists>r'. read_chunks chunks r =
    Some (case split_frames maximum (concat chunks) of
            Inl e \<Rightarrow> Inl e
          | Inr (fs, rest) \<Rightarrow> if rest = [] then Inr fs else Inl (UnexpectedEOFError ''stream ended mid-frame''), r')"
proof -
  from new_frame_reader_ok [OF assms] have r: "reader_ok r" "contents (fr_buffer r) = []" "fr_maximum r = maximum" by auto
  from read_chunks_loop_split [OF r(1), of chunks "[]"] r show ?thesis
    by (auto simp: read_chunks_def split: sum.splits prod.splits)
qed

theorem reader_ignores_chunk_boundaries_witness:
  "\<exists>r'. read_chunks [[0], [0, 0], [7, 1]] example_reader = Some (Inl (too_large 6), r')"
proof -
  have r: "new_frame_reader 6 None = Inr example_reader"
    by (simp add: example_reader_def new_frame_reader_def new_ring_buffer_def HEADER_SIZE_def Let_def)
  have "split_frames 6 [0, 0, 0, 7, 1] = Inl (too_large 6)"
    by (subst split_frames.simps) (simp add: HEADER_SIZE_def parse_header_def from_bytes_def)
  with reader_ignores_chunk_boundaries [OF r, of "[[0], [0, 0], [7, 1]]"] show ?thesis by simp
qed

end
