(* ===== verification/LogicalClocks.thy ===== *)
theory LogicalClocks
  imports Prelude "HOL-Library.Product_Lexorder" "HOL-Library.Multiset"
begin

text \<open>
  Lab 22, \<open>lab_22_logical_clocks/clocks.py\<close> and \<open>relay.py\<close>: Lamport and vector clocks, the task
  updates that carry them and the replica that assigns them.  A datetime is its instant in
  microseconds and its UTC offset, None for a naive one.  The mutable clocks and the replica are
  returned updated, also when the call raises.
\<close>

section \<open>Lamport clocks\<close>

datatype clock_relation = BEFORE | AFTER | EQUAL | CONCURRENT

record lamport_stamp =
  ls_counter :: int
  ls_node :: string

definition check_stamp :: "int \<Rightarrow> string \<Rightarrow> lamport_stamp res" where
  "check_stamp counter node =
     (if counter < 0 then Inl (ValueError ''counter must not be negative'')
      else if strip node = [] then Inl (ValueError ''node_id must not be empty'')
      else Inr \<lparr>ls_counter = counter, ls_node = node\<rparr>)"

definition stamp_key :: "lamport_stamp \<Rightarrow> int \<times> string" where
  "stamp_key s = (ls_counter s, ls_node s)"

record lamport_clock =
  lc_node :: string
  lc_counter :: int

definition new_lamport_clock :: "string \<Rightarrow> int \<Rightarrow> lamport_clock res" where
  "new_lamport_clock node counter =
     (if strip node = [] then Inl (ValueError ''node_id must not be empty'')
      else if counter < 0 then Inl (ValueError ''counter must not be negative'')
      else Inr \<lparr>lc_node = node, lc_counter = counter\<rparr>)"

definition local_event :: "lamport_clock \<Rightarrow> lamport_stamp res \<times> lamport_clock" where
  "local_event c =
     (let counter = lc_counter c + 1
      in (check_stamp counter (lc_node c), c\<lparr>lc_counter := counter\<rparr>))"

definition observe :: "lamport_stamp \<Rightarrow> lamport_clock \<Rightarrow> lamport_stamp res \<times> lamport_clock" where
  "observe remote c =
     (let counter = max (lc_counter c) (ls_counter remote) + 1
      in (check_stamp counter (lc_node c), c\<lparr>lc_counter := counter\<rparr>))"

section \<open>Vector clocks\<close>

type_synonym vector_clock = "(string \<times> int) list"

fun check_entries :: "string \<Rightarrow> (string \<times> int) list \<Rightarrow> unit res" where
  "check_entries last_node [] = Inr ()"
| "check_entries last_node ((node, counter) # entries) =
     (if strip node = [] then Inl (ValueError ''node_id must not be empty'')
      else if counter < 0 then Inl (ValueError ''counter must not be negative'')
      else if last_node \<noteq> [] \<and> node \<le> last_node
      then Inl (ValueError ''entries must be sorted by node_id without duplicates'')
      else check_entries node entries)"

definition check_vector :: "(string \<times> int) list \<Rightarrow> vector_clock res" where
  "check_vector entries = (case check_entries [] entries of Inl e \<Rightarrow> Inl e | Inr u \<Rightarrow> Inr entries)"

definition from_mapping :: "(string \<times> int) list \<Rightarrow> vector_clock res" where
  "from_mapping mapping = check_vector (sort mapping)"

definition to_mapping :: "vector_clock \<Rightarrow> (string \<times> int) list" where
  "to_mapping v = fold (\<lambda>(node, counter). AList.update node counter) v []"

definition vc_get :: "vector_clock \<Rightarrow> string \<Rightarrow> int" where
  "vc_get v node = (case map_of (to_mapping v) node of None \<Rightarrow> 0 | Some c \<Rightarrow> c)"

definition increment :: "string \<Rightarrow> vector_clock \<Rightarrow> vector_clock res" where
  "increment node v = from_mapping (AList.update node (vc_get v node + 1) (to_mapping v))"

definition all_nodes :: "vector_clock \<Rightarrow> vector_clock \<Rightarrow> string list" where
  "all_nodes v w = sorted_list_of_set (set (dict_keys (to_mapping v)) \<union> set (dict_keys (to_mapping w)))"

definition vc_merge :: "vector_clock \<Rightarrow> vector_clock \<Rightarrow> vector_clock res" where
  "vc_merge v w = from_mapping (map (\<lambda>node. (node, max (vc_get v node) (vc_get w node))) (all_nodes v w))"

definition vc_compare :: "vector_clock \<Rightarrow> vector_clock \<Rightarrow> clock_relation" where
  "vc_compare v w =
     (let (has_less, has_greater) =
        fold (\<lambda>node (less, greater). (less \<or> vc_get v node < vc_get w node, greater \<or> vc_get w node < vc_get v node))
          (all_nodes v w) (False, False)
      in if \<not> has_less \<and> \<not> has_greater then EQUAL
         else if has_less \<and> \<not> has_greater then BEFORE
         else if has_greater \<and> \<not> has_less then AFTER
         else CONCURRENT)"

section \<open>Valid vectors\<close>

definition vector_ok :: "vector_clock \<Rightarrow> bool" where
  "vector_ok v \<longleftrightarrow> sorted_wrt (<) (map fst v) \<and> (\<forall>(node, c) \<in> set v. strip node \<noteq> [] \<and> 0 \<le> c)"

lemma check_entries_iff:
  "check_entries last_node v = Inr () \<longleftrightarrow>
   vector_ok v \<and> (last_node = [] \<or> (\<forall>node \<in> fst ` set v. last_node < node))"
proof (induction last_node v rule: check_entries.induct)
  case (2 last_node node counter entries)
  have ne: "strip node \<noteq> [] \<Longrightarrow> node \<noteq> []" by (auto simp: strip_def)
  show ?case
  proof (cases "strip node = [] \<or> counter < 0 \<or> last_node \<noteq> [] \<and> node \<le> last_node")
    case True
    then show ?thesis by (auto simp: vector_ok_def)
  next
    case False
    with 2 ne have "check_entries last_node ((node, counter) # entries) = Inr () \<longleftrightarrow>
        vector_ok entries \<and> (\<forall>n \<in> fst ` set entries. node < n)" by auto
    with False show ?thesis by (auto simp: vector_ok_def not_le intro: less_trans)
  qed
qed (simp add: vector_ok_def)

lemma check_vector_iff: "check_vector v = Inr w \<longleftrightarrow> vector_ok v \<and> w = v"
  using check_entries_iff [of "[]" v] by (auto simp: check_vector_def split: sum.split)

lemma vector_ok_distinct: "vector_ok v \<Longrightarrow> distinct (map fst v)"
  by (simp add: vector_ok_def strict_sorted_iff)

lemma to_mapping_id: "distinct (map fst v) \<Longrightarrow> to_mapping v = v"
proof -
  have "distinct (map fst (d @ v)) \<Longrightarrow> fold (\<lambda>(node, counter). AList.update node counter) v d = d @ v" for d :: "(string \<times> int) list"
    by (induction v arbitrary: d) (auto simp: update_fresh)
  from this [of "[]"] show "distinct (map fst v) \<Longrightarrow> to_mapping v = v" by (simp add: to_mapping_def)
qed

lemma vector_to_mapping [simp]: "vector_ok v \<Longrightarrow> to_mapping v = v"
  by (rule to_mapping_id) (rule vector_ok_distinct)

lemma from_mapping_result:
  assumes "distinct (map fst m)" "\<forall>(node, c) \<in> set m. strip node \<noteq> [] \<and> 0 \<le> c"
  shows "\<exists>v. from_mapping m = Inr v \<and> vector_ok v \<and> map_of v = map_of m"
proof -
  have s: "sorted (map fst (sort m))"
  proof -
    have "sorted (sort m)" by simp
    then show ?thesis unfolding sorted_map by (rule sorted_wrt_mono_rel [rotated]) (auto simp: less_eq_prod_def)
  qed
  have d: "distinct (map fst (sort m))" using assms(1) by (simp add: distinct_map)
  with s have "sorted_wrt (<) (map fst (sort m))" by (simp add: strict_sorted_iff)
  with assms(2) have ok: "vector_ok (sort m)" by (simp add: vector_ok_def)
  moreover have "map_of (sort m) = map_of m"
    using d assms(1) by (intro map_of_inject_set [THEN iffD2]) auto
  ultimately show ?thesis by (intro exI [of _ "sort m"]) (simp add: from_mapping_def check_vector_iff)
qed

lemma vc_get_map_of: "vector_ok v \<Longrightarrow> vc_get v node = (case map_of v node of None \<Rightarrow> 0 | Some c \<Rightarrow> c)"
  by (simp add: vc_get_def)

lemma vc_get_nonneg: "vector_ok v \<Longrightarrow> 0 \<le> vc_get v node"
  by (auto simp: vc_get_map_of vector_ok_def split: option.split dest: map_of_SomeD)

lemma increment_result:
  assumes "vector_ok v" "strip node \<noteq> []"
  shows "\<exists>w. increment node v = Inr w \<and> vector_ok w \<and>
    (\<forall>n. vc_get w n = (if n = node then vc_get v n + 1 else vc_get v n))"
proof -
  let ?m = "AList.update node (vc_get v node + 1) v"
  have "distinct (map fst ?m)" using vector_ok_distinct [OF assms(1)] by (simp add: distinct_update)
  moreover have "\<forall>(n, c) \<in> set ?m. strip n \<noteq> [] \<and> 0 \<le> c"
    using assms vc_get_nonneg [OF assms(1), of node] by (auto simp: vector_ok_def dest!: set_update_cases)
  ultimately obtain w where "from_mapping ?m = Inr w" "vector_ok w" "map_of w = map_of ?m"
    using from_mapping_result by blast
  then show ?thesis using assms(1) by (auto simp: increment_def vc_get_map_of update_conv')
qed

lemma set_all_nodes: "vector_ok v \<Longrightarrow> vector_ok w \<Longrightarrow> set (all_nodes v w) = fst ` set v \<union> fst ` set w"
  by (simp add: all_nodes_def)

lemma vc_get_absent: "vector_ok v \<Longrightarrow> n \<notin> fst ` set v \<Longrightarrow> vc_get v n = 0"
  by (simp add: vc_get_map_of map_of_eq_None_iff [THEN iffD2])

lemma vc_merge_result:
  assumes "vector_ok v" "vector_ok w"
  shows "\<exists>x. vc_merge v w = Inr x \<and> vector_ok x \<and> (\<forall>n. vc_get x n = max (vc_get v n) (vc_get w n))"
proof -
  let ?f = "\<lambda>n. max (vc_get v n) (vc_get w n)"
  let ?m = "map (\<lambda>n. (n, ?f n)) (all_nodes v w)"
  have "distinct (map fst ?m)" by (simp add: comp_def all_nodes_def)
  moreover have "\<forall>(n, c) \<in> set ?m. strip n \<noteq> [] \<and> 0 \<le> c"
    using assms vc_get_nonneg [OF assms(1)] by (auto simp: set_all_nodes vector_ok_def le_max_iff_disj)
  ultimately obtain x where x: "from_mapping ?m = Inr x" "vector_ok x" "map_of x = map_of ?m"
    using from_mapping_result by blast
  have "vc_get x n = ?f n" for n
  proof (cases "n \<in> set (all_nodes v w)")
    case True
    then show ?thesis using x by (simp add: vc_get_map_of map_of_map_keys)
  next
    case False
    then have "vc_get v n = 0" "vc_get w n = 0" using assms by (auto simp: set_all_nodes intro: vc_get_absent)
    with False x show ?thesis by (simp add: vc_get_map_of map_of_map_keys)
  qed
  with x show ?thesis by (auto simp: vc_merge_def)
qed

lemma compare_fold:
  "fold (\<lambda>node (less, greater). (less \<or> vc_get v node < vc_get w node, greater \<or> vc_get w node < vc_get v node)) ns (a, b) =
   (a \<or> (\<exists>n \<in> set ns. vc_get v n < vc_get w n), b \<or> (\<exists>n \<in> set ns. vc_get w n < vc_get v n))"
  by (induction ns arbitrary: a b) auto

lemma vc_compare_iff:
  assumes "vector_ok v" "vector_ok w"
  shows "vc_compare v w =
    (if (\<forall>n. vc_get v n = vc_get w n) then EQUAL
     else if (\<forall>n. vc_get v n \<le> vc_get w n) then BEFORE
     else if (\<forall>n. vc_get w n \<le> vc_get v n) then AFTER
     else CONCURRENT)"
proof -
  have out: "vc_get v n = vc_get w n" if "n \<notin> set (all_nodes v w)" for n
    using that assms by (simp add: set_all_nodes vc_get_absent)
  have less: "(\<exists>n \<in> set (all_nodes v w). vc_get v n < vc_get w n) \<longleftrightarrow> (\<exists>n. vc_get v n < vc_get w n)"
    using out by (metis less_irrefl)
  have greater: "(\<exists>n \<in> set (all_nodes v w). vc_get w n < vc_get v n) \<longleftrightarrow> (\<exists>n. vc_get w n < vc_get v n)"
    using out by (metis less_irrefl)
  have cases: "(\<forall>n. vc_get v n = vc_get w n) \<longleftrightarrow> \<not> (\<exists>n. vc_get v n < vc_get w n) \<and> \<not> (\<exists>n. vc_get w n < vc_get v n)"
      "(\<forall>n. vc_get v n \<le> vc_get w n) \<longleftrightarrow> \<not> (\<exists>n. vc_get w n < vc_get v n)"
      "(\<forall>n. vc_get w n \<le> vc_get v n) \<longleftrightarrow> \<not> (\<exists>n. vc_get v n < vc_get w n)"
    by (auto simp: not_less intro: antisym)
  show ?thesis
    unfolding vc_compare_def compare_fold less greater cases by simp
qed

section \<open>Task updates and replicas\<close>

datatype task_action = INDEX | DELIVER | ARCHIVE

datatype task_state = QUEUED | RUNNING | SUCCEEDED | FAILED

record datetime =
  dt_instant :: int
  dt_offset :: "int option"

definition ensure_utc :: "datetime \<Rightarrow> datetime res" where
  "ensure_utc d =
     (case dt_offset d of
        None \<Rightarrow> Inl (ContractError ''timestamp must be timezone aware'')
      | Some offset \<Rightarrow>
          if offset \<noteq> 0 then Inl (ContractError ''timestamp must be in UTC'')
          else Inr (d\<lparr>dt_offset := Some 0\<rparr>))"

definition require_task_id :: "string \<Rightarrow> unit res" where
  "require_task_id tid =
     (if take 5 tid \<noteq> ''task-'' \<or> drop 5 tid = [] \<or> \<not> list_all is_digit (drop 5 tid) \<or> take 1 (drop 5 tid) = ''0''
      then Inl (ContractError ''id must match task-<positive integer>'') else Inr ())"

record task_update =
  tu_id :: string
  tu_action :: task_action
  tu_state :: task_state
  tu_actor :: string
  tu_detail :: string
  tu_wall_time :: datetime
  tu_lamport :: lamport_stamp
  tu_vector :: vector_clock

definition check_update :: "task_update \<Rightarrow> task_update res" where
  "check_update u =
     (case require_task_id (tu_id u) of
        Inl e \<Rightarrow> Inl e
      | Inr x \<Rightarrow>
          if strip (tu_actor u) = [] then Inl (ContractError ''actor must not be empty'')
          else if strip (tu_detail u) = [] then Inl (ContractError ''detail must not be empty'')
          else case ensure_utc (tu_wall_time u) of
                 Inl e \<Rightarrow> Inl e
               | Inr d \<Rightarrow> Inr (u\<lparr>tu_wall_time := d\<rparr>))"

definition relation_to :: "task_update \<Rightarrow> task_update \<Rightarrow> clock_relation" where
  "relation_to u w = vc_compare (tu_vector u) (tu_vector w)"

definition merged_vector :: "task_update \<Rightarrow> task_update \<Rightarrow> vector_clock res" where
  "merged_vector u w = vc_merge (tu_vector u) (tu_vector w)"

record relay_replica =
  rr_node :: string
  rr_lamport :: lamport_clock
  rr_vectors :: "(string \<times> vector_clock) list"
  rr_history :: "(string \<times> task_update list) list"

definition new_replica :: "string \<Rightarrow> relay_replica res" where
  "new_replica node =
     (case new_lamport_clock node 0 of
        Inl e \<Rightarrow> Inl e
      | Inr c \<Rightarrow> Inr \<lparr>rr_node = node, rr_lamport = c, rr_vectors = [], rr_history = []\<rparr>)"

definition vector_of :: "relay_replica \<Rightarrow> string \<Rightarrow> vector_clock" where
  "vector_of r task = (case map_of (rr_vectors r) task of None \<Rightarrow> [] | Some v \<Rightarrow> v)"

definition history :: "relay_replica \<Rightarrow> string \<Rightarrow> task_update list" where
  "history r task = (case map_of (rr_history r) task of None \<Rightarrow> [] | Some us \<Rightarrow> us)"

definition append_history :: "task_update \<Rightarrow> relay_replica \<Rightarrow> relay_replica" where
  "append_history u r = r\<lparr>rr_history := AList.update (tu_id u) (history r (tu_id u) @ [u]) (rr_history r)\<rparr>"

text \<open>The Lamport counter advances before the new update is validated.\<close>

definition record_local_update ::
    "string \<Rightarrow> task_action \<Rightarrow> task_state \<Rightarrow> string \<Rightarrow> datetime \<Rightarrow> relay_replica \<Rightarrow> task_update res \<times> relay_replica" where
  "record_local_update task action state detail wall_time r =
     (case increment (rr_node r) (vector_of r task) of
        Inl e \<Rightarrow> (Inl e, r)
      | Inr next_vector \<Rightarrow>
          (case local_event (rr_lamport r) of
             (Inl e, c) \<Rightarrow> (Inl e, r\<lparr>rr_lamport := c\<rparr>)
           | (Inr stamp, c) \<Rightarrow>
               (case check_update \<lparr>tu_id = task, tu_action = action, tu_state = state, tu_actor = rr_node r,
                       tu_detail = detail, tu_wall_time = wall_time, tu_lamport = stamp, tu_vector = next_vector\<rparr> of
                  Inl e \<Rightarrow> (Inl e, r\<lparr>rr_lamport := c\<rparr>)
                | Inr u \<Rightarrow>
                    (Inr u, append_history u (r\<lparr>rr_lamport := c,
                       rr_vectors := AList.update task next_vector (rr_vectors r)\<rparr>)))))"

definition observe_remote_update :: "task_update \<Rightarrow> relay_replica \<Rightarrow> unit res \<times> relay_replica" where
  "observe_remote_update u r =
     (case vc_merge (vector_of r (tu_id u)) (tu_vector u) of
        Inl e \<Rightarrow> (Inl e, r)
      | Inr merged \<Rightarrow>
          (let r1 = r\<lparr>rr_vectors := AList.update (tu_id u) merged (rr_vectors r)\<rparr>
           in case observe (tu_lamport u) (rr_lamport r1) of
                (Inl e, c) \<Rightarrow> (Inl e, r1\<lparr>rr_lamport := c\<rparr>)
              | (Inr stamp, c) \<Rightarrow> (Inr (), append_history u (r1\<lparr>rr_lamport := c\<rparr>))))"

definition logical_order :: "task_update list \<Rightarrow> task_update list" where
  "logical_order us = sort_key (\<lambda>u. stamp_key (tu_lamport u)) us"

definition wall_clock_order :: "task_update list \<Rightarrow> task_update list" where
  "wall_clock_order us = sort_key (\<lambda>u. dt_instant (tu_wall_time u)) us"

section \<open>Replicas that exchange updates\<close>

text \<open>
  A network: the replicas, the updates recorded so far and, as ghosts, the causal past of each update
  (the positions of the updates of its task its replica knew when it recorded it) and what each
  replica knows of each task.
\<close>

record network =
  nw_replicas :: "string \<Rightarrow> relay_replica option"
  nw_updates :: "(task_update \<times> nat set) list"
  nw_known :: "string \<Rightarrow> string \<Rightarrow> nat set"

datatype net_event = Local string string task_action task_state string datetime | Deliver string nat

fun net_step :: "net_event \<Rightarrow> network \<Rightarrow> network" where
  "net_step (Local node task action state detail time) s =
     (case nw_replicas s node of
        None \<Rightarrow> s
      | Some r \<Rightarrow>
          (case record_local_update task action state detail time r of
             (Inl e, r') \<Rightarrow> s\<lparr>nw_replicas := (nw_replicas s)(node \<mapsto> r')\<rparr>
           | (Inr u, r') \<Rightarrow>
               s\<lparr>nw_replicas := (nw_replicas s)(node \<mapsto> r'),
                 nw_updates := nw_updates s @ [(u, nw_known s node task)],
                 nw_known := (nw_known s)(node := (nw_known s node)(task := insert (length (nw_updates s)) (nw_known s node task)))\<rparr>))"
| "net_step (Deliver node i) s =
     (case nw_replicas s node of
        None \<Rightarrow> s
      | Some r \<Rightarrow>
          if length (nw_updates s) \<le> i then s
          else let (u, past) = nw_updates s ! i; task = tu_id u; r' = snd (observe_remote_update u r)
            in s\<lparr>nw_replicas := (nw_replicas s)(node \<mapsto> r'),
                 nw_known := (nw_known s)(node := (nw_known s node)(task := nw_known s node task \<union> insert i past))\<rparr>)"

definition net_start :: "network \<Rightarrow> bool" where
  "net_start s \<longleftrightarrow> nw_updates s = [] \<and> nw_known s = (\<lambda>node task. {}) \<and>
     (\<forall>node r. nw_replicas s node = Some r \<longrightarrow> new_replica node = Inr r)"

abbreviation update_at :: "network \<Rightarrow> nat \<Rightarrow> task_update" where
  "update_at s i \<equiv> fst (nw_updates s ! i)"

abbreviation past_of :: "network \<Rightarrow> nat \<Rightarrow> nat set" where
  "past_of s i \<equiv> snd (nw_updates s ! i)"

text \<open>A set of updates of one task that contains the past of its members, and how many are one node's.\<close>

definition causal :: "network \<Rightarrow> string \<Rightarrow> nat set \<Rightarrow> bool" where
  "causal s task K \<longleftrightarrow> (\<forall>i \<in> K. i < length (nw_updates s) \<and> tu_id (update_at s i) = task \<and> past_of s i \<subseteq> K)"

definition count_of :: "network \<Rightarrow> nat set \<Rightarrow> string \<Rightarrow> int" where
  "count_of s K node = int (card {i \<in> K. tu_actor (update_at s i) = node})"

definition update_ok :: "network \<Rightarrow> nat \<Rightarrow> bool" where
  "update_ok s i \<longleftrightarrow>
     past_of s i \<subseteq> {..<i} \<and> causal s (tu_id (update_at s i)) (past_of s i) \<and> vector_ok (tu_vector (update_at s i)) \<and>
     (\<forall>node. vc_get (tu_vector (update_at s i)) node = count_of s (insert i (past_of s i)) node) \<and>
     (\<forall>j < i. tu_id (update_at s j) = tu_id (update_at s i) \<and> tu_actor (update_at s j) = tu_actor (update_at s i) \<longrightarrow> j \<in> past_of s i) \<and>
     (\<forall>j \<in> past_of s i. ls_counter (tu_lamport (update_at s j)) < ls_counter (tu_lamport (update_at s i))) \<and>
     ls_node (tu_lamport (update_at s i)) = tu_actor (update_at s i) \<and> 0 \<le> ls_counter (tu_lamport (update_at s i))"

text \<open>What a replica has of a task: the vector counts the updates it knows, which include all its own.\<close>

definition knows_ok :: "network \<Rightarrow> string \<Rightarrow> vector_clock \<Rightarrow> int \<Rightarrow> string \<Rightarrow> bool" where
  "knows_ok s node v counter task \<longleftrightarrow>
     vector_ok v \<and> causal s task (nw_known s node task) \<and>
     (\<forall>n. vc_get v n = count_of s (nw_known s node task) n) \<and>
     (\<forall>i \<in> nw_known s node task. ls_counter (tu_lamport (update_at s i)) \<le> counter) \<and>
     (\<forall>i < length (nw_updates s). tu_actor (update_at s i) = node \<and> tu_id (update_at s i) = task \<longrightarrow> i \<in> nw_known s node task)"

definition replica_ok :: "network \<Rightarrow> string \<Rightarrow> relay_replica \<Rightarrow> bool" where
  "replica_ok s node r \<longleftrightarrow>
     rr_node r = node \<and> strip node \<noteq> [] \<and> lc_node (rr_lamport r) = node \<and> 0 \<le> lc_counter (rr_lamport r) \<and>
     (\<forall>task. knows_ok s node (vector_of r task) (lc_counter (rr_lamport r)) task)"

definition net_ok :: "network \<Rightarrow> bool" where
  "net_ok s \<longleftrightarrow> (\<forall>i < length (nw_updates s). update_ok s i) \<and>
     (\<forall>node r. nw_replicas s node = Some r \<longrightarrow> replica_ok s node r)"

section \<open>Causal sets are initial segments of every node's updates\<close>

lemma causal_Un: "causal s task K \<Longrightarrow> causal s task L \<Longrightarrow> causal s task (K \<union> L)"
  unfolding causal_def by fast

lemma causal_insert:
  assumes "causal s (tu_id (update_at s i)) (past_of s i)" "i < length (nw_updates s)"
  shows "causal s (tu_id (update_at s i)) (insert i (past_of s i))"
  using assms unfolding causal_def by fast

lemma causal_finite: "causal s task K \<Longrightarrow> finite K"
  by (rule finite_subset [of _ "{..<length (nw_updates s)}"]) (auto simp: causal_def)

lemma causal_initial:
  assumes "\<forall>i < length (nw_updates s). update_ok s i" "causal s task K" "k \<in> K" "j < k"
    "tu_id (update_at s j) = task" "tu_actor (update_at s j) = tu_actor (update_at s k)"
  shows "j \<in> K"
proof -
  from assms(2,3) have k: "k < length (nw_updates s)" "tu_id (update_at s k) = task" "past_of s k \<subseteq> K"
    by (auto simp: causal_def)
  with assms(1) have "update_ok s k" by blast
  with assms(4-6) k(2) have "j \<in> past_of s k" by (simp add: update_ok_def)
  with k(3) show ?thesis by blast
qed

lemma causal_linear:
  assumes ok: "\<forall>i < length (nw_updates s). update_ok s i" and c: "causal s task K" "causal s task L"
  shows "{i \<in> K. tu_actor (update_at s i) = node} \<subseteq> {i \<in> L. tu_actor (update_at s i) = node} \<or>
    {i \<in> L. tu_actor (update_at s i) = node} \<subseteq> {i \<in> K. tu_actor (update_at s i) = node}"
proof (rule ccontr)
  assume "\<not> ?thesis"
  then obtain i j where ij: "i \<in> K" "tu_actor (update_at s i) = node" "i \<notin> L" "j \<in> L" "tu_actor (update_at s j) = node" "j \<notin> K"
    by blast
  have t: "tu_id (update_at s i) = task" "tu_id (update_at s j) = task" using c ij by (auto simp: causal_def)
  show False
  proof (cases i j rule: linorder_cases)
    case less
    with causal_initial [OF ok c(2) ij(4), of i] t ij show False by simp
  next
    case greater
    with causal_initial [OF ok c(1) ij(1), of j] t ij show False by simp
  qed (use ij in blast)
qed

lemma count_of_Un:
  assumes "\<forall>i < length (nw_updates s). update_ok s i" "causal s task K" "causal s task L"
  shows "count_of s (K \<union> L) node = max (count_of s K node) (count_of s L node)"
proof -
  let ?A = "{i \<in> K. tu_actor (update_at s i) = node}" and ?B = "{i \<in> L. tu_actor (update_at s i) = node}"
  have un: "{i \<in> K \<union> L. tu_actor (update_at s i) = node} = ?A \<union> ?B" by auto
  have fin: "finite ?A" "finite ?B" using assms(2,3) causal_finite by auto
  from causal_linear [OF assms, of node] show ?thesis
  proof
    assume "?A \<subseteq> ?B"
    with fin show ?thesis unfolding count_of_def un by (simp add: Un_absorb1 card_mono max_absorb2)
  next
    assume "?B \<subseteq> ?A"
    with fin show ?thesis unfolding count_of_def un by (simp add: Un_absorb2 card_mono max_absorb1)
  qed
qed

section \<open>The invariant\<close>

lemma update_at_grow:
  "nw_updates s' = nw_updates s @ us \<Longrightarrow> i < length (nw_updates s) \<Longrightarrow> nw_updates s' ! i = nw_updates s ! i"
  by (simp add: nth_append)

lemma causal_grow:
  assumes "nw_updates s' = nw_updates s @ us" "causal s task K"
  shows "causal s' task K" "count_of s' K = count_of s K" "\<And>i. i \<in> K \<Longrightarrow> update_at s' i = update_at s i"
proof -
  have i: "i < length (nw_updates s)" "i < length (nw_updates s')" "nw_updates s' ! i = nw_updates s ! i" if "i \<in> K" for i
    using that assms update_at_grow [OF assms(1), of i] by (auto simp: causal_def)
  then show "\<And>i. i \<in> K \<Longrightarrow> update_at s' i = update_at s i" by simp
  show "causal s' task K" using assms(2) i unfolding causal_def by simp
  have "{i \<in> K. tu_actor (update_at s' i) = n} = {i \<in> K. tu_actor (update_at s i) = n}" for n using i(3) by auto
  then show "count_of s' K = count_of s K" by (simp add: count_of_def fun_eq_iff)
qed

lemma update_ok_grow:
  assumes g: "nw_updates s' = nw_updates s @ us" and i: "i < length (nw_updates s)" and ok: "update_ok s i"
  shows "update_ok s' i"
proof -
  have same: "nw_updates s' ! i = nw_updates s ! i" using update_at_grow [OF g i] .
  have c: "causal s (tu_id (update_at s i)) (past_of s i)" using ok by (simp add: update_ok_def)
  have before: "nw_updates s' ! j = nw_updates s ! j" if "j < i" for j using update_at_grow [OF g] that i by simp
  have past: "j < i" if "j \<in> past_of s i" for j using that ok by (auto simp: update_ok_def)
  show ?thesis
    unfolding update_ok_def same causal_grow(2) [OF g causal_insert [OF c i]]
    using ok causal_grow(1) [OF g c] before past by (auto simp: update_ok_def)
qed

lemma knows_ok_grow:
  assumes g: "nw_updates s' = nw_updates s @ us" and ok: "knows_ok s node v counter task"
    and known: "nw_known s' node task = nw_known s node task" and more: "counter \<le> counter'"
    and foreign: "\<And>u p. (u, p) \<in> set us \<Longrightarrow> tu_actor u \<noteq> node \<or> tu_id u \<noteq> task"
  shows "knows_ok s' node v counter' task"
proof -
  have c: "causal s task (nw_known s node task)" using ok by (simp add: knows_ok_def)
  have own: "i \<in> nw_known s node task"
    if i: "i < length (nw_updates s')" "tu_actor (update_at s' i) = node" "tu_id (update_at s' i) = task" for i
  proof (cases "i < length (nw_updates s)")
    case True
    with i(2,3) update_at_grow [OF g True] ok show ?thesis by (simp add: knows_ok_def)
  next
    case False
    with i(1) g have "nw_updates s' ! i \<in> set us" by (simp add: nth_append)
    with foreign [of "update_at s' i" "past_of s' i"] i(2,3) show ?thesis by simp
  qed
  have low: "ls_counter (tu_lamport (update_at s' i)) \<le> counter'" if "i \<in> nw_known s node task" for i
  proof -
    have "ls_counter (tu_lamport (update_at s i)) \<le> counter" using ok that unfolding knows_ok_def by blast
    then show ?thesis using causal_grow(3) [OF g c that] more by simp
  qed
  show ?thesis
    unfolding knows_ok_def known causal_grow(2) [OF g c]
    using causal_grow(1) [OF g c] own low ok unfolding knows_ok_def by blast
qed

lemma replica_ok_grow:
  assumes g: "nw_updates s' = nw_updates s @ us" and ok: "replica_ok s node r"
    and known: "nw_known s' node = nw_known s node"
    and foreign: "\<And>u p. (u, p) \<in> set us \<Longrightarrow> tu_actor u \<noteq> node"
  shows "replica_ok s' node r"
proof -
  have "knows_ok s' node (vector_of r task) (lc_counter (rr_lamport r)) task" for task
    by (rule knows_ok_grow [OF g _ _ order_refl]) (use ok known foreign in \<open>auto simp: replica_ok_def\<close>)
  with ok show ?thesis unfolding replica_ok_def by blast
qed

lemma net_ok_start:
  assumes "net_start s"
  shows "net_ok s"
proof -
  have none: "nw_updates s = []" "nw_known s = (\<lambda>node task. {})" using assms unfolding net_start_def by blast+
  have "replica_ok s node r" if "nw_replicas s node = Some r" for node r
  proof -
    have "new_replica node = Inr r" using assms that unfolding net_start_def by blast
    then have "strip node \<noteq> []"
      "r = \<lparr>rr_node = node, rr_lamport = \<lparr>lc_node = node, lc_counter = 0\<rparr>, rr_vectors = [], rr_history = []\<rparr>"
      by (auto simp: new_replica_def new_lamport_clock_def split: if_splits)
    with none show ?thesis
      by (simp add: replica_ok_def knows_ok_def vector_of_def vector_ok_def causal_def count_of_def vc_get_def to_mapping_def)
  qed
  with none show ?thesis unfolding net_ok_def by simp
qed

lemma vector_of_append [simp]: "vector_of (append_history u r) task = vector_of r task"
  by (simp add: append_history_def vector_of_def)

lemma vector_of_lamport [simp]: "vector_of (r\<lparr>rr_lamport := c\<rparr>) task = vector_of r task"
  by (simp add: vector_of_def)

lemma append_history_parts [simp]:
  "rr_node (append_history u r) = rr_node r" "rr_lamport (append_history u r) = rr_lamport r"
  "rr_vectors (append_history u r) = rr_vectors r"
  by (simp_all add: append_history_def)

lemma vector_of_update:
  "rr_vectors r' = AList.update task v (rr_vectors r) \<Longrightarrow> vector_of r' t = (if t = task then v else vector_of r t)"
  by (auto simp: vector_of_def update_conv')

lemma record_local_cases:
  assumes "record_local_update task action state detail time r = (res, r')"
    and node: "rr_node r = lc_node (rr_lamport r)" "strip (rr_node r) \<noteq> []" "0 \<le> lc_counter (rr_lamport r)"
      "vector_ok (vector_of r task)"
  shows "rr_node r' = rr_node r \<and> lc_node (rr_lamport r') = lc_node (rr_lamport r) \<and>
    (case res of
       Inl e \<Rightarrow> rr_vectors r' = rr_vectors r \<and> rr_history r' = rr_history r \<and> lc_counter (rr_lamport r) \<le> lc_counter (rr_lamport r')
     | Inr u \<Rightarrow> tu_id u = task \<and> tu_actor u = rr_node r \<and> lc_counter (rr_lamport r') = lc_counter (rr_lamport r) + 1 \<and>
         tu_lamport u = \<lparr>ls_counter = lc_counter (rr_lamport r'), ls_node = rr_node r\<rparr> \<and>
         increment (rr_node r) (vector_of r task) = Inr (tu_vector u) \<and>
         (\<forall>t. vector_of r' t = (if t = task then tu_vector u else vector_of r t)))"
proof -
  from increment_result [OF node(4,2)] obtain w where w: "increment (rr_node r) (vector_of r task) = Inr w" by blast
  have ev: "local_event (rr_lamport r) = (Inr \<lparr>ls_counter = lc_counter (rr_lamport r) + 1, ls_node = rr_node r\<rparr>,
      (rr_lamport r)\<lparr>lc_counter := lc_counter (rr_lamport r) + 1\<rparr>)"
    using node by (simp add: local_event_def check_stamp_def Let_def)
  have chk: "tu_id u' = tu_id u \<and> tu_actor u' = tu_actor u \<and> tu_lamport u' = tu_lamport u \<and> tu_vector u' = tu_vector u"
    if "check_update u = Inr u'" for u u'
    using that by (auto simp: check_update_def split: sum.splits if_splits)
  let ?u = "\<lparr>tu_id = task, tu_action = action, tu_state = state, tu_actor = rr_node r, tu_detail = detail, tu_wall_time = time,
      tu_lamport = \<lparr>ls_counter = lc_counter (rr_lamport r) + 1, ls_node = rr_node r\<rparr>, tu_vector = w\<rparr>"
  show ?thesis
  proof (cases "check_update ?u")
    case (Inl e)
    with assms(1) have "res = Inl e" "r' = r\<lparr>rr_lamport := (rr_lamport r)\<lparr>lc_counter := lc_counter (rr_lamport r) + 1\<rparr>\<rparr>"
      by (simp_all add: record_local_update_def w ev)
    then show ?thesis by simp
  next
    case (Inr u)
    with assms(1) have "res = Inr u" "r' = append_history u (r\<lparr>rr_lamport := (rr_lamport r)\<lparr>lc_counter := lc_counter (rr_lamport r) + 1\<rparr>,
        rr_vectors := AList.update task w (rr_vectors r)\<rparr>)"
      by (simp_all add: record_local_update_def w ev)
    with chk [OF Inr] show ?thesis by (simp add: w vector_of_update)
  qed
qed

lemma replica_okD:
  assumes "replica_ok s node r"
  shows "rr_node r = node" "strip node \<noteq> []" "lc_node (rr_lamport r) = node" "0 \<le> lc_counter (rr_lamport r)"
    "knows_ok s node (vector_of r task) (lc_counter (rr_lamport r)) task"
    "vector_ok (vector_of r task)" "causal s task (nw_known s node task)"
  using assms unfolding replica_ok_def knows_ok_def by blast+

lemma net_ok_replica: "net_ok s \<Longrightarrow> nw_replicas s node = Some r \<Longrightarrow> replica_ok s node r"
  unfolding net_ok_def by blast

text \<open>A new update that extends what its actor knows, counted by the actor's incremented vector.\<close>

lemma update_ok_new:
  assumes g: "nw_updates s' = nw_updates s @ [(u, K)]" and K: "K = nw_known s node task"
    and r: "knows_ok s node v counter task" "0 \<le> counter" "strip node \<noteq> []"
    and u: "tu_id u = task" "tu_actor u = node" "tu_lamport u = \<lparr>ls_counter = counter + 1, ls_node = node\<rparr>"
      "increment node v = Inr (tu_vector u)"
  shows "update_ok s' (length (nw_updates s))" "causal s' task (insert (length (nw_updates s)) K)"
    "vector_ok (tu_vector u)" "vc_get (tu_vector u) n = count_of s' (insert (length (nw_updates s)) K) n"
proof -
  let ?L = "length (nw_updates s)"
  have new: "nw_updates s' ! ?L = (u, K)" by (simp add: g)
  have c: "causal s task K" using r(1) unfolding knows_ok_def K by blast
  have KL: "K \<subseteq> {..<?L}" using c by (auto simp: causal_def)
  note grow = causal_grow [OF g c]
  show ins: "causal s' task (insert ?L K)"
    using grow(1) new u(1) by (auto simp: causal_def g)
  have "vector_ok v" using r(1) by (simp add: knows_ok_def)
  from increment_result [OF this r(3)] u(4)
  have inc: "vector_ok (tu_vector u)" "\<And>n. vc_get (tu_vector u) n = (if n = node then vc_get v n + 1 else vc_get v n)"
    by auto
  then show "vector_ok (tu_vector u)" by blast
  have cnt: "count_of s' (insert ?L K) n = count_of s K n + (if n = node then 1 else 0)" for n
  proof -
    have "{i \<in> insert ?L K. tu_actor (update_at s' i) = n} =
        (if n = node then insert ?L {i \<in> K. tu_actor (update_at s' i) = n} else {i \<in> K. tu_actor (update_at s' i) = n})"
      using new u(2) by auto
    moreover have "?L \<notin> K" "finite K" using KL finite_subset by auto
    ultimately have "count_of s' (insert ?L K) n = count_of s' K n + (if n = node then 1 else 0)"
      by (simp add: count_of_def)
    then show ?thesis using grow(2) by simp
  qed
  have vec: "vc_get (tu_vector u) n = count_of s' (insert ?L K) n" for n
  proof -
    have "vc_get v n = count_of s K n" using r(1) unfolding knows_ok_def K by blast
    then show ?thesis unfolding inc(2) cnt by (cases "n = node") simp_all
  qed
  then show "vc_get (tu_vector u) n = count_of s' (insert ?L K) n" .
  have low: "ls_counter (tu_lamport (update_at s' j)) < counter + 1" if "j \<in> K" for j
    using r(1) that grow(3) [OF that] unfolding knows_ok_def K by (simp add: zle_add1_eq_le)
  have own: "j \<in> K" if "j < ?L" "tu_id (update_at s' j) = task" "tu_actor (update_at s' j) = node" for j
    using r(1) that update_at_grow [OF g that(1)] unfolding knows_ok_def K by simp
  have "ls_counter (tu_lamport u) = counter + 1" "ls_node (tu_lamport u) = node" using u(3) by simp_all
  then show "update_ok s' ?L"
    unfolding update_ok_def new fst_conv snd_conv u(1,2)
    using KL grow(1) inc(1) vec low own r(2) by simp
qed

text \<open>One replica moves and appends updates of its own: the others keep what they know.\<close>

lemma net_ok_update:
  assumes ok: "net_ok s" and g: "nw_updates s' = nw_updates s @ us" and rep: "replica_ok s' node r'"
    and moved: "nw_replicas s' = (nw_replicas s)(node \<mapsto> r')"
    and known: "\<And>m. m \<noteq> node \<Longrightarrow> nw_known s' m = nw_known s m"
    and own: "\<And>u p. (u, p) \<in> set us \<Longrightarrow> tu_actor u = node"
    and new: "\<And>i. length (nw_updates s) \<le> i \<Longrightarrow> i < length (nw_updates s') \<Longrightarrow> update_ok s' i"
  shows "net_ok s'"
proof -
  have "update_ok s' i" if "i < length (nw_updates s')" for i
  proof (cases "i < length (nw_updates s)")
    case True
    then show ?thesis using update_ok_grow [OF g True] ok unfolding net_ok_def by blast
  next
    case False
    then show ?thesis using new that by simp
  qed
  moreover have "replica_ok s' m q" if "nw_replicas s' m = Some q" for m q
  proof (cases "m = node")
    case True
    then show ?thesis using that rep moved by simp
  next
    case False
    then have "nw_replicas s m = Some q" using that moved by simp
    then show ?thesis
      by (rule replica_ok_grow [OF g net_ok_replica [OF ok] known [OF False]]) (use own False in blast)
  qed
  ultimately show ?thesis unfolding net_ok_def by blast
qed

lemma net_ok_local:
  assumes ok: "net_ok s"
  shows "net_ok (net_step (Local node task action state detail time) s)"
proof (cases "nw_replicas s node")
  case None
  with ok show ?thesis by simp
next
  case (Some r)
  obtain s1 where s1: "net_step (Local node task action state detail time) s = s1" by blast
  obtain res r' where run: "record_local_update task action state detail time r = (res, r')" by fastforce
  note r = replica_okD [OF net_ok_replica [OF ok Some]]
  have "0 \<le> lc_counter (rr_lamport r)" "rr_node r = lc_node (rr_lamport r)" "strip (rr_node r) \<noteq> []" using r(1-4) by auto
  note c = record_local_cases [OF run this(2,3,1) r(6)]
  show ?thesis
  proof (cases res)
    case (Inl e)
    then have s': "s1 = s\<lparr>nw_replicas := (nw_replicas s)(node \<mapsto> r')\<rparr>" using Some run s1 by simp
    have g: "nw_updates s1 = nw_updates s @ []" and known: "nw_known s1 = nw_known s" unfolding s' by simp_all
    have c: "rr_node r' = node" "lc_node (rr_lamport r') = node" "rr_vectors r' = rr_vectors r"
        "lc_counter (rr_lamport r) \<le> lc_counter (rr_lamport r')"
      using c Inl r(1,3) by auto
    have "knows_ok s1 node (vector_of r' t) (lc_counter (rr_lamport r')) t" for t
      using knows_ok_grow [OF g r(5) _ c(4), of t] known c(3) by (simp add: vector_of_def)
    then have rep: "replica_ok s1 node r'" using c r(2,4) unfolding replica_ok_def by simp
    show ?thesis unfolding s1 by (rule net_ok_update [OF ok g rep]) (auto simp: s')
  next
    case (Inr u)
    let ?K = "nw_known s node task" and ?L = "length (nw_updates s)"
    have s': "s1 = s\<lparr>nw_replicas := (nw_replicas s)(node \<mapsto> r'), nw_updates := nw_updates s @ [(u, ?K)],
        nw_known := (nw_known s)(node := (nw_known s node)(task := insert ?L ?K))\<rparr>"
      using Some run Inr s1 by simp
    have g: "nw_updates s1 = nw_updates s @ [(u, ?K)]" unfolding s' by simp
    have u: "tu_id u = task" "tu_actor u = node" "lc_counter (rr_lamport r') = lc_counter (rr_lamport r) + 1"
        "tu_lamport u = \<lparr>ls_counter = lc_counter (rr_lamport r) + 1, ls_node = node\<rparr>"
        "increment node (vector_of r task) = Inr (tu_vector u)" "rr_node r' = node" "lc_node (rr_lamport r') = node"
        "\<And>t. vector_of r' t = (if t = task then tu_vector u else vector_of r t)"
      using c Inr r(1,3) by auto
    note new = update_ok_new [OF g refl r(5) r(4,2) u(1,2,4,5)]
    have known: "nw_known s1 node t = (if t = task then insert ?L ?K else nw_known s node t)" for t unfolding s' by simp
    have "knows_ok s1 node (vector_of r' t) (lc_counter (rr_lamport r')) t" for t
    proof (cases "t = task")
      case False
      then show ?thesis
        using knows_ok_grow [OF g r(5), of t "lc_counter (rr_lamport r')"] u(1,3,8) known by simp
    next
      case True
      have low: "ls_counter (tu_lamport (update_at s1 i)) \<le> lc_counter (rr_lamport r')" if "i \<in> insert ?L ?K" for i
      proof (cases "i = ?L")
        case True
        then show ?thesis using u(3,4) by (simp add: g)
      next
        case False
        with that have i: "i \<in> ?K" by blast
        have "ls_counter (tu_lamport (update_at s i)) \<le> lc_counter (rr_lamport r)"
          using r(5) [of task] i unfolding knows_ok_def by blast
        then show ?thesis using causal_grow(3) [OF g r(7) i] u(3) by simp
      qed
      have own: "i \<in> insert ?L ?K"
        if i: "i < length (nw_updates s1)" "tu_actor (update_at s1 i) = node" "tu_id (update_at s1 i) = task" for i
      proof (cases "i = ?L")
        case False
        with i(1) have "i < ?L" by (simp add: g)
        with i(2,3) r(5) [of task] update_at_grow [OF g this] show ?thesis unfolding knows_ok_def by simp
      qed simp
      show ?thesis
        using new low own unfolding knows_ok_def known True u(8) by simp
    qed
    then have rep: "replica_ok s1 node r'" using u(3,6,7) r(2,4) unfolding replica_ok_def by simp
    show ?thesis
      unfolding s1 by (rule net_ok_update [OF ok g rep]) (use new(1) u(2) in \<open>auto simp: s' less_Suc_eq\<close>)
  qed
qed

lemma net_ok_deliver:
  assumes ok: "net_ok s"
  shows "net_ok (net_step (Deliver node i) s)"
proof (cases "nw_replicas s node = None \<or> length (nw_updates s) \<le> i")
  case True
  with ok show ?thesis by (auto split: option.split)
next
  case False
  then obtain r where r: "nw_replicas s node = Some r" and i: "i < length (nw_updates s)" by auto
  obtain u past where up: "nw_updates s ! i = (u, past)" by fastforce
  obtain s1 where s1: "net_step (Deliver node i) s = s1" by blast
  let ?K = "nw_known s node (tu_id u) \<union> insert i past"
  note rr = replica_okD [OF net_ok_replica [OF ok r]]
  have upd: "\<forall>j < length (nw_updates s). update_ok s j" using ok unfolding net_ok_def by blast
  then have ui: "update_ok s i" using i by blast
  then have v: "vector_ok (tu_vector u)" "\<And>n. vc_get (tu_vector u) n = count_of s (insert i past) n"
      "0 \<le> ls_counter (tu_lamport u)" "\<And>j. j \<in> past \<Longrightarrow> ls_counter (tu_lamport (update_at s j)) < ls_counter (tu_lamport u)"
      "causal s (tu_id u) past"
    using up unfolding update_ok_def by auto
  have ci: "causal s (tu_id u) (insert i past)" using causal_insert [of s i] v(5) up i by simp
  from vc_merge_result [OF rr(6) v(1)] obtain m where m: "vc_merge (vector_of r (tu_id u)) (tu_vector u) = Inr m" "vector_ok m"
      "\<And>n. vc_get m n = max (vc_get (vector_of r (tu_id u)) n) (vc_get (tu_vector u) n)"
    by blast
  let ?c = "max (lc_counter (rr_lamport r)) (ls_counter (tu_lamport u)) + 1"
  obtain r' where r': "snd (observe_remote_update u r) = r'" by blast
  have ob: "observe (tu_lamport u) (rr_lamport r) = (Inr \<lparr>ls_counter = ?c, ls_node = node\<rparr>, (rr_lamport r)\<lparr>lc_counter := ?c\<rparr>)"
    using rr(2-4) v(3) by (simp add: observe_def check_stamp_def Let_def)
  have rp: "rr_node r' = node" "lc_node (rr_lamport r') = node" "lc_counter (rr_lamport r') = ?c"
      "\<And>t. vector_of r' t = (if t = tu_id u then m else vector_of r t)"
    using r' rr(1,3) by (auto simp: observe_remote_update_def m(1) ob Let_def vector_of_update)
  have s': "s1 = s\<lparr>nw_replicas := (nw_replicas s)(node \<mapsto> r'),
      nw_known := (nw_known s)(node := (nw_known s node)(tu_id u := ?K))\<rparr>"
    using s1 r i up r' by (simp add: Let_def)
  have g: "nw_updates s1 = nw_updates s @ []" and same: "nw_updates s1 = nw_updates s" unfolding s' by simp_all
  have known: "nw_known s1 node t = (if t = tu_id u then ?K else nw_known s node t)" for t unfolding s' by simp
  have "knows_ok s1 node (vector_of r' t) (lc_counter (rr_lamport r')) t" for t
  proof (cases "t = tu_id u")
    case False
    then show ?thesis using knows_ok_grow [OF g rr(5), of t "lc_counter (rr_lamport r')"] rp(3,4) known by simp
  next
    case True
    have c: "causal s (tu_id u) ?K" by (rule causal_Un [OF rr(7) ci])
    have "vc_get m n = count_of s1 ?K n" for n
    proof -
      have "vc_get (vector_of r (tu_id u)) n = count_of s (nw_known s node (tu_id u)) n" using rr(5) unfolding knows_ok_def by blast
      then show ?thesis unfolding causal_grow(2) [OF g c] count_of_Un [OF upd rr(7) ci] m(3) v(2) by simp
    qed
    moreover have "ls_counter (tu_lamport (update_at s1 j)) \<le> ?c" if "j \<in> ?K" for j
    proof -
      have "ls_counter (tu_lamport (update_at s j)) \<le> lc_counter (rr_lamport r)" if "j \<in> nw_known s node (tu_id u)"
        using rr(5) that unfolding knows_ok_def by blast
      with that v(4) [of j] up show ?thesis unfolding same by fastforce
    qed
    moreover have "j \<in> ?K"
      if "j < length (nw_updates s1)" "tu_actor (update_at s1 j) = node" "tu_id (update_at s1 j) = tu_id u" for j
      using rr(5) [of "tu_id u"] that unfolding knows_ok_def same by blast
    ultimately show ?thesis
      using causal_grow(1) [OF g c] m(2) unfolding knows_ok_def known True rp(3,4) by simp
  qed
  then have rep: "replica_ok s1 node r'" using rp rr(2) rr(4) unfolding replica_ok_def by simp
  show ?thesis
    unfolding s1 by (rule net_ok_update [OF ok g rep]) (auto simp: s')
qed

lemma net_ok_step: "net_ok s \<Longrightarrow> net_ok (net_step e s)"
  by (cases e) (simp_all only: net_ok_local net_ok_deliver)

interpretation nets: machine net_start net_step net_ok
  by unfold_locales (simp_all only: net_ok_start net_ok_step)

section \<open>Vectors are causality\<close>

lemma net_updates_ok: "net_start s \<Longrightarrow> \<forall>i < length (nw_updates (fold net_step es s)). update_ok (fold net_step es s) i"
  using nets.ok_run unfolding net_ok_def by blast

lemma count_of_mono: "finite L \<Longrightarrow> K \<subseteq> L \<Longrightarrow> count_of s K n \<le> count_of s L n"
  unfolding count_of_def by (simp only: of_nat_le_iff) (rule card_mono, auto)

lemma vector_le_iff:
  assumes upd: "\<forall>i < length (nw_updates s). update_ok s i"
    and ij: "i < length (nw_updates s)" "j < length (nw_updates s)" "tu_id (update_at s i) = tu_id (update_at s j)"
  shows "(\<forall>n. vc_get (tu_vector (update_at s i)) n \<le> vc_get (tu_vector (update_at s j)) n) \<longleftrightarrow> i \<in> insert j (past_of s j)"
proof -
  let ?I = "insert i (past_of s i)" and ?J = "insert j (past_of s j)"
  have ui: "update_ok s i" and uj: "update_ok s j" using upd ij by blast+
  have ci: "causal s (tu_id (update_at s j)) ?I" using causal_insert ui ij(1,3) unfolding update_ok_def by metis
  have cj: "causal s (tu_id (update_at s j)) ?J" using causal_insert uj ij(2) unfolding update_ok_def by metis
  have get: "vc_get (tu_vector (update_at s i)) n = count_of s ?I n" "vc_get (tu_vector (update_at s j)) n = count_of s ?J n" for n
    using ui uj unfolding update_ok_def by blast+
  show ?thesis
  proof
    assume "i \<in> ?J"
    then have "?I \<subseteq> ?J" using cj unfolding causal_def by blast
    then show "\<forall>n. vc_get (tu_vector (update_at s i)) n \<le> vc_get (tu_vector (update_at s j)) n"
      unfolding get using count_of_mono [OF causal_finite [OF cj]] by blast
  next
    assume le: "\<forall>n. vc_get (tu_vector (update_at s i)) n \<le> vc_get (tu_vector (update_at s j)) n"
    let ?a = "tu_actor (update_at s i)"
    let ?A = "{k \<in> ?I. tu_actor (update_at s k) = ?a}" and ?B = "{k \<in> ?J. tu_actor (update_at s k) = ?a}"
    have "count_of s ?I ?a \<le> count_of s ?J ?a" using le unfolding get by blast
    then have card: "card ?A \<le> card ?B" by (simp only: count_of_def of_nat_le_iff)
    have fin: "finite ?A" using causal_finite [OF ci] by (rule finite_subset [rotated]) blast
    from causal_linear [OF upd ci cj, of ?a] have "?A \<subseteq> ?B"
    proof
      assume "?B \<subseteq> ?A"
      from card_seteq [OF fin this card] show "?A \<subseteq> ?B" by (rule equalityD2)
    qed
    then show "i \<in> ?J" by blast
  qed
qed

lemma past_lt: "update_ok s i \<Longrightarrow> j \<in> past_of s i \<Longrightarrow> j < i"
  unfolding update_ok_def by blast

lemma update_vector_ok: "update_ok s i \<Longrightarrow> vector_ok (tu_vector (update_at s i))"
  unfolding update_ok_def by blast

lemma relation_of_past:
  assumes upd: "\<forall>i < length (nw_updates s). update_ok s i"
    and ij: "i < length (nw_updates s)" "j < length (nw_updates s)" "tu_id (update_at s i) = tu_id (update_at s j)"
  shows "relation_to (update_at s i) (update_at s j) =
    (if i = j then EQUAL else if i \<in> past_of s j then BEFORE else if j \<in> past_of s i then AFTER else CONCURRENT)"
proof -
  have u: "update_ok s i" "update_ok s j" using upd ij by blast+
  let ?v = "tu_vector (update_at s i)" and ?w = "tu_vector (update_at s j)"
  have eq: "(\<forall>n. vc_get ?v n = vc_get ?w n) \<longleftrightarrow> (\<forall>n. vc_get ?v n \<le> vc_get ?w n) \<and> (\<forall>n. vc_get ?w n \<le> vc_get ?v n)"
    by (metis order_antisym order_refl)
  have not_both: "\<not> (i \<in> past_of s j \<and> j \<in> past_of s i)" using past_lt [OF u(1)] past_lt [OF u(2)] by fastforce
  show ?thesis
    unfolding relation_to_def vc_compare_iff [OF update_vector_ok [OF u(1)] update_vector_ok [OF u(2)]] eq
      vector_le_iff [OF upd ij] vector_le_iff [OF upd ij(2,1) ij(3) [symmetric]]
    using not_both by auto
qed

section \<open>The logical order\<close>

lemma insort_key_map: "insort_key f (g x) (map g xs) = map g (insort_key (\<lambda>y. f (g y)) x xs)"
  by (induction xs) simp_all

lemma sort_key_map: "sort_key f (map g xs) = map g (sort_key (\<lambda>y. f (g y)) xs)"
  by (induction xs) (simp_all add: insort_key_map)

lemma stamp_key_past: "update_ok s j \<Longrightarrow> i \<in> past_of s j \<Longrightarrow> stamp_key (tu_lamport (update_at s i)) < stamp_key (tu_lamport (update_at s j))"
  unfolding update_ok_def stamp_key_def by auto

lemma stamp_key_inj:
  assumes upd: "\<forall>i < length (nw_updates s). update_ok s i"
  shows "inj_on (\<lambda>i. stamp_key (tu_lamport (update_at s i))) {i. i < length (nw_updates s) \<and> tu_id (update_at s i) = task}"
proof (rule linorder_inj_onI)
  fix i j assume ij: "i < j" "i \<in> {i. i < length (nw_updates s) \<and> tu_id (update_at s i) = task}"
    "j \<in> {i. i < length (nw_updates s) \<and> tu_id (update_at s i) = task}"
  then have u: "update_ok s i" "update_ok s j" using upd by blast+
  show "stamp_key (tu_lamport (update_at s i)) \<noteq> stamp_key (tu_lamport (update_at s j))"
  proof (cases "tu_actor (update_at s i) = tu_actor (update_at s j)")
    case True
    moreover have "tu_id (update_at s i) = tu_id (update_at s j)" using ij(2,3) by simp
    ultimately have "i \<in> past_of s j" using ij(1) u(2) unfolding update_ok_def by blast
    from stamp_key_past [OF u(2) this] show ?thesis by simp
  next
    case False
    then show ?thesis using u unfolding update_ok_def stamp_key_def by auto
  qed
qed auto

lemma sorted_key_past:
  assumes upd: "\<forall>i < length (nw_updates s). update_ok s i"
    and qs: "sorted (map (\<lambda>i. stamp_key (tu_lamport (update_at s i))) qs)" "\<forall>q \<in> set qs. q < length (nw_updates s)"
    and ab: "a < b" "b < length qs"
  shows "qs ! b \<notin> past_of s (qs ! a)"
proof
  assume past: "qs ! b \<in> past_of s (qs ! a)"
  have "qs ! a < length (nw_updates s)" using qs(2) ab by simp
  with upd have "update_ok s (qs ! a)" by blast
  from stamp_key_past [OF this past] sorted_nth_mono [OF qs(1), of a b] ab show False by simp
qed

section \<open>Merging is the least upper bound\<close>

lemma vector_ext:
  assumes "vector_ok v" "vector_ok w" "fst ` set v = fst ` set w" "\<And>n. vc_get v n = vc_get w n"
  shows "v = w"
proof -
  have "map_of v n = map_of w n" for n
  proof (cases "n \<in> fst ` set v")
    case True
    then obtain a b where "map_of v n = Some a" "map_of w n = Some b"
      using assms(3) by (metis map_of_eq_None_iff not_None_eq)
    then show ?thesis using assms(4) [of n] by (simp add: vc_get_map_of assms(1,2))
  next
    case False
    then show ?thesis using assms(3) by (metis map_of_eq_None_iff)
  qed
  then have "set v = set w" using assms(1,2) by (metis ext map_of_inject_set vector_ok_distinct)
  then show ?thesis
    using assms(1,2) map_sorted_distinct_set_unique [of fst v w]
    by (auto simp: vector_ok_def strict_sorted_iff distinct_map eq_key_imp_eq_value intro!: inj_onI)
qed

lemma keys_of_ok: "vector_ok x \<Longrightarrow> n \<in> fst ` set x \<longleftrightarrow> map_of x n \<noteq> None"
  by (simp add: map_of_eq_None_iff)

lemma vc_merge_nodes:
  assumes "vector_ok v" "vector_ok w" "vc_merge v w = Inr x"
  shows "fst ` set x = fst ` set v \<union> fst ` set w"
proof -
  have "x = sort (map (\<lambda>n. (n, max (vc_get v n) (vc_get w n))) (all_nodes v w))"
    using assms(3) by (simp add: vc_merge_def from_mapping_def check_vector_iff)
  then show ?thesis using assms(1,2) by (simp add: set_all_nodes image_comp)
qed

lemma vc_merge_some:
  assumes "vector_ok v" "vector_ok w"
  obtains x where "vc_merge v w = Inr x" "vector_ok x" "\<And>n. vc_get x n = max (vc_get v n) (vc_get w n)"
    "fst ` set x = fst ` set v \<union> fst ` set w"
  using vc_merge_result [OF assms] vc_merge_nodes [OF assms] by blast

section \<open>Properties\<close>

definition demo_time :: datetime where
  "demo_time = \<lparr>dt_instant = 0, dt_offset = Some 0\<rparr>"

definition demo_replica :: "string \<Rightarrow> relay_replica" where
  "demo_replica node = \<lparr>rr_node = node, rr_lamport = \<lparr>lc_node = node, lc_counter = 0\<rparr>, rr_vectors = [], rr_history = []\<rparr>"

definition demo_start :: network where
  "demo_start = \<lparr>nw_replicas = [''a'' \<mapsto> demo_replica ''a'', ''b'' \<mapsto> demo_replica ''b''], nw_updates = [], nw_known = (\<lambda>node task. {})\<rparr>"

definition demo_events :: "net_event list" where
  "demo_events = [Local ''a'' ''task-1'' INDEX QUEUED ''accepted'' demo_time,
     Local ''b'' ''task-1'' INDEX RUNNING ''started'' demo_time, Deliver ''b'' 0,
     Local ''b'' ''task-1'' INDEX SUCCEEDED ''done'' demo_time]"

lemma demo_net_start: "net_start demo_start"
  by (simp add: net_start_def demo_start_def demo_replica_def new_replica_def new_lamport_clock_def strip_def is_space_def)

lemma demo_net:
  "map (\<lambda>(u, past). (tu_id u, past)) (nw_updates (fold net_step demo_events demo_start)) =
     [(''task-1'', {}), (''task-1'', {}), (''task-1'', {0, 1})]"
  by code_simp

lemma demo_parts:
  "length (nw_updates (fold net_step demo_events demo_start)) = 3"
  "tu_id (update_at (fold net_step demo_events demo_start) 0) = ''task-1''"
  "tu_id (update_at (fold net_step demo_events demo_start) 1) = ''task-1''"
  "tu_id (update_at (fold net_step demo_events demo_start) 2) = ''task-1''"
  "past_of (fold net_step demo_events demo_start) 0 = {}"
  "past_of (fold net_step demo_events demo_start) 1 = {}"
  "past_of (fold net_step demo_events demo_start) 2 = {0, 1}"
  by code_simp+

text \<open>Property C6. Vector clocks are causality: start any replicas (each with its own node id) and let
  them record updates and receive recorded updates in any order, any number of times, valid or not.
  Then \<open>relation_to\<close> of two updates of a task is BEFORE exactly when the replica that recorded the
  second had received or recorded the first (directly or through a merged vector), AFTER in the
  converse case, EQUAL only for the same update and CONCURRENT otherwise.\<close>
theorem vector_clocks_are_causality:
  assumes "net_start s0" "s = fold net_step es s0"
    and "i < length (nw_updates s)" "j < length (nw_updates s)" "tu_id (update_at s i) = tu_id (update_at s j)"
  shows "relation_to (update_at s i) (update_at s j) =
    (if i = j then EQUAL else if i \<in> past_of s j then BEFORE else if j \<in> past_of s i then AFTER else CONCURRENT)"
  using relation_of_past [OF net_updates_ok [OF assms(1)]] assms(2-5) by blast

theorem vector_clocks_are_causality_witness:
  "relation_to (update_at (fold net_step demo_events demo_start) 0) (update_at (fold net_step demo_events demo_start) 1) = CONCURRENT \<and>
   relation_to (update_at (fold net_step demo_events demo_start) 0) (update_at (fold net_step demo_events demo_start) 2) = BEFORE \<and>
   relation_to (update_at (fold net_step demo_events demo_start) 2) (update_at (fold net_step demo_events demo_start) 1) = AFTER"
  using vector_clocks_are_causality [OF demo_net_start refl, of 0 demo_events 1]
    vector_clocks_are_causality [OF demo_net_start refl, of 0 demo_events 2]
    vector_clocks_are_causality [OF demo_net_start refl, of 2 demo_events 1]
  by (simp add: demo_parts [unfolded One_nat_def])

text \<open>\<open>logical_order\<close> is a deterministic order that extends causality: it arranges the
  updates of a task the same way whatever order they arrive in (repetitions included), and never puts
  an update after one that was recorded with knowledge of it.\<close>
theorem logical_order_extends_causality:
  assumes "net_start s0" "s = fold net_step es s0"
    and ps: "\<forall>p \<in> set ps. p < length (nw_updates s) \<and> tu_id (update_at s p) = task"
  shows "\<exists>qs. mset qs = mset ps \<and>
    (\<forall>ps'. mset ps' = mset ps \<longrightarrow> logical_order (map (update_at s) ps') = map (update_at s) qs) \<and>
    (\<forall>a b. a < b \<and> b < length qs \<longrightarrow> qs ! b \<notin> past_of s (qs ! a))"
proof -
  let ?k = "\<lambda>i. stamp_key (tu_lamport (update_at s i))"
  let ?qs = "sort_key ?k ps"
  have upd: "\<forall>i < length (nw_updates s). update_ok s i" using net_updates_ok [OF assms(1)] assms(2) by blast
  have inj: "inj_on ?k (set ps)" using stamp_key_inj [OF upd, of task] by (rule inj_on_subset) (use ps in auto)
  have same: "sort_key ?k ps' = ?qs" if "mset ps' = mset ps" for ps'
  proof (rule sort_key_inj_key_eq)
    show "inj_on ?k (set ps')" using inj that by (metis mset_eq_setD)
  qed (simp_all add: that)
  have "logical_order (map (update_at s) ps') = map (update_at s) ?qs" if "mset ps' = mset ps" for ps'
    unfolding logical_order_def sort_key_map same [OF that] by (rule refl)
  moreover have "?qs ! b \<notin> past_of s (?qs ! a)" if "a < b" "b < length ?qs" for a b
    by (rule sorted_key_past [OF upd _ _ that]) (use ps in auto)
  ultimately show ?thesis by (intro exI [of _ ?qs]) simp
qed

theorem logical_order_extends_causality_witness:
  "\<exists>qs. mset qs = mset [2, 1, 0] \<and>
    (\<forall>ps'. mset ps' = mset [2, 1, 0] \<longrightarrow> logical_order (map (update_at (fold net_step demo_events demo_start)) ps') =
       map (update_at (fold net_step demo_events demo_start)) qs) \<and>
    (\<forall>a b. a < b \<and> b < length qs \<longrightarrow> qs ! b \<notin> past_of (fold net_step demo_events demo_start) (qs ! a))"
  by (rule logical_order_extends_causality [OF demo_net_start refl, of _ _ "''task-1''"]) (simp add: demo_parts [unfolded One_nat_def])

text \<open>The operations are closed on valid vectors and mean what they say: on vectors the
  constructor accepts, \<open>increment\<close> of a non-empty node and \<open>merge\<close> never raise and return vectors the
  constructor accepts; increment adds one to its node only, merge is the pointwise maximum, commutes
  and absorbs its arguments; and \<open>compare\<close> says BEFORE or EQUAL exactly when every counter of the
  first is at most the second's.\<close>
theorem vector_operations_valid:
  assumes "check_vector v = Inr v" "check_vector w = Inr w" "strip node \<noteq> []"
  shows "(\<exists>x. increment node v = Inr x \<and> check_vector x = Inr x \<and>
      (\<forall>n. vc_get x n = (if n = node then vc_get v n + 1 else vc_get v n)) \<and> vc_compare v x = BEFORE) \<and>
    (\<exists>x. vc_merge v w = Inr x \<and> check_vector x = Inr x \<and> (\<forall>n. vc_get x n = max (vc_get v n) (vc_get w n)) \<and>
      vc_merge w v = Inr x \<and> vc_merge v x = Inr x \<and> vc_merge x w = Inr x) \<and>
    (vc_compare v w = BEFORE \<or> vc_compare v w = EQUAL \<longleftrightarrow> (\<forall>n. vc_get v n \<le> vc_get w n))"
proof (intro conjI)
  have ok: "vector_ok v" "vector_ok w" using assms(1,2) by (simp_all add: check_vector_iff)
  from increment_result [OF ok(1) assms(3)] obtain x where x: "increment node v = Inr x" "vector_ok x"
    "\<And>n. vc_get x n = (if n = node then vc_get v n + 1 else vc_get v n)" by blast
  have "vc_compare v x = BEFORE" unfolding vc_compare_iff [OF ok(1) x(2)] x(3) by (auto split: if_splits)
  with x show "\<exists>x. increment node v = Inr x \<and> check_vector x = Inr x \<and>
      (\<forall>n. vc_get x n = (if n = node then vc_get v n + 1 else vc_get v n)) \<and> vc_compare v x = BEFORE"
    by (auto simp: check_vector_iff)
  from vc_merge_some [OF ok] obtain x where x: "vc_merge v w = Inr x" "vector_ok x"
    "\<And>n. vc_get x n = max (vc_get v n) (vc_get w n)" "fst ` set x = fst ` set v \<union> fst ` set w" by blast
  have upto: "vc_merge a b = Inr x" if ab: "vector_ok a" "vector_ok b" "fst ` set a \<union> fst ` set b = fst ` set x"
    "\<And>n. max (vc_get a n) (vc_get b n) = vc_get x n" for a b
    using vc_merge_some [OF ab(1,2)] by (metis vector_ext [OF _ x(2)] ab(3,4))
  have "vc_merge w v = Inr x" "vc_merge v x = Inr x" "vc_merge x w = Inr x"
    by (rule upto; use ok x in auto)+
  with x show "\<exists>x. vc_merge v w = Inr x \<and> check_vector x = Inr x \<and> (\<forall>n. vc_get x n = max (vc_get v n) (vc_get w n)) \<and>
      vc_merge w v = Inr x \<and> vc_merge v x = Inr x \<and> vc_merge x w = Inr x"
    by (auto simp: check_vector_iff)
  show "vc_compare v w = BEFORE \<or> vc_compare v w = EQUAL \<longleftrightarrow> (\<forall>n. vc_get v n \<le> vc_get w n)"
    unfolding vc_compare_iff [OF ok] by (auto intro: order_refl)
qed

theorem vector_operations_valid_witness:
  "(\<exists>x. increment ''b'' [(''a'', 2)] = Inr x \<and> check_vector x = Inr x) \<and>
   vc_merge [(''a'', 2)] [(''b'', 1)] = Inr [(''a'', 2), (''b'', 1)]"
proof -
  have "check_vector [(''a'', 2)] = Inr [(''a'', 2)]" "check_vector [(''b'', 1)] = Inr [(''b'', 1)]" "strip ''b'' \<noteq> []"
    by code_simp+
  note w = vector_operations_valid [OF this]
  have "vc_merge [(''a'', 2)] [(''b'', 1)] = Inr [(''a'', 2), (''b'', 1)]" by code_simp
  with w show ?thesis by blast
qed

end
