(* ===== verification/RiscV.thy ===== *)
theory RiscV
  imports Prelude
begin

unbundle bit_operations_syntax

text \<open>
  Lab 10, \<open>lab_10_python_execution/riscv.py\<close>: the RV32I ADD simulator with its ripple-carry trace.
  Python integers are \<open>int\<close>, whose bit operations are Python's; the registers are a list of 32.
  The checks that an argument is exactly an \<open>int\<close> hold by typing.
\<close>

section \<open>The instruction\<close>

definition OP :: int where "OP = 51"

definition ADD_FUNCT3 :: int where "ADD_FUNCT3 = 0"

definition ADD_FUNCT7 :: int where "ADD_FUNCT7 = 0"

definition WORD_MASK :: int where "WORD_MASK = push_bit 32 1 - 1"

record full_adder_stage =
  fa_bit :: nat
  fa_left :: int
  fa_right :: int
  fa_carry_in :: int
  fa_sum_bit :: int
  fa_carry_out :: int

record riscv_add_trace =
  at_instruction :: int
  at_pc_before :: int
  at_pc_after :: int
  at_rs1 :: int
  at_rs2 :: int
  at_rd :: int
  at_left :: int
  at_right :: int
  at_result :: int
  at_adder_stages :: "full_adder_stage list"

fun check_fields :: "(string \<times> int) list \<Rightarrow> unit res" where
  "check_fields [] = Inr ()"
| "check_fields ((name, register) # rest) =
     (if \<not> (0 \<le> register \<and> register < 32)
      then Inl (ValueError (name @ '' must be an integer register from 0 to 31''))
      else check_fields rest)"

definition encode_add :: "int \<Rightarrow> int \<Rightarrow> int \<Rightarrow> int res" where
  "encode_add rd rs1 rs2 =
     (case check_fields [(''rd'', rd), (''rs1'', rs1), (''rs2'', rs2)] of
        Inl e \<Rightarrow> Inl e
      | Inr u \<Rightarrow> Inr (push_bit 25 ADD_FUNCT7 OR push_bit 20 rs2 OR push_bit 15 rs1 OR push_bit 12 ADD_FUNCT3 OR
          push_bit 7 rd OR OP))"

section \<open>The adder\<close>

definition full_adder :: "int \<Rightarrow> int \<Rightarrow> nat \<Rightarrow> int \<times> int \<times> full_adder_stage list \<Rightarrow> int \<times> int \<times> full_adder_stage list" where
  "full_adder left right n acc =
     (let (result, carry, stages) = acc;
          left_bit = drop_bit n left AND 1;
          right_bit = drop_bit n right AND 1;
          sum_bit = (left_bit XOR right_bit) XOR carry;
          carry_out = (left_bit AND right_bit) OR (carry AND (left_bit XOR right_bit))
      in (result OR push_bit n sum_bit, carry_out,
          stages @ [\<lparr>fa_bit = n, fa_left = left_bit, fa_right = right_bit, fa_carry_in = carry, fa_sum_bit = sum_bit,
            fa_carry_out = carry_out\<rparr>]))"

definition add_u32 :: "int \<Rightarrow> int \<Rightarrow> int \<times> full_adder_stage list" where
  "add_u32 left right = (let (result, carry, stages) = fold (full_adder left right) [0..<32] (0, 0, []) in (result, stages))"

section \<open>The simulator\<close>

record riscv_simulator =
  rv_registers :: "int list"
  rv_pc :: int

definition new_simulator :: riscv_simulator where
  "new_simulator = \<lparr>rv_registers = replicate 32 0, rv_pc = 0\<rparr>"

definition validate_register :: "int \<Rightarrow> unit res" where
  "validate_register register =
     (if \<not> (0 \<le> register \<and> register < 32) then Inl (ValueError ''register must be an integer from 0 to 31'') else Inr ())"

definition set_register :: "int \<Rightarrow> int \<Rightarrow> riscv_simulator \<Rightarrow> unit res \<times> riscv_simulator" where
  "set_register register x s =
     (case validate_register register of
        Inl e \<Rightarrow> (Inl e, s)
      | Inr u \<Rightarrow>
          (Inr (), if register \<noteq> 0 then s\<lparr>rv_registers := (rv_registers s)[nat register := x AND WORD_MASK]\<rparr> else s))"

definition read_register :: "int \<Rightarrow> riscv_simulator \<Rightarrow> int res" where
  "read_register register s =
     (case validate_register register of
        Inl e \<Rightarrow> Inl e
      | Inr u \<Rightarrow> Inr (rv_registers s ! nat register))"

definition execute_add :: "int \<Rightarrow> riscv_simulator \<Rightarrow> riscv_add_trace res \<times> riscv_simulator" where
  "execute_add instruction s =
     (if \<not> (0 \<le> instruction \<and> instruction \<le> WORD_MASK)
      then (Inl (ValueError ''instruction must be one unsigned 32-bit integer''), s)
      else
        let opcode = instruction AND 127;
            rd = drop_bit 7 instruction AND 31;
            funct3 = drop_bit 12 instruction AND 7;
            rs1 = drop_bit 15 instruction AND 31;
            rs2 = drop_bit 20 instruction AND 31;
            funct7 = drop_bit 25 instruction AND 127
        in if (opcode, funct3, funct7) \<noteq> (OP, ADD_FUNCT3, ADD_FUNCT7)
           then (Inl (ValueError ''instruction is not an RV32I ADD''), s)
           else
             let left = rv_registers s ! nat rs1;
                 right = rv_registers s ! nat rs2;
                 (result, stages) = add_u32 left right;
                 pc_before = rv_pc s;
                 s1 = s\<lparr>rv_pc := pc_before + 4\<rparr>;
                 s2 = (if rd \<noteq> 0 then s1\<lparr>rv_registers := (rv_registers s1)[nat rd := result]\<rparr> else s1)
             in (Inr \<lparr>at_instruction = instruction, at_pc_before = pc_before, at_pc_after = rv_pc s2, at_rs1 = rs1,
                   at_rs2 = rs2, at_rd = rd, at_left = left, at_right = right, at_result = result,
                   at_adder_stages = stages\<rparr>, s2))"

definition relay_addition_trace :: "riscv_add_trace res" where
  "relay_addition_trace =
     (let s1 = snd (set_register 1 8 new_simulator);
          s2 = snd (set_register 2 9 s1)
      in case encode_add 3 1 2 of Inl e \<Rightarrow> Inl e | Inr instruction \<Rightarrow> fst (execute_add instruction s2))"

lemma relay_addition: "map_sum id (\<lambda>t. (at_result t, length (at_adder_stages t))) relay_addition_trace = Inr (17, 32)"
  by code_simp

section \<open>The adder is addition modulo two to the 32\<close>

lemma one_bit: "drop_bit n a AND 1 = (drop_bit n a mod 2 :: int)"
  by (simp add: and_one_eq)

lemma take_bit_next: "take_bit (Suc n) a = take_bit n a + 2 ^ n * (drop_bit n a mod 2 :: int)"
  by (simp add: take_bit_eq_mod drop_bit_eq_div power_Suc2 zmod_zmult2_eq del: power_Suc)

lemma or_above:
  fixes r :: int
  assumes "0 \<le> r" "r < 2 ^ n"
  shows "r OR push_bit n s = r + 2 ^ n * s"
proof -
  have "\<not> bit r m \<or> \<not> bit (push_bit n s) m" for m
  proof (cases "m < n")
    case False
    have "r = take_bit n r" using assms by (simp add: take_bit_int_eq_self)
    with False have "\<not> bit r m" by (metis bit_take_bit_iff)
    then show ?thesis ..
  qed (simp add: bit_push_bit_iff_int)
  then have "r + push_bit n s = r OR push_bit n s" by (rule disjunctive_add)
  then show ?thesis by (simp add: push_bit_eq_mult mult.commute)
qed

text \<open>One stage: three bits are added into two.\<close>

definition stage_ok :: "full_adder_stage \<Rightarrow> bool" where
  "stage_ok st \<longleftrightarrow> {fa_left st, fa_right st, fa_carry_in st, fa_sum_bit st, fa_carry_out st} \<subseteq> {0, 1} \<and>
     fa_sum_bit st + 2 * fa_carry_out st = fa_left st + fa_right st + fa_carry_in st"

lemma bit_adder:
  assumes "x \<in> {0, 1 :: int}" "y \<in> {0, 1}" "c \<in> {0, 1}"
  shows "((x XOR y) XOR c) + 2 * ((x AND y) OR (c AND (x XOR y))) = x + y + c"
    "(x XOR y) XOR c \<in> {0, 1}" "(x AND y) OR (c AND (x XOR y)) \<in> {0, 1}"
  using assms by auto

lemma mod_2_cases: "(a :: int) mod 2 \<in> {0, 1}"
  by auto

lemma adder_prefix:
  "\<exists>result carry stages. fold (full_adder left right) [0..<n] (0, 0, []) = (result, carry, stages) \<and>
     0 \<le> result \<and> result < 2 ^ n \<and> carry \<in> {0, 1} \<and>
     take_bit n left + take_bit n right = result + 2 ^ n * carry \<and>
     map fa_bit stages = [0..<n] \<and> list_all stage_ok stages \<and>
     0 # map fa_carry_out stages = map fa_carry_in stages @ [carry] \<and>
     (\<Sum>st \<leftarrow> stages. 2 ^ fa_bit st * fa_sum_bit st) = result"
proof (induction n)
  case (Suc n)
  then obtain r c st where IH: "fold (full_adder left right) [0..<n] (0, 0, []) = (r, c, st)" "0 \<le> r" "r < 2 ^ n"
    "c \<in> {0, 1}" "take_bit n left + take_bit n right = r + 2 ^ n * c" "map fa_bit st = [0..<n]" "list_all stage_ok st"
    "0 # map fa_carry_out st = map fa_carry_in st @ [c]" "(\<Sum>st \<leftarrow> st. 2 ^ fa_bit st * fa_sum_bit st) = r"
    by blast
  let ?x = "drop_bit n left mod 2" and ?y = "drop_bit n right mod 2"
  let ?s = "(?x XOR ?y) XOR c" and ?c = "(?x AND ?y) OR (c AND (?x XOR ?y))"
  note add = bit_adder [OF mod_2_cases [of "drop_bit n left"] mod_2_cases [of "drop_bit n right"] IH(4)]
  let ?stage = "\<lparr>fa_bit = n, fa_left = ?x, fa_right = ?y, fa_carry_in = c, fa_sum_bit = ?s, fa_carry_out = ?c\<rparr>"
  have step: "fold (full_adder left right) [0..<Suc n] (0, 0, []) = (r + 2 ^ n * ?s, ?c, st @ [?stage])"
    unfolding upt_Suc_append [OF le0] fold_append comp_apply IH(1) fold_simps full_adder_def Let_def prod.case one_bit or_above [OF IH(2,3)]
    by (rule refl)
  have ok: "stage_ok ?stage"
    using add IH(4) mod_2_cases [of "drop_bit n left"] mod_2_cases [of "drop_bit n right"] by (simp add: stage_ok_def)
  have "take_bit (Suc n) left + take_bit (Suc n) right = r + 2 ^ n * (?x + ?y + c)"
    using IH(5) by (simp add: take_bit_next algebra_simps)
  also have "\<dots> = (r + 2 ^ n * ?s) + 2 ^ Suc n * ?c"
    unfolding add(1) [symmetric] by (simp add: algebra_simps)
  finally have sum: "take_bit (Suc n) left + take_bit (Suc n) right = (r + 2 ^ n * ?s) + 2 ^ Suc n * ?c" .
  have bounds: "0 \<le> r + 2 ^ n * ?s" "r + 2 ^ n * ?s < 2 ^ Suc n" using IH(2,3) add(2) by auto
  have chain: "0 # map fa_carry_out (st @ [?stage]) = map fa_carry_in (st @ [?stage]) @ [?c]"
    unfolding map_append append_Cons [symmetric] IH(8) list.map full_adder_stage.simps by (rule refl)
  have total: "(\<Sum>st \<leftarrow> st @ [?stage]. 2 ^ fa_bit st * fa_sum_bit st) = r + 2 ^ n * ?s"
    unfolding map_append sum_list_append IH(9) list.map sum_list.Cons sum_list.Nil full_adder_stage.simps by (rule arg_cong [OF add_0_right])
  have bits: "map fa_bit (st @ [?stage]) = [0..<Suc n]" unfolding map_append IH(6) by simp
  have "list_all stage_ok (st @ [?stage])" unfolding list_all_append list.pred_inject by (intro conjI IH(7) ok list.pred_inject(1))
  with step bounds add(3) sum bits chain total show ?case by blast
qed simp

text \<open>What a trace of stages explains: a chain of full adders from bit 0, whose sum bits are the result.\<close>

definition stages_explain :: "full_adder_stage list \<Rightarrow> int \<Rightarrow> bool" where
  "stages_explain stages result \<longleftrightarrow> map fa_bit stages = [0..<32] \<and> list_all stage_ok stages \<and>
     map fa_carry_in stages = 0 # butlast (map fa_carry_out stages) \<and>
     (\<Sum>st \<leftarrow> stages. 2 ^ fa_bit st * fa_sum_bit st) = result"

lemma add_u32_sum:
  "fst (add_u32 left right) = (left + right) mod 2 ^ 32"
  "stages_explain (snd (add_u32 left right)) (fst (add_u32 left right))"
proof -
  from adder_prefix [of left right 32] obtain r c st where r:
    "fold (full_adder left right) [0..<32] (0, 0, []) = (r, c, st)" "0 \<le> r" "r < 2 ^ 32"
    "take_bit 32 left + take_bit 32 right = r + 2 ^ 32 * c" "map fa_bit st = [0..<32]" "list_all stage_ok st"
    "0 # map fa_carry_out st = map fa_carry_in st @ [c]" "(\<Sum>st \<leftarrow> st. 2 ^ fa_bit st * fa_sum_bit st) = r" by blast
  have "(left + right) mod 2 ^ 32 = (take_bit 32 left + take_bit 32 right) mod 2 ^ 32"
    by (simp add: take_bit_eq_mod mod_add_eq)
  also have "\<dots> = r" unfolding r(4) using r(2,3) by simp
  finally show "fst (add_u32 left right) = (left + right) mod 2 ^ 32" using r(1) by (simp add: add_u32_def)
  have "st \<noteq> []" using arg_cong [OF r(5), of length] by auto
  then have "map fa_carry_in st = 0 # butlast (map fa_carry_out st)"
    using arg_cong [OF r(7), of butlast] by simp
  with r show "stages_explain (snd (add_u32 left right)) (fst (add_u32 left right))"
    by (simp add: add_u32_def stages_explain_def)
qed

section \<open>Encoding and decoding\<close>

lemma and_masks: "(x :: int) AND 127 = x mod 128" "x AND 31 = x mod 32" "x AND 7 = x mod 8" "x AND 4294967295 = x mod 4294967296"
proof -
  have m: "x AND mask n = x mod 2 ^ n" for n by (simp add: take_bit_eq_mod flip: take_bit_eq_mask)
  show "x AND 127 = x mod 128" "x AND 31 = x mod 32" "x AND 7 = x mod 8" "x AND 4294967295 = x mod 4294967296"
    using m [of 7] m [of 5] m [of 3] m [of 32] by (simp_all add: mask_eq_exp_minus_1)
qed

lemma word_mask: "WORD_MASK = 4294967295"
  by (simp add: WORD_MASK_def push_bit_eq_mult)

abbreviation register_ok :: "int \<Rightarrow> bool" where
  "register_ok r \<equiv> 0 \<le> r \<and> r < 32"

lemma encode_value:
  assumes "register_ok rd" "register_ok rs1" "register_ok rs2"
  shows "encode_add rd rs1 rs2 = Inr (1048576 * rs2 + 32768 * rs1 + 128 * rd + 51)"
proof -
  have rd: "push_bit 7 rd OR 51 = 51 + 128 * rd" using or_above [of 51 7 rd] by (simp add: or.commute)
  have rs1: "push_bit 15 rs1 OR (51 + 128 * rd) = 51 + 128 * rd + 32768 * rs1"
    using or_above [of "51 + 128 * rd" 15 rs1] assms by (simp add: or.commute)
  have rs2: "push_bit 20 rs2 OR (51 + 128 * rd + 32768 * rs1) = 51 + 128 * rd + 32768 * rs1 + 1048576 * rs2"
    using or_above [of "51 + 128 * rd + 32768 * rs1" 20 rs2] assms by (simp add: or.commute)
  show ?thesis
    using assms by (simp add: encode_add_def ADD_FUNCT7_def ADD_FUNCT3_def OP_def rd rs1 rs2)
qed

lemma encode_range: "encode_add rd rs1 rs2 = Inr i \<Longrightarrow> register_ok rd \<and> register_ok rs1 \<and> register_ok rs2"
  by (auto simp: encode_add_def split: if_splits)

definition instruction_fields :: "int \<Rightarrow> int \<times> int \<times> int \<times> int \<times> int \<times> int" where
  "instruction_fields i =
     (i mod 128, i div 128 mod 32, i div 4096 mod 8, i div 32768 mod 32, i div 1048576 mod 32, i div 33554432 mod 128)"

lemma div_steps:
  "i div 4096 = i div 128 div 32" "i div 32768 = i div 128 div 32 div 8" "i div 1048576 = i div 128 div 32 div 8 div 32"
  "i div 33554432 = i div 128 div 32 div 8 div 32 div 32" for i :: int
  by (simp_all flip: zdiv_zmult2_eq)

lemma digit_split:
  fixes a k q :: int
  assumes "0 \<le> a" "a < k"
  shows "(a + k * q) div k = q" "(a + k * q) mod k = a"
  using assms by simp_all

lemma encode_fields:
  assumes "encode_add rd rs1 rs2 = Inr i"
  shows "instruction_fields i = (OP, rd, ADD_FUNCT3, rs1, rs2, ADD_FUNCT7) \<and> 0 \<le> i \<and> i \<le> WORD_MASK"
proof -
  note r = encode_range [OF assms]
  then have i: "i = 1048576 * rs2 + 32768 * rs1 + 128 * rd + 51" using encode_value assms by simp
  let ?e = "rs2 + 32 * 0" let ?d = "rs1 + 32 * ?e" let ?c = "0 + 8 * ?d" let ?b = "rd + 32 * ?c"
  have e: "i = 51 + 128 * ?b" using i by simp
  have q: "i div 128 = ?b" "i mod 128 = 51" unfolding e by (rule digit_split; simp)+
  have q2: "?b div 32 = ?c" "?b mod 32 = rd" using r by (intro digit_split; simp)+
  have q3: "?c div 8 = ?d" "?c mod 8 = 0" by (rule digit_split; simp)+
  have q4: "?d div 32 = ?e" "?d mod 32 = rs1" using r by (intro digit_split; simp)+
  have q5: "?e div 32 = 0" "?e mod 32 = rs2" using r by (intro digit_split; simp)+
  have "instruction_fields i = (OP, rd, ADD_FUNCT3, rs1, rs2, ADD_FUNCT7)"
    unfolding instruction_fields_def div_steps q q2 q3 q4 q5 OP_def ADD_FUNCT3_def ADD_FUNCT7_def by simp
  moreover have "0 \<le> i" "i \<le> WORD_MASK" using r unfolding i word_mask by simp_all
  ultimately show ?thesis by blast
qed

lemma fields_encode:
  assumes "instruction_fields i = (OP, rd, ADD_FUNCT3, rs1, rs2, ADD_FUNCT7)" "0 \<le> i" "i \<le> WORD_MASK"
  shows "encode_add rd rs1 rs2 = Inr i"
proof -
  obtain a b c d e where q: "a = i div 128" "b = a div 32" "c = b div 8" "d = c div 32" "e = d div 32" by blast
  have f: "i mod 128 = 51" "a mod 32 = rd" "b mod 8 = 0" "c mod 32 = rs1" "d mod 32 = rs2" "e mod 128 = 0"
    using assms(1) unfolding q instruction_fields_def div_steps OP_def ADD_FUNCT3_def ADD_FUNCT7_def prod.inject by blast+
  have r: "register_ok rd" "register_ok rs1" "register_ok rs2"
    unfolding f(2,4,5) [symmetric] by simp_all
  have m: "i = 128 * a + 51" "a = 32 * b + rd" "b = 8 * c" "c = 32 * d + rs1" "d = 32 * e + rs2"
    using mult_div_mod_eq [of 128 i] mult_div_mod_eq [of 32 a] mult_div_mod_eq [of 8 b] mult_div_mod_eq [of 32 c]
      mult_div_mod_eq [of 32 d] f unfolding q [symmetric] by linarith+
  have "0 \<le> e" "e < 128" using m r assms(2,3) unfolding word_mask by linarith+
  with f(6) have "e = 0" by (metis mod_pos_pos_trivial)
  then have "i = 1048576 * rs2 + 32768 * rs1 + 128 * rd + 51" using m by linarith
  with encode_value [OF r] show ?thesis by simp
qed

section \<open>Execution\<close>

definition registers_ok :: "int list \<Rightarrow> bool" where
  "registers_ok rs \<longleftrightarrow> length rs = 32 \<and> rs ! 0 = 0 \<and> (\<forall>x \<in> set rs. 0 \<le> x \<and> x < 2 ^ 32)"

definition simulator_ok :: "riscv_simulator \<Rightarrow> bool" where
  "simulator_ok s \<longleftrightarrow> registers_ok (rv_registers s)"

lemma registers_ok_update:
  assumes "registers_ok rs" "n \<noteq> 0" "0 \<le> x \<and> x < 2 ^ 32"
  shows "registers_ok (rs[n := x])"
  using assms set_update_subset_insert [of rs n x] unfolding registers_ok_def
  by auto

datatype riscv_event = Set_register int int | Execute_add int

fun riscv_step :: "riscv_event \<Rightarrow> riscv_simulator \<Rightarrow> riscv_simulator" where
  "riscv_step (Set_register register x) s = snd (set_register register x s)"
| "riscv_step (Execute_add instruction) s = snd (execute_add instruction s)"

lemma instruction_fields_iff:
  "instruction_fields i = (opcode, rd, funct3, rs1, rs2, funct7) \<longleftrightarrow>
     i AND 127 = opcode \<and> drop_bit 7 i AND 31 = rd \<and> drop_bit 12 i AND 7 = funct3 \<and> drop_bit 15 i AND 31 = rs1 \<and>
     drop_bit 20 i AND 31 = rs2 \<and> drop_bit 25 i AND 127 = funct7"
proof -
  have d: "drop_bit 7 i = i div 128" "drop_bit 12 i = i div 4096" "drop_bit 15 i = i div 32768"
    "drop_bit 20 i = i div 1048576" "drop_bit 25 i = i div 33554432"
    by (simp_all add: drop_bit_eq_div)
  show ?thesis unfolding instruction_fields_def and_masks d by blast
qed

lemma execute_add_fields:
  assumes f: "instruction_fields i = (opcode, rd, funct3, rs1, rs2, funct7)"
  shows "execute_add i s =
     (if \<not> (0 \<le> i \<and> i \<le> WORD_MASK) then (Inl (ValueError ''instruction must be one unsigned 32-bit integer''), s)
      else if (opcode, funct3, funct7) \<noteq> (OP, ADD_FUNCT3, ADD_FUNCT7) then (Inl (ValueError ''instruction is not an RV32I ADD''), s)
      else let left = rv_registers s ! nat rs1; right = rv_registers s ! nat rs2; result = fst (add_u32 left right)
        in (Inr \<lparr>at_instruction = i, at_pc_before = rv_pc s, at_pc_after = rv_pc s + 4, at_rs1 = rs1, at_rs2 = rs2, at_rd = rd,
              at_left = left, at_right = right, at_result = result, at_adder_stages = snd (add_u32 left right)\<rparr>,
            s\<lparr>rv_registers := if rd = 0 then rv_registers s else (rv_registers s)[nat rd := result], rv_pc := rv_pc s + 4\<rparr>))"
proof -
  from f have e: "i AND 127 = opcode" "drop_bit 7 i AND 31 = rd" "drop_bit 12 i AND 7 = funct3" "drop_bit 15 i AND 31 = rs1"
    "drop_bit 20 i AND 31 = rs2" "drop_bit 25 i AND 127 = funct7"
    unfolding instruction_fields_iff by blast+
  show ?thesis unfolding execute_add_def e by (simp add: Let_def case_prod_unfold)
qed

lemma instruction_fields_range:
  assumes "instruction_fields i = (opcode, rd, funct3, rs1, rs2, funct7)"
  shows "register_ok rd \<and> register_ok rs1 \<and> register_ok rs2"
proof -
  from assms have e: "rd = i div 128 mod 32" "rs1 = i div 32768 mod 32" "rs2 = i div 1048576 mod 32"
    unfolding instruction_fields_def prod.inject by blast+
  have "register_ok (x mod 32)" for x :: int by simp
  then show ?thesis unfolding e by blast
qed

lemma set_register_value:
  "set_register register x s =
     (if register_ok register
      then (Inr (), if register = 0 then s else s\<lparr>rv_registers := (rv_registers s)[nat register := x mod 2 ^ 32]\<rparr>)
      else (Inl (ValueError ''register must be an integer from 0 to 31''), s))"
  unfolding set_register_def validate_register_def word_mask and_masks(4) by simp

lemma set_register_ok:
  assumes "simulator_ok s"
  shows "simulator_ok (snd (set_register register x s))"
proof -
  have "registers_ok ((rv_registers s)[nat register := x mod 2 ^ 32])" if "0 \<le> register" "register \<noteq> 0"
    using assms that by (intro registers_ok_update) (simp_all add: simulator_ok_def)
  with assms show ?thesis unfolding set_register_value simulator_ok_def by simp
qed

lemma add_u32_range: "0 \<le> fst (add_u32 left right) \<and> fst (add_u32 left right) < 2 ^ 32"
  by (simp add: add_u32_sum(1))

lemma execute_add_ok:
  assumes "simulator_ok s"
  shows "simulator_ok (snd (execute_add i s))"
proof -
  obtain opcode rd funct3 rs1 rs2 funct7 where f: "instruction_fields i = (opcode, rd, funct3, rs1, rs2, funct7)"
    by (metis prod_cases6)
  have "registers_ok ((rv_registers s)[nat rd := fst (add_u32 left right)])" if "rd \<noteq> 0" for left right
    using assms instruction_fields_range [OF f] that
    by (intro registers_ok_update add_u32_range) (simp_all add: simulator_ok_def)
  with assms show ?thesis
    unfolding execute_add_fields [OF f] Let_def by (simp add: simulator_ok_def)
qed

lemma new_simulator_ok: "simulator_ok new_simulator"
  by (simp add: simulator_ok_def registers_ok_def new_simulator_def)

interpretation riscv: machine "\<lambda>s. s = new_simulator" riscv_step simulator_ok
proof unfold_locales
  fix s e assume "simulator_ok s"
  then show "simulator_ok (riscv_step e s)" by (cases e) (simp_all add: set_register_ok execute_add_ok)
qed (simp add: new_simulator_ok)

section \<open>Properties\<close>

lemma execute_encoded:
  assumes "encode_add rd rs1 rs2 = Inr i"
  shows "execute_add i s =
    (let left = rv_registers s ! nat rs1; right = rv_registers s ! nat rs2; result = fst (add_u32 left right)
     in (Inr \<lparr>at_instruction = i, at_pc_before = rv_pc s, at_pc_after = rv_pc s + 4, at_rs1 = rs1, at_rs2 = rs2, at_rd = rd,
           at_left = left, at_right = right, at_result = result, at_adder_stages = snd (add_u32 left right)\<rparr>,
         s\<lparr>rv_registers := if rd = 0 then rv_registers s else (rv_registers s)[nat rd := result], rv_pc := rv_pc s + 4\<rparr>))"
proof -
  from encode_fields [OF assms] have f: "instruction_fields i = (OP, rd, ADD_FUNCT3, rs1, rs2, ADD_FUNCT7)" "0 \<le> i" "i \<le> WORD_MASK"
    by blast+
  show ?thesis unfolding execute_add_fields [OF f(1)] using f(2,3) by simp
qed

lemma read_registers: "register_ok r \<Longrightarrow> read_register r s = Inr (rv_registers s ! nat r)"
  by (simp add: read_register_def validate_register_def)

text \<open>Property C19. The simulator executes RV32I ADD: after any register writes and instructions (valid or
  not) from a new simulator, executing the encoding of \<open>add rd, rs1, rs2\<close> succeeds and yields the sum
  of the two source registers modulo two to the 32, which the recorded stages explain as a chain of full
  adders; it writes that to \<open>rd\<close> (register 0 stays 0), keeps the other registers and advances the
  program counter by 4.\<close>
theorem riscv_add_wraps:
  assumes "encode_add rd rs1 rs2 = Inr i" "s = fold riscv_step es new_simulator"
  shows "\<exists>t s' left right. execute_add i s = (Inr t, s') \<and> read_register rs1 s = Inr left \<and> read_register rs2 s = Inr right \<and>
    at_result t = (left + right) mod 2 ^ 32 \<and> stages_explain (at_adder_stages t) (at_result t) \<and>
    read_register rd s' = Inr (if rd = 0 then 0 else at_result t) \<and>
    (\<forall>r. r = rd \<or> read_register r s' = read_register r s) \<and> rv_pc s' = rv_pc s + 4 \<and> at_pc_after t = rv_pc s'"
proof -
  have ok: "registers_ok (rv_registers s)" using riscv.ok_run [of _ es] unfolding assms(2) simulator_ok_def by blast
  note r = encode_range [OF assms(1)]
  obtain left right where lr: "left = rv_registers s ! nat rs1" "right = rv_registers s ! nat rs2" by blast
  obtain t s' where ts: "execute_add i s = (Inr t, s')" and
    t: "at_result t = fst (add_u32 left right)" "at_adder_stages t = snd (add_u32 left right)" "at_pc_after t = rv_pc s'" and
    s': "s' = s\<lparr>rv_registers := if rd = 0 then rv_registers s else (rv_registers s)[nat rd := at_result t], rv_pc := rv_pc s + 4\<rparr>"
    using execute_encoded [OF assms(1), of s] unfolding Let_def lr [symmetric] by simp
  have rd: "read_register rd s' = Inr (if rd = 0 then 0 else at_result t)"
  proof -
    have "nat rd < length (rv_registers s)" "rv_registers s ! 0 = 0" using r ok nat_less_iff [of rd 32] by (simp_all add: registers_ok_def)
    then show ?thesis unfolding read_registers [OF conjunct1 [OF r]] s' by simp
  qed
  have others: "read_register r' s' = read_register r' s" if "r' \<noteq> rd" for r'
  proof (cases "register_ok r'")
    case True
    then have "nat rd \<noteq> nat r'" using that r eq_nat_nat_iff [of rd r'] by simp
    then show ?thesis unfolding read_registers [OF True] s' by simp
  qed (simp add: read_register_def validate_register_def)
  have "read_register rs1 s = Inr left" "read_register rs2 s = Inr right" using r unfolding lr by (intro read_registers; blast)+
  moreover have "at_result t = (left + right) mod 2 ^ 32" unfolding t(1) by (rule add_u32_sum)
  moreover have "stages_explain (at_adder_stages t) (at_result t)" unfolding t(1,2) by (rule add_u32_sum)
  moreover have "rv_pc s' = rv_pc s + 4" unfolding s' by simp
  ultimately show ?thesis using ts t(3) rd others by blast
qed

theorem riscv_add_wraps_witness:
  "\<exists>t s'. execute_add 2130355 (fold riscv_step [Set_register 1 (2 ^ 32 - 1), Set_register 2 2] new_simulator) = (Inr t, s') \<and>
     at_result t = 1 \<and> read_register 3 s' = Inr 1 \<and> read_register 0 s' = Inr 0"
proof -
  let ?s = "fold riscv_step [Set_register 1 (2 ^ 32 - 1), Set_register 2 2] new_simulator"
  have "encode_add 3 1 2 = Inr 2130355" "read_register 1 ?s = Inr 4294967295" "read_register 2 ?s = Inr 2" "read_register 0 ?s = Inr 0"
    by code_simp+
  note pre = this
  from riscv_add_wraps [OF pre(1) refl, of "[Set_register 1 (2 ^ 32 - 1), Set_register 2 2]"] obtain t s' left right where
    w: "execute_add 2130355 ?s = (Inr t, s')" "read_register 1 ?s = Inr left" "read_register 2 ?s = Inr right"
    "at_result t = (left + right) mod 2 ^ 32" "read_register 3 s' = Inr (if (3 :: int) = 0 then 0 else at_result t)"
    "0 = (3 :: int) \<or> read_register 0 s' = read_register 0 ?s" by blast
  have "left = 4294967295" "right = 2" using w(2,3) pre(2,3) by simp_all
  with w(4) have "at_result t = 1" by simp
  with w(1,5,6) pre(4) show ?thesis by simp
qed

text \<open>Decoding inverts encoding: \<open>execute_add\<close> accepts exactly the words that \<open>encode_add\<close>
  makes, with the registers it was made of, and otherwise raises ValueError and leaves the simulator as
  it was.\<close>
theorem riscv_decode_inverts_encode:
  "(\<exists>t. fst (execute_add i s) = Inr t \<and> encode_add (at_rd t) (at_rs1 t) (at_rs2 t) = Inr i) \<noteq>
   ((\<exists>msg. execute_add i s = (Inl (ValueError msg), s)) \<and> (\<nexists>rd rs1 rs2. encode_add rd rs1 rs2 = Inr i))"
proof -
  obtain opcode rd funct3 rs1 rs2 funct7 where f: "instruction_fields i = (opcode, rd, funct3, rs1, rs2, funct7)"
    by (metis prod_cases6)
  show ?thesis
  proof (cases "(opcode, funct3, funct7) = (OP, ADD_FUNCT3, ADD_FUNCT7) \<and> 0 \<le> i \<and> i \<le> WORD_MASK")
    case True
    with f have e: "encode_add rd rs1 rs2 = Inr i" using fields_encode by simp
    then show ?thesis unfolding execute_encoded [OF e] Let_def by auto
  next
    case False
    have "encode_add rd' rs1' rs2' \<noteq> Inr i" for rd' rs1' rs2' using encode_fields [of rd' rs1' rs2' i] f False by auto
    with False show ?thesis unfolding execute_add_fields [OF f] by auto
  qed
qed

end
