(* ===== verification/MiniVm.thy ===== *)
theory MiniVm
  imports Prelude "HOL-Library.Word"
begin

text \<open>
  Lab 10, \<open>lab_10_python_execution/mini_vm.py\<close>: the teaching stack machine.  Its objects are integers,
  booleans (which Python counts as integers), strings and others, of any type \<open>'o\<close>; the operand stack is
  a list with the top first.  A byte is an \<open>8 word\<close>.
\<close>

section \<open>Instructions\<close>

datatype mini_opcode = LOAD_CONST | ADD | FORMAT_TASK_ID | RETURN

fun opcode_number :: "mini_opcode \<Rightarrow> int" where
  "opcode_number LOAD_CONST = 1"
| "opcode_number ADD = 2"
| "opcode_number FORMAT_TASK_ID = 3"
| "opcode_number RETURN = 4"

fun opcode_name :: "mini_opcode \<Rightarrow> string" where
  "opcode_name LOAD_CONST = ''LOAD_CONST''"
| "opcode_name ADD = ''ADD''"
| "opcode_name FORMAT_TASK_ID = ''FORMAT_TASK_ID''"
| "opcode_name RETURN = ''RETURN''"

text \<open>\<open>MiniOpcode(number)\<close>; None where it raises.\<close>

definition opcode_of :: "int \<Rightarrow> mini_opcode option" where
  "opcode_of n = List.find (\<lambda>opcode. opcode_number opcode = n) [LOAD_CONST, ADD, FORMAT_TASK_ID, RETURN]"

record instruction_definition =
  in_opcode :: mini_opcode
  in_argument_bytes :: int
  in_pops :: nat
  in_pushes :: nat
  in_summary :: string

definition stack_effect :: "instruction_definition \<Rightarrow> int" where
  "stack_effect d = int (in_pushes d) - int (in_pops d)"

fun instruction_set :: "mini_opcode \<Rightarrow> instruction_definition" where
  "instruction_set LOAD_CONST = \<lparr>in_opcode = LOAD_CONST, in_argument_bytes = 1, in_pops = 0, in_pushes = 1,
     in_summary = ''push the object referenced by constants[argument]''\<rparr>"
| "instruction_set ADD = \<lparr>in_opcode = ADD, in_argument_bytes = 1, in_pops = 2, in_pushes = 1,
     in_summary = ''pop two integer operands and push their sum''\<rparr>"
| "instruction_set FORMAT_TASK_ID = \<lparr>in_opcode = FORMAT_TASK_ID, in_argument_bytes = 1, in_pops = 1, in_pushes = 1,
     in_summary = ''replace a non-negative integer with task-N''\<rparr>"
| "instruction_set RETURN = \<lparr>in_opcode = RETURN, in_argument_bytes = 1, in_pops = 1, in_pushes = 0,
     in_summary = ''return the object referenced by the top stack item''\<rparr>"

fun assemble :: "(mini_opcode \<times> int) list \<Rightarrow> 8 word list res" where
  "assemble [] = Inr []"
| "assemble ((opcode, argument) # instructions) =
     (if \<not> (0 \<le> argument \<and> argument \<le> 255) then Inl (ValueError ''instruction argument must fit in one byte'')
      else case assemble instructions of
             Inl e \<Rightarrow> Inl e
           | Inr encoded \<Rightarrow> Inr (word_of_int (opcode_number opcode) # word_of_int argument # encoded))"

definition relay_task_program :: "int \<Rightarrow> 8 word list res" where
  "relay_task_program constant_index = assemble [(LOAD_CONST, constant_index), (FORMAT_TASK_ID, 0), (RETURN, 0)]"

section \<open>The machine\<close>

datatype 'o py_object = Int_object int | Bool_object bool | Str_object string | Other_object 'o

text \<open>The integer an instance of \<open>int\<close> stands for.\<close>

fun as_integer :: "'o py_object \<Rightarrow> int option" where
  "as_integer (Int_object i) = Some i"
| "as_integer (Bool_object b) = Some (if b then 1 else 0)"
| "as_integer (Str_object s) = None"
| "as_integer (Other_object x) = None"

text \<open>What one instruction does to the stack; \<open>Inr (Inr x)\<close> returns \<open>x\<close>.\<close>

fun perform :: "'o py_object list \<Rightarrow> mini_opcode \<Rightarrow> nat \<Rightarrow> 'o py_object list \<Rightarrow> ('o py_object list + 'o py_object) res" where
  "perform constants LOAD_CONST argument stack =
     (if argument < length constants then Inr (Inl (constants ! argument # stack))
      else Inl (ValueError (''constant index is out of range: '' @ show_nat argument)))"
| "perform constants ADD argument (right # left # stack) =
     (case (as_integer left, as_integer right) of
        (Some l, Some r) \<Rightarrow> Inr (Inl (Int_object (l + r) # stack))
      | _ \<Rightarrow> Inl (TypeError ''ADD requires two integers''))"
| "perform constants FORMAT_TASK_ID argument (x # stack) =
     (case x of
        Int_object i \<Rightarrow>
          if i < 0 then Inl (ValueError ''FORMAT_TASK_ID requires a non-negative integer'')
          else Inr (Inl (Str_object (''task-'' @ show_int i) # stack))
      | _ \<Rightarrow> Inl (TypeError ''FORMAT_TASK_ID requires an exact integer''))"
| "perform constants RETURN argument (x # stack) = Inr (Inr x)"
| "perform constants opcode argument stack = Inl (RuntimeError (''stack underflow in '' @ opcode_name opcode))"

function execute_loop :: "8 word list \<Rightarrow> 'o py_object list \<Rightarrow> 'o py_object list \<Rightarrow> nat \<Rightarrow> 'o py_object res" where
  "execute_loop bytecode constants stack ip =
     (if length bytecode \<le> ip then Inl (RuntimeError ''program ended without RETURN'')
      else
        let numeric_opcode = uint (bytecode ! ip); argument = unat (bytecode ! (ip + 1))
        in case opcode_of numeric_opcode of
             None \<Rightarrow> Inl (ValueError (''unknown opcode: '' @ show_int numeric_opcode))
           | Some opcode \<Rightarrow>
               if length stack < in_pops (instruction_set opcode)
               then Inl (RuntimeError (''stack underflow in '' @ opcode_name opcode))
               else case perform constants opcode argument stack of
                      Inl e \<Rightarrow> Inl e
                    | Inr (Inr x) \<Rightarrow> Inr x
                    | Inr (Inl stack') \<Rightarrow> execute_loop bytecode constants stack' (ip + 2))"
  by pat_completeness auto

termination
  by (relation "measure (\<lambda>(bytecode, constants, stack, ip). length bytecode - ip)") auto

declare execute_loop.simps [simp del]

definition execute :: "8 word list \<Rightarrow> 'o py_object list \<Rightarrow> 'o py_object res" where
  "execute bytecode constants =
     (if odd (length bytecode) then Inl (ValueError ''bytecode must contain opcode and argument pairs'')
      else execute_loop bytecode constants [] 0)"

lemma relay_program_runs:
  "(case relay_task_program 1 of Inl e \<Rightarrow> Inl e | Inr code \<Rightarrow> execute code [Bool_object True, Int_object 17 :: unit py_object]) =
     Inr (Str_object ''task-17'')"
  by code_simp

section \<open>Assembled programs\<close>

text \<open>The instructions run one after the other, without the byte code.\<close>

fun run :: "'o py_object list \<Rightarrow> (mini_opcode \<times> int) list \<Rightarrow> 'o py_object list \<Rightarrow> 'o py_object res" where
  "run constants [] stack = Inl (RuntimeError ''program ended without RETURN'')"
| "run constants ((opcode, argument) # instructions) stack =
     (if length stack < in_pops (instruction_set opcode) then Inl (RuntimeError (''stack underflow in '' @ opcode_name opcode))
      else case perform constants opcode (nat argument) stack of
             Inl e \<Rightarrow> Inl e
           | Inr (Inr x) \<Rightarrow> Inr x
           | Inr (Inl stack') \<Rightarrow> run constants instructions stack')"

abbreviation encoded :: "mini_opcode \<times> int \<Rightarrow> 8 word list" where
  "encoded i \<equiv> [word_of_int (opcode_number (fst i)), word_of_int (snd i)]"

lemma assemble_Inl: "assemble is = Inl e \<Longrightarrow> \<exists>i \<in> set is. \<not> (0 \<le> snd i \<and> snd i \<le> 255)"
  by (induction "is" arbitrary: e rule: assemble.induct) (auto split: if_splits sum.splits)

lemma assemble_iff:
  "assemble is = Inr code \<longleftrightarrow> (\<forall>i \<in> set is. 0 \<le> snd i \<and> snd i \<le> 255) \<and> code = concat (map encoded is)"
proof (induction "is" arbitrary: code rule: assemble.induct)
  case (2 opcode a "is")
  show ?case
  proof (cases "0 \<le> a \<and> a \<le> 255")
    case True
    show ?thesis
    proof (cases "assemble is")
      case (Inl e)
      with True assemble_Inl [OF Inl] show ?thesis by auto
    next
      case (Inr c)
      with 2 [of c] True have "\<forall>i \<in> set is. 0 \<le> snd i \<and> snd i \<le> 255" "c = concat (map encoded is)" by blast+
      with Inr True show ?thesis by auto
    qed
  qed auto
qed auto

lemma opcode_decode: "opcode_of (uint (word_of_int (opcode_number opcode) :: 8 word)) = Some opcode"
  by (cases opcode) (simp_all add: opcode_of_def)

lemma argument_decode: "0 \<le> a \<Longrightarrow> a \<le> 255 \<Longrightarrow> unat (word_of_int a :: 8 word) = nat a"
  by (simp add: unat_eq_nat_uint unsigned_of_int take_bit_int_eq_self)

lemma execute_loop_run:
  "\<forall>i \<in> set is. 0 \<le> snd i \<and> snd i \<le> 255 \<Longrightarrow>
   execute_loop (pre @ concat (map encoded is)) constants stack (length pre) = run constants is stack"
proof (induction "is" arbitrary: pre stack)
  case Nil
  then show ?case by (simp add: execute_loop.simps)
next
  case (Cons i "is")
  have "execute_loop (pre @ concat (map encoded (i # is))) constants st (length pre + 2) = run constants is st" for st
    using Cons.IH [of "pre @ encoded i" st] Cons.prems by simp
  moreover obtain opcode a where "i = (opcode, a)" by fastforce
  ultimately show ?case
    using Cons.prems
    by (subst execute_loop.simps)
      (simp add: nth_append opcode_decode argument_decode Let_def split: sum.split)
qed

lemma execute_run: "assemble is = Inr code \<Longrightarrow> execute code constants = run constants is []"
proof -
  assume "assemble is = Inr code"
  then have "\<forall>i \<in> set is. 0 \<le> snd i \<and> snd i \<le> 255" "code = concat (map encoded is)" by (simp_all add: assemble_iff)
  moreover from this(2) have "even (length code)" by (simp add: length_concat comp_def sum_list_triv)
  ultimately show ?thesis using execute_loop_run [of "is" "[]"] by (simp add: execute_def)
qed

section \<open>The static stack check\<close>

text \<open>The stack depth, by the instruction set alone, never below what an instruction pops, until RETURN.\<close>

fun verified :: "nat \<Rightarrow> (mini_opcode \<times> int) list \<Rightarrow> bool" where
  "verified depth [] \<longleftrightarrow> False"
| "verified depth ((opcode, argument) # instructions) \<longleftrightarrow>
     in_pops (instruction_set opcode) \<le> depth \<and>
     (opcode = RETURN \<or> verified (nat (int depth + stack_effect (instruction_set opcode))) instructions)"

lemma perform_depth:
  assumes "in_pops (instruction_set opcode) \<le> length stack"
  shows "perform constants opcode a stack = Inr (Inl stack') \<Longrightarrow>
      opcode \<noteq> RETURN \<and> int (length stack') = int (length stack) + stack_effect (instruction_set opcode)"
    "perform constants opcode a stack = Inr (Inr x) \<Longrightarrow> opcode = RETURN"
    "perform constants opcode a stack \<noteq> Inl (RuntimeError msg)"
  using assms
  by (cases "(constants, opcode, a, stack)" rule: perform.cases;
      auto simp: stack_effect_def split: if_splits option.splits py_object.splits)+

lemma verified_run: "verified (length stack) is \<Longrightarrow> run constants is stack \<noteq> Inl (RuntimeError msg)"
proof (induction constants "is" stack rule: run.induct)
  case (2 constants opcode a "is" stack)
  then have pops: "\<not> length stack < in_pops (instruction_set opcode)" by simp
  note depth = perform_depth [of opcode stack constants "nat a", OF leI [OF pops]]
  show ?case
  proof (cases "perform constants opcode (nat a) stack")
    case (Inl e)
    with pops depth(3) show ?thesis by auto
  next
    case (Inr r)
    show ?thesis
    proof (cases r)
      case (Inl st)
      with Inr depth(1) have "opcode \<noteq> RETURN" "length st = nat (int (length stack) + stack_effect (instruction_set opcode))"
        by auto
      with 2 pops Inr Inl show ?thesis by simp
    qed (use Inr pops in simp)
  qed
qed simp

lemma unverified_run: "\<not> verified (length stack) is \<Longrightarrow> \<exists>e. run constants is stack = Inl e"
proof (induction constants "is" stack rule: run.induct)
  case (2 constants opcode a "is" stack)
  show ?case
  proof (cases "length stack < in_pops (instruction_set opcode)")
    case False
    note depth = perform_depth [of opcode stack constants "nat a", OF leI [OF False]]
    show ?thesis
    proof (cases "perform constants opcode (nat a) stack")
      case (Inr r)
      then obtain st where st: "r = Inl st" using depth(2) 2(2) False by (cases r) (auto simp: Suc_le_eq)
      with Inr depth(1) have "opcode \<noteq> RETURN" "length st = nat (int (length stack) + stack_effect (instruction_set opcode))"
        by auto
      with 2 False Inr st show ?thesis by simp
    qed simp
  qed simp
qed simp

section \<open>Compiled expressions\<close>

datatype expression = Constant nat | Plus expression expression

fun compile :: "expression \<Rightarrow> (mini_opcode \<times> int) list" where
  "compile (Constant n) = [(LOAD_CONST, int n)]"
| "compile (Plus e f) = compile e @ compile f @ [(ADD, 0)]"

fun total :: "'o py_object list \<Rightarrow> expression \<Rightarrow> int" where
  "total constants (Constant n) = the (as_integer (constants ! n))"
| "total constants (Plus e f) = total constants e + total constants f"

fun evaluates :: "'o py_object list \<Rightarrow> expression \<Rightarrow> bool" where
  "evaluates constants (Constant n) \<longleftrightarrow> n < length constants \<and> n \<le> 255 \<and> as_integer (constants ! n) \<noteq> None"
| "evaluates constants (Plus e f) \<longleftrightarrow> evaluates constants e \<and> evaluates constants f"

lemma compile_arguments: "evaluates constants e \<Longrightarrow> \<forall>i \<in> set (compile e). 0 \<le> snd i \<and> snd i \<le> 255"
  by (induction e) auto

lemma run_compile:
  "evaluates constants e \<Longrightarrow>
   \<exists>x. as_integer x = Some (total constants e) \<and> (\<forall>f g. e = Plus f g \<longrightarrow> x = Int_object (total constants e)) \<and>
     (\<forall>is stack. run constants (compile e @ is) stack = run constants is (x # stack))"
proof (induction e)
  case (Plus e f)
  then obtain x y where "as_integer x = Some (total constants e)" "as_integer y = Some (total constants f)"
    "\<And>is stack. run constants (compile e @ is) stack = run constants is (x # stack)"
    "\<And>is stack. run constants (compile f @ is) stack = run constants is (y # stack)" by auto
  then show ?case by (intro exI [of _ "Int_object (total constants (Plus e f))"]) simp
qed auto

lemma run_return: "run constants [(RETURN, 0)] [x] = Inr x"
  by simp

lemma run_format:
  "run constants [(FORMAT_TASK_ID, 0), (RETURN, 0)] [Int_object n] =
     (if n < 0 then Inl (ValueError ''FORMAT_TASK_ID requires a non-negative integer'')
      else Inr (Str_object (''task-'' @ show_int n)))"
  by simp

lemma compiled_runs:
  assumes "evaluates constants (Plus e f)" "\<forall>i \<in> set is. 0 \<le> snd i \<and> snd i \<le> 255"
  shows "\<exists>code. assemble (compile (Plus e f) @ is) = Inr code \<and>
    execute code constants = run constants is [Int_object (total constants (Plus e f))]"
proof -
  have "assemble (compile (Plus e f) @ is) = Inr (concat (map encoded (compile (Plus e f) @ is)))"
    using compile_arguments [OF assms(1)] assms(2) unfolding assemble_iff by auto
  moreover from run_compile [OF assms(1)] have "run constants (compile (Plus e f) @ is) [] = run constants is [Int_object (total constants (Plus e f))]"
    by blast
  ultimately show ?thesis using execute_run [of "compile (Plus e f) @ is" _ constants] by (intro exI conjI) (assumption, simp only:)
qed

section \<open>Properties\<close>

text \<open>Property C33. The instruction set's stack effects describe the machine: a program that passes the
  static stack check built on them alone never raises RuntimeError (no underflow, no missing RETURN),
  whatever the constants, and a program that fails it never returns an object.\<close>
theorem verified_programs_never_underflow:
  assumes "assemble is = Inr code"
  shows "if verified 0 is then \<forall>(constants :: 'o py_object list) msg. execute code constants \<noteq> Inl (RuntimeError msg)
    else \<forall>constants :: 'o py_object list. \<exists>e. execute code constants = Inl e"
proof (cases "verified 0 is")
  case True
  then show ?thesis by (simp add: execute_run [OF assms] verified_run [where stack = "[]", simplified])
next
  case False
  then show ?thesis by (simp add: execute_run [OF assms] unverified_run [where stack = "[]", simplified])
qed

theorem verified_programs_never_underflow_witness:
  "(\<forall>constants :: unit py_object list. \<forall>msg. execute [1, 0, 3, 0, 4, 0] constants \<noteq> Inl (RuntimeError msg)) \<and>
   (\<forall>constants :: unit py_object list. \<exists>e. execute [1, 0, 2, 0, 4, 0] constants = Inl e)"
proof -
  have "assemble [(LOAD_CONST, 0), (FORMAT_TASK_ID, 0), (RETURN, 0)] = Inr [1, 0, 3, 0, 4, 0]"
    "assemble [(LOAD_CONST, 0), (ADD, 0), (RETURN, 0)] = Inr [1, 0, 2, 0, 4, 0]"
    "verified 0 [(LOAD_CONST, 0), (FORMAT_TASK_ID, 0), (RETURN, 0)]" "\<not> verified 0 [(LOAD_CONST, 0), (ADD, 0), (RETURN, 0)]"
    by code_simp+
  then show ?thesis
    using verified_programs_never_underflow [of "[(LOAD_CONST, 0), (FORMAT_TASK_ID, 0), (RETURN, 0)]"]
      verified_programs_never_underflow [of "[(LOAD_CONST, 0), (ADD, 0), (RETURN, 0)]"] by metis
qed

text \<open>Programs assembled from sums of constants compute them: the code of an expression
  returns the sum of its integer constants (booleans count as integers), and followed by
  FORMAT_TASK_ID it returns the task id of a non-negative sum and raises ValueError for a negative one.\<close>
theorem compiled_sums_evaluate:
  assumes "evaluates constants (Plus e f)"
  shows "(\<exists>code. assemble (compile (Plus e f) @ [(RETURN, 0)]) = Inr code \<and>
      execute code constants = Inr (Int_object (total constants (Plus e f)))) \<and>
    (\<exists>code. assemble (compile (Plus e f) @ [(FORMAT_TASK_ID, 0), (RETURN, 0)]) = Inr code \<and>
      execute code constants =
        (if total constants (Plus e f) < 0 then Inl (ValueError ''FORMAT_TASK_ID requires a non-negative integer'')
         else Inr (Str_object (''task-'' @ show_int (total constants (Plus e f))))))"
proof -
  note t = compiled_runs [OF assms]
  from t [of "[(RETURN, 0)]"] t [of "[(FORMAT_TASK_ID, 0), (RETURN, 0)]"] show ?thesis
    unfolding run_return run_format by simp
qed

theorem compiled_sums_evaluate_witness:
  "\<exists>code. assemble (compile (Plus (Constant 0) (Constant 1)) @ [(RETURN, 0)]) = Inr code \<and>
     execute code [Int_object 16 :: unit py_object, Bool_object True] = Inr (Int_object 17)"
proof -
  have "evaluates [Int_object 16 :: unit py_object, Bool_object True] (Plus (Constant 0) (Constant 1))"
    "total [Int_object 16 :: unit py_object, Bool_object True] (Plus (Constant 0) (Constant 1)) = 17" by code_simp+
  with compiled_sums_evaluate [OF this(1)] show ?thesis by metis
qed

end
