(* ===== verification/LoadShedding.thy ===== *)
theory LoadShedding
  imports Prelude "HOL-Library.Multiset"
begin

text \<open>
  Lab 33, \<open>lab_33_load_shedding/backpressure.py\<close>: admission control with bounded workers and queue, the
  circuit breaker and the consumer that retries, defers or dead-letters.  Times are integers in
  milliseconds and come from the caller.  The retry budget and the backoff delay compute on floats: they
  are arguments of \<open>process\<close>.  Objects are returned updated, also when a call raises.
\<close>

section \<open>Messages\<close>

record relay_message =
  rm_id :: string
  rm_payload :: string
  rm_attempts :: int

definition next_attempt :: "relay_message \<Rightarrow> relay_message" where
  "next_attempt m = m\<lparr>rm_attempts := rm_attempts m + 1\<rparr>"

record admission_decision =
  ad_accepted :: bool
  ad_reason :: string
  ad_queue_depth :: int
  ad_retry_after :: "int option"

record completed_request =
  cr_message_id :: string
  cr_accepted_at :: int
  cr_started_at :: int
  cr_completed_at :: int

definition latency_ms :: "completed_request \<Rightarrow> int" where
  "latency_ms c = cr_completed_at c - cr_accepted_at c"

section \<open>Admission control\<close>

record queued_message =
  qm_message :: relay_message
  qm_accepted_at :: int

record inflight_message =
  im_message :: relay_message
  im_accepted_at :: int
  im_started_at :: int
  im_completed_at :: int

record admission_controller =
  ac_workers :: int
  ac_queue_limit :: int
  ac_service_time :: int
  ac_completed :: "completed_request list"
  ac_max_depth :: int
  ac_queue :: "queued_message list"
  ac_inflight :: "inflight_message list"

definition new_admission_controller :: "int \<Rightarrow> int \<Rightarrow> int \<Rightarrow> admission_controller res" where
  "new_admission_controller workers queue_limit service_time =
     (if workers < 1 then Inl (ValueError ''workers must be at least one'')
      else if queue_limit < 0 then Inl (ValueError ''queue_limit must not be negative'')
      else if service_time < 1 then Inl (ValueError ''service_time_ms must be positive'')
      else Inr \<lparr>ac_workers = workers, ac_queue_limit = queue_limit, ac_service_time = service_time, ac_completed = [],
             ac_max_depth = 0, ac_queue = [], ac_inflight = []\<rparr>)"

definition queue_depth :: "admission_controller \<Rightarrow> int" where
  "queue_depth a = int (length (ac_queue a))"

definition start_message :: "relay_message \<Rightarrow> int \<Rightarrow> int \<Rightarrow> admission_controller \<Rightarrow> admission_controller" where
  "start_message m accepted_at started_at a =
     a\<lparr>ac_inflight := ac_inflight a @ [\<lparr>im_message = m, im_accepted_at = accepted_at, im_started_at = started_at,
       im_completed_at = started_at + ac_service_time a\<rparr>]\<rparr>"

text \<open>The first item with the least completion time, which \<open>min\<close> returns and \<open>remove\<close> takes out.\<close>

fun next_item :: "inflight_message list \<Rightarrow> inflight_message option" where
  "next_item [] = None"
| "next_item (i # is) =
     (case next_item is of
        None \<Rightarrow> Some i
      | Some j \<Rightarrow> Some (if im_completed_at j < im_completed_at i then j else i))"

definition complete :: "inflight_message \<Rightarrow> completed_request" where
  "complete i = \<lparr>cr_message_id = rm_id (im_message i), cr_accepted_at = im_accepted_at i, cr_started_at = im_started_at i,
     cr_completed_at = im_completed_at i\<rparr>"

definition finish_item :: "inflight_message \<Rightarrow> admission_controller \<Rightarrow> admission_controller" where
  "finish_item i a =
     (let a1 = a\<lparr>ac_inflight := remove1 i (ac_inflight a), ac_completed := ac_completed a @ [complete i]\<rparr>
      in case ac_queue a1 of
           [] \<Rightarrow> a1
         | q # queue \<Rightarrow> start_message (qm_message q) (qm_accepted_at q) (im_completed_at i) (a1\<lparr>ac_queue := queue\<rparr>))"

lemma next_item_props:
  "next_item is = Some i \<Longrightarrow> i \<in> set is \<and> (\<forall>j \<in> set is. im_completed_at i \<le> im_completed_at j)"
  "next_item is = None \<longleftrightarrow> is = []"
  by (induction "is" arbitrary: i) (auto split: option.splits if_splits)

definition pending_measure :: "admission_controller \<Rightarrow> nat" where
  "pending_measure a = 2 * length (ac_queue a) + length (ac_inflight a)"

lemma finish_item_measure: "i \<in> set (ac_inflight a) \<Longrightarrow> pending_measure (finish_item i a) < pending_measure a"
  by (auto simp: pending_measure_def finish_item_def start_message_def Let_def length_remove1 dest: length_pos_if_in_set split: list.split)

function advance_to :: "int \<Rightarrow> admission_controller \<Rightarrow> admission_controller" where
  "advance_to now a =
     (case next_item (ac_inflight a) of
        None \<Rightarrow> a
      | Some i \<Rightarrow> if im_completed_at i > now then a else advance_to now (finish_item i a))"
  by pat_completeness auto

termination
  by (relation "measure (\<lambda>(now, a). pending_measure a)") (auto dest: next_item_props(1) intro: finish_item_measure)

declare advance_to.simps [simp del]

lemma advance_to_measure: "pending_measure (advance_to now a) \<le> pending_measure a"
proof (induction now a rule: advance_to.induct)
  case (1 now a)
  show ?case
    by (subst advance_to.simps)
      (use 1 in \<open>auto split: option.split dest: next_item_props(1) finish_item_measure dest!: less_imp_le intro: order_trans\<close>)
qed

text \<open>\<open>drain\<close> advances to the next completion while anything is in flight.\<close>

lemma drain_measure:
  assumes "next_item (ac_inflight a) = Some i"
  shows "pending_measure (advance_to (im_completed_at i) a) < pending_measure a"
  using assms finish_item_measure [of i a] advance_to_measure [of "im_completed_at i" "finish_item i a"] next_item_props(1) [OF assms]
  by (subst advance_to.simps) auto

function drain :: "admission_controller \<Rightarrow> admission_controller" where
  "drain a =
     (case next_item (ac_inflight a) of
        None \<Rightarrow> a
      | Some i \<Rightarrow> drain (advance_to (im_completed_at i) a))"
  by pat_completeness auto

termination
  by (relation "measure pending_measure") (auto intro: drain_measure)

declare drain.simps [simp del]

definition next_completion_delay :: "int \<Rightarrow> admission_controller \<Rightarrow> int res" where
  "next_completion_delay now a =
     (case next_item (ac_inflight a) of
        None \<Rightarrow> Inl (ValueError ''min() arg is an empty sequence'')
      | Some i \<Rightarrow> Inr (max (im_completed_at i - now) 1))"

definition submit :: "relay_message \<Rightarrow> int \<Rightarrow> admission_controller \<Rightarrow> admission_decision res \<times> admission_controller" where
  "submit m now a0 =
     (let a = advance_to now a0 in
      if int (length (ac_inflight a)) < ac_workers a
      then let a1 = start_message m now now a
        in (Inr \<lparr>ad_accepted = True, ad_reason = ''accepted'', ad_queue_depth = queue_depth a1, ad_retry_after = None\<rparr>, a1)
      else if queue_depth a < ac_queue_limit a
      then let a1 = a\<lparr>ac_queue := ac_queue a @ [\<lparr>qm_message = m, qm_accepted_at = now\<rparr>]\<rparr>;
               a2 = a1\<lparr>ac_max_depth := max (ac_max_depth a1) (queue_depth a1)\<rparr>
        in (Inr \<lparr>ad_accepted = True, ad_reason = ''queued'', ad_queue_depth = queue_depth a2, ad_retry_after = None\<rparr>, a2)
      else case next_completion_delay now a of
             Inl e \<Rightarrow> (Inl e, a)
           | Inr d \<Rightarrow> (Inr \<lparr>ad_accepted = False, ad_reason = ''queue_full'', ad_queue_depth = queue_depth a, ad_retry_after = Some d\<rparr>, a))"

section \<open>Circuit breaker\<close>

datatype breaker_state = CLOSED | OPEN | HALF_OPEN

record circuit_breaker =
  cb_failure_threshold :: int
  cb_recovery_timeout :: int
  cb_half_open_successes :: int
  cb_state :: breaker_state
  cb_consecutive_failures :: int
  cb_open_until :: int
  cb_half_open_success_count :: int

definition new_circuit_breaker :: "int \<Rightarrow> int \<Rightarrow> int \<Rightarrow> circuit_breaker" where
  "new_circuit_breaker threshold timeout successes =
     \<lparr>cb_failure_threshold = threshold, cb_recovery_timeout = timeout, cb_half_open_successes = successes, cb_state = CLOSED,
      cb_consecutive_failures = 0, cb_open_until = 0, cb_half_open_success_count = 0\<rparr>"

definition breaker_allow :: "int \<Rightarrow> circuit_breaker \<Rightarrow> bool \<times> circuit_breaker" where
  "breaker_allow now b =
     (if cb_state b = OPEN then
        if now < cb_open_until b then (False, b) else (True, b\<lparr>cb_state := HALF_OPEN, cb_half_open_success_count := 0\<rparr>)
      else (True, b))"

definition retry_after_ms :: "int \<Rightarrow> circuit_breaker \<Rightarrow> int" where
  "retry_after_ms now b = (if cb_state b \<noteq> OPEN then 0 else max (cb_open_until b - now) 1)"

definition record_success :: "circuit_breaker \<Rightarrow> circuit_breaker" where
  "record_success b =
     (if cb_state b = HALF_OPEN then
        let b1 = b\<lparr>cb_half_open_success_count := cb_half_open_success_count b + 1\<rparr>
        in if cb_half_open_success_count b1 \<ge> cb_half_open_successes b1
           then b1\<lparr>cb_state := CLOSED, cb_consecutive_failures := 0, cb_half_open_success_count := 0\<rparr>
           else b1
      else b\<lparr>cb_consecutive_failures := 0\<rparr>)"

definition open_breaker :: "int \<Rightarrow> circuit_breaker \<Rightarrow> circuit_breaker" where
  "open_breaker now b = b\<lparr>cb_state := OPEN, cb_open_until := now + cb_recovery_timeout b, cb_consecutive_failures := 0,
     cb_half_open_success_count := 0\<rparr>"

definition record_failure :: "int \<Rightarrow> circuit_breaker \<Rightarrow> unit res \<times> circuit_breaker" where
  "record_failure now b =
     (if cb_failure_threshold b < 1 then (Inl (ValueError ''failure_threshold must be at least one''), b)
      else if cb_recovery_timeout b < 1 then (Inl (ValueError ''recovery_timeout_ms must be positive''), b)
      else if cb_state b = HALF_OPEN then (Inr (), open_breaker now b)
      else let b1 = b\<lparr>cb_consecutive_failures := cb_consecutive_failures b + 1\<rparr>
        in (Inr (), if cb_consecutive_failures b1 \<ge> cb_failure_threshold b1 then open_breaker now b1 else b1))"

section \<open>The retrying consumer\<close>

datatype relay_outcome = SUCCEEDED | TRANSIENT_FAILURE | POISON

record retry_instruction =
  ri_message :: relay_message
  ri_delay :: int
  ri_reason :: string

record dead_letter_entry =
  dl_message :: relay_message
  dl_reason :: string

record retry_topology =
  rt_application_max_attempts :: int
  rt_sdk_max_retries :: int

definition validate_topology :: "retry_topology \<Rightarrow> unit res" where
  "validate_topology t =
     (if rt_application_max_attempts t < 1 then Inl (ValueError ''application_max_attempts must be at least one'')
      else if rt_sdk_max_retries t \<noteq> 0
      then Inl (ValueError ''SDK retries must be disabled when application retries own backoff'')
      else Inr ())"

record 'b retrying_consumer =
  rc_budget :: 'b
  rc_topology :: retry_topology
  rc_breaker :: circuit_breaker
  rc_dead_letters :: "dead_letter_entry list"

definition add_dead_letter :: "relay_message \<Rightarrow> string \<Rightarrow> 'b retrying_consumer \<Rightarrow> 'b retrying_consumer" where
  "add_dead_letter m reason c = c\<lparr>rc_dead_letters := rc_dead_letters c @ [\<lparr>dl_message = m, dl_reason = reason\<rparr>]\<rparr>"

definition process ::
    "('b \<Rightarrow> bool \<times> 'b) \<Rightarrow> (int \<Rightarrow> int option \<Rightarrow> int res) \<Rightarrow> relay_message \<Rightarrow> relay_outcome \<Rightarrow> int \<Rightarrow> int option \<Rightarrow>
     'b retrying_consumer \<Rightarrow> retry_instruction option res \<times> 'b retrying_consumer" where
  "process allow_retry delay_ms m outcome now retry_after c0 =
     (case validate_topology (rc_topology c0) of
        Inl e \<Rightarrow> (Inl e, c0)
      | Inr u \<Rightarrow>
          let (allowed, b) = breaker_allow now (rc_breaker c0); c = c0\<lparr>rc_breaker := b\<rparr> in
          if \<not> allowed then
            (Inr (Some \<lparr>ri_message = next_attempt m, ri_delay = retry_after_ms now b, ri_reason = ''circuit_open''\<rparr>), c)
          else case outcome of
            SUCCEEDED \<Rightarrow> (Inr None, c\<lparr>rc_breaker := record_success b\<rparr>)
          | POISON \<Rightarrow> (Inr None, add_dead_letter (next_attempt m) ''poison_message'' c)
          | TRANSIENT_FAILURE \<Rightarrow>
              (case record_failure now b of
                 (Inl e, b1) \<Rightarrow> (Inl e, c\<lparr>rc_breaker := b1\<rparr>)
               | (Inr u, b1) \<Rightarrow>
                   let c1 = c\<lparr>rc_breaker := b1\<rparr>; next_message = next_attempt m in
                   if rm_attempts next_message \<ge> rt_application_max_attempts (rc_topology c1)
                   then (Inr None, add_dead_letter next_message ''retry_limit_reached'' c1)
                   else let (retry, budget) = allow_retry (rc_budget c1); c2 = c1\<lparr>rc_budget := budget\<rparr> in
                     if \<not> retry then (Inr None, add_dead_letter next_message ''retry_budget_exhausted'' c2)
                     else case delay_ms (rm_attempts next_message) retry_after of
                            Inl e \<Rightarrow> (Inl e, c2)
                          | Inr d \<Rightarrow> (Inr (Some \<lparr>ri_message = next_message, ri_delay = d, ri_reason = ''transient_failure''\<rparr>), c2)))"

section \<open>The admission invariant\<close>

definition queued_key :: "queued_message \<Rightarrow> string \<times> int" where
  "queued_key q = (rm_id (qm_message q), qm_accepted_at q)"

definition inflight_key :: "inflight_message \<Rightarrow> string \<times> int" where
  "inflight_key i = (rm_id (im_message i), im_accepted_at i)"

definition completed_key :: "completed_request \<Rightarrow> string \<times> int" where
  "completed_key c = (cr_message_id c, cr_accepted_at c)"

text \<open>
  \<open>accepted\<close>: id and time of the messages submit accepted, in order.  The queue is its end; the rest has
  started, is in flight or completed.
\<close>

definition sizes_ok :: "admission_controller \<Rightarrow> bool" where
  "sizes_ok a \<longleftrightarrow> 0 < ac_workers a \<and> 0 \<le> ac_queue_limit a \<and> 0 < ac_service_time a \<and>
     int (length (ac_inflight a)) \<le> ac_workers a \<and> queue_depth a \<le> ac_queue_limit a \<and>
     (ac_queue a \<noteq> [] \<longrightarrow> int (length (ac_inflight a)) = ac_workers a) \<and> ac_max_depth a \<le> ac_queue_limit a"

definition times_ok :: "admission_controller \<Rightarrow> bool" where
  "times_ok a \<longleftrightarrow> (\<forall>q \<in> set (ac_queue a). \<forall>i \<in> set (ac_inflight a). qm_accepted_at q < im_completed_at i) \<and>
     (\<forall>c \<in> complete ` set (ac_inflight a) \<union> set (ac_completed a).
       cr_accepted_at c \<le> cr_started_at c \<and> cr_completed_at c = cr_started_at c + ac_service_time a)"

definition ledger_ok :: "(string \<times> int) list \<Rightarrow> admission_controller \<Rightarrow> bool" where
  "ledger_ok accepted a \<longleftrightarrow> (\<exists>started. accepted = started @ map queued_key (ac_queue a) \<and>
     mset started = mset (map inflight_key (ac_inflight a)) + mset (map completed_key (ac_completed a)))"

definition admission_ok :: "(string \<times> int) list \<Rightarrow> admission_controller \<Rightarrow> bool" where
  "admission_ok accepted a \<longleftrightarrow> sizes_ok a \<and> times_ok a \<and> ledger_ok accepted a"

lemma complete_key: "completed_key (complete i) = inflight_key i"
  by (simp add: completed_key_def complete_def inflight_key_def)

lemma mset_map_remove1: "i \<in> set is \<Longrightarrow> mset (map f is) = add_mset (f i) (mset (map f (remove1 i is)))"
proof -
  assume "i \<in> set is"
  then have "mset is = add_mset i (mset (remove1 i is))" by simp
  then show ?thesis by (metis image_mset_add_mset mset_map)
qed

text \<open>What finishing an item makes of the lists.\<close>

definition started_item :: "inflight_message \<Rightarrow> admission_controller \<Rightarrow> queued_message \<Rightarrow> inflight_message" where
  "started_item i a q = \<lparr>im_message = qm_message q, im_accepted_at = qm_accepted_at q, im_started_at = im_completed_at i,
     im_completed_at = im_completed_at i + ac_service_time a\<rparr>"

lemma finish_item_fields:
  "ac_workers (finish_item i a) = ac_workers a" "ac_queue_limit (finish_item i a) = ac_queue_limit a"
  "ac_service_time (finish_item i a) = ac_service_time a" "ac_max_depth (finish_item i a) = ac_max_depth a"
  "ac_completed (finish_item i a) = ac_completed a @ [complete i]"
  "ac_queue (finish_item i a) = tl (ac_queue a)"
  "ac_inflight (finish_item i a) = remove1 i (ac_inflight a) @ map (started_item i a) (take 1 (ac_queue a))"
  by (simp_all add: finish_item_def Let_def start_message_def started_item_def split: list.split)

lemma finish_item_sizes:
  assumes "sizes_ok a" "i \<in> set (ac_inflight a)"
  shows "sizes_ok (finish_item i a)"
  using assms length_pos_if_in_set [OF assms(2)]
  by (cases "ac_queue a") (auto simp: sizes_ok_def finish_item_fields queue_depth_def length_remove1)

lemma finish_item_times:
  assumes ok: "times_ok a" "0 < ac_service_time a" and i: "i \<in> set (ac_inflight a)"
  shows "times_ok (finish_item i a)"
proof -
  have q: "qm_accepted_at q < im_completed_at j" if "q \<in> set (ac_queue a)" "j \<in> set (ac_inflight a)" for q j
    using ok(1) that unfolding times_ok_def by blast
  have c: "cr_accepted_at c \<le> cr_started_at c \<and> cr_completed_at c = cr_started_at c + ac_service_time a"
    if "c \<in> complete ` set (ac_inflight a) \<union> set (ac_completed a)" for c
    using ok(1) that unfolding times_ok_def by blast
  have new: "qm_accepted_at p < im_completed_at (started_item i a q) \<and> cr_accepted_at (complete (started_item i a q)) \<le> cr_started_at (complete (started_item i a q)) \<and>
      cr_completed_at (complete (started_item i a q)) = cr_started_at (complete (started_item i a q)) + ac_service_time a"
    if "p \<in> set (ac_queue a)" "q \<in> set (ac_queue a)" for p q
    using q [OF that(1) i] q [OF that(2) i] ok(2) by (simp add: started_item_def complete_def)
  have sub: "set (remove1 i (ac_inflight a)) \<subseteq> set (ac_inflight a)" by (rule set_remove1_subset)
  have tl: "set (tl (ac_queue a)) \<subseteq> set (ac_queue a)" "set (take 1 (ac_queue a)) \<subseteq> set (ac_queue a)"
    by (cases "ac_queue a"; auto)+
  show ?thesis
    unfolding times_ok_def finish_item_fields set_append set_map list.set
    using sub tl i by (intro conjI ballI; elim UnE imageE; simp only: insert_iff empty_iff; metis q c new UnI1 UnI2 imageI subsetD)
qed

lemma finish_item_ledger:
  assumes "ledger_ok accepted a" "i \<in> set (ac_inflight a)"
  shows "ledger_ok accepted (finish_item i a)"
proof -
  obtain started where st: "accepted = started @ map queued_key (ac_queue a)"
    "mset started = mset (map inflight_key (ac_inflight a)) + mset (map completed_key (ac_completed a))"
    using assms(1) unfolding ledger_ok_def by blast
  have key: "inflight_key (started_item i a q) = queued_key q" for q
    by (simp add: started_item_def inflight_key_def queued_key_def)
  have "accepted = (started @ map queued_key (take 1 (ac_queue a))) @ map queued_key (tl (ac_queue a))"
    using st(1) by (cases "ac_queue a") simp_all
  moreover have "mset (started @ map queued_key (take 1 (ac_queue a))) =
      mset (map inflight_key (ac_inflight (finish_item i a))) + mset (map completed_key (ac_completed (finish_item i a)))"
    unfolding finish_item_fields mset_append st(2) map_append mset_map_remove1 [OF assms(2)]
    by (simp add: key complete_key comp_def flip: mset_map)
  ultimately show ?thesis unfolding ledger_ok_def finish_item_fields by blast
qed

lemma advance_to_keeps:
  "P a \<Longrightarrow> (\<And>a i. P a \<Longrightarrow> next_item (ac_inflight a) = Some i \<Longrightarrow> im_completed_at i \<le> now \<Longrightarrow> P (finish_item i a)) \<Longrightarrow>
   P (advance_to now a)"
proof (induction now a rule: advance_to.induct)
  case (1 now a)
  show ?case
  proof (cases "next_item (ac_inflight a)")
    case (Some i)
    show ?thesis
    proof (cases "now < im_completed_at i")
      case False
      then have "P (finish_item i a)" by (intro 1(3) [OF 1(2) Some]) simp
      then have "P (advance_to now (finish_item i a))" by (rule 1(1) [OF Some False]) (rule 1(3))
      with Some False show ?thesis by (subst advance_to.simps) simp
    qed (use Some 1(2) in \<open>simp add: advance_to.simps\<close>)
  qed (use 1(2) in \<open>simp add: advance_to.simps\<close>)
qed

lemma drain_keeps:
  assumes "P a" "\<And>a i. P a \<Longrightarrow> next_item (ac_inflight a) = Some i \<Longrightarrow> P (finish_item i a)"
  shows "P (drain a)"
  using assms(1)
proof (induction a rule: drain.induct)
  case (1 a)
  show ?case
  proof (cases "next_item (ac_inflight a)")
    case None
    with 1(2) show ?thesis by (simp add: drain.simps)
  next
    case (Some i)
    have "P (advance_to (im_completed_at i) a)" by (rule advance_to_keeps [where P = P]) (use 1(2) assms(2) in auto)
    with 1(1) [OF Some] Some show ?thesis by (subst drain.simps) simp
  qed
qed

lemma advance_to_done: "i \<in> set (ac_inflight (advance_to now a)) \<Longrightarrow> now < im_completed_at i"
proof (induction now a rule: advance_to.induct)
  case (1 now a)
  then show ?case
    by (subst (asm) (2) advance_to.simps)
      (auto split: option.splits if_splits dest: next_item_props(1) intro: less_le_trans simp: next_item_props(2))
qed

lemma drain_done: "ac_inflight (drain a) = []"
proof (induction a rule: drain.induct)
  case (1 a)
  then show ?case by (subst drain.simps) (auto split: option.split simp: next_item_props(2))
qed

lemma finish_item_ok:
  assumes "admission_ok accepted a" "next_item (ac_inflight a) = Some i"
  shows "admission_ok accepted (finish_item i a)"
  using assms next_item_props(1) [OF assms(2)] finish_item_sizes finish_item_times finish_item_ledger
  unfolding admission_ok_def sizes_ok_def by blast

datatype admission_event = Submit relay_message int | Advance_to int | Drain

fun admission_step :: "admission_event \<Rightarrow> (string \<times> int) list \<times> admission_controller \<Rightarrow> (string \<times> int) list \<times> admission_controller" where
  "admission_step (Submit m now) (accepted, a) =
     (case submit m now a of
        (Inr d, a') \<Rightarrow> (if ad_accepted d then accepted @ [(rm_id m, now)] else accepted, a')
      | (Inl e, a') \<Rightarrow> (accepted, a'))"
| "admission_step (Advance_to now) (accepted, a) = (accepted, advance_to now a)"
| "admission_step Drain (accepted, a) = (accepted, drain a)"

text \<open>What submit does once the finished work is out.\<close>

lemma submit_cases:
  assumes "sizes_ok (advance_to now a0)"
  obtains (start) "int (length (ac_inflight (advance_to now a0))) < ac_workers (advance_to now a0)"
      "\<exists>d. submit m now a0 = (Inr d, start_message m now now (advance_to now a0)) \<and> ad_accepted d"
    | (queue) "int (length (ac_inflight (advance_to now a0))) = ac_workers (advance_to now a0)"
      "queue_depth (advance_to now a0) < ac_queue_limit (advance_to now a0)"
      "\<exists>d. submit m now a0 = (Inr d, (advance_to now a0)\<lparr>ac_queue := ac_queue (advance_to now a0) @ [\<lparr>qm_message = m, qm_accepted_at = now\<rparr>],
         ac_max_depth := max (ac_max_depth (advance_to now a0)) (queue_depth (advance_to now a0) + 1)\<rparr>) \<and> ad_accepted d"
    | (full) i where "queue_depth (advance_to now a0) = ac_queue_limit (advance_to now a0)"
      "next_item (ac_inflight (advance_to now a0)) = Some i"
      "submit m now a0 = (Inr \<lparr>ad_accepted = False, ad_reason = ''queue_full'', ad_queue_depth = ac_queue_limit (advance_to now a0),
         ad_retry_after = Some (im_completed_at i - now)\<rparr>, advance_to now a0)"
proof -
  obtain a where a: "a = advance_to now a0" by blast
  consider "int (length (ac_inflight a)) < ac_workers a" | "int (length (ac_inflight a)) = ac_workers a" "queue_depth a < ac_queue_limit a"
    | "int (length (ac_inflight a)) = ac_workers a" "queue_depth a = ac_queue_limit a"
    using assms unfolding a [symmetric] sizes_ok_def by (metis order_le_less)
  then show thesis
  proof cases
    case 1
    with start show ?thesis unfolding a [symmetric] by (simp add: submit_def Let_def flip: a)
  next
    case 2
    with queue show ?thesis unfolding a [symmetric] by (simp add: submit_def Let_def queue_depth_def flip: a)
  next
    case 3
    with assms have "ac_inflight a \<noteq> []" unfolding a [symmetric] sizes_ok_def by auto
    then obtain i where i: "next_item (ac_inflight a) = Some i" using next_item_props(2) by fastforce
    have "now < im_completed_at i" using next_item_props(1) [OF i] advance_to_done unfolding a by blast
    with 3 i full show ?thesis unfolding a [symmetric] by (simp add: submit_def Let_def next_completion_delay_def flip: a)
  qed
qed

lemma admission_start_ok:
  "new_admission_controller w l t = Inr a \<Longrightarrow> admission_ok [] a"
  by (auto simp: new_admission_controller_def admission_ok_def sizes_ok_def times_ok_def ledger_ok_def queue_depth_def split: if_splits)

lemma advance_to_ok: "admission_ok accepted a \<Longrightarrow> admission_ok accepted (advance_to now a)"
  by (rule advance_to_keeps [where P = "admission_ok accepted"]) (auto intro: finish_item_ok)

lemma drain_ok: "admission_ok accepted a \<Longrightarrow> admission_ok accepted (drain a)"
  by (rule drain_keeps [where P = "admission_ok accepted"]) (auto intro: finish_item_ok)

lemma submit_ok:
  assumes "admission_ok accepted a0"
  shows "admission_ok (fst (admission_step (Submit m now) (accepted, a0))) (snd (admission_step (Submit m now) (accepted, a0)))"
proof -
  obtain a where a: "advance_to now a0 = a" by blast
  have ok: "sizes_ok a" "times_ok a" "ledger_ok accepted a" using advance_to_ok [OF assms, of now] unfolding a admission_ok_def by blast+
  have future: "now < im_completed_at i" if "i \<in> set (ac_inflight a)" for i using advance_to_done that unfolding a [symmetric] by blast
  obtain started where st: "accepted = started @ map queued_key (ac_queue a)"
    "mset started = mset (map inflight_key (ac_inflight a)) + mset (map completed_key (ac_completed a))"
    using ok(3) unfolding ledger_ok_def by blast
  have sizes: "sizes_ok (advance_to now a0)" using ok(1) unfolding a .
  show ?thesis
  proof (cases rule: submit_cases [OF sizes, of m, unfolded a])
    case 1
    then obtain d where d: "submit m now a0 = (Inr d, start_message m now now a)" "ad_accepted d" by blast
    have empty: "ac_queue a = []" using 1(1) ok(1) unfolding sizes_ok_def by auto
    have "ledger_ok (accepted @ [(rm_id m, now)]) (start_message m now now a)"
      using st empty unfolding ledger_ok_def by (intro exI [of _ "accepted @ [(rm_id m, now)]"]) (simp add: start_message_def inflight_key_def)
    with d ok 1(1) empty show ?thesis
      by (auto simp: admission_ok_def sizes_ok_def times_ok_def start_message_def queue_depth_def complete_def)
  next
    case 2
    let ?a = "a\<lparr>ac_queue := ac_queue a @ [\<lparr>qm_message = m, qm_accepted_at = now\<rparr>], ac_max_depth := max (ac_max_depth a) (queue_depth a + 1)\<rparr>"
    from 2 obtain d where d: "submit m now a0 = (Inr d, ?a)" "ad_accepted d" by blast
    have "ledger_ok (accepted @ [(rm_id m, now)]) ?a"
      using st unfolding ledger_ok_def by (intro exI [of _ started]) (simp add: queued_key_def)
    with d ok 2(1,2) future show ?thesis
      by (auto simp: admission_ok_def sizes_ok_def times_ok_def queue_depth_def)
  next
    case (3 i)
    with ok show ?thesis by (simp add: admission_ok_def)
  qed
qed

interpretation admission: machine "\<lambda>s. \<exists>w l t. new_admission_controller w l t = Inr (snd s) \<and> fst s = []" admission_step
  "\<lambda>s. admission_ok (fst s) (snd s)"
proof unfold_locales
  fix s e assume ok: "admission_ok (fst s) (snd s)"
  obtain accepted a where s: "s = (accepted, a)" by fastforce
  show "admission_ok (fst (admission_step e s)) (snd (admission_step e s))"
    using ok submit_ok [of accepted a] unfolding s by (cases e) (simp_all add: advance_to_ok drain_ok del: admission_step.simps(1))
qed (auto intro: admission_start_ok)

section \<open>Waiting times\<close>

text \<open>
  \<open>starts_by w t is p b\<close>: with these items in flight on \<open>w\<close> busy workers, the item at position \<open>p\<close> of the
  queue starts by \<open>b\<close>.
\<close>

definition starts_by :: "nat \<Rightarrow> int \<Rightarrow> inflight_message list \<Rightarrow> nat \<Rightarrow> int \<Rightarrow> bool" where
  "starts_by w s is p b \<longleftrightarrow> (\<exists>t. (\<forall>i \<in> set is. im_completed_at i \<le> t + s) \<and>
     t + int ((p + length (filter (\<lambda>i. t < im_completed_at i) is)) div w) * s \<le> b)"

lemma starts_by_head:
  assumes "starts_by w s is 0 b" "length is = w" "0 < w" "0 < s" "\<forall>j \<in> set is. im_completed_at i \<le> im_completed_at j" "i \<in> set is"
  shows "im_completed_at i \<le> b"
proof -
  obtain t where t: "\<forall>i \<in> set is. im_completed_at i \<le> t + s"
    "t + int (length (filter (\<lambda>i. t < im_completed_at i) is) div w) * s \<le> b"
    using assms(1) unfolding starts_by_def by auto
  show ?thesis
  proof (cases "t < im_completed_at i")
    case True
    then have "filter (\<lambda>i. t < im_completed_at i) is = is" using assms(5) by (intro filter_True) (auto intro: less_le_trans)
    with t(2) assms(2,3) have "t + s \<le> b" by simp
    with t(1) assms(6) show ?thesis by (auto intro: order_trans)
  next
    case False
    have "0 \<le> int (length (filter (\<lambda>i. t < im_completed_at i) is) div w) * s" using assms(4) by simp
    with False t(2) show ?thesis by linarith
  qed
qed

lemma starts_by_step:
  assumes b: "starts_by w s is (Suc p) b" and w: "length is = w" "0 < w" and s: "0 < s"
    and i: "i \<in> set is" "\<forall>j \<in> set is. im_completed_at i \<le> im_completed_at j" and j: "im_completed_at j = im_completed_at i + s"
  shows "starts_by w s (remove1 i is @ [j]) p b"
proof -
  obtain t where t: "\<forall>i \<in> set is. im_completed_at i \<le> t + s"
    "t + int ((Suc p + length (filter (\<lambda>i. t < im_completed_at i) is)) div w) * s \<le> b"
    using b unfolding starts_by_def by auto
  have sub: "set (remove1 i is) \<subseteq> set is" by (rule set_remove1_subset)
  show ?thesis
  proof (cases "t < im_completed_at i")
    case True
    then have "filter (\<lambda>i. t < im_completed_at i) is = is" using i(2) by (intro filter_True) (auto intro: less_le_trans)
    moreover have "(Suc p + w) div w = Suc p div w + 1" using w(2) by (rule div_add_self2 [OF less_imp_neq [THEN not_sym]])
    ultimately have b: "t + (int (Suc p div w) + 1) * s \<le> b" using t(2) w(1) by (simp only: of_nat_add of_nat_1)
    have "filter (\<lambda>i. t + s < im_completed_at i) (remove1 i is) = []" using t(1) sub by (auto simp: filter_empty_conv not_less)
    then have "length (filter (\<lambda>i. t + s < im_completed_at i) (remove1 i is @ [j])) = 1" using True j by simp
    moreover have "\<forall>k \<in> set (remove1 i is @ [j]). im_completed_at k \<le> (t + s) + s" using t(1) sub i(1) s j by fastforce
    ultimately show ?thesis
      unfolding starts_by_def using b by (intro exI [of _ "t + s"]) (simp add: algebra_simps)
  next
    case False
    then have "filter (\<lambda>i. t < im_completed_at i) (remove1 i is) = filter (\<lambda>i. t < im_completed_at i) is"
      by (simp add: filter_remove1)
    then have "p + length (filter (\<lambda>i. t < im_completed_at i) (remove1 i is @ [j])) \<le> Suc p + length (filter (\<lambda>i. t < im_completed_at i) is)"
      by simp
    then have "int ((p + length (filter (\<lambda>i. t < im_completed_at i) (remove1 i is @ [j]))) div w) * s \<le>
        int ((Suc p + length (filter (\<lambda>i. t < im_completed_at i) is)) div w) * s"
      using s by (intro mult_right_mono) (auto intro: div_le_mono)
    with t(2) have "t + int ((p + length (filter (\<lambda>i. t < im_completed_at i) (remove1 i is @ [j]))) div w) * s \<le> b" by linarith
    moreover have "\<forall>k \<in> set (remove1 i is @ [j]). im_completed_at k \<le> t + s" using t(1) sub False j by auto
    ultimately show ?thesis unfolding starts_by_def by blast
  qed
qed

definition latency_bound :: "admission_controller \<Rightarrow> int" where
  "latency_bound a = (2 + (ac_queue_limit a - 1) div ac_workers a) * ac_service_time a"

definition latency_ok :: "admission_controller \<Rightarrow> bool" where
  "latency_ok a \<longleftrightarrow>
     (\<forall>c \<in> complete ` set (ac_inflight a) \<union> set (ac_completed a). latency_ms c \<le> latency_bound a) \<and>
     (\<forall>p < length (ac_queue a). starts_by (nat (ac_workers a)) (ac_service_time a) (ac_inflight a) p
        (qm_accepted_at (ac_queue a ! p) + latency_bound a - ac_service_time a))"

lemma finish_item_latency:
  assumes ok: "latency_ok a" "sizes_ok a" and i: "next_item (ac_inflight a) = Some i"
  shows "latency_ok (finish_item i a)"
proof -
  note ip = next_item_props(1) [OF i]
  then have ip1: "i \<in> set (ac_inflight a)" and ip2: "\<forall>j \<in> set (ac_inflight a). im_completed_at i \<le> im_completed_at j" by blast+
  have pos: "0 < ac_service_time a" "0 < ac_workers a" using ok(2) by (simp_all add: sizes_ok_def)
  have bound: "latency_bound (finish_item i a) = latency_bound a" by (simp add: latency_bound_def finish_item_fields)
  have old: "latency_ms c \<le> latency_bound a" if "c \<in> complete ` set (ac_inflight a) \<union> set (ac_completed a)" for c
    using ok(1) that unfolding latency_ok_def by blast
  have sub: "set (remove1 i (ac_inflight a)) \<subseteq> set (ac_inflight a)" by (rule set_remove1_subset)
  show ?thesis
  proof (cases "ac_queue a")
    case Nil
    then show ?thesis
      unfolding latency_ok_def bound finish_item_fields using old sub ip1 by auto
  next
    case (Cons q queue)
    have busy: "length (ac_inflight a) = nat (ac_workers a)" "0 < nat (ac_workers a)" using ok(2) Cons by (auto simp: sizes_ok_def)
    have st: "starts_by (nat (ac_workers a)) (ac_service_time a) (ac_inflight a) p
        (qm_accepted_at ((q # queue) ! p) + latency_bound a - ac_service_time a)" if "p < length (q # queue)" for p
      using ok(1) that unfolding latency_ok_def Cons by blast
    have "im_completed_at i \<le> qm_accepted_at q + latency_bound a - ac_service_time a"
      using starts_by_head [OF st [of 0] busy pos(1) ip2 ip1] by simp
    then have new: "latency_ms (complete (started_item i a q)) \<le> latency_bound a"
      by (simp add: latency_ms_def complete_def started_item_def)
    have "starts_by (nat (ac_workers a)) (ac_service_time a) (remove1 i (ac_inflight a) @ [started_item i a q]) p
        (qm_accepted_at (queue ! p) + latency_bound a - ac_service_time a)" if "p < length queue" for p
      using starts_by_step [OF _ busy pos(1) ip1 ip2, of p _ "started_item i a q"] st [of "Suc p"] that by (simp add: started_item_def)
    with old sub ip1 new show ?thesis
      unfolding latency_ok_def bound finish_item_fields Cons by auto
  qed
qed

lemma advance_to_settings:
  "ac_workers (advance_to now a) = ac_workers a \<and> ac_queue_limit (advance_to now a) = ac_queue_limit a \<and>
   ac_service_time (advance_to now a) = ac_service_time a"
  by (rule advance_to_keeps [where P = "\<lambda>b. ac_workers b = ac_workers a \<and> ac_queue_limit b = ac_queue_limit a \<and>
    ac_service_time b = ac_service_time a"]) (simp_all add: finish_item_fields)

lemma drain_settings:
  "ac_workers (drain a) = ac_workers a \<and> ac_queue_limit (drain a) = ac_queue_limit a \<and> ac_service_time (drain a) = ac_service_time a"
  by (rule drain_keeps [where P = "\<lambda>b. ac_workers b = ac_workers a \<and> ac_queue_limit b = ac_queue_limit a \<and>
    ac_service_time b = ac_service_time a"]) (simp_all add: finish_item_fields)

text \<open>Nothing in flight started later than the last time the caller gave.\<close>

definition clock_ok :: "int \<Rightarrow> admission_controller \<Rightarrow> bool" where
  "clock_ok now a \<longleftrightarrow> (\<forall>i \<in> set (ac_inflight a). im_completed_at i \<le> now + ac_service_time a)"

definition timed_ok :: "(string \<times> int) list \<Rightarrow> int \<Rightarrow> admission_controller \<Rightarrow> bool" where
  "timed_ok accepted now a \<longleftrightarrow> admission_ok accepted a \<and> latency_ok a \<and> clock_ok now a"

lemma finish_item_clock:
  assumes "clock_ok now a" "im_completed_at i \<le> now"
  shows "clock_ok now (finish_item i a)"
  using assms set_remove1_subset [of i "ac_inflight a"]
  by (cases "ac_queue a") (auto simp: clock_ok_def finish_item_fields started_item_def)

lemma advance_to_timed:
  assumes "timed_ok accepted now a" "now \<le> now'"
  shows "timed_ok accepted now' (advance_to now' a)"
proof (rule advance_to_keeps [where P = "timed_ok accepted now'"])
  show "timed_ok accepted now' a" using assms by (fastforce simp: timed_ok_def clock_ok_def)
next
  fix a i assume "timed_ok accepted now' a" "next_item (ac_inflight a) = Some i" "im_completed_at i \<le> now'"
  then show "timed_ok accepted now' (finish_item i a)"
    unfolding timed_ok_def using finish_item_ok finish_item_latency finish_item_clock admission_ok_def by blast
qed

lemma drain_timed: "timed_ok accepted now a \<Longrightarrow> timed_ok accepted now (drain a)"
proof -
  assume ok: "timed_ok accepted now a"
  have "admission_ok accepted (drain a) \<and> latency_ok (drain a)"
    by (rule drain_keeps [where P = "\<lambda>b. admission_ok accepted b \<and> latency_ok b"])
      (use ok finish_item_ok finish_item_latency in \<open>auto simp: timed_ok_def admission_ok_def\<close>)
  then show ?thesis by (simp add: timed_ok_def clock_ok_def drain_done)
qed

lemma submit_timed:
  assumes "timed_ok accepted now0 a0" "now0 \<le> now"
  shows "timed_ok (fst (admission_step (Submit m now) (accepted, a0))) now (snd (admission_step (Submit m now) (accepted, a0)))"
proof -
  obtain a where a: "advance_to now a0 = a" by blast
  have ok: "sizes_ok a" "latency_ok a" "clock_ok now a"
    using advance_to_timed [OF assms] unfolding a timed_ok_def admission_ok_def by blast+
  have pos: "0 < ac_service_time a" "0 < ac_workers a" "0 \<le> ac_queue_limit a" using ok(1) by (simp_all add: sizes_ok_def)
  have adm: "admission_ok (fst (admission_step (Submit m now) (accepted, a0))) (snd (admission_step (Submit m now) (accepted, a0)))"
    using submit_ok assms(1) unfolding timed_ok_def by blast
  have sizes: "sizes_ok (advance_to now a0)" using ok(1) unfolding a .
  show ?thesis
  proof (cases rule: submit_cases [OF sizes, of m, unfolded a])
    case 1
    then obtain d where d: "submit m now a0 = (Inr d, start_message m now now a)" "ad_accepted d" by blast
    have empty: "ac_queue a = []" using 1(1) ok(1) unfolding sizes_ok_def by auto
    have "- 1 \<le> (ac_queue_limit a - 1) div ac_workers a"
      using zdiv_mono1 [of "-1" "ac_queue_limit a - 1" "ac_workers a"] pos by (simp add: div_eq_minus1)
    then have "1 * ac_service_time a \<le> (2 + (ac_queue_limit a - 1) div ac_workers a) * ac_service_time a"
      using pos by (intro mult_right_mono) simp_all
    with adm d ok empty show ?thesis
      by (auto simp: timed_ok_def latency_ok_def clock_ok_def start_message_def latency_bound_def complete_def latency_ms_def)
  next
    case 2
    let ?q = "\<lparr>qm_message = m, qm_accepted_at = now\<rparr>"
    from 2 obtain d where d: "submit m now a0 = (Inr d, a\<lparr>ac_queue := ac_queue a @ [?q],
        ac_max_depth := max (ac_max_depth a) (queue_depth a + 1)\<rparr>)" "ad_accepted d" by blast
    let ?p = "length (ac_queue a)"
    have none: "filter (\<lambda>i. now + ac_service_time a < im_completed_at i) (ac_inflight a) = []"
      using ok(3) by (auto simp: clock_ok_def filter_empty_conv not_less)
    have "int (?p div nat (ac_workers a)) \<le> (ac_queue_limit a - 1) div ac_workers a"
      using 2(2) pos by (simp add: queue_depth_def zdiv_int zdiv_mono1)
    then have "(1 + int (?p div nat (ac_workers a))) * ac_service_time a \<le> (1 + (ac_queue_limit a - 1) div ac_workers a) * ac_service_time a"
      using pos by (intro mult_right_mono) simp_all
    then have new: "starts_by (nat (ac_workers a)) (ac_service_time a) (ac_inflight a) ?p (now + latency_bound a - ac_service_time a)"
      unfolding starts_by_def using none ok(3) pos
      by (intro exI [of _ "now + ac_service_time a"]) (auto simp: latency_bound_def algebra_simps clock_ok_def intro: order_trans)
    have "latency_ok (a\<lparr>ac_queue := ac_queue a @ [?q], ac_max_depth := max (ac_max_depth a) (queue_depth a + 1)\<rparr>)"
      using ok(2) new by (auto simp: latency_ok_def latency_bound_def nth_append less_Suc_eq)
    with adm d ok(3) show ?thesis by (simp add: timed_ok_def clock_ok_def)
  next
    case (3 i)
    with ok adm show ?thesis by (simp add: timed_ok_def)
  qed
qed

text \<open>The times a caller gives.\<close>

fun event_times :: "admission_event \<Rightarrow> int list" where
  "event_times (Submit m now) = [now]"
| "event_times (Advance_to now) = [now]"
| "event_times Drain = []"

lemma run_timed:
  assumes "timed_ok (fst s) now (snd s)" "sorted (now # concat (map event_times es))"
  shows "\<exists>now'. timed_ok (fst (fold admission_step es s)) now' (snd (fold admission_step es s))"
  using assms
proof (induction es arbitrary: s now)
  case (Cons e es)
  obtain accepted a where s: "s = (accepted, a)" by fastforce
  have "\<exists>now'. timed_ok (fst (admission_step e s)) now' (snd (admission_step e s)) \<and> sorted (now' # concat (map event_times es))"
    (is "\<exists>now'. ?step now'")
  proof (cases e)
    case (Submit m t)
    with Cons.prems s submit_timed [of accepted now a t m] show ?thesis by (auto simp del: admission_step.simps(1) intro!: exI [of _ t])
  next
    case (Advance_to t)
    with Cons.prems s advance_to_timed [of accepted now a t] show ?thesis by (auto intro!: exI [of _ t])
  next
    case Drain
    with Cons.prems s drain_timed [of accepted now a] show ?thesis by (auto intro!: exI [of _ now])
  qed
  then obtain now' where "?step now'" by blast
  with Cons.IH [of "admission_step e s" now'] show ?case by (simp only: fold_simps)
qed auto

lemma submit_settings:
  "ac_workers (snd (submit m now a)) = ac_workers a \<and> ac_queue_limit (snd (submit m now a)) = ac_queue_limit a \<and>
   ac_service_time (snd (submit m now a)) = ac_service_time a"
  using advance_to_settings [of now a] by (auto simp: submit_def Let_def start_message_def split: sum.split)

lemma admission_run_settings:
  "ac_workers (snd (fold admission_step es s)) = ac_workers (snd s) \<and> ac_queue_limit (snd (fold admission_step es s)) = ac_queue_limit (snd s) \<and>
   ac_service_time (snd (fold admission_step es s)) = ac_service_time (snd s)"
proof (induction es arbitrary: s)
  case (Cons e es)
  have "ac_workers (snd (admission_step e s)) = ac_workers (snd s) \<and> ac_queue_limit (snd (admission_step e s)) = ac_queue_limit (snd s) \<and>
      ac_service_time (snd (admission_step e s)) = ac_service_time (snd s)"
    using submit_settings advance_to_settings drain_settings
    by (cases s; cases e) (auto split: prod.split sum.split, (metis snd_conv)+)
  with Cons.IH [of "admission_step e s"] show ?case by simp
qed simp

section \<open>Properties of admission control\<close>

definition demo_message :: "string \<Rightarrow> relay_message" where
  "demo_message m = \<lparr>rm_id = m, rm_payload = ''x'', rm_attempts = 0\<rparr>"

definition demo_events :: "admission_event list" where
  "demo_events = [Submit (demo_message ''a'') 0, Submit (demo_message ''b'') 1, Submit (demo_message ''c'') 2, Advance_to 15, Drain]"

definition demo_controller :: admission_controller where
  "demo_controller = \<lparr>ac_workers = 1, ac_queue_limit = 1, ac_service_time = 10, ac_completed = [], ac_max_depth = 0, ac_queue = [],
     ac_inflight = []\<rparr>"

lemma demo_run:
  "fold admission_step demo_events ([], demo_controller) =
     ([(''a'', 0), (''b'', 1)], demo_controller\<lparr>ac_max_depth := 1, ac_completed :=
       [\<lparr>cr_message_id = ''a'', cr_accepted_at = 0, cr_started_at = 0, cr_completed_at = 10\<rparr>,
        \<lparr>cr_message_id = ''b'', cr_accepted_at = 1, cr_started_at = 10, cr_completed_at = 20\<rparr>]\<rparr>)"
  by code_simp

lemma demo_controller_new: "new_admission_controller 1 1 10 = Inr demo_controller"
  by code_simp

text \<open>Property C29. Whatever calls are made, with any times: never more items in flight than workers nor
  more queued than the limit (also at the recorded maximum); items wait only while all workers are busy;
  and the messages submit accepted are served first come, first served and exactly once: those that
  still wait are the last accepted, in order, and the others are in flight or completed.\<close>
theorem admission_control_bounded_fifo:
  assumes "new_admission_controller w l t = Inr a0" "fold admission_step es ([], a0) = (accepted, a)"
  shows "int (length (ac_inflight a)) \<le> w \<and> queue_depth a \<le> l \<and> ac_max_depth a \<le> l \<and>
    (ac_queue a \<noteq> [] \<longrightarrow> int (length (ac_inflight a)) = w) \<and>
    (\<exists>started. accepted = started @ map queued_key (ac_queue a) \<and>
       mset started = mset (map inflight_key (ac_inflight a)) + mset (map completed_key (ac_completed a)))"
proof -
  have new: "ac_workers a0 = w" "ac_queue_limit a0 = l" using assms(1) by (auto simp: new_admission_controller_def split: if_splits)
  have "admission_ok accepted a" using admission.ok_run [of "([], a0)" es] assms by auto
  moreover have "ac_workers a = w \<and> ac_queue_limit a = l" using admission_run_settings [of es "([], a0)"] assms(2) new by simp
  ultimately show ?thesis unfolding admission_ok_def sizes_ok_def ledger_ok_def by auto
qed

theorem admission_control_bounded_fifo_witness:
  "\<exists>a. fold admission_step demo_events ([], demo_controller) = ([(''a'', 0), (''b'', 1)], a) \<and>
    int (length (ac_inflight a)) \<le> 1 \<and> queue_depth a \<le> 1 \<and> ac_max_depth a = 1"
  using admission_control_bounded_fifo [OF demo_controller_new demo_run] demo_run by simp

text \<open>Property C10. Load shedding bounds the latency of what is accepted: when the times given do not go
  backwards, every completed request took at most \<open>(2 + (queue_limit - 1) div workers) * service_time_ms\<close>
  from acceptance to completion, however many messages were offered.\<close>
theorem admitted_latency_bounded:
  assumes "new_admission_controller w l t = Inr a0" "sorted (concat (map event_times es))"
    and "fold admission_step es ([], a0) = (accepted, a)" "c \<in> set (ac_completed a)"
  shows "latency_ms c \<le> (2 + (l - 1) div w) * t"
proof -
  have new: "ac_workers a0 = w" "ac_queue_limit a0 = l" "ac_service_time a0 = t" "ac_inflight a0 = []" "ac_completed a0 = []" "ac_queue a0 = []"
    using assms(1) by (auto simp: new_admission_controller_def split: if_splits)
  obtain now where "sorted (now # concat (map event_times es))"
  proof (cases "concat (map event_times es)")
    case (Cons x xs)
    with assms(2) that [of x] show ?thesis by auto
  next
    case Nil
    then show ?thesis by (intro that [of 0]) (simp only: sorted1)
  qed
  moreover have "timed_ok [] now a0"
    using admission_start_ok [OF assms(1)] new by (simp add: timed_ok_def latency_ok_def clock_ok_def)
  ultimately obtain now' where "timed_ok accepted now' a" using run_timed [of "([], a0)" now es] assms(3) by auto
  moreover have "latency_bound a = (2 + (l - 1) div w) * t"
    using admission_run_settings [of es "([], a0)"] assms(3) new by (simp add: latency_bound_def)
  ultimately show ?thesis using assms(4) unfolding timed_ok_def latency_ok_def by auto
qed

theorem admitted_latency_bounded_witness:
  "latency_ms \<lparr>cr_message_id = ''b'', cr_accepted_at = 1, cr_started_at = 10, cr_completed_at = 20\<rparr> \<le> 20"
  using admitted_latency_bounded [OF demo_controller_new _ demo_run, of "\<lparr>cr_message_id = ''b'', cr_accepted_at = 1, cr_started_at = 10, cr_completed_at = 20\<rparr>"]
  by (simp add: demo_events_def)

text \<open>Accepted work is never lost: after \<open>drain\<close>, which always ends, nothing waits or is in
  flight and the completed requests are exactly the messages submit accepted, each with its time of
  acceptance, started no earlier than that and finished one service time after its start.\<close>
theorem drain_completes_accepted_work:
  assumes "new_admission_controller w l t = Inr a0" "fold admission_step es ([], a0) = (accepted, a)"
  shows "ac_queue (drain a) = [] \<and> ac_inflight (drain a) = [] \<and> mset (map completed_key (ac_completed (drain a))) = mset accepted \<and>
    (\<forall>c \<in> set (ac_completed (drain a)). cr_accepted_at c \<le> cr_started_at c \<and> cr_completed_at c = cr_started_at c + t)"
proof -
  have new: "ac_service_time a0 = t" using assms(1) by (auto simp: new_admission_controller_def split: if_splits)
  have "admission_ok accepted a" using admission.ok_run [of "([], a0)" es] assms by auto
  from drain_ok [OF this] have ok: "admission_ok accepted (drain a)" .
  have t: "ac_service_time (drain a) = t"
    using drain_settings [of a] admission_run_settings [of es "([], a0)"] assms(2) new by simp
  have "ac_queue (drain a) = []" using ok drain_done [of a] unfolding admission_ok_def sizes_ok_def by auto
  then show ?thesis
    using ok t drain_done [of a] unfolding admission_ok_def ledger_ok_def times_ok_def by auto
qed

theorem drain_completes_accepted_work_witness:
  "\<exists>a. fold admission_step (take 3 demo_events) ([], demo_controller) = ([(''a'', 0), (''b'', 1)], a) \<and>
     mset (map completed_key (ac_completed (drain a))) = {#(''a'', 0), (''b'', 1)#}"
proof -
  obtain accepted a where run: "fold admission_step (take 3 demo_events) ([], demo_controller) = (accepted, a)" by fastforce
  have "fst (fold admission_step (take 3 demo_events) ([], demo_controller)) = [(''a'', 0), (''b'', 1)]" by code_simp
  with run drain_completes_accepted_work [OF demo_controller_new run] show ?thesis by simp
qed

section \<open>The breaker in the consumer\<close>

text \<open>Deliveries of messages, each with its outcome, time and requested delay.\<close>

definition process_all ::
    "('b \<Rightarrow> bool \<times> 'b) \<Rightarrow> (int \<Rightarrow> int option \<Rightarrow> int res) \<Rightarrow> (relay_message \<times> relay_outcome \<times> int \<times> int option) list \<Rightarrow>
     'b retrying_consumer \<Rightarrow> 'b retrying_consumer" where
  "process_all allow delay calls c =
     fold (\<lambda>(m, outcome, now, retry_after) c. snd (process allow delay m outcome now retry_after c)) calls c"

lemma process_topology [simp]: "rc_topology (snd (process allow delay m outcome now ra c)) = rc_topology c"
  by (auto simp: process_def Let_def add_dead_letter_def split: sum.split relay_outcome.split prod.split)

lemma process_breaker:
  assumes "validate_topology (rc_topology c) = Inr ()"
  shows "rc_breaker (snd (process allow delay m outcome now ra c)) =
    (let (allowed, b) = breaker_allow now (rc_breaker c) in
     if \<not> allowed then b else case outcome of SUCCEEDED \<Rightarrow> record_success b | POISON \<Rightarrow> b | TRANSIENT_FAILURE \<Rightarrow> snd (record_failure now b))"
  using assms
  by (auto simp: process_def Let_def add_dead_letter_def split: sum.split relay_outcome.split prod.split)

lemma failures_breaker:
  assumes "1 \<le> threshold" "1 \<le> timeout" "list_all (\<lambda>(m, outcome, now, ra). outcome = TRANSIENT_FAILURE) calls"
    "validate_topology (rc_topology c) = Inr ()" "0 \<le> k"
    "rc_breaker c = (new_circuit_breaker threshold timeout successes)\<lparr>cb_consecutive_failures := k, cb_open_until := u\<rparr>"
    "k + int (length calls) < threshold"
  shows "rc_breaker (process_all allow delay calls c) =
    (new_circuit_breaker threshold timeout successes)\<lparr>cb_consecutive_failures := k + int (length calls), cb_open_until := u\<rparr>"
  using assms(3-)
proof (induction calls arbitrary: c k)
  case (Cons call calls)
  obtain m now ra where call: "call = (m, TRANSIENT_FAILURE, now, ra)" using Cons.prems(1) by (cases call) auto
  let ?c = "snd (process allow delay m TRANSIENT_FAILURE now ra c)"
  have "rc_breaker ?c = (new_circuit_breaker threshold timeout successes)\<lparr>cb_consecutive_failures := k + 1, cb_open_until := u\<rparr>"
    unfolding process_breaker [OF Cons.prems(2)] Cons.prems(4)
    using assms(1,2) Cons.prems(5) by (simp add: breaker_allow_def record_failure_def new_circuit_breaker_def Let_def)
  with Cons.IH [of ?c "k + 1"] Cons.prems show ?case
    by (simp add: process_all_def call)
qed (simp add: process_all_def)

text \<open>A consumer whose breaker has tripped until \<open>until\<close>.\<close>

definition tripped :: "int \<Rightarrow> int \<Rightarrow> int \<Rightarrow> int \<Rightarrow> circuit_breaker" where
  "tripped threshold timeout successes until =
     (new_circuit_breaker threshold timeout successes)\<lparr>cb_state := OPEN, cb_open_until := until\<rparr>"

lemma process_tripped:
  assumes "rc_breaker c = tripped threshold timeout successes until" "validate_topology (rc_topology c) = Inr ()" "t < until"
  shows "process allow delay m outcome t ra c =
    (Inr (Some \<lparr>ri_message = next_attempt m, ri_delay = until - t, ri_reason = ''circuit_open''\<rparr>), c)"
  using assms by (simp add: process_def breaker_allow_def tripped_def retry_after_ms_def Let_def)

text \<open>Property C31. The circuit breaker in the consumer trips and recovers: the first failures below the
  threshold leave it closed; the failure that reaches the threshold opens it, and until the recovery
  timeout every delivery, whatever its outcome would be, is deferred for the time left, and the consumer
  does not change; after that one probe is let through, which opens it again when it fails and closes it
  when it succeeds and one success suffices.\<close>
theorem breaker_trips_and_recovers:
  assumes "1 \<le> threshold" "1 \<le> timeout" "validate_topology (rc_topology c) = Inr ()"
    and "rc_breaker c = new_circuit_breaker threshold timeout successes"
    and "list_all (\<lambda>(m, outcome, now, ra). outcome = TRANSIENT_FAILURE) calls" "int (length calls) + 1 = threshold"
    and "c' = process_all allow delay (calls @ [(m, TRANSIENT_FAILURE, now, ra)]) c"
  shows "cb_state (rc_breaker (process_all allow delay calls c)) = CLOSED \<and>
    (\<forall>m' outcome t ra'. if t < now + timeout
      then process allow delay m' outcome t ra' c' =
        (Inr (Some \<lparr>ri_message = next_attempt m', ri_delay = now + timeout - t, ri_reason = ''circuit_open''\<rparr>), c')
      else cb_state (rc_breaker (snd (process allow delay m' TRANSIENT_FAILURE t ra' c'))) = OPEN \<and>
        cb_open_until (rc_breaker (snd (process allow delay m' TRANSIENT_FAILURE t ra' c'))) = t + timeout \<and>
        cb_state (rc_breaker (snd (process allow delay m' SUCCEEDED t ra' c'))) = (if successes \<le> 1 then CLOSED else HALF_OPEN))"
proof -
  let ?d = "process_all allow delay calls c"
  have "rc_breaker c = (new_circuit_breaker threshold timeout successes)\<lparr>cb_consecutive_failures := 0, cb_open_until := 0\<rparr>"
    unfolding assms(4) by (simp add: new_circuit_breaker_def)
  from failures_breaker [OF assms(1,2,5,3) order_refl this]
  have d: "rc_breaker ?d = (new_circuit_breaker threshold timeout successes)\<lparr>cb_consecutive_failures := threshold - 1, cb_open_until := 0\<rparr>"
    using assms(6) [symmetric] by simp
  have top: "rc_topology (process_all allow delay cs c) = rc_topology c" for cs
    unfolding process_all_def by (induction cs arbitrary: c) (auto split: prod.split)
  have c': "c' = snd (process allow delay m TRANSIENT_FAILURE now ra ?d)" by (simp add: assms(7) process_all_def)
  have trip: "rc_breaker c' = tripped threshold timeout successes (now + timeout)" "validate_topology (rc_topology c') = Inr ()"
  proof -
    show "rc_breaker c' = tripped threshold timeout successes (now + timeout)"
      unfolding c' process_breaker [OF assms(3) [folded top [of calls]]] d
      using assms(1,2) by (simp add: breaker_allow_def record_failure_def open_breaker_def new_circuit_breaker_def tripped_def Let_def)
    show "validate_topology (rc_topology c') = Inr ()" unfolding assms(7) top by (rule assms(3))
  qed
  have probe: "cb_state (rc_breaker (snd (process allow delay m' TRANSIENT_FAILURE t ra' c'))) = OPEN \<and>
      cb_open_until (rc_breaker (snd (process allow delay m' TRANSIENT_FAILURE t ra' c'))) = t + timeout \<and>
      cb_state (rc_breaker (snd (process allow delay m' SUCCEEDED t ra' c'))) = (if successes \<le> 1 then CLOSED else HALF_OPEN)"
    if "\<not> t < now + timeout" for m' t ra'
    unfolding process_breaker [OF trip(2)] trip(1)
    using that assms(1,2)
    by (simp add: breaker_allow_def tripped_def record_failure_def record_success_def open_breaker_def new_circuit_breaker_def Let_def)
  have "cb_state (rc_breaker ?d) = CLOSED" unfolding d by (simp add: new_circuit_breaker_def)
  then show ?thesis using process_tripped [OF trip] probe by simp
qed

definition demo_consumer :: "unit retrying_consumer" where
  "demo_consumer = \<lparr>rc_budget = (), rc_topology = \<lparr>rt_application_max_attempts = 3, rt_sdk_max_retries = 0\<rparr>,
     rc_breaker = new_circuit_breaker 2 50 1, rc_dead_letters = []\<rparr>"

theorem breaker_trips_and_recovers_witness:
  "fst (process (\<lambda>b. (True, b)) (\<lambda>attempts ra. Inr 10) (demo_message ''c'') SUCCEEDED 40 None
     (process_all (\<lambda>b. (True, b)) (\<lambda>attempts ra. Inr 10)
        [(demo_message ''a'', TRANSIENT_FAILURE, 0, None), (demo_message ''b'', TRANSIENT_FAILURE, 10, None)] demo_consumer)) =
   Inr (Some \<lparr>ri_message = next_attempt (demo_message ''c''), ri_delay = 20, ri_reason = ''circuit_open''\<rparr>)"
proof -
  have pre: "validate_topology (rc_topology demo_consumer) = Inr ()" "rc_breaker demo_consumer = new_circuit_breaker 2 50 1"
    by (simp_all add: demo_consumer_def validate_topology_def)
  have calls: "list_all (\<lambda>(m, outcome, now, ra). outcome = TRANSIENT_FAILURE)
      [(demo_message ''a'', TRANSIENT_FAILURE, 0 :: int, None :: int option)]" by simp
  have two: "1 \<le> (2 :: int)" "1 \<le> (50 :: int)" "int (length [(demo_message ''a'', TRANSIENT_FAILURE, 0 :: int, None :: int option)]) + 1 = 2" by simp_all
  note w = conjunct2 [OF breaker_trips_and_recovers [where allow = "\<lambda>b. (True, b)" and delay = "\<lambda>attempts ra. Inr 10" and
      m = "demo_message ''b''" and now = 10 and ra = None, OF two(1,2) pre calls two(3) refl]]
  from w [THEN spec, of "demo_message ''c''", THEN spec, of SUCCEEDED, THEN spec, of 40, THEN spec, of None] show ?thesis
    by simp
qed

end
