(* ===== verification/TopologicalSorter.thy ===== *)
theory TopologicalSorter
  imports Prelude
begin

text \<open>
  The standard library's \<open>graphlib.TopologicalSorter\<close>, as lab 30 uses it: the sorter is built from a
  dictionary of predecessors, prepared (with a depth-first search for a cycle), and hands out nodes that
  are ready, each marked done once.  Its node table keeps the count of predecessors not done (-1 once
  handed out, -2 once done) and the successors of every node, in insertion order.
\<close>

section \<open>The sorter\<close>

type_synonym node_info = "(string \<times> int \<times> string list) list"

record sorter =
  so_info :: node_info
  so_ready :: "string list"

definition ensure_info :: "string \<Rightarrow> node_info \<Rightarrow> node_info" where
  "ensure_info n info = (if n \<in> set (dict_keys info) then info else info @ [(n, 0, [])])"

definition add_predecessor :: "string \<Rightarrow> string \<Rightarrow> node_info \<Rightarrow> node_info" where
  "add_predecessor n p info = AList.map_entry p (\<lambda>(count, succs). (count, succs @ [n])) (ensure_info p info)"

definition sorter_add :: "string \<times> string list \<Rightarrow> node_info \<Rightarrow> node_info" where
  "sorter_add = (\<lambda>(n, preds) info.
     fold (add_predecessor n) preds
       (AList.map_entry n (\<lambda>(count, succs). (count + int (length preds), succs)) (ensure_info n info)))"

definition new_sorter :: "(string \<times> string list) list \<Rightarrow> sorter" where
  "new_sorter graph = \<lparr>so_info = fold sorter_add graph [], so_ready = []\<rparr>"

definition successors :: "node_info \<Rightarrow> string \<Rightarrow> string list" where
  "successors info n = (case map_of info n of None \<Rightarrow> [] | Some (count, succs) \<Rightarrow> succs)"

text \<open>The stack holds each node on the current path with the successors still to visit, the top first.\<close>

definition unseen :: "node_info \<Rightarrow> string set \<Rightarrow> (string \<times> string list) list \<Rightarrow> string set" where
  "unseen info seen stack = ((\<Union>(n, count, succs) \<in> set info. set succs) \<union> (\<Union>(n, rest) \<in> set stack. set rest)) - seen"

lemma finite_unseen: "finite (unseen info seen stack)"
  unfolding unseen_def by auto

lemma successors_in: "set (successors info n) \<subseteq> (\<Union>(n, count, succs) \<in> set info. set succs)"
proof (cases "map_of info n")
  case (Some v)
  then show ?thesis using map_of_SomeD [OF Some] by (cases v) (auto simp: successors_def)
qed (simp add: successors_def)

function find_cycle_loop :: "node_info \<Rightarrow> string set \<Rightarrow> (string \<times> string list) list \<Rightarrow> string list + string set" where
  "find_cycle_loop info seen [] = Inr seen"
| "find_cycle_loop info seen ((n, []) # stack) = find_cycle_loop info seen stack"
| "find_cycle_loop info seen ((n, s # rest) # stack) =
     (if s \<in> seen then
        if s \<in> set (dict_keys ((n, rest) # stack))
        then Inl (dropWhile (\<lambda>m. m \<noteq> s) (rev (dict_keys ((n, rest) # stack))) @ [s])
        else find_cycle_loop info seen ((n, rest) # stack)
      else find_cycle_loop info (insert s seen) ((s, successors info s) # (n, rest) # stack))"
  by pat_completeness auto

termination
proof (relation "measures [\<lambda>(info, seen, stack). card (unseen info seen stack), \<lambda>(info, seen, stack). sum_list (map (\<lambda>(n, rest). Suc (length rest)) stack)]", goal_cases)
  case (2 info seen n stack)
  have "unseen info seen stack \<subseteq> unseen info seen ((n, []) # stack)" by (auto simp: unseen_def)
  from card_mono [OF finite_unseen this] show ?case by auto
next
  case (3 info seen n s rest stack)
  have "unseen info seen ((n, rest) # stack) \<subseteq> unseen info seen ((n, s # rest) # stack)" by (auto simp: unseen_def)
  from card_mono [OF finite_unseen this] show ?case by auto
next
  case (4 info seen n s rest stack)
  have "unseen info (insert s seen) ((s, successors info s) # (n, rest) # stack) \<subset> unseen info seen ((n, s # rest) # stack)"
    using 4 successors_in [of info s] by (fastforce simp: unseen_def)
  from psubset_card_mono [OF finite_unseen this] show ?case by simp
qed simp

fun find_cycle_from :: "node_info \<Rightarrow> string list \<Rightarrow> string set \<Rightarrow> string list option" where
  "find_cycle_from info [] seen = None"
| "find_cycle_from info (n # ns) seen =
     (if n \<in> seen then find_cycle_from info ns seen
      else case find_cycle_loop info (insert n seen) [(n, successors info n)] of
             Inl cycle \<Rightarrow> Some cycle
           | Inr seen' \<Rightarrow> find_cycle_from info ns seen')"

definition find_cycle :: "node_info \<Rightarrow> string list option" where
  "find_cycle info = find_cycle_from info (dict_keys info) {}"

text \<open>\<open>prepare\<close>: the cycle of a CycleError, or the sorter with the nodes that are ready.\<close>

definition prepare :: "sorter \<Rightarrow> string list + sorter" where
  "prepare s =
     (case find_cycle (so_info s) of
        Some cycle \<Rightarrow> Inl cycle
      | None \<Rightarrow> Inr (s\<lparr>so_ready := [n \<leftarrow> dict_keys (so_info s). map_option fst (map_of (so_info s) n) = Some 0]\<rparr>))"

definition get_ready :: "sorter \<Rightarrow> string list \<times> sorter" where
  "get_ready s = (so_ready s,
     \<lparr>so_info = fold (\<lambda>n. AList.map_entry n (\<lambda>(count, succs). (-1, succs))) (so_ready s) (so_info s), so_ready = []\<rparr>)"

fun release_successors :: "string list \<Rightarrow> node_info \<Rightarrow> string list \<Rightarrow> node_info \<times> string list" where
  "release_successors [] info ready = (info, ready)"
| "release_successors (n # ns) info ready =
     (case map_of info n of
        None \<Rightarrow> release_successors ns info ready
      | Some (count, succs) \<Rightarrow>
          release_successors ns (AList.update n (count - 1, succs) info) (if count - 1 = 0 then ready @ [n] else ready))"

text \<open>\<open>done(n)\<close>; None where it raises ValueError.\<close>

definition sorter_done :: "string \<Rightarrow> sorter \<Rightarrow> sorter option" where
  "sorter_done n s =
     (case map_of (so_info s) n of
        None \<Rightarrow> None
      | Some (count, succs) \<Rightarrow>
          if count \<noteq> -1 then None
          else let (info, ready) = release_successors succs (AList.update n (-2, succs) (so_info s)) (so_ready s)
            in Some \<lparr>so_info = info, so_ready = ready\<rparr>)"

section \<open>Cycles\<close>

definition is_cycle :: "node_info \<Rightarrow> string list \<Rightarrow> bool" where
  "is_cycle info c \<longleftrightarrow> 2 \<le> length c \<and> hd c = last c \<and> successively (\<lambda>a b. b \<in> set (successors info a)) c"

text \<open>Nodes in the order they were finished, the last first: the successors of each come after it.\<close>

fun finished :: "node_info \<Rightarrow> string list \<Rightarrow> bool" where
  "finished info [] \<longleftrightarrow> True"
| "finished info (n # ns) \<longleftrightarrow> set (successors info n) \<subseteq> set ns \<and> finished info ns"

fun path_ok :: "node_info \<Rightarrow> string set \<Rightarrow> string set \<Rightarrow> (string \<times> string list) list \<Rightarrow> bool" where
  "path_ok info fin over [] \<longleftrightarrow> True"
| "path_ok info fin over ((n, rest) # stack) \<longleftrightarrow>
     set rest \<subseteq> set (successors info n) \<and> set (successors info n) \<subseteq> fin \<union> set rest \<union> over \<and>
     (\<forall>p r st. stack = (p, r) # st \<longrightarrow> n \<in> set (successors info p)) \<and> path_ok info fin {n} stack"

lemma path_ok_mono: "path_ok info fin over stack \<Longrightarrow> fin \<subseteq> fin' \<Longrightarrow> over \<subseteq> fin' \<union> over' \<Longrightarrow> path_ok info fin' over' stack"
proof (induction stack arbitrary: over over')
  case (Cons e stack)
  obtain n rest where e: "e = (n, rest)" by fastforce
  have "path_ok info fin' {n} stack" using Cons.IH [of "{n}" "{n}"] Cons.prems by (simp add: e)
  with Cons.prems show ?case by (simp add: e) blast
qed simp

lemma path_ok_chain: "path_ok info fin over stack \<Longrightarrow> successively (\<lambda>a b. b \<in> set (successors info a)) (rev (dict_keys stack))"
proof (induction info fin over stack rule: path_ok.induct)
  case (2 info fin over n rest stack)
  then show ?case
    by (cases stack) (auto simp: successively_append_iff)
qed simp

lemma dropWhile_suffix: "s \<in> set xs \<Longrightarrow> \<exists>ys zs. xs = ys @ dropWhile (\<lambda>m. m \<noteq> s) xs \<and> dropWhile (\<lambda>m. m \<noteq> s) xs = s # zs"
proof (induction xs)
  case (Cons x xs)
  then show ?case by (cases "x = s") (auto intro: exI [of _ "x # ys" for ys] exI [of _ "[]"])
qed simp

definition search_ok :: "node_info \<Rightarrow> string list \<Rightarrow> string set \<Rightarrow> (string \<times> string list) list \<Rightarrow> bool" where
  "search_ok info ord seen stack \<longleftrightarrow>
     finished info ord \<and> seen = set ord \<union> set (dict_keys stack) \<and> path_ok info (set ord) {} stack"

lemma find_cycle_loop_result:
  "search_ok info ord seen stack \<Longrightarrow>
   (case find_cycle_loop info seen stack of
      Inl cycle \<Rightarrow> is_cycle info cycle
    | Inr seen' \<Rightarrow> \<exists>ord'. finished info ord' \<and> seen' = set ord' \<and> seen \<subseteq> seen')"
proof (induction info seen stack arbitrary: ord rule: find_cycle_loop.induct)
  case (1 info seen)
  then show ?case by (auto simp: search_ok_def)
next
  case (2 info seen n stack)
  then have "search_ok info (n # ord) seen stack"
    using path_ok_mono [of info "set ord" "{n}" stack "set (n # ord)" "{}"] by (auto simp: search_ok_def)
  with 2 show ?case by simp
next
  case (3 info seen n s rest stack)
  have s: "s \<in> set (successors info n)" using 3(3) by (simp add: search_ok_def)
  consider (cycle) "s \<in> set (dict_keys ((n, rest) # stack))" | (old) "s \<in> seen" "s \<notin> set (dict_keys ((n, rest) # stack))" | (new) "s \<notin> seen"
    by blast
  then show ?case
  proof cases
    case cycle
    let ?p = "rev (dict_keys ((n, rest) # stack))"
    have seen: "s \<in> seen" using cycle 3(3) by (auto simp: search_ok_def)
    have "s \<in> set ?p" using cycle by simp
    from dropWhile_suffix [OF this] obtain ys zs where p: "?p = ys @ dropWhile (\<lambda>m. m \<noteq> s) ?p" "dropWhile (\<lambda>m. m \<noteq> s) ?p = s # zs" by blast
    have "successively (\<lambda>a b. b \<in> set (successors info a)) (rev (dict_keys ((n, s # rest) # stack)))"
      using 3(3) path_ok_chain unfolding search_ok_def by blast
    then have "successively (\<lambda>a b. b \<in> set (successors info a)) (ys @ s # zs)" using p by simp
    then have "successively (\<lambda>a b. b \<in> set (successors info a)) (s # zs)" unfolding successively_append_iff by blast
    moreover have "last (s # zs) = n"
    proof -
      have "last ?p = last (ys @ s # zs)" using p by metis
      then show ?thesis by simp
    qed
    ultimately have "successively (\<lambda>a b. b \<in> set (successors info a)) ((s # zs) @ [s])" using s unfolding successively_append_iff by simp
    then have "is_cycle info ((s # zs) @ [s])" by (simp add: is_cycle_def)
    with seen cycle p(2) show ?thesis by simp
  next
    case old
    then have "search_ok info ord seen ((n, rest) # stack)" using 3(3) by (auto simp: search_ok_def)
    with 3(1) old show ?thesis by simp
  next
    case new
    then have "search_ok info ord (insert s seen) ((s, successors info s) # (n, rest) # stack)"
      using 3(3) s by (auto simp: search_ok_def)
    from 3(2) [OF new this] new show ?thesis by (auto split: sum.splits)
  qed
qed

lemma find_cycle_from_result:
  "finished info ord \<Longrightarrow> seen = set ord \<Longrightarrow>
   (case find_cycle_from info ns seen of
      Some cycle \<Rightarrow> is_cycle info cycle
    | None \<Rightarrow> \<exists>ord'. finished info ord' \<and> set ns \<union> seen \<subseteq> set ord')"
proof (induction info ns seen arbitrary: ord rule: find_cycle_from.induct)
  case (2 info n ns seen)
  show ?case
  proof (cases "n \<in> seen")
    case True
    with 2(1) [OF True 2(3,4)] show ?thesis by (auto split: option.splits)
  next
    case False
    have "search_ok info ord (insert n seen) [(n, successors info n)]" using 2(3,4) by (auto simp: search_ok_def)
    note r = find_cycle_loop_result [OF this]
    show ?thesis
    proof (cases "find_cycle_loop info (insert n seen) [(n, successors info n)]")
      case (Inl c)
      with r False show ?thesis by simp
    next
      case (Inr seen')
      with r obtain ord' where o: "finished info ord'" "seen' = set ord'" "insert n seen \<subseteq> seen'" by auto
      from 2(2) [OF False Inr o(1,2)] False Inr o(3) show ?thesis by (auto split: option.splits)
    qed
  qed
qed auto

fun rank :: "string list \<Rightarrow> string \<Rightarrow> nat" where
  "rank [] a = 0"
| "rank (x # xs) a = (if a \<in> set xs then rank xs a else length (x # xs))"

lemma rank_le: "rank ord a \<le> length ord"
  by (induction ord) auto

lemma finished_rank: "finished info ord \<Longrightarrow> a \<in> set ord \<Longrightarrow> b \<in> set (successors info a) \<Longrightarrow> b \<in> set ord \<and> rank ord b < rank ord a"
proof (induction ord)
  case (Cons x ord)
  show ?case
  proof (cases "a \<in> set ord")
    case True
    with Cons show ?thesis by auto
  next
    case False
    with Cons.prems have "b \<in> set ord" by auto
    with False rank_le [of ord b] show ?thesis by simp
  qed
qed simp

lemma finished_chain:
  "finished info ord \<Longrightarrow> a \<in> set ord \<Longrightarrow> successively (\<lambda>a b. b \<in> set (successors info a)) (a # c) \<Longrightarrow> b \<in> set c \<Longrightarrow> rank ord b < rank ord a"
proof (induction c arbitrary: a)
  case (Cons x c)
  then have x: "x \<in> set ord" "rank ord x < rank ord a" using finished_rank [of info ord a x] by auto
  with Cons.IH [of x] Cons.prems show ?case by fastforce
qed simp

text \<open>The nodes whose successors are all nodes of the table.\<close>

definition closed_info :: "node_info \<Rightarrow> bool" where
  "closed_info info \<longleftrightarrow> (\<forall>n. set (successors info n) \<subseteq> set (dict_keys info))"

lemma cycle_start:
  assumes "closed_info info" "is_cycle info c"
  shows "hd c \<in> set (dict_keys info)"
proof -
  obtain a b d where c: "c = a # b # d" using assms(2) unfolding is_cycle_def by (cases c; cases "tl c") auto
  then have "last (a # b # d) = a" "successively (\<lambda>a b. b \<in> set (successors info a)) (a # b # d)" using assms(2) by (auto simp: is_cycle_def)
  then have "b \<in> set (successors info a)" by simp
  then have "successors info a \<noteq> []" by auto
  then have "map_of info a \<noteq> None" by (auto simp: successors_def split: option.splits)
  then show ?thesis using c by (simp add: map_of_eq_None_iff)
qed

lemma find_cycle_result:
  "case find_cycle info of
     Some cycle \<Rightarrow> is_cycle info cycle
   | None \<Rightarrow> \<exists>ord. finished info ord \<and> set (dict_keys info) \<subseteq> set ord"
  using find_cycle_from_result [of info "[]" "{}" "dict_keys info"] by (auto simp: find_cycle_def split: option.splits)

lemma find_cycle_None_iff:
  assumes "closed_info info"
  shows "find_cycle info = None \<longleftrightarrow> (\<nexists>c. is_cycle info c)"
proof
  assume "find_cycle info = None"
  with find_cycle_result [of info] obtain ord where ord: "finished info ord" "set (dict_keys info) \<subseteq> set ord" by auto
  show "\<nexists>c. is_cycle info c"
  proof
    assume "\<exists>c. is_cycle info c"
    then obtain c where c: "is_cycle info c" by blast
    with cycle_start [OF assms c] ord(2) have "hd c \<in> set ord" by blast
    moreover obtain a d where ad: "c = a # d" "d \<noteq> []" "last d = a" using c unfolding is_cycle_def by (cases c) (auto split: if_splits)
    ultimately show False using finished_chain [OF ord(1), of a d a] c last_in_set [of d] unfolding is_cycle_def by auto
  qed
next
  assume "\<nexists>c. is_cycle info c"
  with find_cycle_result [of info] show "find_cycle info = None" by (cases "find_cycle info") auto
qed

section \<open>The node table\<close>

definition npred :: "node_info \<Rightarrow> string \<Rightarrow> int" where
  "npred info n = (case map_of info n of None \<Rightarrow> 0 | Some (count, succs) \<Rightarrow> count)"

lemma ensure_info_view:
  "npred (ensure_info p info) = npred info" "successors (ensure_info p info) = successors info"
  "set (dict_keys (ensure_info p info)) = insert p (set (dict_keys info))"
  "distinct (dict_keys info) \<Longrightarrow> distinct (dict_keys (ensure_info p info))"
  by (auto simp: ensure_info_def npred_def successors_def fun_eq_iff map_add_def split: option.split)

lemma map_entry_view:
  assumes "n \<in> set (dict_keys info)"
  shows "npred (AList.map_entry n (\<lambda>(c, ss). (f c, h ss)) info) m = (if m = n then f (npred info n) else npred info m)"
    "successors (AList.map_entry n (\<lambda>(c, ss). (f c, h ss)) info) m = (if m = n then h (successors info n) else successors info m)"
proof -
  obtain v where "map_of info n = Some v" using assms by (metis map_of_eq_None_iff not_None_eq list.set_map)
  then show "npred (AList.map_entry n (\<lambda>(c, ss). (f c, h ss)) info) m = (if m = n then f (npred info n) else npred info m)"
    "successors (AList.map_entry n (\<lambda>(c, ss). (f c, h ss)) info) m = (if m = n then h (successors info n) else successors info m)"
    by (cases v; simp add: npred_def successors_def map_of_map_entry)+
qed

lemma add_predecessor_view:
  "npred (add_predecessor n p info) = npred info"
  "successors (add_predecessor n p info) q = (if q = p then successors info p @ [n] else successors info q)"
  "set (dict_keys (add_predecessor n p info)) = insert p (set (dict_keys info))"
  "distinct (dict_keys info) \<Longrightarrow> distinct (dict_keys (add_predecessor n p info))"
  using map_entry_view [of p "ensure_info p info" "\<lambda>c. c" "\<lambda>ss. ss @ [n]"] ensure_info_view [where p = p and info = info]
  by (simp_all add: add_predecessor_def fun_eq_iff del: set_map)

lemma add_predecessors_view:
  "npred (fold (add_predecessor n) ps info) = npred info \<and>
   (\<forall>q m. count_list (successors (fold (add_predecessor n) ps info) q) m = count_list (successors info q) m + (if m = n then count_list ps q else 0)) \<and>
   set (dict_keys (fold (add_predecessor n) ps info)) = set ps \<union> set (dict_keys info) \<and>
   (distinct (dict_keys info) \<longrightarrow> distinct (dict_keys (fold (add_predecessor n) ps info)))"
proof (induction ps arbitrary: info)
  case (Cons p ps)
  note v = add_predecessor_view [where n = n and p = p and info = info]
  from Cons.IH [of "add_predecessor n p info"] v show ?case by (auto simp del: set_map)
qed simp

lemma sorter_add_view:
  "npred (sorter_add (n, ps) info) m = npred info m + (if m = n then int (length ps) else 0)"
  "count_list (successors (sorter_add (n, ps) info) q) m = count_list (successors info q) m + (if m = n then count_list ps q else 0)"
  "set (dict_keys (sorter_add (n, ps) info)) = insert n (set ps \<union> set (dict_keys info))"
  "distinct (dict_keys info) \<Longrightarrow> distinct (dict_keys (sorter_add (n, ps) info))"
  using map_entry_view [of n "ensure_info n info" "\<lambda>c. c + int (length ps)" "\<lambda>ss. ss"] ensure_info_view [where p = n and info = info]
    add_predecessors_view [of n ps "AList.map_entry n (\<lambda>(c, ss). (c + int (length ps), ss)) (ensure_info n info)"]
  by (simp_all add: sorter_add_def del: set_map)

definition preds :: "(string \<times> string list) list \<Rightarrow> string \<Rightarrow> string list" where
  "preds g n = (case map_of g n of None \<Rightarrow> [] | Some ps \<Rightarrow> ps)"

definition graph_closed :: "(string \<times> string list) list \<Rightarrow> bool" where
  "graph_closed g \<longleftrightarrow> distinct (dict_keys g) \<and> (\<forall>(n, ps) \<in> set g. set ps \<subseteq> set (dict_keys g))"

lemma sorter_adds_view:
  "distinct (dict_keys g) \<Longrightarrow>
   (\<forall>m. npred (fold sorter_add g info) m = npred info m + int (length (preds g m))) \<and>
   (\<forall>q m. count_list (successors (fold sorter_add g info) q) m = count_list (successors info q) m + count_list (preds g m) q) \<and>
   set (dict_keys (fold sorter_add g info)) = set (dict_keys g) \<union> (\<Union>(n, ps) \<in> set g. set ps) \<union> set (dict_keys info) \<and>
   (distinct (dict_keys info) \<longrightarrow> distinct (dict_keys (fold sorter_add g info)))"
proof (induction g arbitrary: info)
  case (Cons e g)
  obtain n ps where e: "e = (n, ps)" by fastforce
  have "map_of g n = None" using Cons.prems by (simp add: e map_of_eq_None_iff)
  then have p: "preds (e # g) m = (if m = n then ps else preds g m)" "preds g n = []" for m by (auto simp: e preds_def)
  note v = sorter_add_view [where n = n and ps = ps and info = info]
  from Cons.IH [of "sorter_add e info"] Cons.prems
  have "(\<forall>m. npred (fold sorter_add g (sorter_add e info)) m = npred (sorter_add e info) m + int (length (preds g m))) \<and>
   (\<forall>q m. count_list (successors (fold sorter_add g (sorter_add e info)) q) m = count_list (successors (sorter_add e info) q) m + count_list (preds g m) q) \<and>
   set (dict_keys (fold sorter_add g (sorter_add e info))) = set (dict_keys g) \<union> (\<Union>(n, ps) \<in> set g. set ps) \<union> set (dict_keys (sorter_add e info)) \<and>
   (distinct (dict_keys (sorter_add e info)) \<longrightarrow> distinct (dict_keys (fold sorter_add g (sorter_add e info))))"
    by (simp del: set_map)
  then show ?case using v p by (auto simp: e simp del: set_map)
qed (simp add: preds_def)

lemma graph_closed_preds: "graph_closed g \<Longrightarrow> set (preds g n) \<subseteq> set (dict_keys g)"
  by (fastforce simp: graph_closed_def preds_def split: option.split dest: map_of_SomeD)

lemma new_sorter_view:
  assumes "graph_closed g"
  shows "npred (so_info (new_sorter g)) m = int (length (preds g m))"
    "count_list (successors (so_info (new_sorter g)) q) m = count_list (preds g m) q"
    "set (dict_keys (so_info (new_sorter g))) = set (dict_keys g)"
    "distinct (dict_keys (so_info (new_sorter g)))"
proof -
  have g: "distinct (dict_keys g)" "(\<Union>(n, ps) \<in> set g. set ps) \<subseteq> set (dict_keys g)" using assms by (auto simp: graph_closed_def)
  from sorter_adds_view [OF g(1), of "[]"] g(2)
  show "npred (so_info (new_sorter g)) m = int (length (preds g m))"
    "count_list (successors (so_info (new_sorter g)) q) m = count_list (preds g m) q"
    "set (dict_keys (so_info (new_sorter g))) = set (dict_keys g)"
    "distinct (dict_keys (so_info (new_sorter g)))"
    by (simp_all add: new_sorter_def npred_def [of "[]"] successors_def [of "[]"] Un_absorb2 del: set_map)
qed

lemma release_successors_view:
  assumes "\<forall>n \<in> set ns. n \<in> set (dict_keys info) \<and> int (count_list ns n) \<le> npred info n"
  shows "case release_successors ns info ready of (info', ready') \<Rightarrow>
    dict_keys info' = dict_keys info \<and> successors info' = successors info \<and>
    (\<forall>m. npred info' m = npred info m - int (count_list ns m)) \<and>
    (\<exists>r. ready' = ready @ r \<and> distinct r \<and> set r = {m \<in> set ns. npred info m = int (count_list ns m)})"
  using assms
proof (induction ns arbitrary: info ready)
  case (Cons n ns)
  obtain c ss where i: "map_of info n = Some (c, ss)" using Cons.prems
    by (metis list.set_intros(1) map_of_eq_None_iff not_None_eq surj_pair list.set_map)
  let ?info = "AList.update n (c - 1, ss) info"
  have v: "npred ?info m = (if m = n then npred info n - 1 else npred info m)" "successors ?info = successors info"
    "dict_keys ?info = dict_keys info" for m
    using i dict_keys_update_present [OF i] by (auto simp: npred_def successors_def update_conv' fun_eq_iff)
  have c: "c = npred info n" by (simp add: npred_def i)
  have pre: "\<forall>m \<in> set ns. m \<in> set (dict_keys ?info) \<and> int (count_list ns m) \<le> npred ?info m"
  proof
    fix m assume "m \<in> set ns"
    with Cons.prems have "m \<in> set (dict_keys info)" "int (count_list (n # ns) m) \<le> npred info m" by simp_all
    then show "m \<in> set (dict_keys ?info) \<and> int (count_list ns m) \<le> npred ?info m" unfolding v by (auto split: if_splits)
  qed
  have n: "int (count_list (n # ns) n) \<le> npred info n" using Cons.prems by simp
  obtain ready1 where r1: "ready1 = (if c - 1 = 0 then ready @ [n] else ready)" by blast
  obtain info' ready' where run: "release_successors ns ?info ready1 = (info', ready')" by fastforce
  from Cons.IH [OF pre, of ready1, unfolded run prod.case v(2,3)] obtain r where r: "dict_keys info' = dict_keys info" "successors info' = successors info"
    "\<And>m. npred info' m = npred ?info m - int (count_list ns m)" "ready' = ready1 @ r" "distinct r"
    "set r = {m \<in> set ns. npred ?info m = int (count_list ns m)}" by blast
  have zero: "count_list ns n = 0 \<longleftrightarrow> n \<notin> set ns" by (simp add: count_list_0_iff)
  let ?r = "(if c - 1 = 0 then n # r else r)"
  have "ready' = ready @ ?r" using r(4) r1 by simp
  moreover have "distinct ?r" using r(5,6) n zero c by auto
  moreover have "set ?r = {m \<in> set (n # ns). npred info m = int (count_list (n # ns) m)}"
  proof (rule set_eqI)
    fix m
    show "m \<in> set ?r \<longleftrightarrow> m \<in> {m \<in> set (n # ns). npred info m = int (count_list (n # ns) m)}"
    proof (cases "m = n")
      case True
      have "m \<in> set r \<longleftrightarrow> m \<in> set ns \<and> npred info n - 1 = int (count_list ns n)" unfolding r(6) v(1) using True by simp
      with True zero n show ?thesis unfolding c by auto
    next
      case False
      have "m \<in> set r \<longleftrightarrow> m \<in> set ns \<and> npred info m = int (count_list ns m)" unfolding r(6) v(1) using False by simp
      with False show ?thesis by simp
    qed
  qed
  moreover have "npred info' m = npred info m - int (count_list (n # ns) m)" for m using r(3) v(1) by simp
  moreover have "release_successors (n # ns) info ready = (info', ready')" using i run r1 by simp
  ultimately show ?case using r(1,2) by (simp only: prod.case) blast
qed auto

section \<open>The sorter during a run\<close>

text \<open>
  The nodes handed out are exactly those whose predecessors are all done; the others count the
  predecessors still missing.
\<close>

definition sorter_ok :: "(string \<times> string list) list \<Rightarrow> string set \<Rightarrow> string set \<Rightarrow> sorter \<Rightarrow> bool" where
  "sorter_ok g out fin s \<longleftrightarrow>
     so_ready s = [] \<and> set (dict_keys (so_info s)) = set (dict_keys g) \<and>
     (\<forall>q m. count_list (successors (so_info s) q) m = count_list (preds g m) q) \<and>
     out \<inter> fin = {} \<and> (\<forall>n \<in> set (dict_keys g). n \<in> out \<union> fin \<longleftrightarrow> set (preds g n) \<subseteq> fin) \<and> out \<union> fin \<subseteq> set (dict_keys g) \<and>
     (\<forall>n \<in> set (dict_keys g). npred (so_info s) n =
        (if n \<in> fin then -2 else if n \<in> out then -1 else int (length (filter (\<lambda>p. p \<notin> fin) (preds g n)))))"

lemma get_ready_view:
  assumes "set (so_ready s) \<subseteq> set (dict_keys (so_info s))"
  shows "fst (get_ready s) = so_ready s" "so_ready (snd (get_ready s)) = []"
    "set (dict_keys (so_info (snd (get_ready s)))) = set (dict_keys (so_info s))"
    "successors (so_info (snd (get_ready s))) = successors (so_info s)"
    "npred (so_info (snd (get_ready s))) n = (if n \<in> set (so_ready s) then -1 else npred (so_info s) n)"
proof -
  have "set ns \<subseteq> set (dict_keys info) \<Longrightarrow>
      dict_keys (fold (\<lambda>n. AList.map_entry n (\<lambda>(count, succs). (-1, succs))) ns info) = dict_keys info \<and>
      successors (fold (\<lambda>n. AList.map_entry n (\<lambda>(count, succs). (-1, succs))) ns info) = successors info \<and>
      (\<forall>m. npred (fold (\<lambda>n. AList.map_entry n (\<lambda>(count, succs). (-1, succs))) ns info) m = (if m \<in> set ns then -1 else npred info m))"
    for ns info
  proof (induction ns arbitrary: info)
    case (Cons n ns)
    let ?info = "AList.map_entry n (\<lambda>(count, succs). (-1, succs)) info"
    have v: "npred ?info m = (if m = n then -1 else npred info m)" "successors ?info = successors info" for m
      using map_entry_view [of n info "\<lambda>c. -1" "\<lambda>ss. ss"] Cons.prems by (auto simp: fun_eq_iff)
    have "set ns \<subseteq> set (dict_keys ?info)" using Cons.prems by simp
    from Cons.IH [OF this] show ?case unfolding fold_simps v by (auto simp: v(1))
  qed simp
  from this [OF assms] show "fst (get_ready s) = so_ready s" "so_ready (snd (get_ready s)) = []"
    "set (dict_keys (so_info (snd (get_ready s)))) = set (dict_keys (so_info s))"
    "successors (so_info (snd (get_ready s))) = successors (so_info s)"
    "npred (so_info (snd (get_ready s))) n = (if n \<in> set (so_ready s) then -1 else npred (so_info s) n)"
    unfolding get_ready_def by (simp_all del: set_map)
qed

lemma npred_map_of: "n \<in> set (dict_keys info) \<Longrightarrow> map_option fst (map_of info n) = Some (npred info n)"
  by (cases "map_of info n") (auto simp: npred_def map_of_eq_None_iff split: prod.split)

lemma prepare_ok:
  assumes g: "graph_closed g" and p: "prepare (new_sorter g) = Inr s"
  shows "distinct (fst (get_ready s)) \<and> set (fst (get_ready s)) = {n \<in> set (dict_keys g). preds g n = []} \<and>
    sorter_ok g (set (fst (get_ready s))) {} (snd (get_ready s))"
proof -
  note new = new_sorter_view [OF g]
  let ?info = "so_info (new_sorter g)"
  let ?r = "[n \<leftarrow> dict_keys ?info. map_option fst (map_of ?info n) = Some 0]"
  have s: "s = (new_sorter g)\<lparr>so_ready := ?r\<rparr>" using p by (simp add: prepare_def split: option.splits)
  have ready: "set ?r = {n \<in> set (dict_keys g). preds g n = []}"
  proof (rule set_eqI)
    fix n
    show "n \<in> set ?r \<longleftrightarrow> n \<in> {n \<in> set (dict_keys g). preds g n = []}"
    proof (cases "n \<in> set (dict_keys g)")
      case True
      with npred_map_of [of n ?info] have "map_option fst (map_of ?info n) = Some (int (length (preds g n)))" unfolding new(1,3) by blast
      then obtain b where "map_of ?info n = Some (int (length (preds g n)), b)" by auto
      with True show ?thesis unfolding set_filter new(3) by simp
    qed (use new(3) in \<open>simp del: set_map\<close>)
  qed
  have sub: "set (so_ready s) \<subseteq> set (dict_keys (so_info s))" unfolding s by auto
  note v = get_ready_view [OF sub]
  have r: "so_ready s = ?r" "so_info s = ?info" unfolding s by simp_all
  show ?thesis
    unfolding sorter_ok_def v r ready new(1-3) using new(4) by auto
qed

lemma sorter_done_ok:
  assumes ok: "sorter_ok g out fin s" and n: "n \<in> out" and loop: "n \<notin> set (preds g n)"
  shows "\<exists>s1. sorter_done n s = Some s1 \<and> distinct (fst (get_ready s1)) \<and>
    set (fst (get_ready s1)) = {m \<in> set (dict_keys g) - (out \<union> fin). set (preds g m) \<subseteq> insert n fin} \<and>
    sorter_ok g (out - {n} \<union> set (fst (get_ready s1))) (insert n fin) (snd (get_ready s1))"
proof -
  have k: "so_ready s = []" "set (dict_keys (so_info s)) = set (dict_keys g)" "out \<inter> fin = {}" "out \<union> fin \<subseteq> set (dict_keys g)"
    and cnt: "\<And>q m. count_list (successors (so_info s) q) m = count_list (preds g m) q"
    and out: "\<And>m. m \<in> set (dict_keys g) \<Longrightarrow> m \<in> out \<union> fin \<longleftrightarrow> set (preds g m) \<subseteq> fin"
    and np: "\<And>m. m \<in> set (dict_keys g) \<Longrightarrow> npred (so_info s) m =
      (if m \<in> fin then -2 else if m \<in> out then -1 else int (length (filter (\<lambda>p. p \<notin> fin) (preds g m))))"
    using ok unfolding sorter_ok_def by blast+
  have ng: "n \<in> set (dict_keys g)" "n \<notin> fin" using n k by blast+
  let ?succs = "successors (so_info s) n"
  obtain c where c: "map_of (so_info s) n = Some (c, ?succs)" "c = -1"
  proof -
    obtain v where v: "map_of (so_info s) n = Some v" using ng k(2) by (metis map_of_eq_None_iff not_None_eq list.set_map)
    with np [OF ng(1)] n ng(2) that [of "fst v"] show ?thesis by (cases v) (simp add: npred_def successors_def)
  qed
  let ?info = "AList.update n (-2, ?succs) (so_info s)"
  have v: "npred ?info m = (if m = n then -2 else npred (so_info s) m)" "successors ?info = successors (so_info s)"
    "set (dict_keys ?info) = set (dict_keys g)" for m
    using c dict_keys_update_present [OF c(1)] k(2) by (auto simp: npred_def successors_def update_conv' fun_eq_iff)
  have succ: "m \<in> set ?succs \<longleftrightarrow> n \<in> set (preds g m)" for m
    using cnt [of n m] by (metis count_list_0_iff)
  have keys: "m \<in> set (dict_keys g)" if "n \<in> set (preds g m)" for m
  proof (cases "map_of g m")
    case (Some ps)
    from imageI [OF map_of_SomeD [OF this], of fst] show ?thesis by simp
  qed (use that in \<open>simp add: preds_def\<close>)
  have waiting: "m \<notin> out \<union> fin" if "n \<in> set (preds g m)" for m
    using out [OF keys [OF that]] that ng(2) by blast
  have count_le: "count_list xs n \<le> length (filter (\<lambda>p. p \<notin> fin) xs)" for xs
    using ng(2) by (induction xs) auto
  have count_rest: "length (filter (\<lambda>p. p \<notin> insert n fin) xs) + count_list xs n = length (filter (\<lambda>p. p \<notin> fin) xs)" for xs
    using ng(2) by (induction xs) auto
  have pre: "\<forall>m \<in> set ?succs. m \<in> set (dict_keys ?info) \<and> int (count_list ?succs m) \<le> npred ?info m"
  proof
    fix m assume "m \<in> set ?succs"
    then have m: "n \<in> set (preds g m)" by (simp add: succ)
    with loop have "m \<noteq> n" by blast
    with np [OF keys [OF m]] waiting [OF m] count_le [of "preds g m"] keys [OF m]
    show "m \<in> set (dict_keys ?info) \<and> int (count_list ?succs m) \<le> npred ?info m" unfolding v cnt by simp
  qed
  obtain info ready where run: "release_successors ?succs ?info [] = (info, ready)" by fastforce
  from release_successors_view [OF pre, of "[]", unfolded run prod.case v(2)]
  have r: "set (dict_keys info) = set (dict_keys g)" "successors info = successors (so_info s)"
    "\<And>m. npred info m = npred ?info m - int (count_list ?succs m)" "distinct ready"
    "set ready = {m \<in> set ?succs. npred ?info m = int (count_list ?succs m)}"
    unfolding v(3) [symmetric] by (auto simp del: set_map)
  have d: "sorter_done n s = Some \<lparr>so_info = info, so_ready = ready\<rparr>"
    using c run k(1) by (simp add: sorter_done_def)
  have none: "count_list (preds g m) n = 0" if "m \<in> out \<union> fin" for m
    using waiting [of m] that by (auto simp: count_list_0_iff)
  have np1: "npred info m = (if m \<in> insert n fin then -2 else if m \<in> out then -1
      else int (length (filter (\<lambda>p. p \<notin> insert n fin) (preds g m))))" if "m \<in> set (dict_keys g)" for m
    using np [OF that] none [of m] none [of n] n ng count_rest [of "preds g m"] unfolding r(3) v(1) cnt by (cases "m = n") auto
  have rest: "length (filter (\<lambda>p. p \<notin> insert n fin) xs) = 0 \<longleftrightarrow> set xs \<subseteq> insert n fin" for xs
    by (auto simp: filter_empty_conv)
  have ready: "m \<in> set ready \<longleftrightarrow> m \<in> set (dict_keys g) - (out \<union> fin) \<and> set (preds g m) \<subseteq> insert n fin" for m
  proof (cases "n \<in> set (preds g m)")
    case True
    note m = keys [OF True] waiting [OF True]
    have e: "r + c = l \<Longrightarrow> int l = int c \<longleftrightarrow> r = 0" for r c l :: nat by auto
    have "m \<noteq> n" using True loop by blast
    then have "m \<in> set ready \<longleftrightarrow> npred (so_info s) m = int (count_list (preds g m) n)"
      unfolding r(5) mem_Collect_eq succ v(1) cnt using True by simp
    also have "\<dots> \<longleftrightarrow> length (filter (\<lambda>p. p \<notin> insert n fin) (preds g m)) = 0"
      unfolding np [OF m(1)] using m(2) e [OF count_rest [of "preds g m"]] by simp
    finally show ?thesis using m unfolding rest by simp
  next
    case False
    then have "m \<notin> set ready" unfolding r(5) succ by blast
    moreover have "\<not> (m \<in> set (dict_keys g) - (out \<union> fin) \<and> set (preds g m) \<subseteq> insert n fin)"
      using out [of m] False by blast
    ultimately show ?thesis by blast
  qed
  have sub: "set (so_ready \<lparr>so_info = info, so_ready = ready\<rparr>) \<subseteq> set (dict_keys (so_info \<lparr>so_info = info, so_ready = ready\<rparr>))"
    using ready r(1) by auto
  note gr = get_ready_view [OF sub, unfolded sorter.simps]
  have set_ready: "set ready = {m \<in> set (dict_keys g) - (out \<union> fin). set (preds g m) \<subseteq> insert n fin}" using ready by blast
  have "sorter_ok g (out - {n} \<union> set ready) (insert n fin) (snd (get_ready \<lparr>so_info = info, so_ready = ready\<rparr>))"
    unfolding sorter_ok_def gr r(1,2)
  proof (intro conjI ballI)
    fix m assume m: "m \<in> set (dict_keys g)"
    show "m \<in> out - {n} \<union> set ready \<union> insert n fin \<longleftrightarrow> set (preds g m) \<subseteq> insert n fin"
      using ready [of m] out [OF m] m n by blast
    show "(if m \<in> set ready then - 1 else npred info m) = (if m \<in> insert n fin then - 2 else if m \<in> out - {n} \<union> set ready then - 1
        else int (length (filter (\<lambda>p. p \<notin> insert n fin) (preds g m))))"
      using ready [of m] np1 [OF m] n by auto
  qed (use cnt ready k n ng in auto)
  with d r(4) set_ready show ?thesis unfolding gr(1) by (intro exI conjI) (assumption | simp only: gr(1))+
qed

section \<open>Preparing detects cycles\<close>

definition graph_cycle :: "(string \<times> string list) list \<Rightarrow> string list \<Rightarrow> bool" where
  "graph_cycle g c \<longleftrightarrow> 2 \<le> length c \<and> hd c = last c \<and> successively (\<lambda>a b. a \<in> set (preds g b)) c"

lemma new_sorter_successors:
  assumes "graph_closed g"
  shows "m \<in> set (successors (so_info (new_sorter g)) n) \<longleftrightarrow> n \<in> set (preds g m)"
  using new_sorter_view(2) [OF assms, of n m] by (metis count_list_0_iff)

lemma preds_key: "n \<in> set (preds g m) \<Longrightarrow> m \<in> set (dict_keys g)"
proof (cases "map_of g m")
  case (Some ps)
  from imageI [OF map_of_SomeD [OF this], of fst] show ?thesis by simp
qed (simp add: preds_def)

lemma prepare_iff:
  assumes "graph_closed g"
  shows "case prepare (new_sorter g) of Inl c \<Rightarrow> graph_cycle g c | Inr s \<Rightarrow> \<nexists>c. graph_cycle g c"
proof -
  have cyc: "is_cycle (so_info (new_sorter g)) c \<longleftrightarrow> graph_cycle g c" for c
    unfolding is_cycle_def graph_cycle_def new_sorter_successors [OF assms] by (rule refl)
  have closed: "closed_info (so_info (new_sorter g))"
    using new_sorter_successors [OF assms] new_sorter_view(3) [OF assms] preds_key unfolding closed_info_def by blast
  show ?thesis
  proof (cases "find_cycle (so_info (new_sorter g))")
    case None
    with find_cycle_None_iff [OF closed] cyc show ?thesis by (simp add: prepare_def)
  next
    case (Some c)
    with find_cycle_result [of "so_info (new_sorter g)"] cyc show ?thesis by (simp add: prepare_def)
  qed
qed

lemma prepare_rank:
  assumes "graph_closed g" "prepare (new_sorter g) = Inr s"
  shows "\<exists>r :: string \<Rightarrow> nat. \<forall>n m. n \<in> set (preds g m) \<longrightarrow> r n < r m"
proof -
  have "find_cycle (so_info (new_sorter g)) = None" using assms(2) by (auto simp: prepare_def split: option.splits)
  with find_cycle_result [of "so_info (new_sorter g)"] obtain ord where
    ord: "finished (so_info (new_sorter g)) ord" "set (dict_keys g) \<subseteq> set ord"
    using new_sorter_view(3) [OF assms(1)] by auto
  have "length ord - rank ord n < length ord - rank ord m" if "n \<in> set (preds g m)" for n m
  proof -
    have "n \<in> set ord" using that graph_closed_preds [OF assms(1)] ord(2) by blast
    from finished_rank [OF ord(1) this, of m] that have "rank ord m < rank ord n" by (simp add: new_sorter_successors [OF assms(1)])
    with rank_le [of ord n] show ?thesis by simp
  qed
  then show ?thesis by (intro exI [of _ "\<lambda>n. length ord - rank ord n"] allI impI)
qed

end
