(* ===== verification/DagEngine.thy ===== *)
theory DagEngine
  imports TopologicalSorter "HOL-Library.Product_Lexorder" "HOL-Library.Multiset"
begin

text \<open>
  Lab 30, \<open>lab_30_dag_engine/contract.py\<close> and \<open>engine.py\<close>: the workflow specification and the engine that
  runs it on a simulated clock.  The attempt plans are a map from task ids to lists.  The heap of running
  attempts is a list sorted by its entries' first three components, which are never equal for two
  entries; a set of children is a list without the order mattering.
\<close>

section \<open>The contract\<close>

datatype attempt_disposition = SUCCESS | RETRY | FAILURE

datatype node_state = PENDING | RUNNING | SUCCEEDED | FAILED | SKIPPED

record relay_node_spec =
  ns_task_id :: string
  ns_title :: string
  ns_depends_on :: "string list"
  ns_max_attempts :: int

record attempt_outcome =
  ao_disposition :: attempt_disposition
  ao_duration :: int
  ao_detail :: string

section \<open>The engine\<close>

record attempt_record =
  at_task_id :: string
  at_attempt :: int
  at_disposition :: attempt_disposition
  at_started_at :: int
  at_finished_at :: int

record node_result =
  nr_task_id :: string
  nr_state :: node_state
  nr_attempts :: int
  nr_last_error :: "string option"

record run_result =
  rr_node_results :: "(string \<times> node_result) list"
  rr_attempts :: "attempt_record list"
  rr_max_parallel_seen :: int
  rr_total_duration :: int

record dag_engine =
  de_nodes :: "(string \<times> relay_node_spec) list"
  de_children :: "(string \<times> string list) list"
  de_max_parallel :: int

type_synonym attempt_plans = "string \<Rightarrow> attempt_outcome list option"

definition lookup :: "('k \<times> 'v) list \<Rightarrow> 'k \<Rightarrow> string \<Rightarrow> exn + 'v" where
  "lookup d k name = (case map_of d k of None \<Rightarrow> Inl (KeyError name) | Some v \<Rightarrow> Inr v)"

definition index_nodes :: "relay_node_spec list \<Rightarrow> (string \<times> relay_node_spec) list" where
  "index_nodes nodes = fold (\<lambda>node. AList.update (ns_task_id node) node) nodes []"

definition engine_graph :: "(string \<times> relay_node_spec) list \<Rightarrow> (string \<times> string list) list" where
  "engine_graph nodes = map (\<lambda>(task, node). (task, ns_depends_on node)) nodes"

definition children_map :: "relay_node_spec list \<Rightarrow> (string \<times> string list) list" where
  "children_map nodes =
     fold (\<lambda>node children. fold (\<lambda>dependency. AList.map_entry dependency (List.insert (ns_task_id node))) (ns_depends_on node) children)
       nodes (fold (\<lambda>node. AList.update (ns_task_id node) []) nodes [])"

definition new_dag_engine :: "relay_node_spec list \<Rightarrow> int \<Rightarrow> exn + dag_engine" where
  "new_dag_engine nodes max_parallel =
     (if max_parallel < 1 then Inl (InvalidParallelismError ''max_parallel must be positive'')
      else let indexed = index_nodes nodes in
        if length indexed \<noteq> length nodes then Inl (DuplicateNodeError ''task ids must be unique'')
        else let missing = sort [dependency. node \<leftarrow> nodes, dependency \<leftarrow> ns_depends_on node, dependency \<notin> set (dict_keys indexed)]
          in if missing \<noteq> [] then Inl (MissingDependencyError (join '', '' missing))
             else Inr \<lparr>de_nodes = indexed, de_children = children_map nodes, de_max_parallel = max_parallel\<rparr>)"

definition prepared_sorter :: "dag_engine \<Rightarrow> exn + sorter" where
  "prepared_sorter e =
     (case prepare (new_sorter (engine_graph (de_nodes e))) of
        Inl cycle \<Rightarrow> Inl (CycleDetectedError cycle)
      | Inr s \<Rightarrow> Inr s)"

definition validate :: "dag_engine \<Rightarrow> exn + unit" where
  "validate e = (case prepared_sorter e of Inl er \<Rightarrow> Inl er | Inr s \<Rightarrow> Inr ())"

definition planned_outcome :: "string \<Rightarrow> int \<Rightarrow> attempt_plans \<Rightarrow> exn + attempt_outcome" where
  "planned_outcome task attempt_number plans =
     (case plans task of
        None \<Rightarrow> Inr \<lparr>ao_disposition = SUCCESS, ao_duration = 1, ao_detail = []\<rparr>
      | Some plan \<Rightarrow>
          if attempt_number - 1 \<ge> int (length plan) then Inl (AttemptPlanExhaustedError task)
          else Inr (plan ! nat (attempt_number - 1)))"

text \<open>An entry of the heap: the tuple (finished_at, task_id, attempt_number, outcome, started_at).\<close>

record running_attempt =
  ra_finished_at :: int
  ra_task_id :: string
  ra_attempt :: int
  ra_outcome :: attempt_outcome
  ra_started_at :: int

definition heap_key :: "running_attempt \<Rightarrow> int \<times> string \<times> int" where
  "heap_key r = (ra_finished_at r, ra_task_id r, ra_attempt r)"

record dag_run =
  dr_sorter :: sorter
  dr_ready :: "string list"
  dr_time :: int
  dr_running :: "running_attempt list"
  dr_counts :: "(string \<times> int) list"
  dr_results :: "(string \<times> node_result) list"
  dr_records :: "attempt_record list"
  dr_max_seen :: int

text \<open>The first inner loop: start what is ready while a worker is free.\<close>

definition start_task :: "attempt_plans \<Rightarrow> string \<Rightarrow> dag_run \<Rightarrow> exn + dag_run" where
  "start_task plans task r =
     (case lookup (dr_counts r) task task of
        Inl er \<Rightarrow> Inl er
      | Inr made \<Rightarrow>
          (case planned_outcome task (made + 1) plans of
             Inl er \<Rightarrow> Inl er
           | Inr outcome \<Rightarrow>
               let running = insort_key heap_key \<lparr>ra_finished_at = dr_time r + ao_duration outcome, ra_task_id = task,
                     ra_attempt = made + 1, ra_outcome = outcome, ra_started_at = dr_time r\<rparr> (dr_running r)
               in Inr (r\<lparr>dr_counts := AList.update task (made + 1) (dr_counts r),
                    dr_results := AList.update task \<lparr>nr_task_id = task, nr_state = RUNNING, nr_attempts = made + 1, nr_last_error = None\<rparr> (dr_results r),
                    dr_running := running, dr_max_seen := max (dr_max_seen r) (int (length running))\<rparr>)))"

fun start_ready :: "dag_engine \<Rightarrow> attempt_plans \<Rightarrow> string list \<Rightarrow> dag_run \<Rightarrow> exn + dag_run" where
  "start_ready e plans [] r = Inr (r\<lparr>dr_ready := []\<rparr>)"
| "start_ready e plans (task # ready) r =
     (if int (length (dr_running r)) < de_max_parallel e
      then case start_task plans task r of Inl er \<Rightarrow> Inl er | Inr r' \<Rightarrow> start_ready e plans ready r'
      else Inr (r\<lparr>dr_ready := task # ready\<rparr>))"

text \<open>The loop over the completed attempts.\<close>

definition finish_attempt :: "dag_engine \<Rightarrow> running_attempt \<Rightarrow> dag_run \<Rightarrow> exn + dag_run" where
  "finish_attempt e a r0 =
     (let task = ra_task_id a; outcome = ra_outcome a;
          r = r0\<lparr>dr_records := dr_records r0 @ [\<lparr>at_task_id = task, at_attempt = ra_attempt a, at_disposition = ao_disposition outcome,
            at_started_at = ra_started_at a, at_finished_at = ra_finished_at a\<rparr>]\<rparr>;
          set_result = (\<lambda>state err. AList.update task \<lparr>nr_task_id = task, nr_state = state, nr_attempts = ra_attempt a, nr_last_error = err\<rparr> (dr_results r))
      in case lookup (de_nodes e) task task of
           Inl er \<Rightarrow> Inl er
         | Inr node \<Rightarrow>
             if ao_disposition outcome = SUCCESS then
               (case sorter_done task (dr_sorter r) of
                  None \<Rightarrow> Inl (ValueError task)
                | Some s \<Rightarrow>
                    let (ready, s') = get_ready s
                    in Inr (r\<lparr>dr_results := set_result SUCCEEDED None, dr_sorter := s', dr_ready := sort (dr_ready r @ ready)\<rparr>))
             else if ao_disposition outcome = RETRY \<and> ra_attempt a < ns_max_attempts node then
               Inr (r\<lparr>dr_results := set_result PENDING (Some (ao_detail outcome)), dr_ready := sort (dr_ready r @ [task])\<rparr>)
             else Inr (r\<lparr>dr_results := set_result FAILED (Some (if ao_detail outcome \<noteq> [] then ao_detail outcome else ''task failed''))\<rparr>))"

fun finish_attempts :: "dag_engine \<Rightarrow> running_attempt list \<Rightarrow> dag_run \<Rightarrow> exn + dag_run" where
  "finish_attempts e [] r = Inr r"
| "finish_attempts e (a # as) r = (case finish_attempt e a r of Inl er \<Rightarrow> Inl er | Inr r' \<Rightarrow> finish_attempts e as r')"

text \<open>The main loop; None when it does not end.\<close>

partial_function (option) run_loop :: "dag_engine \<Rightarrow> attempt_plans \<Rightarrow> dag_run \<Rightarrow> (exn + dag_run) option" where
  "run_loop e plans r =
     (if dr_ready r = [] \<and> dr_running r = [] then Some (Inr r)
      else case start_ready e plans (dr_ready r) r of
             Inl er \<Rightarrow> Some (Inl er)
           | Inr r1 \<Rightarrow>
               (case dr_running r1 of
                  [] \<Rightarrow> Some (Inr r1)
                | first # others \<Rightarrow>
                    let now = ra_finished_at first;
                        completed = takeWhile (\<lambda>a. ra_finished_at a = now) (dr_running r1);
                        r2 = r1\<lparr>dr_time := now, dr_running := dropWhile (\<lambda>a. ra_finished_at a = now) (dr_running r1)\<rparr>
                    in case finish_attempts e (sort_key ra_task_id completed) r2 of
                         Inl er \<Rightarrow> Some (Inl er)
                       | Inr r3 \<Rightarrow> run_loop e plans r3))"

declare run_loop.simps [code]

section \<open>Skipping\<close>

function descendants_loop :: "(string \<times> string list) list \<Rightarrow> string list \<Rightarrow> string set \<Rightarrow> exn + string set" where
  "descendants_loop children stack seen =
     (if stack = [] then Inr seen
      else let current = last stack; stack' = butlast stack in
        if current \<in> seen then descendants_loop children stack' seen
        else case map_of children current of
               None \<Rightarrow> Inl (KeyError current)
             | Some cs \<Rightarrow> descendants_loop children (stack' @ cs) (insert current seen))"
  by pat_completeness auto

termination
proof (relation "measures [\<lambda>(children, stack, seen). card (set (dict_keys children) - seen), \<lambda>(children, stack, seen). length stack]", goal_cases)
  case (3 children stack seen current stack' cs)
  then have "current \<in> set (dict_keys children)" by (metis map_of_eq_None_iff option.distinct(1) list.set_map)
  with 3 have "set (dict_keys children) - insert current seen \<subset> set (dict_keys children) - seen" by blast
  then have "card (set (dict_keys children) - insert current seen) < card (set (dict_keys children) - seen)"
    by (intro psubset_card_mono) auto
  then show ?case by simp
qed auto

definition descendants :: "string \<Rightarrow> (string \<times> string list) list \<Rightarrow> exn + string set" where
  "descendants task children =
     (case lookup children task task of Inl er \<Rightarrow> Inl er | Inr cs \<Rightarrow> descendants_loop children cs {})"

fun skipped_of :: "(string \<times> string list) list \<Rightarrow> string list \<Rightarrow> exn + string set" where
  "skipped_of children [] = Inr {}"
| "skipped_of children (task # failed) =
     (case descendants task children of
        Inl er \<Rightarrow> Inl er
      | Inr ds \<Rightarrow> (case skipped_of children failed of Inl er \<Rightarrow> Inl er | Inr rest \<Rightarrow> Inr (ds \<union> rest)))"

fun mark_skipped :: "string list \<Rightarrow> (string \<times> node_result) list \<Rightarrow> exn + (string \<times> node_result) list" where
  "mark_skipped [] results = Inr results"
| "mark_skipped (task # tasks) results =
     (case lookup results task task of
        Inl er \<Rightarrow> Inl er
      | Inr res \<Rightarrow> mark_skipped tasks
          (if nr_state res = PENDING
           then AList.update task \<lparr>nr_task_id = task, nr_state = SKIPPED, nr_attempts = 0, nr_last_error = None\<rparr> results
           else results))"

definition finish_run :: "dag_engine \<Rightarrow> dag_run \<Rightarrow> exn + run_result" where
  "finish_run e r =
     (let failed = [task. (task, res) \<leftarrow> dr_results r, nr_state res = FAILED] in
      case skipped_of (de_children e) failed of
        Inl er \<Rightarrow> Inl er
      | Inr skipped \<Rightarrow>
          (case mark_skipped (sorted_list_of_set skipped) (dr_results r) of
             Inl er \<Rightarrow> Inl er
           | Inr results \<Rightarrow> Inr \<lparr>rr_node_results = results, rr_attempts = dr_records r, rr_max_parallel_seen = dr_max_seen r,
               rr_total_duration = dr_time r\<rparr>))"

definition new_run :: "dag_engine \<Rightarrow> sorter \<Rightarrow> dag_run" where
  "new_run e s0 =
     (let (ready, s) = get_ready s0
      in \<lparr>dr_sorter = s, dr_ready = sort ready, dr_time = 0, dr_running = [],
          dr_counts = map (\<lambda>task. (task, 0)) (dict_keys (de_nodes e)),
          dr_results = map (\<lambda>task. (task, \<lparr>nr_task_id = task, nr_state = PENDING, nr_attempts = 0, nr_last_error = None\<rparr>)) (dict_keys (de_nodes e)),
          dr_records = [], dr_max_seen = 0\<rparr>)"

definition run_engine :: "attempt_plans \<Rightarrow> dag_engine \<Rightarrow> (exn + run_result) option" where
  "run_engine plans e =
     (case validate e of
        Inl er \<Rightarrow> Some (Inl er)
      | Inr u \<Rightarrow>
          (case prepared_sorter e of
             Inl er \<Rightarrow> Some (Inl er)
           | Inr s \<Rightarrow>
               (case run_loop e plans (new_run e s) of
                  None \<Rightarrow> None
                | Some (Inl er) \<Rightarrow> Some (Inl er)
                | Some (Inr r) \<Rightarrow> Some (finish_run e r))))"

definition build_relay_workflow :: "relay_node_spec list" where
  "build_relay_workflow =
     [\<lparr>ns_task_id = ''discover-pending-tasks'', ns_title = ''Discover pending relay tasks'', ns_depends_on = [], ns_max_attempts = 1\<rparr>,
      \<lparr>ns_task_id = ''hydrate-task-context'', ns_title = ''Hydrate relay task context'', ns_depends_on = [''discover-pending-tasks''], ns_max_attempts = 1\<rparr>,
      \<lparr>ns_task_id = ''run-relay-task'', ns_title = ''Run relay task handler'', ns_depends_on = [''hydrate-task-context''], ns_max_attempts = 2\<rparr>,
      \<lparr>ns_task_id = ''persist-task-status'', ns_title = ''Persist relay task status'', ns_depends_on = [''run-relay-task''], ns_max_attempts = 1\<rparr>,
      \<lparr>ns_task_id = ''publish-run-metrics'', ns_title = ''Publish relay run metrics'', ns_depends_on = [''persist-task-status''], ns_max_attempts = 1\<rparr>]"

section \<open>A valid engine\<close>

abbreviation deps :: "dag_engine \<Rightarrow> string \<Rightarrow> string list" where
  "deps e \<equiv> preds (engine_graph (de_nodes e))"

abbreviation task_ids :: "dag_engine \<Rightarrow> string set" where
  "task_ids e \<equiv> set (dict_keys (de_nodes e))"

definition cap :: "dag_engine \<Rightarrow> string \<Rightarrow> int" where
  "cap e task = (case map_of (de_nodes e) task of None \<Rightarrow> 0 | Some node \<Rightarrow> max 1 (ns_max_attempts node))"

definition engine_ok :: "dag_engine \<Rightarrow> bool" where
  "engine_ok e \<longleftrightarrow> 1 \<le> de_max_parallel e \<and> graph_closed (engine_graph (de_nodes e)) \<and>
     dom (map_of (de_children e)) = task_ids e \<and>
     (\<forall>d cs. map_of (de_children e) d = Some cs \<longrightarrow> set cs = {u. d \<in> set (deps e u)})"

lemma engine_graph_keys [simp]: "dict_keys (engine_graph nodes) = dict_keys nodes"
  by (induction nodes) (auto simp: engine_graph_def)

lemma updates_keys: "set (dict_keys (fold (\<lambda>n. AList.update (k n) (f n)) ns d)) = k ` set ns \<union> set (dict_keys d)"
  by (induction ns arbitrary: d) (auto simp: dom_update)

lemma updates_distinct: "distinct (dict_keys d) \<Longrightarrow> distinct (dict_keys (fold (\<lambda>n. AList.update (k n) (f n)) ns d))"
  by (induction ns arbitrary: d) (auto simp: distinct_update)

lemma updates_fresh:
  "distinct (map k ns) \<Longrightarrow> k ` set ns \<inter> set (dict_keys d) = {} \<Longrightarrow>
   fold (\<lambda>n. AList.update (k n) (f n)) ns d = d @ map (\<lambda>n. (k n, f n)) ns"
proof (induction ns arbitrary: d)
  case (Cons n ns)
  then have "AList.update (k n) (f n) d = d @ [(k n, f n)]" by (intro update_fresh) auto
  moreover have "k ` set ns \<inter> set (dict_keys (d @ [(k n, f n)])) = {}" using Cons.prems by auto
  ultimately show ?case using Cons by simp
qed simp

lemma updates_length:
  assumes "length (fold (\<lambda>n. AList.update (k n) (f n)) ns []) = length ns"
  shows "distinct (map k ns)"
proof -
  have "card (set (dict_keys (fold (\<lambda>n. AList.update (k n) (f n)) ns []))) = length ns"
    using updates_distinct [of "[]" k f ns] assms by (metis distinct.simps(1) distinct_card length_map list.map(1))
  then have "card (set (map k ns)) = length (map k ns)" using updates_keys [of k f ns "[]"] by simp
  then show ?thesis by (rule card_distinct)
qed

lemma insert_children:
  "map_of (fold (\<lambda>dependency. AList.map_entry dependency (List.insert u)) ds children) d =
     map_option (\<lambda>cs. if d \<in> set ds then List.insert u cs else cs) (map_of children d)"
  by (induction ds arbitrary: children) (auto simp: map_of_map_entry option.map_comp comp_def fun_upd_def option.map_ident intro!: option.map_cong0)

lemma insert_all_children:
  "map_of children d = Some cs \<Longrightarrow>
   \<exists>cs'. map_of (fold (\<lambda>node children. fold (\<lambda>dependency. AList.map_entry dependency (List.insert (ns_task_id node))) (ns_depends_on node) children)
       nodes children) d = Some cs' \<and> set cs' = set cs \<union> {ns_task_id node |node. node \<in> set nodes \<and> d \<in> set (ns_depends_on node)}"
proof (induction nodes arbitrary: children cs)
  case (Cons node nodes)
  have "map_of (fold (\<lambda>dependency. AList.map_entry dependency (List.insert (ns_task_id node))) (ns_depends_on node) children) d =
      Some (if d \<in> set (ns_depends_on node) then List.insert (ns_task_id node) cs else cs)"
    using Cons.prems by (simp add: insert_children)
  from Cons.IH [OF this] show ?case by auto
qed auto

lemma insert_all_children_None:
  "map_of (fold (\<lambda>node children. fold (\<lambda>dependency. AList.map_entry dependency (List.insert (ns_task_id node))) (ns_depends_on node) children)
       nodes children) d = None \<longleftrightarrow> map_of children d = None"
  by (induction nodes arbitrary: children) (simp_all add: insert_children)

lemma preds_engine_graph: "preds (engine_graph nodes) t = (case map_of nodes t of None \<Rightarrow> [] | Some node \<Rightarrow> ns_depends_on node)"
  by (induction nodes) (auto simp: preds_def engine_graph_def)

lemma sort_empty_iff: "sort xs = [] \<longleftrightarrow> xs = []"
  by (metis set_empty set_sort)

lemma new_dag_engine_ok:
  assumes "new_dag_engine nodes max_parallel = Inr e"
  shows "engine_ok e \<and> de_nodes e = map (\<lambda>node. (ns_task_id node, node)) nodes \<and> de_max_parallel e = max_parallel"
proof -
  have "length (index_nodes nodes) = length nodes" using assms by (auto simp: new_dag_engine_def Let_def split: if_splits)
  then have dist: "distinct (map ns_task_id nodes)" unfolding index_nodes_def by (rule updates_length)
  then have ix: "index_nodes nodes = map (\<lambda>node. (ns_task_id node, node)) nodes"
    unfolding index_nodes_def by (subst updates_fresh) auto
  from assms have e: "e = \<lparr>de_nodes = index_nodes nodes, de_children = children_map nodes, de_max_parallel = max_parallel\<rparr>" "1 \<le> max_parallel"
    and missing: "[dependency. node \<leftarrow> nodes, dependency \<leftarrow> ns_depends_on node, dependency \<notin> set (dict_keys (index_nodes nodes))] = []"
    by (auto simp: new_dag_engine_def Let_def sort_empty_iff split: if_splits)
  have keys: "dict_keys (index_nodes nodes) = map ns_task_id nodes" unfolding ix by simp
  have known: "d \<in> set (dict_keys (index_nodes nodes))" if "node \<in> set nodes" "d \<in> set (ns_depends_on node)" for node d
  proof (rule ccontr)
    assume "d \<notin> set (dict_keys (index_nodes nodes))"
    with that have "d \<in> set [dependency. node \<leftarrow> nodes, dependency \<leftarrow> ns_depends_on node, dependency \<notin> set (dict_keys (index_nodes nodes))]"
      by (auto intro!: bexI [of _ node])
    then show False unfolding missing by simp
  qed
  have closed: "graph_closed (engine_graph (index_nodes nodes))"
    unfolding graph_closed_def engine_graph_keys
  proof (intro conjI ballI, goal_cases)
    case 1
    show ?case using dist unfolding keys .
  next
    case (2 p)
    then obtain node where "node \<in> set nodes" "p = (ns_task_id node, ns_depends_on node)" by (auto simp: engine_graph_def ix)
    with known show ?case by (simp del: set_map) blast
  qed
  have init: "fold (\<lambda>node. AList.update (ns_task_id node) []) nodes [] = map (\<lambda>node. (ns_task_id node, [])) nodes"
    using dist by (subst updates_fresh) auto
  have deps: "d \<in> set (preds (engine_graph (index_nodes nodes)) u) \<longleftrightarrow> (\<exists>node \<in> set nodes. ns_task_id node = u \<and> d \<in> set (ns_depends_on node))" for d u
  proof -
    have look: "map_of (index_nodes nodes) u = Some node \<longleftrightarrow> node \<in> set nodes \<and> ns_task_id node = u" for node
      using dist unfolding ix by (subst map_of_eq_Some_iff) (auto simp: comp_def)
    show ?thesis
    proof (cases "map_of (index_nodes nodes) u")
      case None
      with look show ?thesis unfolding preds_engine_graph by auto
    next
      case (Some node)
      then have "n = node" if "n \<in> set nodes" "ns_task_id n = u" for n using look [of n] that by simp
      moreover have "node \<in> set nodes" "ns_task_id node = u" using look Some by blast+
      ultimately show ?thesis unfolding preds_engine_graph Some option.case by blast
    qed
  qed
  have "set cs = {u. d \<in> set (preds (engine_graph (index_nodes nodes)) u)}" if "map_of (children_map nodes) d = Some cs" for d cs
  proof -
    have "map_of (map (\<lambda>node. (ns_task_id node, [] :: string list)) nodes) d \<noteq> None"
      using that insert_all_children_None [of nodes "map (\<lambda>node. (ns_task_id node, [])) nodes" d] unfolding children_map_def init by (metis option.distinct(1))
    then obtain cs0 where cs0: "map_of (map (\<lambda>node. (ns_task_id node, [] :: string list)) nodes) d = Some cs0" by blast
    from map_of_SomeD [OF this] have "cs0 = []" by auto
    with insert_all_children [OF cs0, of nodes] that show ?thesis unfolding children_map_def init deps by auto
  qed
  moreover have "dom (map_of (children_map nodes)) = set (map ns_task_id nodes)"
    unfolding children_map_def init dom_def insert_all_children_None by (force simp: map_of_eq_None_iff comp_def)
  ultimately show ?thesis using closed e keys ix by (simp add: engine_ok_def)
qed

section \<open>The states of the tasks and the sorter\<close>

text \<open>
  \<open>states\<close> gives the state of every task; \<open>ready\<close> waits for a worker, \<open>tasks\<close> is in progress.  What the
  sorter has handed out is ready, in progress or failed.
\<close>

definition in_state :: "(string \<Rightarrow> node_state option) \<Rightarrow> node_state \<Rightarrow> string set" where
  "in_state states st = {task. states task = Some st}"

definition states_ok :: "dag_engine \<Rightarrow> string list \<Rightarrow> string list \<Rightarrow> (string \<Rightarrow> node_state option) \<Rightarrow> sorter \<Rightarrow> bool" where
  "states_ok e ready tasks states s \<longleftrightarrow>
     dom states = task_ids e \<and> distinct ready \<and> distinct tasks \<and> set ready \<subseteq> in_state states PENDING \<and>
     set tasks = in_state states RUNNING \<and> in_state states SKIPPED = {} \<and>
     sorter_ok (engine_graph (de_nodes e)) (set ready \<union> set tasks \<union> in_state states FAILED) (in_state states SUCCEEDED) s"

lemma in_state_update: "in_state (states(t \<mapsto> x)) y = (if x = y then insert t (in_state states y) else in_state states y - {t})"
  by (auto simp: in_state_def)

lemma in_state_disjoint: "x \<noteq> y \<Longrightarrow> in_state states x \<inter> in_state states y = {}"
  by (auto simp: in_state_def)

lemma in_state_cases: "dom states = N \<Longrightarrow> t \<in> N \<Longrightarrow> \<exists>x. t \<in> in_state states x"
  by (auto simp: in_state_def)

lemma states_ok_set:
  assumes "states_ok e ready tasks states s" "distinct ready'" "distinct tasks'" "set ready' = set ready" "set tasks' = set tasks"
  shows "states_ok e ready' tasks' states s"
  using assms(1-3) unfolding states_ok_def assms(4,5) by blast

lemma states_ok_sorter:
  "states_ok e ready tasks states s \<Longrightarrow>
   sorter_ok (engine_graph (de_nodes e)) (set ready \<union> set tasks \<union> in_state states FAILED) (in_state states SUCCEEDED) s"
  unfolding states_ok_def by blast

lemma states_start:
  assumes "states_ok e (t # ready) tasks states s"
  shows "states_ok e ready (t # tasks) (states(t \<mapsto> RUNNING)) s"
proof -
  have t: "t \<in> in_state states PENDING" "set ready \<subseteq> in_state states PENDING" "t \<notin> set ready" "set tasks = in_state states RUNNING"
    "in_state states SKIPPED = {}" "distinct ready" "distinct tasks" "dom states = task_ids e"
    using assms by (auto simp: states_ok_def)
  note s = states_ok_sorter [OF assms]
  have other: "t \<notin> in_state states x" if "x \<noteq> PENDING" for x using t(1) that in_state_disjoint [of x PENDING states] by blast
  have "set (t # ready) \<union> set tasks \<union> in_state states FAILED = set ready \<union> set (t # tasks) \<union> in_state (states(t \<mapsto> RUNNING)) FAILED"
    "in_state states SUCCEEDED = in_state (states(t \<mapsto> RUNNING)) SUCCEEDED"
    using other by (auto simp: in_state_update)
  with s t other [of RUNNING] show ?thesis
    unfolding states_ok_def in_state_update by (auto simp: in_state_def)
qed

lemma states_okD:
  assumes "states_ok e ready (t # tasks) states s"
  shows "t \<in> in_state states RUNNING" "set ready \<subseteq> in_state states PENDING" "t \<notin> set tasks" "insert t (set tasks) = in_state states RUNNING"
    "in_state states SKIPPED = {}" "distinct ready" "distinct tasks" "dom states = task_ids e"
  using assms by (auto simp: states_ok_def)

lemma states_retry:
  assumes "states_ok e ready (t # tasks) states s"
  shows "states_ok e (ready @ [t]) tasks (states(t \<mapsto> PENDING)) s"
proof -
  note t = states_okD [OF assms] and s = states_ok_sorter [OF assms]
  have other: "t \<notin> in_state states x" if "x \<noteq> RUNNING" for x using t(1) that in_state_disjoint [of x RUNNING states] by blast
  have "set ready \<union> set (t # tasks) \<union> in_state states FAILED = set (ready @ [t]) \<union> set tasks \<union> in_state (states(t \<mapsto> PENDING)) FAILED"
    "in_state states SUCCEEDED = in_state (states(t \<mapsto> PENDING)) SUCCEEDED"
    using other by (auto simp: in_state_update)
  with s t other [of PENDING] show ?thesis
    unfolding states_ok_def in_state_update by (auto simp: in_state_def)
qed

lemma states_fail:
  assumes "states_ok e ready (t # tasks) states s"
  shows "states_ok e ready tasks (states(t \<mapsto> FAILED)) s"
proof -
  note t = states_okD [OF assms] and s = states_ok_sorter [OF assms]
  have other: "t \<notin> in_state states x" if "x \<noteq> RUNNING" for x using t(1) that in_state_disjoint [of x RUNNING states] by blast
  have "set ready \<union> set (t # tasks) \<union> in_state states FAILED = set ready \<union> set tasks \<union> in_state (states(t \<mapsto> FAILED)) FAILED"
    "in_state states SUCCEEDED = in_state (states(t \<mapsto> FAILED)) SUCCEEDED"
    using other by (auto simp: in_state_update)
  with s t other [of PENDING] show ?thesis
    unfolding states_ok_def in_state_update by (auto simp: in_state_def)
qed

lemma states_done:
  assumes "states_ok e ready (t # tasks) states s" and loop: "t \<notin> set (deps e t)"
  shows "\<exists>s1. sorter_done t s = Some s1 \<and>
    states_ok e (ready @ fst (get_ready s1)) tasks (states(t \<mapsto> SUCCEEDED)) (snd (get_ready s1)) \<and>
    set (fst (get_ready s1)) \<inter> (set ready \<union> set (t # tasks) \<union> in_state states FAILED \<union> in_state states SUCCEEDED) = {}"
proof -
  note t = states_okD [OF assms(1)] and s = states_ok_sorter [OF assms(1)]
  have other: "t \<notin> in_state states x" if "x \<noteq> RUNNING" for x using t(1) that in_state_disjoint [of x RUNNING states] by blast
  have "t \<in> set ready \<union> set (t # tasks) \<union> in_state states FAILED" by simp
  from sorter_done_ok [OF s this loop, unfolded engine_graph_keys] obtain s1 where s1: "sorter_done t s = Some s1" "distinct (fst (get_ready s1))"
    "set (fst (get_ready s1)) = {m \<in> task_ids e - (set ready \<union> set (t # tasks) \<union> in_state states FAILED \<union> in_state states SUCCEEDED).
       set (deps e m) \<subseteq> insert t (in_state states SUCCEEDED)}"
    "sorter_ok (engine_graph (de_nodes e)) (set ready \<union> set (t # tasks) \<union> in_state states FAILED - {t} \<union> set (fst (get_ready s1)))
       (insert t (in_state states SUCCEEDED)) (snd (get_ready s1))"
    by blast
  have fresh: "set (fst (get_ready s1)) \<inter> (set ready \<union> set (t # tasks) \<union> in_state states FAILED \<union> in_state states SUCCEEDED) = {}"
    unfolding s1(3) by blast
  have pending: "set (fst (get_ready s1)) \<subseteq> in_state states PENDING"
  proof
    fix m assume m: "m \<in> set (fst (get_ready s1))"
    then have "m \<in> task_ids e" unfolding s1(3) by blast
    from in_state_cases [OF t(8) this] obtain x where x: "m \<in> in_state states x" by blast
    with m fresh t(4,5) show "m \<in> in_state states PENDING" by (cases x) auto
  qed
  have "set ready \<union> set (t # tasks) \<union> in_state states FAILED - {t} \<union> set (fst (get_ready s1)) =
      set (ready @ fst (get_ready s1)) \<union> set tasks \<union> in_state (states(t \<mapsto> SUCCEEDED)) FAILED"
    using other t(2,3) by (auto simp: in_state_update)
  moreover have "insert t (in_state states SUCCEEDED) = in_state (states(t \<mapsto> SUCCEEDED)) SUCCEEDED" by (simp add: in_state_update)
  ultimately have s': "sorter_ok (engine_graph (de_nodes e)) (set (ready @ fst (get_ready s1)) \<union> set tasks \<union> in_state (states(t \<mapsto> SUCCEEDED)) FAILED)
      (in_state (states(t \<mapsto> SUCCEEDED)) SUCCEEDED) (snd (get_ready s1))"
    using s1(4) by simp
  have "states_ok e (ready @ fst (get_ready s1)) tasks (states(t \<mapsto> SUCCEEDED)) (snd (get_ready s1))"
    unfolding states_ok_def
  proof (intro conjI)
    show "distinct (ready @ fst (get_ready s1))" using t(6) s1(2) fresh by auto
    show "set (ready @ fst (get_ready s1)) \<subseteq> in_state (states(t \<mapsto> SUCCEEDED)) PENDING"
      using t(2) pending other [of PENDING] by (auto simp: in_state_update)
    show "dom (states(t \<mapsto> SUCCEEDED)) = task_ids e" using t(1,8) by (auto simp: in_state_def)
  qed (use t(3-5,7) s' in \<open>auto simp: in_state_update\<close>)
  with s1(1) fresh show ?thesis by blast
qed

section \<open>The invariant of a run\<close>

definition state_map :: "(string \<times> node_result) list \<Rightarrow> string \<Rightarrow> node_state option" where
  "state_map results task = map_option nr_state (map_of results task)"

definition attempts_of :: "attempt_record list \<Rightarrow> string \<Rightarrow> int" where
  "attempts_of records task = int (length (filter (\<lambda>a. at_task_id a = task) records))"

definition succeeded_in :: "attempt_record list \<Rightarrow> string set" where
  "succeeded_in records = at_task_id ` {a \<in> set records. at_disposition a = SUCCESS}"

text \<open>Every attempt was made when all dependencies of its task had succeeded.\<close>

definition history_ok :: "dag_engine \<Rightarrow> attempt_record list \<Rightarrow> bool" where
  "history_ok e records \<longleftrightarrow> (\<forall>pre a post. records = pre @ a # post \<longrightarrow> set (deps e (at_task_id a)) \<subseteq> succeeded_in pre)"

definition count_ok :: "dag_engine \<Rightarrow> string list \<Rightarrow> string list \<Rightarrow> (string \<Rightarrow> node_state option) \<Rightarrow> attempt_record list \<Rightarrow> string \<Rightarrow> int \<Rightarrow> bool" where
  "count_ok e ready tasks states records t c \<longleftrightarrow>
     0 \<le> c \<and> c \<le> cap e t \<and> attempts_of records t + (if t \<in> set tasks then 1 else 0) = c \<and> (t \<in> set ready \<longrightarrow> c < cap e t) \<and>
     (t \<notin> set ready \<union> set tasks \<union> in_state states FAILED \<union> in_state states SUCCEEDED \<longrightarrow> c = 0)"

definition run_ok :: "dag_engine \<Rightarrow> string list \<Rightarrow> running_attempt list \<Rightarrow> dag_run \<Rightarrow> bool" where
  "run_ok e ready pend r \<longleftrightarrow>
     states_ok e ready (map ra_task_id (pend @ dr_running r)) (state_map (dr_results r)) (dr_sorter r) \<and>
     dom (map_of (dr_counts r)) = task_ids e \<and>
     (\<forall>t c. map_of (dr_counts r) t = Some c \<longrightarrow>
        count_ok e ready (map ra_task_id (pend @ dr_running r)) (state_map (dr_results r)) (dr_records r) t c) \<and>
     (\<forall>a \<in> set (pend @ dr_running r). map_of (dr_counts r) (ra_task_id a) = Some (ra_attempt a)) \<and>
     int (length (dr_running r)) \<le> de_max_parallel e \<and> dr_max_seen r \<le> de_max_parallel e \<and>
     succeeded_in (dr_records r) = in_state (state_map (dr_results r)) SUCCEEDED \<and> history_ok e (dr_records r) \<and>
     distinct (dict_keys (dr_results r))"

lemma state_map_update: "state_map (AList.update t res results) = (state_map results)(t \<mapsto> nr_state res)"
  by (auto simp: state_map_def update_conv' fun_eq_iff)

lemma succeeded_in_snoc:
  "succeeded_in (records @ [a]) = succeeded_in records \<union> (if at_disposition a = SUCCESS then {at_task_id a} else {})"
  by (auto simp: succeeded_in_def)

lemma history_snoc: "history_ok e records \<Longrightarrow> set (deps e (at_task_id a)) \<subseteq> succeeded_in records \<Longrightarrow> history_ok e (records @ [a])"
  unfolding history_ok_def by (auto simp: append_eq_append_conv2 append_eq_Cons_conv Cons_eq_append_conv)

definition plan_short :: "dag_engine \<Rightarrow> attempt_plans \<Rightarrow> exn \<Rightarrow> bool" where
  "plan_short e plans er \<longleftrightarrow> (\<exists>t plan. er = AttemptPlanExhaustedError t \<and> t \<in> task_ids e \<and> plans t = Some plan \<and> int (length plan) < cap e t)"

definition run_measure :: "dag_engine \<Rightarrow> dag_run \<Rightarrow> nat" where
  "run_measure e r = (\<Sum>t \<in> task_ids e. 2 * nat (cap e t - (case map_of (dr_counts r) t of None \<Rightarrow> 0 | Some c \<Rightarrow> c))) + length (dr_running r)"

lemma distinct_map_insort: "distinct (map f (insort_key k x xs)) \<longleftrightarrow> f x \<notin> f ` set xs \<and> distinct (map f xs)"
  by (induction xs) (auto simp: set_insort_key)

lemma start_task_ok:
  assumes ok: "run_ok e (t # ready) [] r" and free: "int (length (dr_running r)) < de_max_parallel e"
  shows "case start_task plans t r of
      Inl er \<Rightarrow> plan_short e plans er
    | Inr r' \<Rightarrow> run_ok e ready [] r' \<and> run_measure e r' < run_measure e r \<and> dr_running r' \<noteq> []"
proof -
  let ?tasks = "map ra_task_id (dr_running r)"
  have st: "states_ok e (t # ready) ?tasks (state_map (dr_results r)) (dr_sorter r)"
    and dom: "dom (map_of (dr_counts r)) = task_ids e"
    and cnt: "\<And>u c. map_of (dr_counts r) u = Some c \<Longrightarrow> count_ok e (t # ready) ?tasks (state_map (dr_results r)) (dr_records r) u c"
    and items: "\<And>a. a \<in> set (dr_running r) \<Longrightarrow> map_of (dr_counts r) (ra_task_id a) = Some (ra_attempt a)"
    and rest: "dr_max_seen r \<le> de_max_parallel e" "succeeded_in (dr_records r) = in_state (state_map (dr_results r)) SUCCEEDED" "history_ok e (dr_records r)"
      "distinct (dict_keys (dr_results r))"
    using ok unfolding run_ok_def append_Nil by blast+
  have t: "t \<in> in_state (state_map (dr_results r)) PENDING" "t \<notin> set ready" "set ?tasks = in_state (state_map (dr_results r)) RUNNING"
    "dom (state_map (dr_results r)) = task_ids e" using st by (auto simp: states_ok_def)
  then have tN: "t \<in> task_ids e" by (auto simp: in_state_def)
  with dom obtain c where c: "map_of (dr_counts r) t = Some c" by blast
  note tc = cnt [OF c, unfolded count_ok_def]
  have not_task: "t \<notin> set ?tasks" unfolding t(3) using t(1) by (auto simp: in_state_def)
  have c_cap: "0 \<le> c" "c < cap e t" using tc by auto
  show ?thesis
  proof (cases "planned_outcome t (c + 1) plans")
    case (Inl er)
    then have "plan_short e plans er"
      using c_cap tN unfolding plan_short_def planned_outcome_def by (auto split: option.splits if_splits simp del: set_map)
    with c Inl show ?thesis by (simp add: start_task_def lookup_def)
  next
    case (Inr outcome)
    let ?a = "\<lparr>ra_finished_at = dr_time r + ao_duration outcome, ra_task_id = t, ra_attempt = c + 1, ra_outcome = outcome, ra_started_at = dr_time r\<rparr>"
    let ?res = "\<lparr>nr_task_id = t, nr_state = RUNNING, nr_attempts = c + 1, nr_last_error = None\<rparr>"
    let ?running = "insort_key heap_key ?a (dr_running r)"
    let ?r = "r\<lparr>dr_counts := AList.update t (c + 1) (dr_counts r), dr_results := AList.update t ?res (dr_results r), dr_running := ?running,
        dr_max_seen := max (dr_max_seen r) (int (length ?running))\<rparr>"
    have run: "start_task plans t r = Inr ?r" using c Inr by (simp add: start_task_def lookup_def)
    let ?states = "(state_map (dr_results r))(t \<mapsto> RUNNING)"
    have states: "state_map (dr_results ?r) = ?states" by (simp add: state_map_update)
    have tasks: "set (map ra_task_id ?running) = insert t (set ?tasks)" by (simp add: set_insort_key)
    have "distinct ?tasks" using st by (simp add: states_ok_def)
    then have dt: "distinct (map ra_task_id ?running)"
      using not_task by (simp add: distinct_map_insort)
    have "states_ok e ready (t # ?tasks) ?states (dr_sorter r)" by (rule states_start [OF st])
    then have st': "states_ok e ready (map ra_task_id ?running) ?states (dr_sorter r)"
      by (rule states_ok_set) (use dt tasks st in \<open>auto simp: states_ok_def\<close>)
    have cnt': "count_ok e ready (map ra_task_id ?running) ?states (dr_records r) u d"
      if "map_of (AList.update t (c + 1) (dr_counts r)) u = Some d" for u d
    proof (cases "u = t")
      case True
      with that have "d = c + 1" by (simp add: update_conv')
      with True tc not_task t(2) c_cap show ?thesis unfolding count_ok_def tasks by simp
    next
      case False
      with that have "map_of (dr_counts r) u = Some d" by (simp add: update_conv')
      from cnt [OF this] False show ?thesis unfolding count_ok_def tasks in_state_update by auto
    qed
    have "run_ok e ready [] ?r"
      unfolding run_ok_def append_Nil
    proof (intro conjI)
      show "states_ok e ready (map ra_task_id (dr_running ?r)) (state_map (dr_results ?r)) (dr_sorter ?r)"
        unfolding states using st' by simp
      show "dom (map_of (dr_counts ?r)) = task_ids e" using dom tN by (auto simp: update_conv')
      show "\<forall>u d. map_of (dr_counts ?r) u = Some d \<longrightarrow> count_ok e ready (map ra_task_id (dr_running ?r)) (state_map (dr_results ?r)) (dr_records ?r) u d"
        unfolding states using cnt' by simp
      show "\<forall>a \<in> set (dr_running ?r). map_of (dr_counts ?r) (ra_task_id a) = Some (ra_attempt a)"
        using items not_task by (auto simp: set_insort_key update_conv')
      show "succeeded_in (dr_records ?r) = in_state (state_map (dr_results ?r)) SUCCEEDED"
        unfolding states in_state_update using rest(2) t(1) by (auto simp: in_state_def)
    qed (use free rest in \<open>auto simp: distinct_update\<close>)
    moreover have "run_measure e ?r < run_measure e r"
    proof -
      let ?f = "\<lambda>counts u. 2 * nat (cap e u - (case map_of counts u of None \<Rightarrow> 0 | Some c \<Rightarrow> c))"
      have "sum (?f (AList.update t (c + 1) (dr_counts r))) (task_ids e - {t}) = sum (?f (dr_counts r)) (task_ids e - {t})"
        by (rule sum.cong) (auto simp: update_conv')
      moreover have "?f (AList.update t (c + 1) (dr_counts r)) t + 2 = ?f (dr_counts r) t"
        using c c_cap by (simp add: update_conv')
      ultimately show ?thesis
        using sum.remove [OF finite_set tN, of "?f (dr_counts r)"] sum.remove [OF finite_set tN, of "?f (AList.update t (c + 1) (dr_counts r))"]
        by (simp add: run_measure_def del: set_map)
    qed
    ultimately show ?thesis unfolding run by (auto simp: insort_not_Nil)
  qed
qed

text \<open>The list of ready tasks is an argument of the invariant, so the state's own list does not matter.\<close>

lemma run_ok_ready [simp]: "run_ok e ready pend (r\<lparr>dr_ready := x\<rparr>) = run_ok e ready pend r"
  by (simp add: run_ok_def)

lemma run_measure_ready [simp]: "run_measure e (r\<lparr>dr_ready := x\<rparr>) = run_measure e r"
  by (simp add: run_measure_def)

lemma start_ready_ok:
  "run_ok e ready [] r \<Longrightarrow> 1 \<le> de_max_parallel e \<Longrightarrow>
   (case start_ready e plans ready r of
      Inl er \<Rightarrow> plan_short e plans er
    | Inr r' \<Rightarrow> run_ok e (dr_ready r') [] r' \<and> run_measure e r' \<le> run_measure e r \<and>
        (ready \<noteq> [] \<or> dr_running r \<noteq> [] \<longrightarrow> dr_running r' \<noteq> []))"
proof (induction ready arbitrary: r)
  case (Cons t ready)
  show ?case
  proof (cases "int (length (dr_running r)) < de_max_parallel e")
    case True
    note s = start_task_ok [OF Cons.prems(1) True, of plans]
    show ?thesis
    proof (cases "start_task plans t r")
      case (Inl er)
      with s True show ?thesis by simp
    next
      case (Inr r1)
      with s have r1: "run_ok e ready [] r1" "run_measure e r1 < run_measure e r" "dr_running r1 \<noteq> []" by simp_all
      from Cons.IH [OF r1(1) Cons.prems(2)] r1(2,3) True Inr show ?thesis by (auto split: sum.splits)
    qed
  next
    case False
    with Cons.prems show ?thesis by auto
  qed
qed simp

lemma finish_attempt_ok:
  assumes ok: "run_ok e ready (a # pend) r" and ready: "dr_ready r = ready"
    and loop: "\<And>t. t \<notin> set (deps e t)"
  shows "\<exists>r'. finish_attempt e a r = Inr r' \<and> run_ok e (dr_ready r') pend r' \<and>
    dr_running r' = dr_running r \<and> dr_counts r' = dr_counts r"
proof -
  let ?t = "ra_task_id a" and ?tasks = "map ra_task_id (pend @ dr_running r)" and ?states = "state_map (dr_results r)"
  let ?rec = "\<lparr>at_task_id = ra_task_id a, at_attempt = ra_attempt a, at_disposition = ao_disposition (ra_outcome a),
      at_started_at = ra_started_at a, at_finished_at = ra_finished_at a\<rparr>"
  have st: "states_ok e ready (?t # ?tasks) ?states (dr_sorter r)"
    and dom: "dom (map_of (dr_counts r)) = task_ids e"
    and cnt: "\<And>u c. map_of (dr_counts r) u = Some c \<Longrightarrow> count_ok e ready (?t # ?tasks) ?states (dr_records r) u c"
    and items: "\<And>b. b \<in> set (a # pend @ dr_running r) \<Longrightarrow> map_of (dr_counts r) (ra_task_id b) = Some (ra_attempt b)"
    and rest: "int (length (dr_running r)) \<le> de_max_parallel e" "dr_max_seen r \<le> de_max_parallel e"
      "succeeded_in (dr_records r) = in_state ?states SUCCEEDED" "history_ok e (dr_records r)"
      "distinct (dict_keys (dr_results r))"
    using ok unfolding run_ok_def append_Cons list.map by blast+
  note t = states_okD [OF st]
  have tN: "?t \<in> task_ids e" using t(1,8) by (auto simp: in_state_def)
  then obtain node where node: "map_of (de_nodes e) ?t = Some node" by (metis map_of_eq_None_iff not_None_eq list.set_map)
  have count: "map_of (dr_counts r) ?t = Some (ra_attempt a)" using items by simp
  note tc = cnt [OF count, unfolded count_ok_def]
  have cap: "cap e ?t = max 1 (ns_max_attempts node)" by (simp add: cap_def node)
  have "?t \<in> set ready \<union> set (?t # ?tasks) \<union> in_state ?states FAILED \<union> in_state ?states SUCCEEDED" by simp
  with states_ok_sorter [OF st] tN have "set (deps e ?t) \<subseteq> in_state ?states SUCCEEDED"
    unfolding sorter_ok_def engine_graph_keys by blast
  then have hist: "history_ok e (dr_records r @ [?rec])" using rest(3,4) by (intro history_snoc) simp_all
  have att: "attempts_of (dr_records r @ [?rec]) u = attempts_of (dr_records r) u + (if u = ?t then 1 else 0)" for u
    by (simp add: attempts_of_def)
  have not_ready: "?t \<notin> set ready" using t(1,2) by (auto simp: in_state_def)
  have counts: "count_ok e ready' ?tasks (?states(?t \<mapsto> x)) (dr_records r @ [?rec]) u c"
    if u: "map_of (dr_counts r) u = Some c" and x: "x = FAILED \<or> x = SUCCEEDED \<or> ?t \<in> set ready'"
      and sub: "set ready \<subseteq> set ready'" and t_ready: "?t \<in> set ready' \<Longrightarrow> ra_attempt a < cap e ?t"
      and new: "\<And>m. m \<in> set ready' \<Longrightarrow> m \<noteq> ?t \<Longrightarrow> m \<notin> set ready \<Longrightarrow> m \<notin> set ?tasks \<union> in_state ?states FAILED \<union> in_state ?states SUCCEEDED"
    for ready' x u c
  proof (cases "u = ?t")
    case True
    with u count have "c = ra_attempt a" by simp
    with tc True t(3) x t_ready show ?thesis unfolding count_ok_def att in_state_update by auto
  next
    case False
    note uc = cnt [OF u, unfolded count_ok_def]
    have "c < cap e u" if "u \<in> set ready'"
    proof (cases "u \<in> set ready")
      case False
      with uc new [OF that \<open>u \<noteq> ?t\<close>] \<open>u \<noteq> ?t\<close> have "c = 0" by auto
      have "u \<in> task_ids e" using u dom by auto
      then obtain nd where "map_of (de_nodes e) u = Some nd" by (metis map_of_eq_None_iff not_None_eq list.set_map)
      then have "1 \<le> cap e u" by (simp add: cap_def)
      with \<open>c = 0\<close> show ?thesis by simp
    qed (use uc in auto)
    with False uc sub show ?thesis unfolding count_ok_def att in_state_update by auto
  qed
  have fields: "succeeded_in (dr_records r @ [?rec]) = in_state (?states(?t \<mapsto> x)) SUCCEEDED"
    if "x = SUCCEEDED \<longleftrightarrow> ao_disposition (ra_outcome a) = SUCCESS" for x
  proof -
    have "?t \<notin> in_state ?states SUCCEEDED" using t(1) by (auto simp: in_state_def)
    with that rest(3) show ?thesis unfolding in_state_update succeeded_in_snoc by auto
  qed
  have result: "run_ok e ready' pend r'"
    if r': "r' = r\<lparr>dr_records := dr_records r @ [?rec], dr_results := AList.update ?t res (dr_results r), dr_sorter := s', dr_ready := ready''\<rparr>"
      and st': "states_ok e ready' ?tasks (?states(?t \<mapsto> nr_state res)) s'"
      and counts': "\<And>u c. map_of (dr_counts r) u = Some c \<Longrightarrow> count_ok e ready' ?tasks (?states(?t \<mapsto> nr_state res)) (dr_records r @ [?rec]) u c"
      and succ: "nr_state res = SUCCEEDED \<longleftrightarrow> ao_disposition (ra_outcome a) = SUCCESS" for r' ready' ready'' res s'
  proof -
    have f: "dr_records r' = dr_records r @ [?rec]" "dr_results r' = AList.update ?t res (dr_results r)" "dr_sorter r' = s'"
      "dr_running r' = dr_running r" "dr_counts r' = dr_counts r" "dr_max_seen r' = dr_max_seen r" unfolding r' by simp_all
    show ?thesis
      unfolding run_ok_def f state_map_update using st' counts' dom items rest(1,2) hist fields [OF succ] distinct_update [OF rest(5)] by auto
  qed
  show ?thesis
  proof (cases "ao_disposition (ra_outcome a) = SUCCESS")
    case True
    from states_done [OF st loop] obtain s1 where s1: "sorter_done ?t (dr_sorter r) = Some s1"
      "states_ok e (ready @ fst (get_ready s1)) ?tasks (?states(?t \<mapsto> SUCCEEDED)) (snd (get_ready s1))"
      "set (fst (get_ready s1)) \<inter> (set ready \<union> set (?t # ?tasks) \<union> in_state ?states FAILED \<union> in_state ?states SUCCEEDED) = {}" by blast
    let ?res = "\<lparr>nr_task_id = ?t, nr_state = SUCCEEDED, nr_attempts = ra_attempt a, nr_last_error = None\<rparr>"
    let ?ready = "sort (ready @ fst (get_ready s1))"
    let ?r = "r\<lparr>dr_records := dr_records r @ [?rec], dr_results := AList.update ?t ?res (dr_results r), dr_sorter := snd (get_ready s1), dr_ready := ?ready\<rparr>"
    have run: "finish_attempt e a r = Inr ?r"
      using True node s1(1) ready by (simp add: finish_attempt_def lookup_def Let_def case_prod_unfold)
    have st': "states_ok e ?ready ?tasks (?states(?t \<mapsto> nr_state ?res)) (snd (get_ready s1))"
      using states_ok_set [OF s1(2), of ?ready ?tasks] s1(2) by (simp add: states_ok_def)
    have "count_ok e ?ready ?tasks (?states(?t \<mapsto> nr_state ?res)) (dr_records r @ [?rec]) u c" if "map_of (dr_counts r) u = Some c" for u c
      by (rule counts [OF that]) (use s1(3) not_ready in auto)
    from result [OF refl st' this] True run show ?thesis by (intro exI [of _ ?r]) simp
  next
    case False
    show ?thesis
    proof (cases "ao_disposition (ra_outcome a) = RETRY \<and> ra_attempt a < ns_max_attempts node")
      case True
      let ?res = "\<lparr>nr_task_id = ?t, nr_state = PENDING, nr_attempts = ra_attempt a, nr_last_error = Some (ao_detail (ra_outcome a))\<rparr>"
      let ?ready = "sort (ready @ [?t])"
      let ?r = "r\<lparr>dr_records := dr_records r @ [?rec], dr_results := AList.update ?t ?res (dr_results r), dr_sorter := dr_sorter r, dr_ready := ?ready\<rparr>"
      have run: "finish_attempt e a r = Inr ?r"
        using True node ready by (simp add: finish_attempt_def lookup_def Let_def)
      note sr = states_retry [OF st]
      have st': "states_ok e ?ready ?tasks (?states(?t \<mapsto> nr_state ?res)) (dr_sorter r)"
        using states_ok_set [OF sr, of ?ready ?tasks] sr by (simp add: states_ok_def)
      have "count_ok e ?ready ?tasks (?states(?t \<mapsto> nr_state ?res)) (dr_records r @ [?rec]) u c" if "map_of (dr_counts r) u = Some c" for u c
        by (rule counts [OF that]) (use True cap in auto)
      from result [OF refl st' this] False run show ?thesis by (intro exI [of _ ?r]) simp
    next
      case no_retry: False
      let ?res = "\<lparr>nr_task_id = ?t, nr_state = FAILED, nr_attempts = ra_attempt a,
          nr_last_error = Some (if ao_detail (ra_outcome a) \<noteq> [] then ao_detail (ra_outcome a) else ''task failed'')\<rparr>"
      let ?r = "r\<lparr>dr_records := dr_records r @ [?rec], dr_results := AList.update ?t ?res (dr_results r), dr_sorter := dr_sorter r, dr_ready := ready\<rparr>"
      have run: "finish_attempt e a r = Inr ?r"
        using False no_retry node ready by (auto simp: finish_attempt_def lookup_def Let_def)
      have st': "states_ok e ready ?tasks (?states(?t \<mapsto> nr_state ?res)) (dr_sorter r)"
        using states_fail [OF st] by simp
      have "count_ok e ready ?tasks (?states(?t \<mapsto> nr_state ?res)) (dr_records r @ [?rec]) u c" if "map_of (dr_counts r) u = Some c" for u c
        by (rule counts [OF that]) (use not_ready in auto)
      from result [OF refl st' this] False run show ?thesis by (intro exI [of _ ?r]) simp
    qed
  qed
qed

lemma run_measure_same: "dr_running r' = dr_running r \<Longrightarrow> dr_counts r' = dr_counts r \<Longrightarrow> run_measure e r' = run_measure e r"
  by (simp add: run_measure_def)

lemma finish_attempts_ok:
  assumes "\<And>t. t \<notin> set (deps e t)"
  shows "run_ok e (dr_ready r) pend r \<Longrightarrow>
    \<exists>r'. finish_attempts e pend r = Inr r' \<and> run_ok e (dr_ready r') [] r' \<and> run_measure e r' = run_measure e r"
proof (induction pend arbitrary: r)
  case (Cons a pend)
  from finish_attempt_ok [OF Cons.prems refl assms] obtain r1 where r1: "finish_attempt e a r = Inr r1" "run_ok e (dr_ready r1) pend r1"
    "dr_running r1 = dr_running r" "dr_counts r1 = dr_counts r" by blast
  from Cons.IH [OF r1(2)] run_measure_same [OF r1(3,4)] r1(1) show ?case by auto
qed simp

lemma run_ok_reorder:
  assumes ok: "run_ok e ready pend r" and m: "mset (pend' @ rest) = mset (pend @ dr_running r)" and len: "length rest \<le> length (dr_running r)"
  shows "run_ok e ready pend' (r\<lparr>dr_time := time, dr_running := rest\<rparr>)"
proof -
  let ?r = "r\<lparr>dr_time := time, dr_running := rest\<rparr>"
  let ?new = "map ra_task_id (pend' @ rest)" and ?old = "map ra_task_id (pend @ dr_running r)"
  have mm: "mset ?new = mset ?old" using arg_cong [OF m, of "image_mset ra_task_id"] unfolding mset_map .
  have sets: "set ?new = set ?old" using mm by (rule mset_eq_setD)
  have items: "set (pend' @ rest) = set (pend @ dr_running r)" using m by (rule mset_eq_setD)
  have "distinct ?new" using mset_eq_imp_distinct_iff [OF mm] ok by (simp add: run_ok_def states_ok_def)
  moreover have st: "states_ok e ready ?old (state_map (dr_results r)) (dr_sorter r)" using ok unfolding run_ok_def by blast
  moreover have "distinct ready" using st by (simp add: states_ok_def)
  ultimately have "states_ok e ready ?new (state_map (dr_results r)) (dr_sorter r)"
    using states_ok_set [OF st _ _ refl sets] by blast
  moreover have "count_ok e ready ?new states records t c = count_ok e ready ?old states records t c" for states records t c
    unfolding count_ok_def sets by (rule refl)
  moreover have "int (length rest) \<le> de_max_parallel e" using ok len by (simp add: run_ok_def)
  moreover have f: "dr_results ?r = dr_results r" "dr_sorter ?r = dr_sorter r" "dr_running ?r = rest" "dr_counts ?r = dr_counts r"
    "dr_records ?r = dr_records r" "dr_max_seen ?r = dr_max_seen r" by simp_all
  ultimately show ?thesis
    using ok unfolding run_ok_def f items by blast
qed

text \<open>One iteration of the main loop keeps the invariant and makes progress.\<close>

definition loop_step :: "dag_engine \<Rightarrow> dag_run \<Rightarrow> exn + dag_run" where
  "loop_step e r1 =
     (let now = ra_finished_at (hd (dr_running r1))
      in finish_attempts e (sort_key ra_task_id (takeWhile (\<lambda>a. ra_finished_at a = now) (dr_running r1)))
        (r1\<lparr>dr_time := now, dr_running := dropWhile (\<lambda>a. ra_finished_at a = now) (dr_running r1)\<rparr>))"

lemma loop_step_ok:
  assumes loop: "\<And>t. t \<notin> set (deps e t)" and ok: "run_ok e (dr_ready r) [] r" and run: "dr_running r \<noteq> []"
  shows "\<exists>r'. loop_step e r = Inr r' \<and> run_ok e (dr_ready r') [] r' \<and> run_measure e r' < run_measure e r"
proof -
  obtain now where now: "now = ra_finished_at (hd (dr_running r))" by blast
  let ?P = "\<lambda>a. ra_finished_at a = now"
  let ?pend = "sort_key ra_task_id (takeWhile ?P (dr_running r))" and ?rest = "dropWhile ?P (dr_running r)"
  let ?r2 = "r\<lparr>dr_time := now, dr_running := ?rest\<rparr>"
  have "takeWhile ?P (dr_running r) \<noteq> []" using run now by (cases "dr_running r") auto
  then have "length ?rest < length (dr_running r)"
    by (metis append_Nil length_append length_greater_0_conv less_add_same_cancel2 takeWhile_dropWhile_id)
  then have less: "length ?rest \<le> length (dr_running r)" "run_measure e ?r2 < run_measure e r" by (simp_all add: run_measure_def)
  have "mset (takeWhile ?P (dr_running r) @ ?rest) = mset ([] @ dr_running r)" by simp
  then have "mset (?pend @ ?rest) = mset ([] @ dr_running r)" by (simp del: takeWhile_dropWhile_id add: mset_append)
  from run_ok_reorder [OF ok this less(1), of now] have "run_ok e (dr_ready ?r2) ?pend ?r2" by simp
  from finish_attempts_ok [OF loop this] less(2) show ?thesis by (auto simp: loop_step_def Let_def now)
qed

lemma run_loop_unfold:
  "run_loop e plans r =
     (if dr_ready r = [] \<and> dr_running r = [] then Some (Inr r)
      else case start_ready e plans (dr_ready r) r of
             Inl er \<Rightarrow> Some (Inl er)
           | Inr r1 \<Rightarrow>
               if dr_running r1 = [] then Some (Inr r1)
               else case loop_step e r1 of Inl er \<Rightarrow> Some (Inl er) | Inr r3 \<Rightarrow> run_loop e plans r3)"
  by (subst run_loop.simps) (simp add: loop_step_def Let_def split: list.split sum.split)

lemma run_loop_ok:
  assumes loop: "\<And>t. t \<notin> set (deps e t)" and par: "1 \<le> de_max_parallel e"
  shows "run_ok e (dr_ready r) [] r \<Longrightarrow>
    \<exists>x. run_loop e plans r = Some x \<and>
      (case x of Inl er \<Rightarrow> plan_short e plans er | Inr r' \<Rightarrow> run_ok e [] [] r' \<and> dr_running r' = [])"
proof (induction "run_measure e r" arbitrary: r rule: less_induct)
  case less
  note ok = less.prems
  show ?case
  proof (cases "dr_ready r = [] \<and> dr_running r = []")
    case True
    with ok show ?thesis by (intro exI [of _ "Inr r"]) (auto simp: run_loop_unfold)
  next
    case False
    note s = start_ready_ok [OF ok par, of plans]
    show ?thesis
    proof (cases "start_ready e plans (dr_ready r) r")
      case (Inl er)
      with s False show ?thesis by (intro exI [of _ "Inl er"]) (simp add: run_loop_unfold [of e plans r])
    next
      case (Inr r1)
      with s False have r1: "run_ok e (dr_ready r1) [] r1" "run_measure e r1 \<le> run_measure e r" "dr_running r1 \<noteq> []" by auto
      from loop_step_ok [OF loop r1(1,3)] obtain r2 where r2: "loop_step e r1 = Inr r2" "run_ok e (dr_ready r2) [] r2" "run_measure e r2 < run_measure e r1"
        by blast
      have "run_loop e plans r = run_loop e plans r2"
        using Inr r1(3) r2(1) unfolding run_loop_unfold [of e plans r] if_not_P [OF False] by simp
      with less.hyps [OF _ r2(2)] r1(2) r2(3) show ?thesis by simp
    qed
  qed
qed

lemma new_run_ok:
  assumes ok: "engine_ok e" and s: "prepared_sorter e = Inr s"
  shows "run_ok e (dr_ready (new_run e s)) [] (new_run e s)"
proof -
  have p: "prepare (new_sorter (engine_graph (de_nodes e))) = Inr s" using s by (simp add: prepared_sorter_def split: sum.splits)
  have g: "graph_closed (engine_graph (de_nodes e))" using ok by (simp add: engine_ok_def)
  note po = prepare_ok [OF g p, unfolded engine_graph_keys]
  let ?r = "new_run e s" and ?ready = "sort (fst (get_ready s))"
  have r: "dr_ready ?r = ?ready" "dr_sorter ?r = snd (get_ready s)" "dr_running ?r = []" "dr_records ?r = []" "dr_max_seen ?r = 0"
    by (simp_all add: new_run_def case_prod_unfold Let_def)
  have states: "state_map (dr_results ?r) = (\<lambda>t. if t \<in> task_ids e then Some PENDING else None)"
    by (auto simp: new_run_def case_prod_unfold Let_def state_map_def map_of_map_restrict restrict_map_def fun_eq_iff simp del: map_map set_map)
  have counts: "map_of (dr_counts ?r) = (\<lambda>t. if t \<in> task_ids e then Some 0 else None)"
    by (auto simp: new_run_def case_prod_unfold Let_def map_of_map_restrict restrict_map_def fun_eq_iff simp del: map_map set_map)
  have distinct: "distinct (dict_keys (dr_results ?r))"
    using g by (simp add: new_run_def case_prod_unfold Let_def comp_def graph_closed_def)
  have inst: "in_state (state_map (dr_results ?r)) x = (if x = PENDING then task_ids e else {})" for x
    unfolding states by (auto simp: in_state_def split: if_splits)
  have "states_ok e ?ready [] (state_map (dr_results ?r)) (snd (get_ready s))"
    unfolding states_ok_def inst using po by (auto simp: states split: if_splits simp del: set_map)
  moreover have "count_ok e ?ready [] (state_map (dr_results ?r)) [] t 0" if "t \<in> task_ids e" for t
  proof -
    from that obtain node where "map_of (de_nodes e) t = Some node" by (metis map_of_eq_None_iff not_None_eq list.set_map)
    then show ?thesis by (auto simp: count_ok_def attempts_of_def cap_def)
  qed
  ultimately show ?thesis
    unfolding run_ok_def r append_Nil list.map counts using ok
    by (auto simp: distinct engine_ok_def inst succeeded_in_def history_ok_def split: if_splits simp del: set_map)
qed

section \<open>What is skipped\<close>

definition feeds :: "dag_engine \<Rightarrow> (string \<times> string) set" where
  "feeds e = {(d, u). d \<in> set (deps e u)}"

lemma rtrancl_absorb: "T \<subseteq> R\<^sup>* `` S \<Longrightarrow> R\<^sup>* `` (S \<union> T) = R\<^sup>* `` S"
  by (auto intro: rtrancl_trans)

lemma children_feeds:
  assumes "engine_ok e" "d \<in> task_ids e"
  shows "\<exists>cs. map_of (de_children e) d = Some cs \<and> set cs = feeds e `` {d}"
proof -
  from assms obtain cs where "map_of (de_children e) d = Some cs" unfolding engine_ok_def by blast
  with assms(1) show ?thesis unfolding engine_ok_def feeds_def by blast
qed

lemma feeds_task: "engine_ok e \<Longrightarrow> (d, u) \<in> feeds e \<Longrightarrow> d \<in> task_ids e \<and> u \<in> task_ids e"
  using graph_closed_preds [of "engine_graph (de_nodes e)" u] preds_key [of d "engine_graph (de_nodes e)" u]
  unfolding engine_ok_def feeds_def engine_graph_keys by blast

lemma descendants_loop_result:
  assumes e: "engine_ok e"
  shows "children = de_children e \<Longrightarrow> set stack \<subseteq> task_ids e \<Longrightarrow> feeds e `` seen \<subseteq> seen \<union> set stack \<Longrightarrow>
    descendants_loop children stack seen = Inr ((feeds e)\<^sup>* `` (set stack \<union> seen))"
proof (induction children stack seen rule: descendants_loop.induct)
  case (1 children stack seen)
  show ?case
  proof (cases "stack = []")
    case True
    with "1.prems"(3) have "(feeds e)\<^sup>* `` seen = seen" by (intro Image_closed_trancl) simp
    with True show ?thesis unfolding descendants_loop.simps [of children stack seen] by simp
  next
    case False
    have stack: "set stack = insert (last stack) (set (butlast stack))"
      using arg_cong [OF append_butlast_last_id [OF False], of set] by simp
    show ?thesis
    proof (cases "last stack \<in> seen")
      case True
      then have same: "set stack \<union> seen = set (butlast stack) \<union> seen" unfolding stack by (simp add: insert_absorb)
      have "set (butlast stack) \<subseteq> set stack" unfolding stack by (rule subset_insertI)
      then have "set (butlast stack) \<subseteq> task_ids e" using "1.prems"(2) by (rule subset_trans)
      moreover have "feeds e `` seen \<subseteq> seen \<union> set (butlast stack)" using "1.prems"(3) same by (metis Un_commute)
      ultimately have "descendants_loop children (butlast stack) seen = Inr ((feeds e)\<^sup>* `` (set (butlast stack) \<union> seen))"
        by (rule "1.IH"(1) [OF False refl refl True "1.prems"(1)])
      then show ?thesis
        unfolding descendants_loop.simps [of children stack seen] same Let_def if_not_P [OF False] if_P [OF True] .
    next
      case new: False
      have "last stack \<in> task_ids e" using "1.prems"(2) stack by blast
      from children_feeds [OF e this] obtain cs where cs: "map_of children (last stack) = Some cs" "set cs = feeds e `` {last stack}"
        unfolding "1.prems"(1) by blast
      have task: "set cs \<subseteq> task_ids e" using feeds_task [OF e] unfolding cs(2) by blast
      have "set (butlast stack @ cs) \<union> insert (last stack) seen = (set stack \<union> seen) \<union> set cs" using stack by auto
      moreover have "set cs \<subseteq> (feeds e)\<^sup>* `` (set stack \<union> seen)" using stack unfolding cs(2) by blast
      ultimately have "(feeds e)\<^sup>* `` (set (butlast stack @ cs) \<union> insert (last stack) seen) = (feeds e)\<^sup>* `` (set stack \<union> seen)"
        by (metis rtrancl_absorb)
      moreover have "feeds e `` insert (last stack) seen \<subseteq> insert (last stack) seen \<union> set (butlast stack @ cs)"
        using "1.prems"(3) stack cs(2) by auto
      moreover have "set (butlast stack @ cs) \<subseteq> task_ids e" using task "1.prems"(2) stack by auto
      ultimately have "descendants_loop children (butlast stack @ cs) (insert (last stack) seen) = Inr ((feeds e)\<^sup>* `` (set stack \<union> seen))"
        using "1.IH"(2) [OF False refl refl new cs(1) "1.prems"(1)] by (simp only:)
      then show ?thesis
        unfolding descendants_loop.simps [of children stack seen] Let_def if_not_P [OF False] if_not_P [OF new] cs(1) option.case .
    qed
  qed
qed

lemma descendants_result:
  assumes "engine_ok e" "t \<in> task_ids e"
  shows "descendants t (de_children e) = Inr ((feeds e)\<^sup>+ `` {t})"
proof -
  from children_feeds [OF assms] obtain cs where cs: "map_of (de_children e) t = Some cs" "set cs = feeds e `` {t}" by blast
  have "set cs \<subseteq> task_ids e" using feeds_task [OF assms(1)] unfolding cs(2) by blast
  from descendants_loop_result [OF assms(1) refl this, of "{}"]
  have "descendants_loop (de_children e) cs {} = Inr ((feeds e)\<^sup>* `` set cs)" by simp
  moreover have "(feeds e)\<^sup>* `` set cs = (feeds e)\<^sup>+ `` {t}"
    unfolding cs(2) trancl_unfold_left relcomp_Image [symmetric] by (rule refl)
  ultimately show ?thesis using cs(1) by (simp add: descendants_def lookup_def)
qed

lemma skipped_of_result:
  "engine_ok e \<Longrightarrow> set failed \<subseteq> task_ids e \<Longrightarrow> skipped_of (de_children e) failed = Inr ((feeds e)\<^sup>+ `` set failed)"
proof (induction failed)
  case (Cons t failed)
  then have "t \<in> task_ids e" "set failed \<subseteq> task_ids e" by auto
  with Cons descendants_result [OF Cons.prems(1), of t] show ?case by (auto simp del: set_map)
qed simp

lemma mark_skipped_result:
  "set tasks \<subseteq> dom (state_map results) \<Longrightarrow>
   \<exists>results'. mark_skipped tasks results = Inr results' \<and>
     state_map results' = (\<lambda>t. if t \<in> set tasks \<and> state_map results t = Some PENDING then Some SKIPPED else state_map results t)"
proof (induction tasks arbitrary: results)
  case (Cons t tasks)
  then obtain res where res: "map_of results t = Some res" by (auto simp: state_map_def)
  let ?new = "if nr_state res = PENDING
      then AList.update t \<lparr>nr_task_id = t, nr_state = SKIPPED, nr_attempts = 0, nr_last_error = None\<rparr> results else results"
  have new: "state_map ?new = (\<lambda>u. if u = t \<and> state_map results u = Some PENDING then Some SKIPPED else state_map results u)"
    using res by (auto simp: state_map_update fun_eq_iff) (simp_all add: state_map_def)
  have "set tasks \<subseteq> dom (state_map ?new)" using Cons.prems unfolding new by (auto split: if_splits)
  from Cons.IH [OF this] obtain results' where r': "mark_skipped tasks ?new = Inr results'"
    "state_map results' = (\<lambda>u. if u \<in> set tasks \<and> state_map ?new u = Some PENDING then Some SKIPPED else state_map ?new u)" by blast
  have "mark_skipped (t # tasks) results = Inr results'" using res r'(1) by (simp add: lookup_def)
  moreover have "state_map results' = (\<lambda>u. if u \<in> set (t # tasks) \<and> state_map results u = Some PENDING then Some SKIPPED else state_map results u)"
    unfolding r'(2) new by (auto simp: fun_eq_iff)
  ultimately show ?case by blast
qed auto

lemma pending_iff_downstream:
  assumes e: "engine_ok e" and rank: "\<And>d u. (d, u) \<in> feeds e \<Longrightarrow> rk d < (rk u :: nat)"
    and st: "states_ok e [] [] states s"
  shows "states t = Some PENDING \<longleftrightarrow> t \<in> (feeds e)\<^sup>+ `` in_state states FAILED"
proof -
  have dom: "dom states = task_ids e" and none: "in_state states RUNNING = {}" "in_state states SKIPPED = {}"
    using st unfolding states_ok_def by auto
  have free: "u \<in> in_state states FAILED \<union> in_state states SUCCEEDED \<longleftrightarrow> set (deps e u) \<subseteq> in_state states SUCCEEDED" if "u \<in> task_ids e" for u
    using states_ok_sorter [OF st] that unfolding sorter_ok_def engine_graph_keys by auto
  have pending: "states u = Some PENDING \<longleftrightarrow> \<not> set (deps e u) \<subseteq> in_state states SUCCEEDED" if u: "u \<in> task_ids e" for u
  proof -
    from u dom obtain x where "states u = Some x" by blast
    with free [OF u] none show ?thesis by (cases x) (auto simp: in_state_def)
  qed
  have "t \<in> (feeds e)\<^sup>+ `` in_state states FAILED" if "states t = Some PENDING" for t
    using that
  proof (induction "rk t" arbitrary: t rule: less_induct)
    case less
    have "t \<in> task_ids e" using less.prems dom by blast
    with pending less.prems obtain d where d: "d \<in> set (deps e t)" "d \<notin> in_state states SUCCEEDED" by blast
    then have dt: "(d, t) \<in> feeds e" by (simp add: feeds_def)
    then have "d \<in> task_ids e" using feeds_task [OF e] by blast
    with dom obtain x where x: "states d = Some x" by blast
    with d(2) none consider "d \<in> in_state states FAILED" | "states d = Some PENDING" by (cases x) (auto simp: in_state_def)
    then show ?case
    proof cases
      case 1
      with dt show ?thesis by blast
    next
      case 2
      from less.hyps [OF rank [OF dt] this] dt show ?thesis by (auto intro: trancl_into_trancl)
    qed
  qed
  moreover have "states t = Some PENDING" if "(d, t) \<in> (feeds e)\<^sup>+" "d \<in> in_state states FAILED" for d t
    using that
  proof (induction rule: trancl_induct)
    case (base y)
    then have "\<not> set (deps e y) \<subseteq> in_state states SUCCEEDED" by (auto simp: feeds_def in_state_def)
    with pending feeds_task [OF e base(1)] show ?case by blast
  next
    case (step y z)
    then have "\<not> set (deps e z) \<subseteq> in_state states SUCCEEDED" by (auto simp: feeds_def in_state_def)
    with pending feeds_task [OF e step(2)] show ?case by blast
  qed
  ultimately show ?thesis by blast
qed

section \<open>Runs\<close>

lemma finish_run_result:
  assumes e: "engine_ok e" and ok: "run_ok e [] [] r" and run: "dr_running r = []"
    and rank: "\<And>d u. (d, u) \<in> feeds e \<Longrightarrow> rk d < (rk u :: nat)"
  shows "\<exists>res. finish_run e r = Inr res \<and> rr_attempts res = dr_records r \<and> rr_max_parallel_seen res = dr_max_seen r \<and>
    state_map (rr_node_results res) = (\<lambda>t. if state_map (dr_results r) t = Some PENDING then Some SKIPPED else state_map (dr_results r) t) \<and>
    (\<forall>t. state_map (dr_results r) t = Some PENDING \<longleftrightarrow> t \<in> (feeds e)\<^sup>+ `` in_state (state_map (dr_results r)) FAILED)"
proof -
  let ?failed = "[task. (task, res) \<leftarrow> dr_results r, nr_state res = FAILED]"
  let ?states = "state_map (dr_results r)" and ?down = "(feeds e)\<^sup>+ `` in_state (state_map (dr_results r)) FAILED"
  have st: "states_ok e [] [] ?states (dr_sorter r)" using ok run unfolding run_ok_def by simp
  then have dom: "dom ?states = task_ids e" by (simp add: states_ok_def)
  have "distinct (dict_keys (dr_results r))" using ok unfolding run_ok_def by blast
  then have failed: "set ?failed = in_state ?states FAILED" by (force simp: in_state_def state_map_def)
  then have "set ?failed \<subseteq> task_ids e" unfolding dom [symmetric] by (auto simp: in_state_def)
  from skipped_of_result [OF e this] have skipped: "skipped_of (de_children e) ?failed = Inr ?down" unfolding failed .
  have pend: "\<And>t. ?states t = Some PENDING \<longleftrightarrow> t \<in> ?down" by (rule pending_iff_downstream [OF e rank st])
  then have sub: "?down \<subseteq> dom ?states" by blast
  then have sorted: "set (sorted_list_of_set ?down) = ?down" unfolding dom by (intro set_sorted_list_of_set) (metis finite_set finite_subset)
  from mark_skipped_result [of "sorted_list_of_set ?down" "dr_results r"] sub obtain results where
    m: "mark_skipped (sorted_list_of_set ?down) (dr_results r) = Inr results"
      "state_map results = (\<lambda>t. if t \<in> ?down \<and> ?states t = Some PENDING then Some SKIPPED else ?states t)" unfolding sorted by blast
  let ?res = "\<lparr>rr_node_results = results, rr_attempts = dr_records r, rr_max_parallel_seen = dr_max_seen r, rr_total_duration = dr_time r\<rparr>"
  have "finish_run e r = Inr ?res" unfolding finish_run_def Let_def skipped sum.case m(1) by (rule refl)
  moreover have "state_map results = (\<lambda>t. if ?states t = Some PENDING then Some SKIPPED else ?states t)"
    unfolding m(2) using pend by (auto simp: fun_eq_iff)
  ultimately show ?thesis using pend by (intro exI [of _ ?res]) simp
qed

lemma run_engine_result:
  assumes e: "engine_ok e" and valid: "validate e = Inr ()"
  shows "\<exists>x. run_engine plans e = Some x \<and>
    (case x of
       Inl er \<Rightarrow> plan_short e plans er
     | Inr res \<Rightarrow> \<exists>r. run_ok e [] [] r \<and> dr_running r = [] \<and> rr_attempts res = dr_records r \<and> rr_max_parallel_seen res = dr_max_seen r \<and>
        state_map (rr_node_results res) = (\<lambda>t. if state_map (dr_results r) t = Some PENDING then Some SKIPPED else state_map (dr_results r) t) \<and>
        (\<forall>t. state_map (dr_results r) t = Some PENDING \<longleftrightarrow> t \<in> (feeds e)\<^sup>+ `` in_state (state_map (dr_results r)) FAILED))"
proof -
  have par: "1 \<le> de_max_parallel e" and g: "graph_closed (engine_graph (de_nodes e))" using e by (simp_all add: engine_ok_def)
  obtain s where s: "prepared_sorter e = Inr s" using valid by (auto simp: validate_def split: sum.splits)
  then have "prepare (new_sorter (engine_graph (de_nodes e))) = Inr s" by (simp add: prepared_sorter_def split: sum.splits)
  from prepare_rank [OF g this] obtain rk :: "string \<Rightarrow> nat" where rk: "\<And>d u. d \<in> set (deps e u) \<Longrightarrow> rk d < rk u" by blast
  have loop: "t \<notin> set (deps e t)" for t using rk [of t t] by blast
  have rank: "rk d < rk u" if "(d, u) \<in> feeds e" for d u using that rk by (simp add: feeds_def)
  from run_loop_ok [OF loop par new_run_ok [OF e s], of plans] obtain x where x: "run_loop e plans (new_run e s) = Some x"
    "case x of Inl er \<Rightarrow> plan_short e plans er | Inr r' \<Rightarrow> run_ok e [] [] r' \<and> dr_running r' = []" by blast
  show ?thesis
  proof (cases x)
    case (Inl er)
    with x valid s show ?thesis by (simp add: run_engine_def)
  next
    case (Inr r)
    with x(2) have r: "run_ok e [] [] r" "dr_running r = []" by simp_all
    from finish_run_result [where rk = rk, OF e r rank] obtain res where res: "finish_run e r = Inr res"
      "rr_attempts res = dr_records r \<and> rr_max_parallel_seen res = dr_max_seen r \<and>
       state_map (rr_node_results res) = (\<lambda>t. if state_map (dr_results r) t = Some PENDING then Some SKIPPED else state_map (dr_results r) t) \<and>
       (\<forall>t. state_map (dr_results r) t = Some PENDING \<longleftrightarrow> t \<in> (feeds e)\<^sup>+ `` in_state (state_map (dr_results r)) FAILED)" by blast
    have "run_engine plans e = Some (Inr res)" using Inr x(1) valid s res(1) by (simp add: run_engine_def)
    with r res(2) show ?thesis unfolding sum.case by (intro exI [of _ "Inr res"] conjI) (assumption, unfold sum.case, blast)
  qed
qed

lemma new_dag_engine_node:
  assumes "new_dag_engine nodes k = Inr e" "node \<in> set nodes"
  shows "map_of (de_nodes e) (ns_task_id node) = Some node" "deps e (ns_task_id node) = ns_depends_on node"
    "cap e (ns_task_id node) = max 1 (ns_max_attempts node)"
proof -
  note n = new_dag_engine_ok [OF assms(1)]
  then have "distinct (dict_keys (de_nodes e))" unfolding engine_ok_def graph_closed_def engine_graph_keys by blast
  moreover have "(ns_task_id node, node) \<in> set (de_nodes e)" using n assms(2) by auto
  ultimately show "map_of (de_nodes e) (ns_task_id node) = Some node" by (rule map_of_is_SomeI)
  then show "deps e (ns_task_id node) = ns_depends_on node" "cap e (ns_task_id node) = max 1 (ns_max_attempts node)"
    by (simp_all add: preds_engine_graph cap_def)
qed

section \<open>Properties\<close>

text \<open>Property C12. A workflow runs in dependency order: in the record of a run, an attempt at a task comes
  only after a successful attempt at each of its dependencies; no task is tried more often than its
  \<open>max_attempts\<close> allows, and no more attempts are in progress at a time than \<open>max_parallel\<close>.\<close>
theorem workflow_order:
  assumes "new_dag_engine nodes max_parallel = Inr e" "run_engine plans e = Some (Inr res)"
  shows "(\<forall>node \<in> set nodes. \<forall>pre a post. rr_attempts res = pre @ a # post \<and> at_task_id a = ns_task_id node \<longrightarrow>
      set (ns_depends_on node) \<subseteq> succeeded_in pre) \<and>
    (\<forall>node \<in> set nodes. attempts_of (rr_attempts res) (ns_task_id node) \<le> max 1 (ns_max_attempts node)) \<and>
    rr_max_parallel_seen res \<le> max_parallel"
proof -
  note n = new_dag_engine_ok [OF assms(1)]
  then have e: "engine_ok e" by blast
  have valid: "validate e = Inr ()" using assms(2) by (auto simp: run_engine_def split: sum.splits)
  from run_engine_result [OF e valid, of plans] assms(2) obtain r where
    r: "run_ok e [] [] r" "dr_running r = []" "rr_attempts res = dr_records r" "rr_max_parallel_seen res = dr_max_seen r" by auto
  have "history_ok e (dr_records r)" "dr_max_seen r \<le> de_max_parallel e" using r(1) unfolding run_ok_def by blast+
  moreover have "attempts_of (dr_records r) (ns_task_id node) \<le> max 1 (ns_max_attempts node)" if "node \<in> set nodes" for node
  proof -
    note node = new_dag_engine_node [OF assms(1) that]
    have "dom (map_of (dr_counts r)) = task_ids e" using r(1) unfolding run_ok_def by blast
    moreover have "ns_task_id node \<in> task_ids e" using node(1) by (metis domI dom_map_of_conv_image_fst list.set_map)
    ultimately obtain c where "map_of (dr_counts r) (ns_task_id node) = Some c" by blast
    then have "count_ok e [] (map ra_task_id ([] @ dr_running r)) (state_map (dr_results r)) (dr_records r) (ns_task_id node) c"
      using r(1) unfolding run_ok_def by blast
    then show ?thesis using r(2) unfolding count_ok_def node(3) by simp
  qed
  ultimately show ?thesis unfolding r(3,4) history_ok_def using n new_dag_engine_node(2) [OF assms(1)] by metis
qed

text \<open>Property C15. A run always ends, and leaves no task hanging: it stops early only when a task needs more
  attempts than its plan lists, and otherwise every task has succeeded, failed or been skipped, the skipped
  ones being exactly those downstream of a failed task.\<close>
theorem workflow_run_settles:
  assumes "new_dag_engine nodes max_parallel = Inr e" "validate e = Inr ()"
  shows "\<exists>x. run_engine plans e = Some x \<and>
    (case x of
       Inl er \<Rightarrow> \<exists>node \<in> set nodes. \<exists>plan. er = AttemptPlanExhaustedError (ns_task_id node) \<and> plans (ns_task_id node) = Some plan \<and>
         int (length plan) < max 1 (ns_max_attempts node)
     | Inr res \<Rightarrow> \<forall>node \<in> set nodes.
         state_map (rr_node_results res) (ns_task_id node) \<in> {Some SUCCEEDED, Some FAILED, Some SKIPPED} \<and>
         (state_map (rr_node_results res) (ns_task_id node) = Some SKIPPED \<longleftrightarrow>
            (\<exists>task. state_map (rr_node_results res) task = Some FAILED \<and> (task, ns_task_id node) \<in> (feeds e)\<^sup>+)))"
proof -
  note n = new_dag_engine_ok [OF assms(1)]
  then have e: "engine_ok e" by blast
  have nodes: "task_ids e = ns_task_id ` set nodes" using n by auto
  from run_engine_result [OF e assms(2), of plans] obtain x where x: "run_engine plans e = Some x"
    "case x of
       Inl er \<Rightarrow> plan_short e plans er
     | Inr res \<Rightarrow> \<exists>r. run_ok e [] [] r \<and> dr_running r = [] \<and> rr_attempts res = dr_records r \<and> rr_max_parallel_seen res = dr_max_seen r \<and>
        state_map (rr_node_results res) = (\<lambda>t. if state_map (dr_results r) t = Some PENDING then Some SKIPPED else state_map (dr_results r) t) \<and>
        (\<forall>t. state_map (dr_results r) t = Some PENDING \<longleftrightarrow> t \<in> (feeds e)\<^sup>+ `` in_state (state_map (dr_results r)) FAILED)" by blast
  show ?thesis
  proof (cases x)
    case (Inl er)
    with x(2) have "plan_short e plans er" by simp
    then obtain node plan where "node \<in> set nodes" "er = AttemptPlanExhaustedError (ns_task_id node)" "plans (ns_task_id node) = Some plan"
      "int (length plan) < cap e (ns_task_id node)" unfolding plan_short_def nodes by blast
    with x(1) Inl new_dag_engine_node(3) [OF assms(1)] show ?thesis by (intro exI [of _ x]) (simp, metis)
  next
    case (Inr res)
    with x(2) obtain r where r: "run_ok e [] [] r" "dr_running r = []"
      and results: "state_map (rr_node_results res) = (\<lambda>t. if state_map (dr_results r) t = Some PENDING then Some SKIPPED else state_map (dr_results r) t)"
      and pend: "\<And>t. state_map (dr_results r) t = Some PENDING \<longleftrightarrow> t \<in> (feeds e)\<^sup>+ `` in_state (state_map (dr_results r)) FAILED" by auto
    have dom: "dom (state_map (dr_results r)) = task_ids e"
      and none: "in_state (state_map (dr_results r)) RUNNING = {}" "in_state (state_map (dr_results r)) SKIPPED = {}"
      using r unfolding run_ok_def states_ok_def by auto
    have failed: "state_map (rr_node_results res) t = Some FAILED \<longleftrightarrow> t \<in> in_state (state_map (dr_results r)) FAILED"
      and skipped: "state_map (rr_node_results res) t = Some SKIPPED \<longleftrightarrow> t \<in> (feeds e)\<^sup>+ `` in_state (state_map (dr_results r)) FAILED" for t
      using none unfolding results pend [symmetric] by (auto simp: in_state_def)
    have "state_map (rr_node_results res) t \<in> {Some SUCCEEDED, Some FAILED, Some SKIPPED}" if "t \<in> task_ids e" for t
    proof -
      from that dom obtain st where "state_map (dr_results r) t = Some st" by blast
      with none show ?thesis unfolding results by (cases st) (auto simp: in_state_def)
    qed
    with x(1) Inr show ?thesis unfolding nodes by (intro exI [of _ x]) (simp add: failed skipped, blast)
  qed
qed

text \<open>Property C32. Validation finds cycles: it raises CycleDetectedError exactly when the dependencies have a
  cycle, and the error names one.\<close>
theorem validate_detects_cycles:
  assumes "new_dag_engine nodes max_parallel = Inr e"
  shows "case validate e of
      Inl er \<Rightarrow> \<exists>c. er = CycleDetectedError c \<and> graph_cycle (engine_graph (de_nodes e)) c
    | Inr u \<Rightarrow> \<nexists>c. graph_cycle (engine_graph (de_nodes e)) c"
proof -
  have "graph_closed (engine_graph (de_nodes e))" using new_dag_engine_ok [OF assms] unfolding engine_ok_def by blast
  from prepare_iff [OF this] show ?thesis by (auto simp: validate_def prepared_sorter_def split: sum.splits)
qed

section \<open>Witnesses\<close>

definition sample_nodes :: "relay_node_spec list" where
  "sample_nodes =
     [\<lparr>ns_task_id = ''load'', ns_title = ''Load'', ns_depends_on = [''fetch''], ns_max_attempts = 1\<rparr>,
      \<lparr>ns_task_id = ''fetch'', ns_title = ''Fetch'', ns_depends_on = [], ns_max_attempts = 2\<rparr>]"

definition sample_plans :: attempt_plans where
  "sample_plans = [''fetch'' \<mapsto> [\<lparr>ao_disposition = RETRY, ao_duration = 2, ao_detail = ''late''\<rparr>,
     \<lparr>ao_disposition = SUCCESS, ao_duration = 1, ao_detail = []\<rparr>]]"

definition failing_plans :: attempt_plans where
  "failing_plans = [''fetch'' \<mapsto> [\<lparr>ao_disposition = FAILURE, ao_duration = 2, ao_detail = []\<rparr>]]"

definition cyclic_nodes :: "relay_node_spec list" where
  "cyclic_nodes =
     [\<lparr>ns_task_id = ''load'', ns_title = ''Load'', ns_depends_on = [''fetch''], ns_max_attempts = 1\<rparr>,
      \<lparr>ns_task_id = ''fetch'', ns_title = ''Fetch'', ns_depends_on = [''load''], ns_max_attempts = 1\<rparr>]"

definition the_engine :: "relay_node_spec list \<Rightarrow> dag_engine" where
  "the_engine nodes = projr (new_dag_engine nodes 1)"

definition the_result :: "attempt_plans \<Rightarrow> dag_engine \<Rightarrow> run_result" where
  "the_result plans e = projr (the (run_engine plans e))"

lemma sample_engine: "new_dag_engine sample_nodes 1 = Inr (the_engine sample_nodes)"
  by code_simp

lemma cyclic_engine: "new_dag_engine cyclic_nodes 1 = Inr (the_engine cyclic_nodes)"
  by code_simp

lemma sample_valid: "validate (the_engine sample_nodes) = Inr ()"
  by code_simp

lemma sample_run: "run_engine sample_plans (the_engine sample_nodes) = Some (Inr (the_result sample_plans (the_engine sample_nodes)))"
  by code_simp

lemma failing_run: "run_engine failing_plans (the_engine sample_nodes) = Some (Inr (the_result failing_plans (the_engine sample_nodes)))"
  by code_simp

lemma failing_load: "state_map (rr_node_results (the_result failing_plans (the_engine sample_nodes))) ''load'' = Some SKIPPED"
  by code_simp

lemma workflow_order_witness:
  "map at_task_id (rr_attempts (the_result sample_plans (the_engine sample_nodes))) = [''fetch'', ''fetch'', ''load''] \<and>
   attempts_of (rr_attempts (the_result sample_plans (the_engine sample_nodes))) ''fetch'' \<le> 2 \<and>
   rr_max_parallel_seen (the_result sample_plans (the_engine sample_nodes)) \<le> 1"
proof -
  have "map at_task_id (rr_attempts (the_result sample_plans (the_engine sample_nodes))) = [''fetch'', ''fetch'', ''load'']" by code_simp
  with workflow_order [OF sample_engine sample_run] show ?thesis by (simp add: sample_nodes_def)
qed

lemma workflow_run_settles_witness:
  "\<exists>task. state_map (rr_node_results (the_result failing_plans (the_engine sample_nodes))) task = Some FAILED \<and>
     (task, ''load'') \<in> (feeds (the_engine sample_nodes))\<^sup>+"
proof -
  have "\<lparr>ns_task_id = ''load'', ns_title = ''Load'', ns_depends_on = [''fetch''], ns_max_attempts = 1\<rparr> \<in> set sample_nodes"
    by (simp add: sample_nodes_def)
  with workflow_run_settles [OF sample_engine sample_valid, of failing_plans] failing_load show ?thesis
    unfolding failing_run by fastforce
qed

lemma validate_detects_cycles_witness:
  "\<exists>c. validate (the_engine cyclic_nodes) = Inl (CycleDetectedError c) \<and> graph_cycle (engine_graph (de_nodes (the_engine cyclic_nodes))) c"
proof -
  have "\<not> isl (validate (the_engine cyclic_nodes)) = False" by code_simp
  with validate_detects_cycles [OF cyclic_engine] show ?thesis by (auto split: sum.splits)
qed

end
