(* ===== verification/ConfigReload.thy ===== *)
theory ConfigReload
  imports Prelude Complex_Main "HOL-Library.Word"
begin

text \<open>
  Lab 39, \<open>lab_39_sigraft_service/config.py\<close>: the validation of a TOML candidate, the manager that
  publishes configurations in two phases over its subsystems, the file watcher; with the subsystems
  the service registers (request limits, the trace sampler of telemetry.py, the report runtime of
  analytics_service.py).

  What lies outside is an argument: \<open>digest\<close> is the SHA-256 hex digest, \<open>load_toml\<close> decodes and parses the
  bytes (UnicodeDecodeError or TOMLDecodeError where they are not UTF-8 or not TOML; another exception, such as the ValueError
  of an integer literal that is too long, passes), and the environment of a call is what reading an
  observations file gives at that moment.  A float is the rational number it stands for, or None when it
  is not finite.  A subsystem is its methods together with its own state.
\<close>

section \<open>Settings\<close>

type_synonym bytes = "8 word list"

datatype toml =
    T_str string
  | T_int int
  | T_float "rat option"
  | T_bool bool
  | T_array "toml list"
  | T_table "(string \<times> toml) list"
  | T_moment string

type_synonym document = "(string \<times> toml) list"

record request_settings =
  max_body_bytes :: int
  max_action_chars :: int

record telemetry_settings =
  sample_ratio :: rat
  exporter :: string
  otlp_endpoint :: string
  otlp_insecure :: bool
  azure_connection_string :: "string option"

record identity_settings =
  deployment_environment :: string
  service_instance_id :: string

record analysis_settings =
  an_enabled :: bool
  observations_path :: string
  refresh_interval_seconds :: rat

record service_settings =
  schema_version :: int
  se_identity :: identity_settings
  se_requests :: request_settings
  se_telemetry :: telemetry_settings
  se_analysis :: analysis_settings

section \<open>Parsing\<close>

definition table :: "document \<Rightarrow> string \<Rightarrow> document res" where
  "table doc key = (case map_of doc key of Some (T_table t) \<Rightarrow> Inr t | _ \<Rightarrow> Inl (ConfigurationError (key @ '' must be a TOML table'')))"

definition reject_unknown :: "string \<Rightarrow> document \<Rightarrow> string set \<Rightarrow> unit res" where
  "reject_unknown part values allowed =
     (if set (dict_keys values) \<subseteq> allowed then Inr ()
      else Inl (ConfigurationError (''unknown '' @ part @ '' fields: '' @ join_names (set (dict_keys values) - allowed))))"

definition integer :: "document \<Rightarrow> string \<Rightarrow> int \<Rightarrow> int \<Rightarrow> int res" where
  "integer values key minimum maximum =
     (case map_of values key of
        Some (T_int n) \<Rightarrow>
          if minimum \<le> n \<and> n \<le> maximum then Inr n
          else Inl (ConfigurationError (key @ '' must be between '' @ show_int minimum @ '' and '' @ show_int maximum))
      | _ \<Rightarrow> Inl (ConfigurationError (key @ '' must be an integer'')))"

text \<open>
  \<open>float(n)\<close> raises OverflowError when \<open>n\<close> rounds to \<open>2 ^ 1024\<close>.  Below that a large \<open>n\<close> is rounded, which
  moves it across none of the bounds compared with.
\<close>

definition float_of_int :: "int \<Rightarrow> rat res" where
  "float_of_int n = (if \<bar>n\<bar> < 2 ^ 1024 - 2 ^ 970 then Inr (of_int n) else Inl (OverflowError ''int too large to convert to float''))"

definition finite_between :: "string \<Rightarrow> int \<Rightarrow> int \<Rightarrow> rat option \<Rightarrow> rat res" where
  "finite_between key minimum maximum number =
     (case number of
        Some x \<Rightarrow> if of_int minimum \<le> x \<and> x \<le> of_int maximum then Inr x
          else Inl (ConfigurationError (key @ '' must be between '' @ show_int minimum @ ''.0 and '' @ show_int maximum @ ''.0''))
      | None \<Rightarrow> Inl (ConfigurationError (key @ '' must be between '' @ show_int minimum @ ''.0 and '' @ show_int maximum @ ''.0'')))"

definition number :: "document \<Rightarrow> string \<Rightarrow> int \<Rightarrow> int \<Rightarrow> rat res" where
  "number values key minimum maximum =
     (case map_of values key of
        Some (T_int n) \<Rightarrow> and_then (float_of_int n) (\<lambda>x. finite_between key minimum maximum (Some x))
      | Some (T_float x) \<Rightarrow> finite_between key minimum maximum x
      | _ \<Rightarrow> Inl (ConfigurationError (key @ '' must be a number'')))"

definition nonempty_text :: "document \<Rightarrow> string \<Rightarrow> string res" where
  "nonempty_text values key =
     (case map_of values key of
        Some (T_str s) \<Rightarrow> if s = [] then Inl (ConfigurationError (key @ '' must be non-empty text'')) else Inr s
      | _ \<Rightarrow> Inl (ConfigurationError (key @ '' must be non-empty text'')))"

definition boolean :: "document \<Rightarrow> string \<Rightarrow> bool res" where
  "boolean values key =
     (case map_of values key of Some (T_bool b) \<Rightarrow> Inr b | _ \<Rightarrow> Inl (ConfigurationError (key @ '' must be true or false'')))"

definition starts_with :: "string \<Rightarrow> string \<Rightarrow> bool" where
  "starts_with p s \<longleftrightarrow> take (length p) s = p"

definition require :: "bool \<Rightarrow> string \<Rightarrow> unit res" where
  "require b message = (if b then Inr () else Inl (ConfigurationError message))"

definition connection_string :: "document \<Rightarrow> string option res" where
  "connection_string telemetry =
     (case map_of telemetry ''azure_connection_string'' of
        None \<Rightarrow> Inr None
      | Some (T_str s) \<Rightarrow> Inr (Some s)
      | Some _ \<Rightarrow> Inl (ConfigurationError ''telemetry.azure_connection_string must be text''))"

definition top_level_keys :: "string set" where
  "top_level_keys = {''schema'', ''identity'', ''requests'', ''telemetry'', ''analysis''}"

definition telemetry_keys :: "string set" where
  "telemetry_keys = {''sample_ratio'', ''exporter'', ''otlp_endpoint'', ''otlp_insecure'', ''azure_connection_string''}"

definition analysis_keys :: "string set" where
  "analysis_keys = {''enabled'', ''observations_path'', ''refresh_interval_seconds''}"

definition parse_telemetry :: "document \<Rightarrow> telemetry_settings res" where
  "parse_telemetry telemetry =
     and_then (number telemetry ''sample_ratio'' 0 1) (\<lambda>ratio.
     and_then (nonempty_text telemetry ''exporter'') (\<lambda>exporter.
     and_then (require (exporter \<in> {''memory'', ''otlp'', ''azure''}) ''telemetry.exporter must be memory, otlp, or azure'') (\<lambda>_.
     and_then (nonempty_text telemetry ''otlp_endpoint'') (\<lambda>endpoint.
     and_then (require (starts_with ''http://'' endpoint \<or> starts_with ''https://'' endpoint) ''telemetry.otlp_endpoint must be an HTTP URL'') (\<lambda>_.
     and_then (boolean telemetry ''otlp_insecure'') (\<lambda>insecure.
     and_then (connection_string telemetry) (\<lambda>connection.
     and_then (require (exporter = ''azure'' \<longrightarrow> connection \<notin> {None, Some []})
       ''telemetry.azure_connection_string is required for the azure exporter'') (\<lambda>_.
     Inr \<lparr>sample_ratio = ratio, exporter = exporter, otlp_endpoint = endpoint, otlp_insecure = insecure, azure_connection_string = connection\<rparr>))))))))"

definition parse_document :: "document \<Rightarrow> service_settings res" where
  "parse_document doc =
     and_then (reject_unknown ''top level'' doc top_level_keys) (\<lambda>_.
     and_then (table doc ''schema'') (\<lambda>schema.
     and_then (table doc ''identity'') (\<lambda>identity.
     and_then (table doc ''requests'') (\<lambda>requests.
     and_then (table doc ''telemetry'') (\<lambda>telemetry.
     and_then (table doc ''analysis'') (\<lambda>analysis.
     and_then (reject_unknown ''schema'' schema {''version''}) (\<lambda>_.
     and_then (reject_unknown ''identity'' identity {''deployment_environment'', ''service_instance_id''}) (\<lambda>_.
     and_then (reject_unknown ''requests'' requests {''max_body_bytes'', ''max_action_chars''}) (\<lambda>_.
     and_then (reject_unknown ''telemetry'' telemetry telemetry_keys) (\<lambda>_.
     and_then (reject_unknown ''analysis'' analysis analysis_keys) (\<lambda>_.
     and_then (integer schema ''version'' 1 1) (\<lambda>version.
     and_then (nonempty_text identity ''deployment_environment'') (\<lambda>environment.
     and_then (nonempty_text identity ''service_instance_id'') (\<lambda>instance_id.
     and_then (integer requests ''max_body_bytes'' 256 1048576) (\<lambda>body_bytes.
     and_then (integer requests ''max_action_chars'' 1 65536) (\<lambda>action_chars.
     and_then (parse_telemetry telemetry) (\<lambda>telemetry_settings.
     and_then (boolean analysis ''enabled'') (\<lambda>enabled.
     and_then (nonempty_text analysis ''observations_path'') (\<lambda>path.
     and_then (number analysis ''refresh_interval_seconds'' 5 86400) (\<lambda>interval.
     Inr \<lparr>schema_version = version,
       se_identity = \<lparr>deployment_environment = environment, service_instance_id = instance_id\<rparr>,
       se_requests = \<lparr>max_body_bytes = body_bytes, max_action_chars = action_chars\<rparr>,
       se_telemetry = telemetry_settings,
       se_analysis = \<lparr>an_enabled = enabled, observations_path = path, refresh_interval_seconds = interval\<rparr>\<rparr>))))))))))))))))))))"

definition toml_error :: "exn \<Rightarrow> exn" where
  "toml_error er =
     (case er of
        UnicodeDecodeError m \<Rightarrow> ConfigurationError (''configuration is not valid TOML: '' @ m)
      | TOMLDecodeError m \<Rightarrow> ConfigurationError (''configuration is not valid TOML: '' @ m)
      | _ \<Rightarrow> er)"

definition parse_config :: "(bytes \<Rightarrow> string) \<Rightarrow> (bytes \<Rightarrow> document res) \<Rightarrow> bytes \<Rightarrow> (service_settings \<times> string) res" where
  "parse_config digest load_toml content =
     (case load_toml content of
        Inl er \<Rightarrow> Inl (toml_error er)
      | Inr doc \<Rightarrow> and_then (parse_document doc) (\<lambda>settings. Inr (settings, digest content)))"

definition restart_changes :: "service_settings \<Rightarrow> service_settings \<Rightarrow> string list" where
  "restart_changes startup candidate =
     (let i = se_identity startup; i' = se_identity candidate; t = se_telemetry startup; t' = se_telemetry candidate;
          changed =
            (if deployment_environment i \<noteq> deployment_environment i' then [''identity.deployment_environment''] else []) @
            (if service_instance_id i \<noteq> service_instance_id i' then [''identity.service_instance_id''] else []) @
            (if exporter t \<noteq> exporter t' then [''telemetry.exporter''] else []) @
            (if otlp_endpoint t \<noteq> otlp_endpoint t' then [''telemetry.otlp_endpoint''] else []) @
            (if otlp_insecure t \<noteq> otlp_insecure t' then [''telemetry.otlp_insecure''] else []) @
            (if azure_connection_string t \<noteq> azure_connection_string t' then [''telemetry.azure_connection_string''] else [])
      in filter (\<lambda>f. f \<in> {''identity.deployment_environment'', ''identity.service_instance_id'', ''telemetry.exporter'',
           ''telemetry.otlp_endpoint'', ''telemetry.otlp_insecure'', ''telemetry.azure_connection_string''}) (sort changed))"

section \<open>The manager\<close>

record config_snapshot =
  sn_settings :: service_settings
  sn_revision :: string
  sn_generation :: int
  sn_restart_required :: "string list"

record reload_status =
  rs_generation :: int
  rs_revision :: string
  rs_last_result :: string
  rs_last_error :: "string option"
  rs_restart_required :: "string list"

record 'v prepared_change =
  pc_commit :: "'v \<Rightarrow> unit res \<times> 'v"
  pc_rollback :: "'v \<Rightarrow> unit res \<times> 'v"

record ('e, 'v) subsystem =
  su_name :: string
  su_prepare :: "'e \<Rightarrow> service_settings \<Rightarrow> service_settings \<Rightarrow> 'v \<Rightarrow> 'v prepared_change res \<times> 'v"

record ('e, 'v) config_manager =
  cm_startup :: service_settings
  cm_snapshot :: config_snapshot
  cm_status :: reload_status
  cm_subsystems :: "(('e, 'v) subsystem \<times> 'v) list"

definition new_manager :: "service_settings \<Rightarrow> string \<Rightarrow> ('e, 'v) config_manager" where
  "new_manager initial revision =
     \<lparr>cm_startup = initial,
      cm_snapshot = \<lparr>sn_settings = initial, sn_revision = revision, sn_generation = 1, sn_restart_required = []\<rparr>,
      cm_status = \<lparr>rs_generation = 1, rs_revision = revision, rs_last_result = ''initial'', rs_last_error = None, rs_restart_required = []\<rparr>,
      cm_subsystems = []\<rparr>"

definition manager_from_bytes ::
  "(bytes \<Rightarrow> string) \<Rightarrow> (bytes \<Rightarrow> document res) \<Rightarrow> bytes \<Rightarrow> ('e, 'v) config_manager res" where
  "manager_from_bytes digest load_toml content =
     and_then (parse_config digest load_toml content) (\<lambda>(settings, revision). Inr (new_manager settings revision))"

definition register :: "('e, 'v) subsystem \<Rightarrow> 'v \<Rightarrow> ('e, 'v) config_manager \<Rightarrow> ('e, 'v) config_manager res" where
  "register su v m =
     (if su_name su \<in> set (map (su_name \<circ> fst) (cm_subsystems m)) then Inl (ValueError (''reload subsystem already registered: '' @ su_name su))
      else Inr (m\<lparr>cm_subsystems := cm_subsystems m @ [(su, v)]\<rparr>))"

definition record_failure :: "string \<Rightarrow> ('e, 'v) config_manager \<Rightarrow> ('e, 'v) config_manager" where
  "record_failure message m =
     m\<lparr>cm_status := \<lparr>rs_generation = sn_generation (cm_snapshot m), rs_revision = sn_revision (cm_snapshot m), rs_last_result = ''failed'',
       rs_last_error = Some message, rs_restart_required = sn_restart_required (cm_snapshot m)\<rparr>\<rparr>"

text \<open>
  The loops over the subsystems: the first exception ends preparing and committing; rolling back goes on
  behind it, from the last prepared change to the first.  The flag says whether the loop went through.
\<close>

fun prepare_all ::
  "'e \<Rightarrow> service_settings \<Rightarrow> service_settings \<Rightarrow> (('e, 'v) subsystem \<times> 'v) list \<Rightarrow>
   bool \<times> 'v prepared_change list \<times> (('e, 'v) subsystem \<times> 'v) list" where
  "prepare_all env candidate current [] = (True, [], [])"
| "prepare_all env candidate current ((su, v) # subs) =
     (case su_prepare su env candidate current v of
        (Inl er, v') \<Rightarrow> (False, [], (su, v') # subs)
      | (Inr change, v') \<Rightarrow>
          let (fine, changes, subs') = prepare_all env candidate current subs in (fine, change # changes, (su, v') # subs'))"

fun commit_all :: "'v prepared_change list \<Rightarrow> (('e, 'v) subsystem \<times> 'v) list \<Rightarrow> bool \<times> (('e, 'v) subsystem \<times> 'v) list" where
  "commit_all (change # changes) ((su, v) # subs) =
     (case pc_commit change v of
        (Inl er, v') \<Rightarrow> (False, (su, v') # subs)
      | (Inr u, v') \<Rightarrow> let (fine, subs') = commit_all changes subs in (fine, (su, v') # subs'))"
| "commit_all changes subs = (True, subs)"

fun rollback_all :: "'v prepared_change list \<Rightarrow> (('e, 'v) subsystem \<times> 'v) list \<Rightarrow> bool \<times> (('e, 'v) subsystem \<times> 'v) list" where
  "rollback_all (change # changes) ((su, v) # subs) =
     (let (failed, subs') = rollback_all changes subs; (result, v') = pc_rollback change v
      in (failed \<or> isl result, (su, v') # subs'))"
| "rollback_all changes subs = (False, subs)"

definition abandon :: "string \<Rightarrow> 'v prepared_change list \<Rightarrow> ('e, 'v) config_manager \<Rightarrow> ('e, 'v) config_manager" where
  "abandon phase changes m =
     (let (failed, subs) = rollback_all changes (cm_subsystems m)
      in record_failure (''subsystem '' @ phase @ (if failed then '' and rollback failed'' else '' failed'')) (m\<lparr>cm_subsystems := subs\<rparr>))"

definition reload_bytes ::
  "(bytes \<Rightarrow> string) \<Rightarrow> (bytes \<Rightarrow> document res) \<Rightarrow> 'e \<Rightarrow> bytes \<Rightarrow> ('e, 'v) config_manager \<Rightarrow> bool res \<times> ('e, 'v) config_manager" where
  "reload_bytes digest load_toml env content m =
     (case parse_config digest load_toml content of
        Inl (ConfigurationError message) \<Rightarrow> (Inr False, record_failure ''invalid configuration candidate'' m)
      | Inl er \<Rightarrow> (Inl er, m)
      | Inr (candidate, revision) \<Rightarrow>
          let current = cm_snapshot m in
          if revision = sn_revision current
          then (Inr True, m\<lparr>cm_status := (cm_status m)\<lparr>rs_last_result := ''unchanged'', rs_last_error := None\<rparr>\<rparr>)
          else
            let (prepared, changes, subs1) = prepare_all env candidate (sn_settings current) (cm_subsystems m) in
            if \<not> prepared then (Inr False, abandon ''prepare'' changes (m\<lparr>cm_subsystems := subs1\<rparr>))
            else
              let (committed, subs2) = commit_all changes subs1 in
              if \<not> committed then (Inr False, abandon ''commit'' changes (m\<lparr>cm_subsystems := subs2\<rparr>))
              else
                let generation = sn_generation current + 1; restart = restart_changes (cm_startup m) candidate
                in (Inr True, m\<lparr>cm_snapshot := \<lparr>sn_settings = candidate, sn_revision = revision, sn_generation = generation, sn_restart_required = restart\<rparr>,
                     cm_status := \<lparr>rs_generation = generation, rs_revision = revision, rs_last_result = ''applied'', rs_last_error = None,
                       rs_restart_required = restart\<rparr>,
                     cm_subsystems := subs2\<rparr>))"

text \<open>The file's bytes are None where reading it raises OSError.\<close>

definition reload_file ::
  "(bytes \<Rightarrow> string) \<Rightarrow> (bytes \<Rightarrow> document res) \<Rightarrow> 'e \<Rightarrow> bytes option \<Rightarrow> ('e, 'v) config_manager \<Rightarrow> bool res \<times> ('e, 'v) config_manager" where
  "reload_file digest load_toml env file m =
     (case file of
        None \<Rightarrow> (Inr False, record_failure ''configuration read failed'' m)
      | Some content \<Rightarrow> reload_bytes digest load_toml env content m)"

section \<open>The watcher\<close>

text \<open>
  \<open>probed\<close> is the file when the probe reads it, \<open>file\<close> when the reload reads it right after.
\<close>

record config_watcher =
  cw_token :: "string option"
  cw_poll_changes :: bool

definition new_watcher :: "(bytes \<Rightarrow> string) \<Rightarrow> rat option \<Rightarrow> bool \<Rightarrow> bytes option \<Rightarrow> config_watcher res" where
  "new_watcher digest interval poll_changes probed =
     (case interval of
        Some seconds \<Rightarrow>
          if seconds \<le> 0 then Inl (ValueError ''watch interval must be positive'')
          else Inr \<lparr>cw_token = map_option digest probed, cw_poll_changes = poll_changes\<rparr>
      | None \<Rightarrow> Inl (ValueError ''watch interval must be positive''))"

definition poll_once ::
  "(bytes \<Rightarrow> string) \<Rightarrow> (bytes \<Rightarrow> document res) \<Rightarrow> 'e \<Rightarrow> bool \<Rightarrow> bytes option \<Rightarrow> bytes option \<Rightarrow>
   config_watcher \<times> ('e, 'v) config_manager \<Rightarrow> bool res \<times> config_watcher \<times> ('e, 'v) config_manager" where
  "poll_once digest load_toml env force probed file = (\<lambda>(w, m).
     (case probed of
        None \<Rightarrow> let (res, m') = reload_file digest load_toml env file m in (res, w, m')
      | Some content \<Rightarrow>
          if \<not> force \<and> cw_token w = Some (digest content) then (Inr False, w, m)
          else
            let (res, m') = reload_file digest load_toml env file m
            in (res, if res = Inr True then w\<lparr>cw_token := Some (digest content)\<rparr> else w, m')))"

text \<open>One turn of the loop of \<open>_run\<close>, after the wait.\<close>

definition watcher_turn ::
  "(bytes \<Rightarrow> string) \<Rightarrow> (bytes \<Rightarrow> document res) \<Rightarrow> 'e \<Rightarrow> bool \<Rightarrow> bytes option \<Rightarrow> bytes option \<Rightarrow>
   config_watcher \<times> ('e, 'v) config_manager \<Rightarrow> config_watcher \<times> ('e, 'v) config_manager" where
  "watcher_turn digest load_toml env requested probed file s =
     (if requested \<or> cw_poll_changes (fst s)
      then case poll_once digest load_toml env requested probed file s of
             (Inl er, w, m) \<Rightarrow> (w, record_failure ''configuration watcher failed'' m)
           | (Inr u, s') \<Rightarrow> s'
      else s)"

section \<open>The service's subsystems\<close>

record 'r analysis_runtime =
  ar_settings :: analysis_settings
  ar_report :: "'r option"
  ar_last_result :: string
  ar_last_error :: "string option"

datatype 'r live_value = Limits request_settings | Ratio rat | Analysis "'r analysis_runtime"

type_synonym 'r observations = "string \<Rightarrow> 'r res"

definition value_change :: "'v \<Rightarrow> 'v \<Rightarrow> 'v prepared_change" where
  "value_change old new = \<lparr>pc_commit = (\<lambda>v. (Inr (), new)), pc_rollback = (\<lambda>v. (Inr (), old))\<rparr>"

definition request_limits :: "('r observations, 'r live_value) subsystem" where
  "request_limits = \<lparr>su_name = ''request-limits'',
     su_prepare = (\<lambda>env candidate current v. (Inr (value_change v (Limits (se_requests candidate))), v))\<rparr>"

definition reloadable_sampler :: "('r observations, 'r live_value) subsystem" where
  "reloadable_sampler = \<lparr>su_name = ''telemetry-sampler'',
     su_prepare = (\<lambda>env candidate current v. (Inr (value_change v (Ratio (sample_ratio (se_telemetry candidate)))), v))\<rparr>"

definition build_report :: "'r observations \<Rightarrow> analysis_settings \<Rightarrow> 'r option res" where
  "build_report env settings =
     (if an_enabled settings then and_then (env (observations_path settings)) (\<lambda>report. Inr (Some report)) else Inr None)"

definition publish_report :: "analysis_settings \<Rightarrow> 'r option \<Rightarrow> 'r live_value" where
  "publish_report settings report =
     Analysis \<lparr>ar_settings = settings, ar_report = report, ar_last_result = ''configured'', ar_last_error = None\<rparr>"

definition analysis_prepare ::
  "'r observations \<Rightarrow> service_settings \<Rightarrow> service_settings \<Rightarrow> 'r live_value \<Rightarrow> 'r live_value prepared_change res \<times> 'r live_value" where
  "analysis_prepare env candidate current v =
     (case v of
        Analysis rt \<Rightarrow>
          (and_then (build_report env (se_analysis candidate)) (\<lambda>report.
             Inr \<lparr>pc_commit = (\<lambda>v. (Inr (), publish_report (se_analysis candidate) report)),
                  pc_rollback = (\<lambda>v. (Inr (), publish_report (ar_settings rt) (ar_report rt)))\<rparr>), v)
      | _ \<Rightarrow> (Inl (TypeError ''not an analysis runtime''), v))"

definition analytics_runtime :: "('r observations, 'r live_value) subsystem" where
  "analytics_runtime = \<lparr>su_name = ''operational-analysis'', su_prepare = analysis_prepare\<rparr>"

fun refresh_once :: "'r observations \<Rightarrow> 'r live_value \<Rightarrow> bool res \<times> 'r live_value" where
  "refresh_once env (Analysis rt) =
     (case build_report env (ar_settings rt) of
        Inl (AnalysisError message) \<Rightarrow> (Inr False, Analysis (rt\<lparr>ar_last_result := ''failed'', ar_last_error := Some ''analysis refresh failed''\<rparr>))
      | Inl er \<Rightarrow> (Inl er, Analysis rt)
      | Inr report \<Rightarrow> (Inr True, Analysis (rt\<lparr>ar_report := report, ar_last_result := ''refreshed'', ar_last_error := None\<rparr>)))"
| "refresh_once env v = (Inr True, v)"

text \<open>The manager of a service: the three subsystems start from its snapshot.\<close>

definition service_manager ::
  "'r observations \<Rightarrow> ('r observations, 'r live_value) config_manager \<Rightarrow> ('r observations, 'r live_value) config_manager res" where
  "service_manager env m =
     (let settings = sn_settings (cm_snapshot m) in
      and_then (build_report env (se_analysis settings)) (\<lambda>report.
      and_then (register request_limits (Limits (se_requests settings)) m) (\<lambda>m.
      and_then (register reloadable_sampler (Ratio (sample_ratio (se_telemetry settings))) m) (\<lambda>m.
      register analytics_runtime
        (Analysis \<lparr>ar_settings = se_analysis settings, ar_report = report, ar_last_result = ''initial'', ar_last_error = None\<rparr>) m))))"

text \<open>\<open>create_service\<close>: \<open>content\<close> is the file when the manager reads it, \<open>probed\<close> when the watcher first probes it;
  \<open>start_telemetry\<close> is \<open>TelemetryRuntime.from_settings\<close>, which builds the exporters and may raise.\<close>

definition create_service ::
  "(bytes \<Rightarrow> string) \<Rightarrow> (bytes \<Rightarrow> document res) \<Rightarrow> (service_settings \<Rightarrow> unit res) \<Rightarrow> 'r observations \<Rightarrow> bytes \<Rightarrow> bool \<Rightarrow> rat option \<Rightarrow> bytes option \<Rightarrow>
   (config_watcher \<times> ('r observations, 'r live_value) config_manager) res" where
  "create_service digest load_toml start_telemetry env content watch_config interval probed =
     and_then (manager_from_bytes digest load_toml content) (\<lambda>m.
     and_then (start_telemetry (sn_settings (cm_snapshot m))) (\<lambda>_.
     and_then (service_manager env m) (\<lambda>m.
     and_then (new_watcher digest interval watch_config probed) (\<lambda>w. Inr (w, m)))))"

text \<open>What happens to a running service.\<close>

datatype 'r service_event =
    Reload "'r observations" bytes
  | Reload_file "'r observations" "bytes option"
  | Turn "'r observations" bool "bytes option" "bytes option"
  | Refresh "'r observations"

fun service_step ::
  "(bytes \<Rightarrow> string) \<Rightarrow> (bytes \<Rightarrow> document res) \<Rightarrow> 'r service_event \<Rightarrow>
   config_watcher \<times> ('r observations, 'r live_value) config_manager \<Rightarrow> config_watcher \<times> ('r observations, 'r live_value) config_manager" where
  "service_step digest load_toml (Reload env content) (w, m) = (w, snd (reload_bytes digest load_toml env content m))"
| "service_step digest load_toml (Reload_file env file) (w, m) = (w, snd (reload_file digest load_toml env file m))"
| "service_step digest load_toml (Turn env requested probed file) (w, m) = watcher_turn digest load_toml env requested probed file (w, m)"
| "service_step digest load_toml (Refresh env) (w, m) =
     (w, m\<lparr>cm_subsystems := map (\<lambda>(su, v). (su, snd (refresh_once env v))) (cm_subsystems m)\<rparr>)"

section \<open>Two-phase reload\<close>

text \<open>
  The contract of a subsystem: preparing changes nothing visible, and rolling a prepared change back,
  whatever happened to the subsystem since, gives the visible state from before.
\<close>

locale reload_contract =
  fixes live :: "'v \<Rightarrow> 'x"
    and honest :: "('e, 'v) subsystem \<Rightarrow> bool"
  assumes prepare_quiet: "honest su \<Longrightarrow> live (snd (su_prepare su env candidate current v)) = live v"
    and rollback_fine: "honest su \<Longrightarrow> fst (su_prepare su env candidate current v) = Inr change \<Longrightarrow> fst (pc_rollback change w) = Inr ()"
    and rollback_restores: "honest su \<Longrightarrow> fst (su_prepare su env candidate current v) = Inr change \<Longrightarrow> live (snd (pc_rollback change w)) = live v"
begin

lemma prepare_all_quiet:
  "\<forall>su \<in> fst ` set subs. honest su \<Longrightarrow> prepare_all env candidate current subs = (fine, changes, subs') \<Longrightarrow>
   map fst subs' = map fst subs \<and> map (\<lambda>p. live (snd p)) subs' = map (\<lambda>p. live (snd p)) subs"
proof (induction subs arbitrary: fine changes subs')
  case (Cons p subs)
  obtain su v where p: "p = (su, v)" by fastforce
  with Cons.prems(1) have su: "honest su" and rest: "\<forall>su \<in> fst ` set subs. honest su" by auto
  obtain r v' where pr: "su_prepare su env candidate current v = (r, v')" by fastforce
  with prepare_quiet [OF su, of env candidate current v] have v': "live v' = live v" by simp
  obtain f cs ss where all: "prepare_all env candidate current subs = (f, cs, ss)" by (cases "prepare_all env candidate current subs") auto
  from Cons.IH [OF rest all] Cons.prems(2) v' show ?case by (cases r) (auto simp: p pr all)
qed auto

lemma rollback_all_restores:
  "\<forall>su \<in> fst ` set subs. honest su \<Longrightarrow> prepare_all env candidate current subs = (fine, changes, subs1) \<Longrightarrow>
   map fst subs2 = map fst subs \<Longrightarrow> drop (length changes) (map (\<lambda>p. live (snd p)) subs2) = drop (length changes) (map (\<lambda>p. live (snd p)) subs) \<Longrightarrow>
   \<exists>subs3. rollback_all changes subs2 = (False, subs3) \<and> map fst subs3 = map fst subs \<and> map (\<lambda>p. live (snd p)) subs3 = map (\<lambda>p. live (snd p)) subs"
proof (induction subs arbitrary: fine changes subs1 subs2)
  case (Cons p subs)
  obtain su v where p: "p = (su, v)" by fastforce
  with Cons.prems(1) have su: "honest su" and rest: "\<forall>su \<in> fst ` set subs. honest su" by auto
  obtain w subs2' where s2: "subs2 = (su, w) # subs2'" "map fst subs2' = map fst subs" using Cons.prems(3) p by (cases subs2) auto
  obtain r v' where pr: "su_prepare su env candidate current v = (r, v')" by fastforce
  obtain f cs ss where all: "prepare_all env candidate current subs = (f, cs, ss)" by (cases "prepare_all env candidate current subs") auto
  show ?case
  proof (cases r)
    case (Inl er)
    with Cons.prems(2-4) show ?thesis by (auto simp: p pr)
  next
    case (Inr change)
    with Cons.prems(2) have changes: "changes = change # cs" by (auto simp: p pr all)
    with Cons.prems(4) s2 have "drop (length cs) (map (\<lambda>p. live (snd p)) subs2') = drop (length cs) (map (\<lambda>p. live (snd p)) subs)" by simp
    from Cons.IH [OF rest all s2(2) this] obtain subs3 where s3: "rollback_all cs subs2' = (False, subs3)" "map fst subs3 = map fst subs"
      "map (\<lambda>p. live (snd p)) subs3 = map (\<lambda>p. live (snd p)) subs" by blast
    obtain u w' where rb: "pc_rollback change w = (u, w')" by fastforce
    have "fst (su_prepare su env candidate current v) = Inr change" using pr Inr by simp
    from rollback_fine [OF su this, of w] rollback_restores [OF su this, of w] rb have "u = Inr ()" "live w' = live v" by simp_all
    with s3 rb s2 p changes show ?thesis by simp
  qed
qed auto

lemma commit_all_rest:
  "commit_all changes subs = (fine, subs') \<Longrightarrow> map fst subs' = map fst subs \<and> drop (length changes) subs' = drop (length changes) subs"
proof (induction changes subs arbitrary: fine subs' rule: commit_all.induct)
  case (1 change changes su v subs)
  obtain r v' where c: "pc_commit change v = (r, v')" by fastforce
  obtain f ss where all: "commit_all changes subs = (f, ss)" by fastforce
  from 1 c all show ?case by (cases r) auto
qed auto

lemma prepare_then_abandon:
  fixes mgr :: "('e, 'v) config_manager" and phase :: string
  assumes "\<forall>su \<in> fst ` set subs. honest su" "prepare_all env candidate current subs = (fine, changes, subs1)"
    "cm_subsystems mgr = subs2" "map fst subs2 = map fst subs" "drop (length changes) (map (\<lambda>p. live (snd p)) subs2) = drop (length changes) (map (\<lambda>p. live (snd p)) subs)"
  shows "cm_snapshot (abandon phase changes mgr) = cm_snapshot mgr \<and> cm_startup (abandon phase changes mgr) = cm_startup mgr \<and>
    map fst (cm_subsystems (abandon phase changes mgr)) = map fst subs \<and>
    map (\<lambda>p. live (snd p)) (cm_subsystems (abandon phase changes mgr)) = map (\<lambda>p. live (snd p)) subs \<and>
    cm_status (abandon phase changes mgr) = \<lparr>rs_generation = sn_generation (cm_snapshot mgr), rs_revision = sn_revision (cm_snapshot mgr),
      rs_last_result = ''failed'', rs_last_error = Some (''subsystem '' @ phase @ '' failed''), rs_restart_required = sn_restart_required (cm_snapshot mgr)\<rparr>"
proof -
  note rollback_all_restores [OF assms(1,2,4,5)]
  then obtain subs3 where "rollback_all changes subs2 = (False, subs3)"
    "map fst subs3 = map fst subs" "map (\<lambda>p. live (snd p)) subs3 = map (\<lambda>p. live (snd p)) subs" by blast
  then show ?thesis unfolding abandon_def assms(3) record_failure_def by simp
qed

text \<open>Either everything is published or nothing visible has changed but the status.\<close>

lemma reload_cases:
  assumes honest: "\<forall>su \<in> fst ` set (cm_subsystems m). honest su"
    and reload: "reload_bytes digest load_toml env content m = (res, m')"
  shows "cm_startup m' = cm_startup m \<and> map fst (cm_subsystems m') = map fst (cm_subsystems m) \<and>
    (res = Inr True \<and> (\<exists>settings revision. parse_config digest load_toml content = Inr (settings, revision) \<and>
        (if revision = sn_revision (cm_snapshot m)
         then cm_snapshot m' = cm_snapshot m \<and> cm_subsystems m' = cm_subsystems m
         else cm_snapshot m' = \<lparr>sn_settings = settings, sn_revision = revision, sn_generation = sn_generation (cm_snapshot m) + 1,
           sn_restart_required = restart_changes (cm_startup m) settings\<rparr>)) \<or>
     res \<noteq> Inr True \<and> cm_snapshot m' = cm_snapshot m \<and> map (\<lambda>p. live (snd p)) (cm_subsystems m') = map (\<lambda>p. live (snd p)) (cm_subsystems m))"
proof (cases "parse_config digest load_toml content")
  case (Inl er)
  with reload show ?thesis by (cases er) (auto simp: reload_bytes_def record_failure_def)
next
  case (Inr p)
  obtain candidate revision where p: "p = (candidate, revision)" by fastforce
  note parsed = Inr [unfolded p]
  obtain prepared changes subs1 where prep: "prepare_all env candidate (sn_settings (cm_snapshot m)) (cm_subsystems m) = (prepared, changes, subs1)"
    by (cases "prepare_all env candidate (sn_settings (cm_snapshot m)) (cm_subsystems m)") auto
  note quiet = prepare_all_quiet [OF honest prep, simplified]
  obtain committed subs2 where com: "commit_all changes subs1 = (committed, subs2)" by fastforce
  note rest = commit_all_rest [OF com]
  show ?thesis
  proof (cases "revision = sn_revision (cm_snapshot m)")
    case True
    with reload parsed show ?thesis by (auto simp: reload_bytes_def Let_def)
  next
    case new: False
    consider (prepare) "\<not> prepared" | (commit) "prepared" "\<not> committed" | (applied) "prepared" "committed" by blast
    then show ?thesis
    proof cases
      case prepare
      from reload prepare new parsed prep have m': "res = Inr False" "m' = abandon ''prepare'' changes (m\<lparr>cm_subsystems := subs1\<rparr>)"
        by (auto simp: reload_bytes_def Let_def)
      have "drop (length changes) (map (\<lambda>p. live (snd p)) subs1) = drop (length changes) (map (\<lambda>p. live (snd p)) (cm_subsystems m))"
        using quiet by (simp only:)
      from prepare_then_abandon [where mgr = "m\<lparr>cm_subsystems := subs1\<rparr>" and phase = "''prepare''", OF honest prep _ _ this] quiet m' show ?thesis by auto
    next
      case commit
      from reload commit new parsed prep com have m': "res = Inr False" "m' = abandon ''commit'' changes (m\<lparr>cm_subsystems := subs2\<rparr>)"
        by (auto simp: reload_bytes_def Let_def)
      have "drop (length changes) (map (\<lambda>p. live (snd p)) subs2) = drop (length changes) (map (\<lambda>p. live (snd p)) (cm_subsystems m))"
        using quiet rest by (metis drop_map)
      from prepare_then_abandon [where mgr = "m\<lparr>cm_subsystems := subs2\<rparr>" and phase = "''commit''", OF honest prep _ _ this] quiet rest m' show ?thesis by auto
    next
      case applied
      from reload applied new parsed prep com quiet rest show ?thesis by (auto simp: reload_bytes_def Let_def)
    qed
  qed
qed

end

text \<open>The contract as a predicate on a subsystem, and the service's own subsystems.\<close>

definition restores :: "('v \<Rightarrow> 'x) \<Rightarrow> ('e, 'v) subsystem \<Rightarrow> bool" where
  "restores live su \<longleftrightarrow>
     (\<forall>env candidate current v. live (snd (su_prepare su env candidate current v)) = live v \<and>
        (\<forall>change w. fst (su_prepare su env candidate current v) = Inr change \<longrightarrow>
           fst (pc_rollback change w) = Inr () \<and> live (snd (pc_rollback change w)) = live v))"

interpretation contract: reload_contract live "restores live" for live
  by unfold_locales (simp_all add: restores_def)

fun visible :: "'r live_value \<Rightarrow> 'r live_value" where
  "visible (Analysis rt) = Analysis (rt\<lparr>ar_last_result := [], ar_last_error := None\<rparr>)"
| "visible v = v"

definition service_subsystems :: "('r observations, 'r live_value) subsystem list" where
  "service_subsystems = [request_limits, reloadable_sampler, analytics_runtime]"

interpretation service: reload_contract visible "\<lambda>su. su \<in> set service_subsystems"
proof (unfold_locales, goal_cases)
  case (1 su env candidate current v)
  then show ?case
    by (cases v) (auto simp: service_subsystems_def request_limits_def reloadable_sampler_def analytics_runtime_def analysis_prepare_def)
next
  case (2 su env candidate current v change w)
  then show ?case
    by (cases v) (auto simp: service_subsystems_def request_limits_def reloadable_sampler_def analytics_runtime_def analysis_prepare_def value_change_def and_then_Inr)
next
  case (3 su env candidate current v change w)
  then show ?case
    by (cases v) (auto simp: service_subsystems_def request_limits_def reloadable_sampler_def analytics_runtime_def analysis_prepare_def
        value_change_def publish_report_def and_then_Inr)
qed

section \<open>The running service\<close>

definition valid_settings :: "service_settings \<Rightarrow> bool" where
  "valid_settings s \<longleftrightarrow>
     schema_version s = 1 \<and> deployment_environment (se_identity s) \<noteq> [] \<and> service_instance_id (se_identity s) \<noteq> [] \<and>
     256 \<le> max_body_bytes (se_requests s) \<and> max_body_bytes (se_requests s) \<le> 1048576 \<and>
     1 \<le> max_action_chars (se_requests s) \<and> max_action_chars (se_requests s) \<le> 65536 \<and>
     0 \<le> sample_ratio (se_telemetry s) \<and> sample_ratio (se_telemetry s) \<le> 1 \<and>
     exporter (se_telemetry s) \<in> {''memory'', ''otlp'', ''azure''} \<and>
     (exporter (se_telemetry s) = ''azure'' \<longrightarrow> azure_connection_string (se_telemetry s) \<notin> {None, Some []}) \<and>
     5 \<le> refresh_interval_seconds (se_analysis s) \<and> refresh_interval_seconds (se_analysis s) \<le> 86400"

lemma require_Inr [simp]: "require b message = Inr u \<longleftrightarrow> b"
  by (simp add: require_def)

lemma integer_Inr: "integer values key lo hi = Inr n \<Longrightarrow> lo \<le> n \<and> n \<le> hi"
  by (auto simp: integer_def split: option.splits toml.splits if_splits)

lemma finite_between_Inr: "finite_between key lo hi x = Inr y \<Longrightarrow> of_int lo \<le> y \<and> y \<le> of_int hi"
  by (auto simp: finite_between_def split: option.splits if_splits)

lemma number_Inr: "number values key lo hi = Inr y \<Longrightarrow> of_int lo \<le> y \<and> y \<le> of_int hi"
  by (auto simp: number_def and_then_Inr dest: finite_between_Inr split: option.splits toml.splits)

lemma nonempty_text_Inr: "nonempty_text values key = Inr s \<Longrightarrow> s \<noteq> []"
  by (auto simp: nonempty_text_def split: option.splits toml.splits if_splits)

lemma parse_telemetry_valid:
  assumes "parse_telemetry t = Inr s"
  shows "0 \<le> sample_ratio s \<and> sample_ratio s \<le> 1 \<and> exporter s \<in> {''memory'', ''otlp'', ''azure''} \<and>
    (exporter s = ''azure'' \<longrightarrow> azure_connection_string s \<notin> {None, Some []})"
  using assms unfolding parse_telemetry_def and_then_Inr require_Inr
  by (auto dest!: number_Inr simp: of_int_0 of_int_1)

lemma parse_document_valid: "parse_document doc = Inr s \<Longrightarrow> valid_settings s"
  unfolding parse_document_def and_then_Inr valid_settings_def
  by (elim exE conjE) (drule integer_Inr number_Inr nonempty_text_Inr parse_telemetry_valid | clarsimp)+

lemma parse_config_valid: "parse_config digest load_toml content = Inr (s, revision) \<Longrightarrow> valid_settings s \<and> revision = digest content"
  by (auto simp: parse_config_def and_then_Inr dest: parse_document_valid split: sum.splits)

text \<open>The subsystems run with the settings \<open>s\<close>.\<close>

definition runs_with :: "service_settings \<Rightarrow> 'r live_value list \<Rightarrow> bool" where
  "runs_with s values \<longleftrightarrow>
     (\<exists>rt. values = [Limits (se_requests s), Ratio (sample_ratio (se_telemetry s)), Analysis rt] \<and> ar_settings rt = se_analysis s)"

definition manager_ok :: "('r observations, 'r live_value) config_manager \<Rightarrow> bool" where
  "manager_ok m \<longleftrightarrow>
     map fst (cm_subsystems m) = service_subsystems \<and> runs_with (sn_settings (cm_snapshot m)) (map snd (cm_subsystems m)) \<and>
     valid_settings (sn_settings (cm_snapshot m)) \<and> 1 \<le> sn_generation (cm_snapshot m) \<and>
     sn_restart_required (cm_snapshot m) = restart_changes (cm_startup m) (sn_settings (cm_snapshot m)) \<and>
     rs_generation (cm_status m) = sn_generation (cm_snapshot m) \<and> rs_revision (cm_status m) = sn_revision (cm_snapshot m) \<and>
     rs_restart_required (cm_status m) = sn_restart_required (cm_snapshot m)"

lemma restart_changes_self [simp]: "restart_changes s s = []"
  by (simp add: restart_changes_def)

lemma subsystems_eq:
  assumes "map fst subs = service_subsystems" "map snd subs = [a, b, c]"
  shows "subs = [(request_limits, a), (reloadable_sampler, b), (analytics_runtime, c)]"
  using assms unfolding service_subsystems_def by (auto simp: map_eq_Cons_conv)

lemma su_prepare_simps [simp]:
  "su_prepare request_limits env candidate current v = (Inr (value_change v (Limits (se_requests candidate))), v)"
  "su_prepare reloadable_sampler env candidate current v = (Inr (value_change v (Ratio (sample_ratio (se_telemetry candidate)))), v)"
  "su_prepare analytics_runtime env candidate current v = analysis_prepare env candidate current v"
  by (simp_all add: request_limits_def reloadable_sampler_def analytics_runtime_def)

lemma service_reload:
  assumes "cm_subsystems m = [(request_limits, a), (reloadable_sampler, b), (analytics_runtime, Analysis rt)]"
    and "parse_config digest load_toml content = Inr (candidate, revision)" "revision \<noteq> sn_revision (cm_snapshot m)"
  shows "reload_bytes digest load_toml env content m =
    (case build_report env (se_analysis candidate) of
       Inl er \<Rightarrow> (Inr False, record_failure ''subsystem prepare failed'' m)
     | Inr report \<Rightarrow>
         (Inr True, m\<lparr>cm_snapshot := \<lparr>sn_settings = candidate, sn_revision = revision, sn_generation = sn_generation (cm_snapshot m) + 1,
             sn_restart_required = restart_changes (cm_startup m) candidate\<rparr>,
           cm_status := \<lparr>rs_generation = sn_generation (cm_snapshot m) + 1, rs_revision = revision, rs_last_result = ''applied'',
             rs_last_error = None, rs_restart_required = restart_changes (cm_startup m) candidate\<rparr>,
           cm_subsystems := [(request_limits, Limits (se_requests candidate)), (reloadable_sampler, Ratio (sample_ratio (se_telemetry candidate))),
             (analytics_runtime, publish_report (se_analysis candidate) report)]\<rparr>))"
proof (cases "build_report env (se_analysis candidate)")
  case (Inl er)
  have same: "record_failure message (m\<lparr>cm_subsystems := [(request_limits, a), (reloadable_sampler, b), (analytics_runtime, Analysis rt)]\<rparr>) =
      record_failure message m" for message
    unfolding assms(1) [symmetric] by simp
  from assms(2,3) Inl show ?thesis
    by (simp add: assms(1) same reload_bytes_def Let_def analysis_prepare_def value_change_def abandon_def)
next
  case (Inr report)
  with assms show ?thesis
    by (simp add: reload_bytes_def Let_def analysis_prepare_def value_change_def)
qed

lemma manager_subsystems:
  assumes "manager_ok m"
  obtains rt where "cm_subsystems m = [(request_limits, Limits (se_requests (sn_settings (cm_snapshot m)))),
      (reloadable_sampler, Ratio (sample_ratio (se_telemetry (sn_settings (cm_snapshot m))))), (analytics_runtime, Analysis rt)]"
    "ar_settings rt = se_analysis (sn_settings (cm_snapshot m))"
proof -
  have "runs_with (sn_settings (cm_snapshot m)) (map snd (cm_subsystems m))" using assms unfolding manager_ok_def by blast
  then obtain rt where rt: "map snd (cm_subsystems m) = [Limits (se_requests (sn_settings (cm_snapshot m))),
      Ratio (sample_ratio (se_telemetry (sn_settings (cm_snapshot m)))), Analysis rt]" "ar_settings rt = se_analysis (sn_settings (cm_snapshot m))"
    unfolding runs_with_def by (elim exE conjE)
  have "map fst (cm_subsystems m) = service_subsystems" using assms unfolding manager_ok_def by blast
  from that [OF subsystems_eq [OF this rt(1)] rt(2)] show ?thesis .
qed

lemma record_failure_ok: "manager_ok m \<Longrightarrow> manager_ok (record_failure message m)"
  by (simp add: manager_ok_def record_failure_def)

lemma reload_bytes_ok:
  assumes ok: "manager_ok m"
  shows "manager_ok (snd (reload_bytes digest load_toml env content m))"
proof (cases "parse_config digest load_toml content")
  case (Inl er)
  with ok show ?thesis by (cases er) (simp_all add: reload_bytes_def record_failure_ok)
next
  case (Inr p)
  obtain candidate revision where p: "p = (candidate, revision)" by fastforce
  note parsed = Inr [unfolded p]
  show ?thesis
  proof (cases "revision = sn_revision (cm_snapshot m)")
    case True
    with parsed ok show ?thesis by (simp add: reload_bytes_def Let_def manager_ok_def)
  next
    case False
    from ok obtain rt where subs: "cm_subsystems m = [(request_limits, Limits (se_requests (sn_settings (cm_snapshot m)))),
      (reloadable_sampler, Ratio (sample_ratio (se_telemetry (sn_settings (cm_snapshot m))))), (analytics_runtime, Analysis rt)]"
      by (rule manager_subsystems)
    note r = service_reload [OF subs parsed False, of env]
    show ?thesis
    proof (cases "build_report env (se_analysis candidate)")
      case (Inl er)
      with ok show ?thesis unfolding r by (simp add: record_failure_ok)
    next
      case (Inr report)
      with ok parse_config_valid [OF parsed] show ?thesis unfolding r
        by (simp add: manager_ok_def runs_with_def publish_report_def service_subsystems_def)
    qed
  qed
qed

lemma reload_file_ok: "manager_ok m \<Longrightarrow> manager_ok (snd (reload_file digest load_toml env file m))"
  by (cases "file") (simp_all add: reload_file_def record_failure_ok reload_bytes_ok)

lemma poll_once_ok: "manager_ok (snd s) \<Longrightarrow> manager_ok (snd (snd (poll_once digest load_toml env force probed file s)))"
  using reload_file_ok [of "snd s" digest load_toml env "file"]
  by (cases s; cases probed) (auto simp: poll_once_def split: prod.splits)

lemma watcher_turn_ok: "manager_ok (snd s) \<Longrightarrow> manager_ok (snd (watcher_turn digest load_toml env requested probed file s))"
  using poll_once_ok [of s digest load_toml env requested probed "file"]
  by (auto simp: watcher_turn_def record_failure_ok split: prod.splits sum.splits)

lemma refresh_ok:
  assumes ok: "manager_ok m"
  shows "manager_ok (m\<lparr>cm_subsystems := map (\<lambda>(su, v). (su, snd (refresh_once env v))) (cm_subsystems m)\<rparr>)"
proof -
  from ok obtain rt where subs: "cm_subsystems m = [(request_limits, Limits (se_requests (sn_settings (cm_snapshot m)))),
      (reloadable_sampler, Ratio (sample_ratio (se_telemetry (sn_settings (cm_snapshot m))))), (analytics_runtime, Analysis rt)]"
    "ar_settings rt = se_analysis (sn_settings (cm_snapshot m))" by (rule manager_subsystems)
  have "\<exists>rt'. snd (refresh_once env (Analysis rt)) = Analysis rt' \<and> ar_settings rt' = ar_settings rt"
    by (auto split: sum.splits exn.splits)
  then obtain rt' where "snd (refresh_once env (Analysis rt)) = Analysis rt'" "ar_settings rt' = ar_settings rt" by blast
  with ok subs(2) show ?thesis
    by (simp add: manager_ok_def runs_with_def service_subsystems_def subs(1) del: refresh_once.simps(1))
qed

lemma service_manager_ok:
  assumes "service_manager env m0 = Inr m" "manager_from_bytes digest load_toml content = Inr m0"
  shows "manager_ok m"
proof -
  from assms(2) obtain settings revision where p: "parse_config digest load_toml content = Inr (settings, revision)" "m0 = new_manager settings revision"
    by (auto simp: manager_from_bytes_def and_then_Inr)
  from assms(1) show ?thesis
    using parse_config_valid [OF p(1)]
    by (auto simp: service_manager_def Let_def and_then_Inr register_def p(2) new_manager_def manager_ok_def runs_with_def
        service_subsystems_def request_limits_def reloadable_sampler_def analytics_runtime_def split: if_splits)
qed

definition service_start ::
  "(bytes \<Rightarrow> string) \<Rightarrow> (bytes \<Rightarrow> document res) \<Rightarrow> config_watcher \<times> ('r observations, 'r live_value) config_manager \<Rightarrow> bool" where
  "service_start digest load_toml s \<longleftrightarrow>
     (\<exists>start_telemetry env content watch_config interval probed. create_service digest load_toml start_telemetry env content watch_config interval probed = Inr s)"

interpretation config: machine "service_start digest load_toml" "service_step digest load_toml" "\<lambda>s. manager_ok (snd s)" for digest load_toml
proof (unfold_locales, goal_cases)
  case (1 s)
  then show ?case by (auto simp: service_start_def create_service_def and_then_Inr dest: service_manager_ok)
next
  case (2 s e)
  then show ?case
    by (cases e; cases s) (simp_all add: reload_bytes_ok reload_file_ok watcher_turn_ok refresh_ok)
qed

section \<open>Properties\<close>

text \<open>Property C7. A reload is all or nothing, for any subsystems that keep their contract, also when
  one of them raises while preparing or while committing: it returns True exactly when the whole candidate is
  published as the next generation (or is the one already running), and otherwise the snapshot and what every
  subsystem shows are those from before.\<close>
theorem reload_all_or_nothing:
  assumes "\<forall>su \<in> fst ` set (cm_subsystems m). restores live su" "reload_bytes digest load_toml env content m = (res, m')"
  shows "if res = Inr True
    then \<exists>settings revision. parse_config digest load_toml content = Inr (settings, revision) \<and>
        (if revision = sn_revision (cm_snapshot m) then cm_snapshot m' = cm_snapshot m \<and> cm_subsystems m' = cm_subsystems m
         else cm_snapshot m' = \<lparr>sn_settings = settings, sn_revision = revision, sn_generation = sn_generation (cm_snapshot m) + 1,
           sn_restart_required = restart_changes (cm_startup m) settings\<rparr>)
    else cm_snapshot m' = cm_snapshot m \<and> map (\<lambda>p. live (snd p)) (cm_subsystems m') = map (\<lambda>p. live (snd p)) (cm_subsystems m)"
proof (cases "res = Inr True")
  case True
  with contract.reload_cases [OF assms] show ?thesis unfolding if_P [OF True] by blast
next
  case False
  with contract.reload_cases [OF assms] show ?thesis unfolding if_not_P [OF False] by blast
qed

text \<open>Property C17. A running service never mixes configurations: after any reloads, watcher turns and
  report refreshes, with any files and any failures, the request limits, the sampling ratio and the report
  runtime are those of the published settings, which are valid; the status names the published generation
  and revision; and the fields listed as needing a restart are those that differ from the startup settings.\<close>
theorem service_runs_published_settings:
  assumes "create_service digest load_toml start_telemetry env content watch_config interval probed = Inr s"
    and "fold (service_step digest load_toml) es s = (w, m)"
  shows "runs_with (sn_settings (cm_snapshot m)) (map snd (cm_subsystems m)) \<and> valid_settings (sn_settings (cm_snapshot m)) \<and>
    rs_generation (cm_status m) = sn_generation (cm_snapshot m) \<and> rs_revision (cm_status m) = sn_revision (cm_snapshot m) \<and>
    sn_restart_required (cm_snapshot m) = restart_changes (cm_startup m) (sn_settings (cm_snapshot m))"
proof -
  have "service_start digest load_toml s" using assms(1) unfolding service_start_def by blast
  from config.ok_run [OF this, of es] assms(2) show ?thesis by (simp add: manager_ok_def)
qed

text \<open>Property C34. The watcher converges to the file: when a file it has not seen holds a valid configuration
  and the report it names can be built, the next turn that polls, because polling is on or a reload was requested, publishes it, and
  further unforced turns leave the service alone while the file stays the same.\<close>
theorem watcher_applies_valid_file:
  assumes "create_service digest load_toml start_telemetry env content watch_config interval probed = Inr s"
    and "fold (service_step digest load_toml) es s = (w, m)"
    and "requested \<or> cw_poll_changes w" "cw_token w \<noteq> Some (digest new)"
    and "parse_config digest load_toml new = Inr (settings, revision)" "build_report now (se_analysis settings) = Inr report"
  shows "\<exists>w' m'. watcher_turn digest load_toml now requested (Some new) (Some new) (w, m) = (w', m') \<and>
    sn_revision (cm_snapshot m') = digest new \<and>
    (digest new \<noteq> sn_revision (cm_snapshot m) \<longrightarrow>
       sn_settings (cm_snapshot m') = settings \<and> sn_generation (cm_snapshot m') = sn_generation (cm_snapshot m) + 1) \<and>
    (\<forall>later. watcher_turn digest load_toml later False (Some new) (Some new) (w', m') = (w', m'))"
proof -
  have "service_start digest load_toml s" using assms(1) unfolding service_start_def by blast
  from config.ok_run [OF this, of es] assms(2) have "manager_ok m" by simp
  then obtain rt where subs: "cm_subsystems m = [(request_limits, Limits (se_requests (sn_settings (cm_snapshot m)))),
      (reloadable_sampler, Ratio (sample_ratio (se_telemetry (sn_settings (cm_snapshot m))))), (analytics_runtime, Analysis rt)]"
    by (rule manager_subsystems)
  have rev: "revision = digest new" using parse_config_valid [OF assms(5)] by blast
  have "\<exists>m'. reload_bytes digest load_toml now new m = (Inr True, m') \<and> sn_revision (cm_snapshot m') = digest new \<and>
    (digest new \<noteq> sn_revision (cm_snapshot m) \<longrightarrow>
       sn_settings (cm_snapshot m') = settings \<and> sn_generation (cm_snapshot m') = sn_generation (cm_snapshot m) + 1)"
  proof (cases "revision = sn_revision (cm_snapshot m)")
    case True
    with assms(5) rev show ?thesis by (simp add: reload_bytes_def Let_def)
  next
    case False
    from service_reload [OF subs assms(5) False, of now] assms(6) rev show ?thesis by simp
  qed
  then obtain m' where m': "reload_bytes digest load_toml now new m = (Inr True, m')" "sn_revision (cm_snapshot m') = digest new"
    "digest new \<noteq> sn_revision (cm_snapshot m) \<longrightarrow>
       sn_settings (cm_snapshot m') = settings \<and> sn_generation (cm_snapshot m') = sn_generation (cm_snapshot m) + 1" by blast
  have "watcher_turn digest load_toml now requested (Some new) (Some new) (w, m) = (w\<lparr>cw_token := Some (digest new)\<rparr>, m')"
    using assms(3,4) m'(1) by (auto simp: watcher_turn_def poll_once_def reload_file_def)
  moreover have "watcher_turn digest load_toml later False (Some new) (Some new) (w\<lparr>cw_token := Some (digest new)\<rparr>, m') =
      (w\<lparr>cw_token := Some (digest new)\<rparr>, m')" for later
    by (simp add: watcher_turn_def poll_once_def)
  ultimately show ?thesis using m'(2,3) by blast
qed

text \<open>Property C40. An edit of the file between the moment the manager reads it and the moment the watcher
  first probes it is missed: the service keeps the configuration it read, however often it polls.\<close>
theorem edit_during_startup_is_missed:
  assumes "create_service digest load_toml start_telemetry env content watch_config interval (Some edited) = Inr s"
  shows "sn_revision (cm_snapshot (snd s)) = digest content \<and>
    fold (service_step digest load_toml) (replicate n (Turn now False (Some edited) (Some edited))) s = s"
proof -
  from assms obtain m0 m w where c: "manager_from_bytes digest load_toml content = Inr m0" "service_manager env m0 = Inr m"
    "new_watcher digest interval watch_config (Some edited) = Inr w" "s = (w, m)"
    by (auto simp: create_service_def and_then_Inr)
  have "cm_snapshot m = cm_snapshot m0" using c(2) by (auto simp: service_manager_def Let_def and_then_Inr register_def split: if_splits)
  moreover have "sn_revision (cm_snapshot m0) = digest content"
    using c(1) by (auto simp: manager_from_bytes_def and_then_Inr new_manager_def dest: parse_config_valid)
  moreover have "cw_token w = Some (digest edited)" using c(3) by (auto simp: new_watcher_def split: option.splits if_splits)
  then have "service_step digest load_toml (Turn now False (Some edited) (Some edited)) s = s"
    by (simp add: c(4) watcher_turn_def poll_once_def)
  then have "fold (service_step digest load_toml) (replicate n (Turn now False (Some edited) (Some edited))) s = s"
    by (induction n) simp_all
  ultimately show ?thesis by (simp add: c(4))
qed

section \<open>Witnesses\<close>

definition default_document :: document where
  "default_document =
     [(''schema'', T_table [(''version'', T_int 1)]),
      (''identity'', T_table [(''deployment_environment'', T_str ''local''), (''service_instance_id'', T_str ''sigraft-local'')]),
      (''requests'', T_table [(''max_body_bytes'', T_int 65536), (''max_action_chars'', T_int 4096)]),
      (''telemetry'', T_table [(''sample_ratio'', T_float (Some 1)), (''exporter'', T_str ''memory''),
         (''otlp_endpoint'', T_str ''http://127.0.0.1:4317''), (''otlp_insecure'', T_bool True)]),
      (''analysis'', T_table [(''enabled'', T_bool True), (''observations_path'', T_str ''package:observations.csv''),
         (''refresh_interval_seconds'', T_float (Some 60))])]"

definition with_requests :: "int \<Rightarrow> document" where
  "with_requests n = AList.update ''requests'' (T_table [(''max_body_bytes'', T_int n), (''max_action_chars'', T_int 80)]) default_document"

definition with_ratio :: "toml \<Rightarrow> document" where
  "with_ratio x = AList.update ''telemetry'' (T_table [(''sample_ratio'', x), (''exporter'', T_str ''memory''),
     (''otlp_endpoint'', T_str ''http://127.0.0.1:4317''), (''otlp_insecure'', T_bool True)]) default_document"

text \<open>An integer too large for a float leaves validation as an OverflowError.\<close>

lemma huge_sample_ratio_overflows:
  "parse_document (with_ratio (T_int (10 ^ 400))) = Inl (OverflowError ''int too large to convert to float'')"
  by code_simp

definition sample_digest :: "bytes \<Rightarrow> string" where
  "sample_digest content = replicate (length content) (CHR ''d'')"

definition sample_load :: "bytes \<Rightarrow> document res" where
  "sample_load content =
     (if length content = 1 then Inr default_document else if length content = 2 then Inr (with_requests 512) else Inl (TOMLDecodeError ''empty''))"

definition sample_reports :: "nat observations" where
  "sample_reports path = (if path = ''package:observations.csv'' then Inr 7 else Inl (AnalysisError path))"

definition sample_service :: "config_watcher \<times> (nat observations, nat live_value) config_manager" where
  "sample_service = projr (create_service sample_digest sample_load (\<lambda>settings. Inr ()) sample_reports [1] True (Some 2) (Some [1]))"

lemma not_isl_projr: "isl x = False \<Longrightarrow> x = Inr (projr x)"
  by (cases x) simp_all

lemma sample_service: "create_service sample_digest sample_load (\<lambda>settings. Inr ()) sample_reports [1] True (Some 2) (Some [1]) = Inr sample_service"
  unfolding sample_service_def by (rule not_isl_projr) code_simp

lemma service_runs_published_settings_witness:
  "\<exists>w m. fold (service_step sample_digest sample_load) [Reload sample_reports [1, 1], Reload sample_reports []] sample_service = (w, m) \<and>
     sn_generation (cm_snapshot m) = 2 \<and> runs_with (sn_settings (cm_snapshot m)) (map snd (cm_subsystems m))"
proof -
  let ?es = "[Reload sample_reports [1, 1], Reload sample_reports []]"
  obtain w m where r: "fold (service_step sample_digest sample_load) ?es sample_service = (w, m)" by fastforce
  have "sn_generation (cm_snapshot (snd (fold (service_step sample_digest sample_load) ?es sample_service))) = 2" by code_simp
  with r service_runs_published_settings [OF sample_service r] show ?thesis by auto
qed

lemma watcher_applies_valid_file_witness:
  "\<exists>w' m'. watcher_turn sample_digest sample_load sample_reports False (Some [1, 1]) (Some [1, 1]) sample_service = (w', m') \<and>
     sn_revision (cm_snapshot m') = ''dd''"
proof -
  obtain w m where r: "fold (service_step sample_digest sample_load) [] sample_service = (w, m)" by fastforce
  have "cw_poll_changes (fst sample_service) \<and> cw_token (fst sample_service) \<noteq> Some (sample_digest [1, 1])" by code_simp
  moreover have "sample_service = (w, m)" using r by simp
  then have "fst sample_service = w" by (rule arg_cong [where f = fst, THEN trans]) simp
  ultimately have w: "False \<or> cw_poll_changes w" "cw_token w \<noteq> Some (sample_digest [1, 1])" by blast+
  have "isl (parse_config sample_digest sample_load [1, 1]) = False" by code_simp
  then obtain settings revision where p: "parse_config sample_digest sample_load [1, 1] = Inr (settings, revision)" by (metis not_isl_projr surj_pair)
  have "isl (build_report sample_reports (se_analysis (fst (projr (parse_config sample_digest sample_load [1, 1]))))) = False" by code_simp
  then obtain report where b: "build_report sample_reports (se_analysis settings) = Inr report" using p by (metis not_isl_projr fst_conv sum.sel(2))
  from watcher_applies_valid_file [OF sample_service r w p b] r show ?thesis by (auto simp: sample_digest_def)
qed

lemma edit_during_startup_is_missed_witness:
  "sn_revision (cm_snapshot (snd (projr (create_service sample_digest sample_load (\<lambda>settings. Inr ()) sample_reports [1] True (Some 2) (Some [1, 1]))))) = ''d''"
proof -
  have "isl (create_service sample_digest sample_load (\<lambda>settings. Inr ()) sample_reports [1] True (Some 2) (Some [1, 1])) = False" by code_simp
  from edit_during_startup_is_missed [OF not_isl_projr [OF this]] show ?thesis by (simp add: sample_digest_def)
qed

text \<open>A subsystem that changes its state and then raises while committing.\<close>

definition clumsy :: "(unit, int) subsystem" where
  "clumsy = \<lparr>su_name = ''clumsy'', su_prepare = (\<lambda>env candidate current v.
     (Inr \<lparr>pc_commit = (\<lambda>w. (if v = 2 then Inl (RuntimeError ''commit'') else Inr (), 99)), pc_rollback = (\<lambda>w. (Inr (), v))\<rparr>, v))\<rparr>"

definition clumsy_manager :: "(unit, int) config_manager" where
  "clumsy_manager = (new_manager (projr (parse_document default_document)) ''d'')\<lparr>cm_subsystems := [(clumsy, 1), (clumsy, 2)]\<rparr>"

lemma reload_all_or_nothing_witness:
  "map snd (cm_subsystems (snd (reload_bytes sample_digest sample_load () [1, 1] clumsy_manager))) = [1, 2]"
proof -
  have contract: "\<forall>su \<in> fst ` set (cm_subsystems clumsy_manager). restores id su"
    by (simp add: clumsy_manager_def restores_def clumsy_def)
  obtain res m' where r: "reload_bytes sample_digest sample_load () [1, 1] clumsy_manager = (res, m')" by fastforce
  have "fst (reload_bytes sample_digest sample_load () [1, 1] clumsy_manager) = Inr False" by code_simp
  with r reload_all_or_nothing [OF contract r] show ?thesis by (simp add: clumsy_manager_def)
qed

end
