(* ===== verification/JobService.thy ===== *)
theory JobService
  imports Prelude Complex_Main
begin

text \<open>
  Lab 39, the task store of \<open>lab_39_sigraft_service/sigraft_service.py\<close> and \<open>job_events.py\<close>: tasks, their
  life cycle, and the bounded mailboxes of the observers.  A subscription is an object compared by
  identity; its identity here is the number it was created with.
\<close>

section \<open>JSON values\<close>

datatype json =
    J_null
  | J_bool bool
  | J_int int
  | J_float "rat option"
  | J_str string
  | J_list "json list"
  | J_obj "(string \<times> json) list"

section \<open>Tasks and observers\<close>

record sigraft_task =
  tk_task_id :: string
  tk_action :: string
  tk_state :: string
  tk_checkpoint :: "int option"

record job_event =
  ev_sequence :: int
  ev_job :: sigraft_task

record job_subscription =
  js_task_id :: string
  js_events :: "job_event list"
  js_overflow :: bool

record job_service =
  sv_tasks :: "(string \<times> sigraft_task) list"
  sv_next_id :: int
  sv_subscriptions :: "(nat \<times> job_subscription) list"
  sv_sequence :: int
  sv_fresh :: nat

definition new_job_service :: job_service where
  "new_job_service = \<lparr>sv_tasks = [], sv_next_id = 1, sv_subscriptions = [], sv_sequence = 0, sv_fresh = 0\<rparr>"

definition publish :: "job_event \<Rightarrow> job_subscription \<Rightarrow> job_subscription" where
  "publish event s =
     (if js_overflow s then s
      else if length (js_events s) < 32 then s\<lparr>js_events := js_events s @ [event]\<rparr>
      else s\<lparr>js_overflow := True\<rparr>)"

definition new_subscription :: "string \<Rightarrow> job_subscription" where
  "new_subscription task_id = \<lparr>js_task_id = task_id, js_events = [], js_overflow = False\<rparr>"

text \<open>The mailbox's queue gives the oldest event; None where it is empty.\<close>

definition next_event :: "job_subscription \<Rightarrow> (job_event \<times> job_subscription) option" where
  "next_event s = (case js_events s of [] \<Rightarrow> None | event # events \<Rightarrow> Some (event, s\<lparr>js_events := events\<rparr>))"

definition task_name :: "int \<Rightarrow> string" where
  "task_name n = ''task-'' @ show_int n"

definition checkpoint_of :: "json \<Rightarrow> int option res" where
  "checkpoint_of checkpoint =
     (case checkpoint of
        J_null \<Rightarrow> Inr None
      | J_int n \<Rightarrow> if n < 1 then Inl (ValueError ''checkpoint must be a positive integer'') else Inr (Some n)
      | _ \<Rightarrow> Inl (ValueError ''checkpoint must be a positive integer''))"

definition submit_task :: "int \<Rightarrow> json \<Rightarrow> json \<Rightarrow> job_service \<Rightarrow> sigraft_task res \<times> job_service" where
  "submit_task max_action_chars action checkpoint s =
     (case action of
        J_str text \<Rightarrow>
          (case checkpoint_of checkpoint of
             Inl er \<Rightarrow> (Inl er, s)
           | Inr checked \<Rightarrow>
               let cleaned = strip text in
               if cleaned = [] then (Inl (ValueError ''action must not be empty''), s)
               else if int (length cleaned) > max_action_chars then (Inl (ValueError ''action exceeds the configured limit''), s)
               else
                 let task_id = task_name (sv_next_id s);
                     record0 = \<lparr>tk_task_id = task_id, tk_action = cleaned, tk_state = ''queued'', tk_checkpoint = checked\<rparr>
                 in (Inr record0, s\<lparr>sv_next_id := sv_next_id s + 1, sv_tasks := AList.update task_id record0 (sv_tasks s),
                      sv_sequence := sv_sequence s + 1\<rparr>))
      | _ \<Rightarrow> (Inl (ValueError ''action must be text''), s))"

definition get_task :: "string \<Rightarrow> job_service \<Rightarrow> sigraft_task option" where
  "get_task task_id s = map_of (sv_tasks s) task_id"

definition list_tasks :: "int \<Rightarrow> job_service \<Rightarrow> sigraft_task list res" where
  "list_tasks first s =
     (if first < 1 \<or> first > 100 then Inl (ValueError ''first must be between 1 and 100'')
      else Inr (take (nat first) (dict_values (sv_tasks s))))"

fun allowed_states :: "string \<Rightarrow> string list" where
  "allowed_states state =
     (if state = ''queued'' then [''running''] else if state = ''running'' then [''succeeded'', ''failed''] else [])"

definition transition_task :: "string \<Rightarrow> string \<Rightarrow> job_service \<Rightarrow> sigraft_task res \<times> job_service" where
  "transition_task task_id state s =
     (case map_of (sv_tasks s) task_id of
        None \<Rightarrow> (Inl (KeyError task_id), s)
      | Some record0 \<Rightarrow>
          if state \<notin> set (allowed_states (tk_state record0))
          then (Inl (ValueError (''invalid transition from '' @ tk_state record0 @ '' to '' @ state)), s)
          else
            let updated = record0\<lparr>tk_state := state\<rparr>; event = \<lparr>ev_sequence = sv_sequence s + 1, ev_job = updated\<rparr>
            in (Inr updated, s\<lparr>sv_tasks := AList.update task_id updated (sv_tasks s), sv_sequence := sv_sequence s + 1,
                 sv_subscriptions := map (\<lambda>(i, sub). (i, if js_task_id sub = task_id then publish event sub else sub)) (sv_subscriptions s)\<rparr>))"

definition subscribe_task :: "string \<Rightarrow> job_service \<Rightarrow> (nat \<times> job_subscription) res \<times> job_service" where
  "subscribe_task task_id s =
     (case map_of (sv_tasks s) task_id of
        None \<Rightarrow> (Inl (KeyError task_id), s)
      | Some record0 \<Rightarrow>
          if length (sv_subscriptions s) \<ge> 32 then (Inl (ValueError ''subscription capacity reached''), s)
          else
            let sub = publish \<lparr>ev_sequence = sv_sequence s, ev_job = record0\<rparr> (new_subscription task_id)
            in (Inr (sv_fresh s, sub), s\<lparr>sv_subscriptions := sv_subscriptions s @ [(sv_fresh s, sub)], sv_fresh := sv_fresh s + 1\<rparr>))"

definition unsubscribe_task :: "nat \<Rightarrow> job_service \<Rightarrow> job_service" where
  "unsubscribe_task i s = s\<lparr>sv_subscriptions := filter (\<lambda>(j, sub). j \<noteq> i) (sv_subscriptions s)\<rparr>"

section \<open>Runs\<close>

text \<open>Beside the service, \<open>received\<close> keeps the events each observer has taken from its mailbox.\<close>

datatype job_call =
    Submit int json json
  | Transition string string
  | Subscribe string
  | Unsubscribe nat
  | Receive nat

type_synonym job_run = "job_service \<times> (nat \<Rightarrow> job_event list)"

fun job_step :: "job_call \<Rightarrow> job_run \<Rightarrow> job_run" where
  "job_step (Submit limit action checkpoint) (s, received) = (snd (submit_task limit action checkpoint s), received)"
| "job_step (Transition task_id state) (s, received) = (snd (transition_task task_id state s), received)"
| "job_step (Subscribe task_id) (s, received) = (snd (subscribe_task task_id s), received)"
| "job_step (Unsubscribe i) (s, received) = (unsubscribe_task i s, received)"
| "job_step (Receive i) (s, received) =
     (case Option.bind (map_of (sv_subscriptions s) i) next_event of
        None \<Rightarrow> (s, received)
      | Some (event, sub) \<Rightarrow>
          (s\<lparr>sv_subscriptions := map (\<lambda>(j, old). (j, if j = i then sub else old)) (sv_subscriptions s)\<rparr>,
           received(i := received i @ [event])))"

section \<open>The invariant\<close>

definition task_ok :: "string \<Rightarrow> sigraft_task \<Rightarrow> bool" where
  "task_ok k t \<longleftrightarrow> tk_task_id t = k \<and> tk_action t \<noteq> [] \<and> tk_state t \<in> {''queued'', ''running'', ''succeeded'', ''failed''} \<and>
     (\<forall>n. tk_checkpoint t = Some n \<longrightarrow> 1 \<le> n)"

definition moves :: "job_event \<Rightarrow> job_event \<Rightarrow> bool" where
  "moves a b \<longleftrightarrow> ev_sequence a < ev_sequence b \<and> tk_state (ev_job b) \<in> set (allowed_states (tk_state (ev_job a))) \<and>
     ev_job b = (ev_job a)\<lparr>tk_state := tk_state (ev_job b)\<rparr>"

definition seen_ok :: "(string \<rightharpoonup> sigraft_task) \<Rightarrow> int \<Rightarrow> job_subscription \<Rightarrow> job_event list \<Rightarrow> bool" where
  "seen_ok tasks sequence sub events \<longleftrightarrow>
     \<not> js_overflow sub \<and> events \<noteq> [] \<and> successively moves events \<and> ev_sequence (last events) \<le> sequence \<and>
     tasks (js_task_id sub) = Some (ev_job (last events))"

definition jobs_run_ok :: "job_run \<Rightarrow> bool" where
  "jobs_run_ok = (\<lambda>(s, received).
     0 < sv_next_id s \<and> dict_keys (sv_tasks s) = map task_name [1..sv_next_id s - 1] \<and>
     (\<forall>(k, t) \<in> set (sv_tasks s). task_ok k t) \<and>
     distinct (dict_keys (sv_subscriptions s)) \<and> length (sv_subscriptions s) \<le> 32 \<and>
     (\<forall>i \<in> set (dict_keys (sv_subscriptions s)). i < sv_fresh s) \<and> (\<forall>i. sv_fresh s \<le> i \<longrightarrow> received i = []) \<and>
     (\<forall>(i, sub) \<in> set (sv_subscriptions s). seen_ok (map_of (sv_tasks s)) (sv_sequence s) sub (received i @ js_events sub)))"

lemma task_name_inject [simp]: "0 \<le> m \<Longrightarrow> 0 \<le> n \<Longrightarrow> task_name m = task_name n \<longleftrightarrow> m = n"
  by (simp add: task_name_def show_int_inject_nonneg)

lemma fresh_task_name: "0 < n \<Longrightarrow> task_name n \<notin> set (map task_name [1..n - 1])"
  by (auto simp: task_name_def show_int_inject_nonneg)

lemma strip_nonempty: "strip s = [] \<or> strip s \<noteq> []"
  by blast

text \<open>A life cycle has at most three states, so an observer is told of at most three events.\<close>

lemma moves_length:
  assumes "successively moves events"
  shows "length events \<le> 3"
proof (rule ccontr)
  assume "\<not> length events \<le> 3"
  then obtain a b c d rest where "events = a # b # c # d # rest"
    by (cases events; cases "tl events"; cases "tl (tl events)"; cases "tl (tl (tl events))") auto
  with assms show False by (auto simp: moves_def split: if_splits)
qed

lemma jobs_run_okD:
  assumes "jobs_run_ok (s, received)"
  shows "0 < sv_next_id s" "dict_keys (sv_tasks s) = map task_name [1..sv_next_id s - 1]"
    "\<And>k t. (k, t) \<in> set (sv_tasks s) \<Longrightarrow> task_ok k t" "distinct (dict_keys (sv_subscriptions s))" "length (sv_subscriptions s) \<le> 32"
    "\<And>i. i \<in> set (dict_keys (sv_subscriptions s)) \<Longrightarrow> i < sv_fresh s" "\<And>i. sv_fresh s \<le> i \<Longrightarrow> received i = []"
    "\<And>i sub. (i, sub) \<in> set (sv_subscriptions s) \<Longrightarrow> seen_ok (map_of (sv_tasks s)) (sv_sequence s) sub (received i @ js_events sub)"
  using assms unfolding jobs_run_ok_def by auto

lemma task_names_distinct: "distinct (map task_name [1..n])"
  by (auto simp: distinct_map inj_on_def)

lemma seen_mono:
  assumes "seen_ok tasks n sub events" "n \<le> n'" "tasks' (js_task_id sub) = tasks (js_task_id sub)"
  shows "seen_ok tasks' n' sub events"
  using assms unfolding seen_ok_def by auto

lemma submit_task_ok:
  assumes ok: "jobs_run_ok (s, received)"
  shows "jobs_run_ok (snd (submit_task limit action checkpoint s), received)"
proof (cases "\<exists>t. fst (submit_task limit action checkpoint s) = Inr t")
  case False
  then have "snd (submit_task limit action checkpoint s) = s"
    by (auto simp: submit_task_def Let_def split: json.splits sum.splits)
  with ok show ?thesis by simp
next
  case True
  then obtain txt0 checked where c: "checkpoint_of checkpoint = Inr checked" "strip txt0 \<noteq> []"
    and s': "snd (submit_task limit action checkpoint s) = s\<lparr>sv_next_id := sv_next_id s + 1,
      sv_tasks := AList.update (task_name (sv_next_id s)) \<lparr>tk_task_id = task_name (sv_next_id s), tk_action = strip txt0, tk_state = ''queued'', tk_checkpoint = checked\<rparr> (sv_tasks s),
      sv_sequence := sv_sequence s + 1\<rparr>" (is "_ = ?s")
    by (auto simp: submit_task_def Let_def split: json.splits sum.splits if_splits)
  note d = jobs_run_okD [OF ok]
  let ?name = "task_name (sv_next_id s)"
  let ?t = "\<lparr>tk_task_id = ?name, tk_action = strip txt0, tk_state = ''queued'', tk_checkpoint = checked\<rparr>"
  have fresh: "?name \<notin> set (dict_keys (sv_tasks s))" using d(1) fresh_task_name unfolding d(2) by blast
  then have tasks: "sv_tasks ?s = sv_tasks s @ [(?name, ?t)]" by (simp add: update_fresh del: set_map)
  have "task_ok ?name ?t" using c by (auto simp: task_ok_def checkpoint_of_def split: json.splits if_splits)
  moreover have "[1..sv_next_id s] = [1..sv_next_id s - 1] @ [sv_next_id s]" using d(1) by (simp add: upto_rec2)
  moreover have "seen_ok (map_of (sv_tasks ?s)) (sv_sequence ?s) sub (received i @ js_events sub)" if "(i, sub) \<in> set (sv_subscriptions s)" for i sub
  proof (rule seen_mono [OF d(8) [OF that]])
    have "map_of (sv_tasks s) (js_task_id sub) \<noteq> None" using d(8) [OF that] by (simp add: seen_ok_def)
    then have "js_task_id sub \<noteq> ?name" using fresh by (metis map_of_eq_None_iff list.set_map)
    then show "map_of (sv_tasks ?s) (js_task_id sub) = map_of (sv_tasks s) (js_task_id sub)"
      unfolding tasks by (auto simp: map_add_def split: option.split)
  qed simp
  ultimately show ?thesis
    using d unfolding s' jobs_run_ok_def tasks [simplified] by (auto simp: tasks [simplified])
qed

lemma moves_publish:
  assumes "seen_ok tasks n sub (seen @ js_events sub)" "tasks (js_task_id sub) = Some t" "state \<in> set (allowed_states (tk_state t))"
    "tasks' (js_task_id sub) = Some (t\<lparr>tk_state := state\<rparr>)"
  shows "seen_ok tasks' (n + 1) (publish \<lparr>ev_sequence = n + 1, ev_job = t\<lparr>tk_state := state\<rparr>\<rparr> sub)
    (seen @ js_events (publish \<lparr>ev_sequence = n + 1, ev_job = t\<lparr>tk_state := state\<rparr>\<rparr> sub))"
proof -
  have "length (seen @ js_events sub) \<le> 3" using assms(1) moves_length unfolding seen_ok_def by blast
  then have room: "length (js_events sub) < 32" by simp
  have seen: "\<not> js_overflow sub" "seen @ js_events sub \<noteq> []" "successively moves (seen @ js_events sub)"
    "ev_sequence (last (seen @ js_events sub)) \<le> n" "ev_job (last (seen @ js_events sub)) = t"
    using assms(1,2) unfolding seen_ok_def by auto
  have "moves (last (seen @ js_events sub)) \<lparr>ev_sequence = n + 1, ev_job = t\<lparr>tk_state := state\<rparr>\<rparr>"
    using seen(4,5) assms(3) by (simp add: moves_def)
  then have "successively moves ((seen @ js_events sub) @ [\<lparr>ev_sequence = n + 1, ev_job = t\<lparr>tk_state := state\<rparr>\<rparr>])"
    using seen(2,3) unfolding successively_append_iff by simp
  with seen(1) room assms(4) show ?thesis by (simp add: seen_ok_def publish_def)
qed

lemma transition_ok:
  assumes ok: "jobs_run_ok (s, received)"
  shows "jobs_run_ok (snd (transition_task task_id state s), received)"
proof (cases "\<exists>t. map_of (sv_tasks s) task_id = Some t \<and> state \<in> set (allowed_states (tk_state t))")
  case False
  then have "snd (transition_task task_id state s) = s" by (auto simp: transition_task_def simp del: allowed_states.simps split: option.splits)
  with ok show ?thesis by simp
next
  case True
  then obtain t where t: "map_of (sv_tasks s) task_id = Some t" "state \<in> set (allowed_states (tk_state t))" by blast
  let ?t = "t\<lparr>tk_state := state\<rparr>" and ?e = "\<lparr>ev_sequence = sv_sequence s + 1, ev_job = t\<lparr>tk_state := state\<rparr>\<rparr>"
  let ?subs = "map (\<lambda>(i, sub). (i, if js_task_id sub = task_id then publish ?e sub else sub)) (sv_subscriptions s)"
  have s': "snd (transition_task task_id state s) = s\<lparr>sv_tasks := AList.update task_id ?t (sv_tasks s), sv_sequence := sv_sequence s + 1,
      sv_subscriptions := ?subs\<rparr>" using t by (simp add: transition_task_def Let_def del: allowed_states.simps)
  note d = jobs_run_okD [OF ok]
  have keys: "dict_keys (AList.update task_id ?t (sv_tasks s)) = map task_name [1..sv_next_id s - 1]"
    unfolding dict_keys_update_present [OF t(1)] by (rule d(2))
  have "task_ok task_id t" by (rule d(3) [OF map_of_SomeD [OF t(1)]])
  then have "task_ok task_id ?t" using t(2) by (auto simp: task_ok_def split: if_splits)
  then have tasks: "task_ok k u" if "(k, u) \<in> set (AList.update task_id ?t (sv_tasks s))" for k u
    using set_update_cases [OF that] d(3) by auto
  have subs_keys: "dict_keys ?subs = dict_keys (sv_subscriptions s)" by (simp add: case_prod_unfold comp_def)
  have "seen_ok (map_of (AList.update task_id ?t (sv_tasks s))) (sv_sequence s + 1) sub' (received i @ js_events sub')"
    if in_subs: "(i, sub') \<in> set ?subs" for i sub'
  proof -
    from in_subs obtain sub where sub: "(i, sub) \<in> set (sv_subscriptions s)" "sub' = (if js_task_id sub = task_id then publish ?e sub else sub)" by auto
    show ?thesis
    proof (cases "js_task_id sub = task_id")
      case True
      with moves_publish [OF d(8) [OF sub(1)] _ t(2), of "map_of (AList.update task_id ?t (sv_tasks s))"] t(1) sub(2) show ?thesis
        by (simp add: update_conv')
    next
      case False
      with sub(2) show ?thesis by (simp add: update_conv' seen_mono [OF d(8) [OF sub(1)]])
    qed
  qed
  with d keys tasks subs_keys show ?thesis unfolding s' jobs_run_ok_def by (simp del: set_map map_map) (auto simp del: set_map map_map)
qed

lemma subscribe_ok:
  assumes ok: "jobs_run_ok (s, received)"
  shows "jobs_run_ok (snd (subscribe_task task_id s), received)"
proof (cases "\<exists>t. map_of (sv_tasks s) task_id = Some t \<and> length (sv_subscriptions s) < 32")
  case False
  then have "snd (subscribe_task task_id s) = s" by (auto simp: subscribe_task_def split: option.splits)
  with ok show ?thesis by simp
next
  case True
  then obtain t where t: "map_of (sv_tasks s) task_id = Some t" "length (sv_subscriptions s) < 32" by blast
  note d = jobs_run_okD [OF ok]
  have "sv_fresh s \<notin> set (dict_keys (sv_subscriptions s))" using d(6) by blast
  with d t show ?thesis
    by (auto simp: subscribe_task_def Let_def jobs_run_ok_def seen_ok_def publish_def new_subscription_def less_Suc_eq)
qed

lemma unsubscribe_ok:
  assumes "jobs_run_ok (s, received)"
  shows "jobs_run_ok (unsubscribe_task i s, received)"
  using jobs_run_okD [OF assms] unfolding unsubscribe_task_def jobs_run_ok_def
  by (auto simp: distinct_map inj_on_def intro: le_trans [OF length_filter_le])

lemma receive_ok:
  assumes ok: "jobs_run_ok (s, received)"
  shows "jobs_run_ok (job_step (Receive i) (s, received))"
proof (cases "Option.bind (map_of (sv_subscriptions s) i) next_event")
  case None
  with ok show ?thesis by simp
next
  case (Some p)
  then obtain sub event events where sub: "map_of (sv_subscriptions s) i = Some sub" "js_events sub = event # events"
    "p = (event, sub\<lparr>js_events := events\<rparr>)" by (cases p) (auto simp: bind_eq_Some_conv next_event_def neq_Nil_conv split: list.split_asm)
  note d = jobs_run_okD [OF ok]
  let ?subs = "map (\<lambda>(j, old). (j, if j = i then sub\<lparr>js_events := events\<rparr> else old)) (sv_subscriptions s)"
  have step: "job_step (Receive i) (s, received) = (s\<lparr>sv_subscriptions := ?subs\<rparr>, received(i := received i @ [event]))"
    using Some sub(3) by simp
  have subs_keys: "dict_keys ?subs = dict_keys (sv_subscriptions s)" by (simp add: case_prod_unfold comp_def)
  have i: "i \<in> set (dict_keys (sv_subscriptions s))" using map_of_SomeD [OF sub(1)] by force
  have "seen_ok (map_of (sv_tasks s)) (sv_sequence s) sub' ((received(i := received i @ [event])) j @ js_events sub')" if "(j, sub') \<in> set ?subs" for j sub'
  proof (cases "j = i")
    case True
    with that have "sub' = sub\<lparr>js_events := events\<rparr>" by auto
    with True d(8) [OF map_of_SomeD [OF sub(1)]] sub(2) show ?thesis by (simp add: seen_ok_def)
  next
    case False
    with that d(8) [of j sub'] show ?thesis by auto
  qed
  moreover have "(received(i := received i @ [event])) j = []" if "sv_fresh s \<le> j" for j using d(6) [OF i] d(7) [OF that] that by auto
  ultimately show ?thesis
    using d subs_keys unfolding step jobs_run_ok_def by (simp del: set_map map_map fun_upd_apply) (auto simp del: set_map map_map fun_upd_apply)
qed

interpretation jobs: machine "\<lambda>r. r = (new_job_service, \<lambda>i. [])" job_step jobs_run_ok
proof (unfold_locales, goal_cases)
  case (1 r)
  then show ?case by (simp add: jobs_run_ok_def new_job_service_def)
next
  case (2 r call)
  then show ?case
    by (cases call; cases r) (simp_all only: job_step.simps(1-4) submit_task_ok transition_ok subscribe_ok unsubscribe_ok receive_ok)
qed

text \<open>
  Property C20.  What an observer is told, in any run: every live subscription is never dropped for
  overflow, has been told at least one event, and the events it took and those still waiting in its mailbox
  are, in order, legal moves of one task with growing sequence numbers, the last of them the task as it is stored now.
\<close>
theorem observers_miss_nothing:
  assumes "(s, received) = fold job_step calls (new_job_service, \<lambda>i. [])" "(i, sub) \<in> set (sv_subscriptions s)"
  shows "\<not> js_overflow sub \<and> received i @ js_events sub \<noteq> [] \<and>
    successively
      (\<lambda>a b. ev_sequence a < ev_sequence b \<and> tk_state (ev_job b) \<in> set (allowed_states (tk_state (ev_job a))) \<and>
        ev_job b = (ev_job a)\<lparr>tk_state := tk_state (ev_job b)\<rparr>) (received i @ js_events sub) \<and>
    get_task (js_task_id sub) s = Some (ev_job (last (received i @ js_events sub)))"
proof -
  have "jobs_run_ok (s, received)" unfolding assms(1) by (rule jobs.ok_run) simp
  then have "seen_ok (map_of (sv_tasks s)) (sv_sequence s) sub (received i @ js_events sub)" using assms(2) by (rule jobs_run_okD(8))
  then show ?thesis unfolding seen_ok_def get_task_def moves_def by (simp del: allowed_states.simps)
qed

definition watched_run :: "job_call list" where
  "watched_run = [Submit 500 (J_str ''build'') J_null, Subscribe ''task-1'', Transition ''task-1'' ''running'', Receive 0,
     Transition ''task-1'' ''succeeded'']"

lemma observers_miss_nothing_witness:
  "\<exists>s received sub. fold job_step watched_run (new_job_service, \<lambda>i. []) = (s, received) \<and> (0, sub) \<in> set (sv_subscriptions s) \<and>
     \<not> js_overflow sub \<and> length (received 0) = 1 \<and> map (tk_state \<circ> ev_job) (received 0 @ js_events sub) = [''queued'', ''running'', ''succeeded''] \<and>
     get_task (js_task_id sub) s = Some (ev_job (last (received 0 @ js_events sub)))"
proof -
  let ?t = "\<lambda>state. \<lparr>tk_task_id = ''task-1'', tk_action = ''build'', tk_state = state, tk_checkpoint = None\<rparr>"
  let ?sub = "\<lparr>js_task_id = ''task-1'', js_events = [\<lparr>ev_sequence = 2, ev_job = ?t ''running''\<rparr>, \<lparr>ev_sequence = 3, ev_job = ?t ''succeeded''\<rparr>],
    js_overflow = False\<rparr>"
  obtain s received where r: "fold job_step watched_run (new_job_service, \<lambda>i. []) = (s, received)" by fastforce
  have s: "sv_subscriptions (fst (fold job_step watched_run (new_job_service, \<lambda>i. []))) = [(0, ?sub)]" by code_simp
  have seen: "snd (fold job_step watched_run (new_job_service, \<lambda>i. [])) 0 = [\<lparr>ev_sequence = 1, ev_job = ?t ''queued''\<rparr>]" by code_simp
  have sub: "(0, ?sub) \<in> set (sv_subscriptions s)" using s r by simp
  from seen r have "received 0 = [\<lparr>ev_sequence = 1, ev_job = ?t ''queued''\<rparr>]" by simp
  with observers_miss_nothing [OF r [symmetric] sub] sub r show ?thesis
    by (intro exI [where x = s] exI [where x = received] exI [where x = ?sub]) simp
qed

end
