(* ===== verification/ClusterScheduler.thy ===== *)
theory ClusterScheduler
  imports JobService "HOL-Library.Product_Lexorder"
begin

text \<open>
  Lab 39, \<open>lab_39_sigraft_service/scheduler.py\<close>: resource requests and node heartbeats read from JSON, and
  the single-leader scheduler that places queued jobs on nodes under a lease.  A frozenset of labels is a
  set; the dictionaries of nodes, jobs and dispatches keep their insertion order.
\<close>

section \<open>Reading JSON\<close>

type_synonym payload = "(string \<times> json) list"

definition get_item :: "payload \<Rightarrow> string \<Rightarrow> json \<Rightarrow> json" where
  "get_item value key fallback = (case map_of value key of None \<Rightarrow> fallback | Some item \<Rightarrow> item)"

text \<open>\<open>_integer\<close>; the fallback is \<open>J_null\<close> where the source has none.\<close>

definition integer_item :: "payload \<Rightarrow> string \<Rightarrow> json \<Rightarrow> int res" where
  "integer_item value key fallback =
     (case get_item value key fallback of J_int n \<Rightarrow> Inr n | _ \<Rightarrow> Inl (ValueError (key @ '' must be an integer'')))"

definition optional_integer :: "payload \<Rightarrow> string \<Rightarrow> int option res" where
  "optional_integer value key =
     (case get_item value key J_null of
        J_null \<Rightarrow> Inr None
      | J_int n \<Rightarrow> Inr (Some n)
      | _ \<Rightarrow> Inl (ValueError (key @ '' must be an integer'')))"

definition optional_text :: "payload \<Rightarrow> string \<Rightarrow> string option res" where
  "optional_text value key =
     (case get_item value key J_null of
        J_null \<Rightarrow> Inr None
      | J_str s \<Rightarrow> if s = [] then Inl (ValueError (key @ '' must be non-empty text'')) else Inr (Some s)
      | _ \<Rightarrow> Inl (ValueError (key @ '' must be non-empty text'')))"

fun integers_of :: "json list \<Rightarrow> int list option" where
  "integers_of [] = Some []"
| "integers_of (J_int n # items) = map_option ((#) n) (integers_of items)"
| "integers_of (item # items) = None"

definition integer_values :: "json \<Rightarrow> string \<Rightarrow> int list res" where
  "integer_values value label =
     (case value of
        J_list items \<Rightarrow> (case integers_of items of None \<Rightarrow> Inl (ValueError (label @ '' must contain integers'')) | Some ns \<Rightarrow> Inr ns)
      | _ \<Rightarrow> Inl (ValueError (label @ '' must contain integers'')))"

definition integer_tuple :: "payload \<Rightarrow> string \<Rightarrow> bool \<Rightarrow> int list res" where
  "integer_tuple value key required =
     (let item = get_item value key J_null in if item = J_null \<and> \<not> required then Inr [] else integer_values item key)"

fun texts_of :: "json list \<Rightarrow> string list option" where
  "texts_of [] = Some []"
| "texts_of (J_str s # items) = map_option ((#) s) (texts_of items)"
| "texts_of (item # items) = None"

definition text_set :: "payload \<Rightarrow> string \<Rightarrow> string set res" where
  "text_set value key =
     (case get_item value key (J_list []) of
        J_list items \<Rightarrow> (case texts_of items of None \<Rightarrow> Inl (ValueError (key @ '' must contain text values'')) | Some ts \<Rightarrow> Inr (set ts))
      | _ \<Rightarrow> Inl (ValueError (key @ '' must contain text values'')))"

text \<open>\<open>int(text)\<close>: digits, with single underscores between them, a sign, and whitespace around.\<close>

definition decimal :: "char \<Rightarrow> bool" where
  "decimal c \<longleftrightarrow> 48 \<le> (of_char c :: nat) \<and> (of_char c :: nat) \<le> 57"

fun digit_groups :: "string \<Rightarrow> bool" where
  "digit_groups [] = False"
| "digit_groups [c] = decimal c"
| "digit_groups (c # d # cs) = (decimal c \<and> (if d = CHR ''_'' then digit_groups cs else digit_groups (d # cs)))"

definition int_of_text :: "string \<Rightarrow> int res" where
  "int_of_text s =
     (let t = strip s;
          negative = (take 1 t = ''-'');
          body = (if take 1 t = ''-'' \<or> take 1 t = ''+'' then drop 1 t else t);
          digits = filter (\<lambda>c. c \<noteq> CHR ''_'') body
      in if digit_groups body \<and> length digits \<le> 4300
         then Inr (if negative then - int (read_nat digits) else int (read_nat digits))
         else Inl (ValueError ''invalid literal for int()''))"

section \<open>Requests and nodes\<close>

datatype scheduled_state = QUEUED | SCHEDULED | RUNNING | SUCCEEDED | FAILED | CANCELLED

record scheduler_resources =
  cpu_cores :: int
  memory_mb :: int
  gpu_count :: int
  gpu_class :: "string option"
  wall_time_seconds :: int
  numa_node :: "int option"
  cpu_affinity :: "int list"
  rq_labels :: "string set"

definition resources_check :: "scheduler_resources \<Rightarrow> unit res" where
  "resources_check r =
     (if cpu_cores r < 1 \<or> memory_mb r < 1 \<or> wall_time_seconds r < 1 then Inl (ValueError ''CPU, memory and wall time must be positive'')
      else if gpu_count r < 0 then Inl (ValueError ''gpu_count must not be negative'')
      else if gpu_class r \<noteq> None \<and> gpu_count r = 0 then Inl (ValueError ''gpu_class requires at least one GPU'')
      else if (case numa_node r of None \<Rightarrow> False | Some n \<Rightarrow> n < 0) then Inl (ValueError ''numa_node must not be negative'')
      else if \<not> distinct (cpu_affinity r) then Inl (ValueError ''cpu_affinity entries must be unique'')
      else if cpu_affinity r \<noteq> [] \<and> int (length (cpu_affinity r)) < cpu_cores r then Inl (ValueError ''cpu_affinity is smaller than cpu_cores'')
      else Inr ())"

definition resource_fields :: "string set" where
  "resource_fields = {''cpu_cores'', ''memory_mb'', ''gpu_count'', ''gpu_class'', ''wall_time_seconds'', ''numa_node'', ''cpu_affinity'', ''labels''}"

definition resources_from_mapping :: "payload \<Rightarrow> scheduler_resources res" where
  "resources_from_mapping value =
     (if \<not> set (dict_keys value) \<subseteq> resource_fields
      then Inl (ValueError (''unknown resource fields: '' @ join_names (set (dict_keys value) - resource_fields)))
      else
        and_then (integer_item value ''cpu_cores'' J_null) (\<lambda>cores.
        and_then (integer_item value ''memory_mb'' J_null) (\<lambda>memory.
        and_then (integer_item value ''gpu_count'' (J_int 0)) (\<lambda>gpus.
        and_then (optional_text value ''gpu_class'') (\<lambda>class.
        and_then (integer_item value ''wall_time_seconds'' (J_int 3600)) (\<lambda>wall.
        and_then (optional_integer value ''numa_node'') (\<lambda>numa.
        and_then (integer_tuple value ''cpu_affinity'' False) (\<lambda>affinity.
        and_then (text_set value ''labels'') (\<lambda>labels.
        let r = \<lparr>cpu_cores = cores, memory_mb = memory, gpu_count = gpus, gpu_class = class, wall_time_seconds = wall,
              numa_node = numa, cpu_affinity = affinity, rq_labels = labels\<rparr>
        in and_then (resources_check r) (\<lambda>_. Inr r))))))))))"

record scheduler_gpu =
  gd_device_id :: string
  gd_device_class :: string
  gd_numa_node :: "int option"

record scheduler_node =
  nd_node_id :: string
  nd_cpu_ids :: "int list"
  nd_memory_mb :: int
  nd_gpus :: "scheduler_gpu list"
  nd_numa_cpus :: "(int \<times> int list) list"
  nd_labels :: "string set"
  nd_heartbeat_at :: int

definition gpu_from_mapping :: "json \<Rightarrow> scheduler_gpu res" where
  "gpu_from_mapping value =
     (case value of
        J_obj entries \<Rightarrow>
          (case (get_item entries ''device_id'' J_null, get_item entries ''device_class'' J_null) of
             (J_str device, J_str class) \<Rightarrow>
               (case get_item entries ''numa_node'' J_null of
                  J_null \<Rightarrow> Inr \<lparr>gd_device_id = device, gd_device_class = class, gd_numa_node = None\<rparr>
                | J_int n \<Rightarrow> Inr \<lparr>gd_device_id = device, gd_device_class = class, gd_numa_node = Some n\<rparr>
                | _ \<Rightarrow> Inl (ValueError ''GPU numa_node must be an integer''))
           | _ \<Rightarrow> Inl (ValueError ''GPU id and class must be text''))
      | _ \<Rightarrow> Inl (ValueError ''each GPU must be an object''))"

fun gpus_from :: "json list \<Rightarrow> scheduler_gpu list res" where
  "gpus_from [] = Inr []"
| "gpus_from (item # items) = and_then (gpu_from_mapping item) (\<lambda>gpu. and_then (gpus_from items) (\<lambda>gpus. Inr (gpu # gpus)))"

fun numa_from :: "(string \<times> json) list \<Rightarrow> (int \<times> int list) list \<Rightarrow> (int \<times> int list) list res" where
  "numa_from [] numa = Inr numa"
| "numa_from ((node, cpus) # items) numa =
     and_then (int_of_text node) (\<lambda>n. and_then (integer_values cpus ''NUMA CPU list'') (\<lambda>ids. numa_from items (AList.update n ids numa)))"

definition node_from_mapping :: "payload \<Rightarrow> scheduler_node res" where
  "node_from_mapping value =
     (case get_item value ''node_id'' J_null of
        J_str node_id \<Rightarrow>
          if node_id = [] then Inl (ValueError ''node_id must be non-empty text'')
          else
            (case (get_item value ''gpus'' (J_list []), get_item value ''numa_cpus'' (J_obj [])) of
               (J_list raw_gpus, J_obj raw_numa) \<Rightarrow>
                 and_then (gpus_from raw_gpus) (\<lambda>gpus.
                 and_then (numa_from raw_numa []) (\<lambda>numa_cpus.
                 and_then (integer_tuple value ''cpu_ids'' True) (\<lambda>cpu_ids.
                 and_then (integer_item value ''memory_mb'' J_null) (\<lambda>memory.
                 and_then (text_set value ''labels'') (\<lambda>labels.
                 and_then (integer_item value ''heartbeat_at'' J_null) (\<lambda>heartbeat_at.
                 if cpu_ids = [] \<or> memory < 1 then Inl (ValueError ''node CPU and memory capacity must be positive'')
                 else if \<exists>(n, cpus) \<in> set numa_cpus. \<not> set cpus \<subseteq> set cpu_ids
                 then Inl (ValueError ''NUMA CPU lists must be subsets of cpu_ids'')
                 else Inr \<lparr>nd_node_id = node_id, nd_cpu_ids = cpu_ids, nd_memory_mb = memory, nd_gpus = gpus,
                        nd_numa_cpus = numa_cpus, nd_labels = labels, nd_heartbeat_at = heartbeat_at\<rparr>))))))
             | _ \<Rightarrow> Inl (ValueError ''gpus must be a list and numa_cpus must be an object''))
      | _ \<Rightarrow> Inl (ValueError ''node_id must be non-empty text''))"

section \<open>The scheduler\<close>

record scheduled_job =
  jb_task_id :: string
  jb_project :: string
  jb_resources :: scheduler_resources
  jb_priority :: int
  jb_sequence :: int
  jb_max_attempts :: int
  jb_attempts :: int
  jb_state :: scheduled_state
  jb_allocation_id :: "string option"
  jb_node_id :: "string option"
  jb_lease_expires_at :: "int option"

record scheduler_dispatch =
  dp_allocation_id :: string
  dp_task_id :: string
  dp_node_id :: string
  dp_queue :: string
  dp_cpu_ids :: "int list"
  dp_memory_max_bytes :: int
  dp_gpu_ids :: "string list"
  dp_numa_node :: "int option"
  dp_environment :: "(string \<times> string) list"

record sigraft_scheduler =
  sc_heartbeat_timeout :: int
  sc_leader_id :: string
  sc_nodes :: "(string \<times> scheduler_node) list"
  sc_jobs :: "(string \<times> scheduled_job) list"
  sc_dispatches :: "(string \<times> scheduler_dispatch) list"
  sc_sequence :: int
  sc_revision :: int

definition new_scheduler :: sigraft_scheduler where
  "new_scheduler = \<lparr>sc_heartbeat_timeout = 30, sc_leader_id = ''sigraft-scheduler'', sc_nodes = [], sc_jobs = [], sc_dispatches = [],
     sc_sequence = 0, sc_revision = 0\<rparr>"

definition eligible_cpus :: "scheduler_resources \<Rightarrow> scheduler_node \<Rightarrow> int list" where
  "eligible_cpus r n =
     (let cpus = (if cpu_affinity r \<noteq> [] then cpu_affinity r else nd_cpu_ids n)
      in sort (case numa_node r of
           None \<Rightarrow> cpus
         | Some numa \<Rightarrow> filter (\<lambda>cpu. cpu \<in> set (case map_of (nd_numa_cpus n) numa of None \<Rightarrow> [] | Some ids \<Rightarrow> ids)) cpus))"

definition eligible_gpus :: "scheduler_resources \<Rightarrow> scheduler_node \<Rightarrow> scheduler_gpu list" where
  "eligible_gpus r n =
     filter (\<lambda>g. (case gpu_class r of None \<Rightarrow> True | Some c \<Rightarrow> gd_device_class g = c) \<and>
       (case numa_node r of None \<Rightarrow> True | Some numa \<Rightarrow> gd_numa_node g = Some numa)) (nd_gpus n)"

definition static_fit :: "scheduler_resources \<Rightarrow> scheduler_node \<Rightarrow> bool" where
  "static_fit r n \<longleftrightarrow> rq_labels r \<subseteq> nd_labels n \<and> memory_mb r \<le> nd_memory_mb n \<and>
     cpu_cores r \<le> int (length (eligible_cpus r n)) \<and> gpu_count r \<le> int (length (eligible_gpus r n))"

definition heartbeat :: "scheduler_node \<Rightarrow> sigraft_scheduler \<Rightarrow> unit res \<times> sigraft_scheduler" where
  "heartbeat node s =
     (case map_of (sc_nodes s) (nd_node_id node) of
        Some previous \<Rightarrow>
          if nd_heartbeat_at node < nd_heartbeat_at previous then (Inl (ValueError ''heartbeat time must not move backwards''), s)
          else (Inr (), s\<lparr>sc_nodes := AList.update (nd_node_id node) node (sc_nodes s)\<rparr>)
      | None \<Rightarrow> (Inr (), s\<lparr>sc_nodes := AList.update (nd_node_id node) node (sc_nodes s)\<rparr>))"

definition validate_request :: "scheduler_resources \<Rightarrow> sigraft_scheduler \<Rightarrow> unit res" where
  "validate_request r s =
     (if sc_nodes s \<noteq> [] \<and> \<not> (\<exists>node \<in> set (dict_values (sc_nodes s)). static_fit r node)
      then Inl (ValueError ''no registered node can satisfy the resource request'') else Inr ())"

definition submit :: "string \<Rightarrow> string \<Rightarrow> scheduler_resources \<Rightarrow> int \<Rightarrow> int \<Rightarrow> sigraft_scheduler \<Rightarrow> scheduled_job res \<times> sigraft_scheduler" where
  "submit task_id project resources priority max_attempts s =
     (if task_id \<in> set (dict_keys (sc_jobs s)) then (Inl (ValueError ''task is already registered with the scheduler''), s)
      else if strip project = [] \<or> \<not> (0 \<le> priority \<and> priority \<le> 100) \<or> max_attempts < 1
      then (Inl (ValueError ''project, priority or max_attempts is invalid''), s)
      else case validate_request resources s of
             Inl er \<Rightarrow> (Inl er, s)
           | Inr u \<Rightarrow>
               let job = \<lparr>jb_task_id = task_id, jb_project = strip project, jb_resources = resources, jb_priority = priority,
                     jb_sequence = sc_sequence s + 1, jb_max_attempts = max_attempts, jb_attempts = 0, jb_state = QUEUED,
                     jb_allocation_id = None, jb_node_id = None, jb_lease_expires_at = None\<rparr>
               in (Inr job, s\<lparr>sc_sequence := sc_sequence s + 1, sc_revision := sc_revision s + 1, sc_jobs := AList.update task_id job (sc_jobs s)\<rparr>))"

definition recover_job :: "int \<Rightarrow> string \<times> scheduled_job \<Rightarrow> sigraft_scheduler \<Rightarrow> sigraft_scheduler" where
  "recover_job now = (\<lambda>(task_id, job) s.
     (if jb_state job \<in> {SCHEDULED, RUNNING} \<and> (case jb_lease_expires_at job of None \<Rightarrow> False | Some t \<Rightarrow> t \<le> now)
      then s\<lparr>sc_jobs := AList.update task_id (job\<lparr>jb_state := if jb_attempts job < jb_max_attempts job then QUEUED else FAILED,
               jb_allocation_id := None, jb_node_id := None, jb_lease_expires_at := None\<rparr>) (sc_jobs s),
             sc_dispatches := (case jb_allocation_id job of None \<Rightarrow> sc_dispatches s | Some a \<Rightarrow> AList.delete a (sc_dispatches s)),
             sc_revision := sc_revision s + 1\<rparr>
      else s))"

definition recover :: "int \<Rightarrow> sigraft_scheduler \<Rightarrow> sigraft_scheduler" where
  "recover now s = fold (recover_job now) (sc_jobs s) s"

fun memory_of :: "(string \<times> scheduled_job) list \<Rightarrow> scheduler_dispatch list \<Rightarrow> int res" where
  "memory_of jobs [] = Inr 0"
| "memory_of jobs (d # ds) =
     (case map_of jobs (dp_task_id d) of
        None \<Rightarrow> Inl (KeyError (dp_task_id d))
      | Some job \<Rightarrow> and_then (memory_of jobs ds) (\<lambda>m. Inr (memory_mb (jb_resources job) + m)))"

definition used :: "sigraft_scheduler \<Rightarrow> string \<Rightarrow> (int set \<times> int \<times> string set) res" where
  "used s node_id =
     (let dispatches = filter (\<lambda>d. dp_node_id d = node_id) (dict_values (sc_dispatches s));
          jobs = fold (\<lambda>job. AList.update (jb_task_id job) job) (dict_values (sc_jobs s)) []
      in and_then (memory_of jobs dispatches) (\<lambda>m. Inr (\<Union>d \<in> set dispatches. set (dp_cpu_ids d), m, \<Union>d \<in> set dispatches. set (dp_gpu_ids d))))"

definition available_fit :: "scheduler_resources \<Rightarrow> scheduler_node \<Rightarrow> sigraft_scheduler \<Rightarrow> bool res" where
  "available_fit r n s =
     (if \<not> static_fit r n then Inr False
      else and_then (used s (nd_node_id n)) (\<lambda>(used_cpu, used_memory, used_gpu).
        Inr (cpu_cores r \<le> int (length (filter (\<lambda>cpu. cpu \<notin> used_cpu) (eligible_cpus r n))) \<and>
          memory_mb r \<le> nd_memory_mb n - used_memory \<and>
          gpu_count r \<le> int (length (filter (\<lambda>g. gd_device_id g \<notin> used_gpu) (eligible_gpus r n))))))"

definition score :: "scheduler_resources \<Rightarrow> scheduler_node \<Rightarrow> sigraft_scheduler \<Rightarrow> (int \<times> int \<times> string) res" where
  "score r n s =
     and_then (used s (nd_node_id n)) (\<lambda>(used_cpu, used_memory, used_gpu).
       Inr (int (length (nd_cpu_ids n)) - int (card used_cpu) - cpu_cores r, nd_memory_mb n - used_memory - memory_mb r, nd_node_id n))"

fun candidates :: "scheduler_resources \<Rightarrow> int \<Rightarrow> sigraft_scheduler \<Rightarrow> scheduler_node list \<Rightarrow> scheduler_node list res" where
  "candidates r now s [] = Inr []"
| "candidates r now s (n # ns) =
     (if now - nd_heartbeat_at n \<le> sc_heartbeat_timeout s
      then and_then (available_fit r n s) (\<lambda>fit. and_then (candidates r now s ns) (\<lambda>rest. Inr (if fit then n # rest else rest)))
      else candidates r now s ns)"

fun scored :: "scheduler_resources \<Rightarrow> sigraft_scheduler \<Rightarrow> scheduler_node list \<Rightarrow> ((int \<times> int \<times> string) \<times> scheduler_node) list res" where
  "scored r s [] = Inr []"
| "scored r s (n # ns) = and_then (score r n s) (\<lambda>k. and_then (scored r s ns) (\<lambda>rest. Inr ((k, n) # rest)))"

definition allocation_name :: "int \<Rightarrow> string" where
  "allocation_name n = ''allocation-'' @ show_int n"

definition reserve :: "scheduled_job \<Rightarrow> scheduler_node \<Rightarrow> int \<Rightarrow> int \<Rightarrow> sigraft_scheduler \<Rightarrow> scheduler_dispatch res \<times> sigraft_scheduler" where
  "reserve job n now lease_seconds s =
     (case used s (nd_node_id n) of
        Inl er \<Rightarrow> (Inl er, s)
      | Inr (used_cpu, used_memory, used_gpu) \<Rightarrow>
          let r = jb_resources job;
              cpus = take (nat (cpu_cores r)) (filter (\<lambda>cpu. cpu \<notin> used_cpu) (eligible_cpus r n));
              gpus = take (nat (gpu_count r)) (filter (\<lambda>g. g \<notin> used_gpu) (map gd_device_id (eligible_gpus r n)));
              allocation_id = allocation_name (sc_revision s + 1);
              dispatch = \<lparr>dp_allocation_id = allocation_id, dp_task_id = jb_task_id job, dp_node_id = nd_node_id n,
                dp_queue = ''sigraft.node.'' @ nd_node_id n, dp_cpu_ids = cpus, dp_memory_max_bytes = memory_mb r * 1024 * 1024,
                dp_gpu_ids = gpus, dp_numa_node = numa_node r,
                dp_environment = (if gpus \<noteq> [] then [(''CUDA_VISIBLE_DEVICES'', join '','' gpus)] else [])\<rparr>
          in (Inr dispatch, s\<lparr>sc_revision := sc_revision s + 1, sc_dispatches := AList.update allocation_id dispatch (sc_dispatches s),
               sc_jobs := AList.update (jb_task_id job) (job\<lparr>jb_attempts := jb_attempts job + 1, jb_state := SCHEDULED,
                 jb_allocation_id := Some allocation_id, jb_node_id := Some (nd_node_id n), jb_lease_expires_at := Some (now + lease_seconds)\<rparr>) (sc_jobs s)\<rparr>))"

definition place :: "scheduled_job \<Rightarrow> int \<Rightarrow> int \<Rightarrow> sigraft_scheduler \<Rightarrow> scheduler_dispatch option res \<times> sigraft_scheduler" where
  "place job now lease_seconds s =
     (case candidates (jb_resources job) now s (dict_values (sc_nodes s)) of
        Inl er \<Rightarrow> (Inl er, s)
      | Inr found \<Rightarrow>
          (case scored (jb_resources job) s found of
             Inl er \<Rightarrow> (Inl er, s)
           | Inr ranked \<Rightarrow>
               (case min_key fst ranked of
                  None \<Rightarrow> (Inr None, s)
                | Some (k, selected) \<Rightarrow>
                    (case reserve job selected now lease_seconds s of (res, s') \<Rightarrow> (map_sum id Some res, s')))))"

fun place_all :: "scheduled_job list \<Rightarrow> int \<Rightarrow> int \<Rightarrow> sigraft_scheduler \<Rightarrow> scheduler_dispatch list res \<times> sigraft_scheduler" where
  "place_all [] now lease_seconds s = (Inr [], s)"
| "place_all (job # jobs) now lease_seconds s =
     (case place job now lease_seconds s of
        (Inl er, s') \<Rightarrow> (Inl er, s')
      | (Inr placed, s') \<Rightarrow>
          (case place_all jobs now lease_seconds s' of
             (Inl er, s'') \<Rightarrow> (Inl er, s'')
           | (Inr result, s'') \<Rightarrow> (Inr (case placed of None \<Rightarrow> result | Some d \<Rightarrow> d # result), s'')))"

definition queued_jobs :: "sigraft_scheduler \<Rightarrow> scheduled_job list" where
  "queued_jobs s = sort_key (\<lambda>job. (- jb_priority job, jb_sequence job, jb_task_id job))
     (filter (\<lambda>job. jb_state job = QUEUED) (dict_values (sc_jobs s)))"

definition schedule :: "string \<Rightarrow> int \<Rightarrow> int \<Rightarrow> sigraft_scheduler \<Rightarrow> scheduler_dispatch list res \<times> sigraft_scheduler" where
  "schedule caller_id now lease_seconds s =
     (if caller_id \<noteq> sc_leader_id s then (Inl (PermissionError ''only the elected scheduler may place jobs''), s)
      else if lease_seconds < 1 then (Inl (ValueError ''lease_seconds must be positive''), s)
      else let s1 = recover now s in place_all (queued_jobs s1) now lease_seconds s1)"

text \<open>What happens to a scheduler.\<close>

datatype scheduler_call =
    Heartbeat scheduler_node
  | Submit_job string string scheduler_resources int int
  | Schedule string int int
  | Recover int

fun scheduler_step :: "scheduler_call \<Rightarrow> sigraft_scheduler \<Rightarrow> sigraft_scheduler" where
  "scheduler_step (Heartbeat node) s = snd (heartbeat node s)"
| "scheduler_step (Submit_job task_id project resources priority max_attempts) s =
     (if resources_check resources = Inr () then snd (submit task_id project resources priority max_attempts s) else s)"
| "scheduler_step (Schedule caller_id now lease_seconds) s = snd (schedule caller_id now lease_seconds s)"
| "scheduler_step (Recover now) s = recover now s"

section \<open>The invariant\<close>

definition job_ok :: "(string \<rightharpoonup> scheduler_dispatch) \<Rightarrow> string \<Rightarrow> scheduled_job \<Rightarrow> bool" where
  "job_ok dispatches k job \<longleftrightarrow>
     jb_task_id job = k \<and> resources_check (jb_resources job) = Inr () \<and> 0 \<le> jb_attempts job \<and> jb_attempts job \<le> jb_max_attempts job \<and>
     jb_state job \<in> {QUEUED, SCHEDULED, FAILED} \<and> (jb_state job = QUEUED \<longrightarrow> jb_attempts job < jb_max_attempts job) \<and>
     (jb_state job = FAILED \<longrightarrow> jb_attempts job = jb_max_attempts job) \<and> (jb_state job \<noteq> SCHEDULED \<longrightarrow> jb_allocation_id job = None) \<and>
     (jb_state job = SCHEDULED \<longrightarrow> (\<exists>a d. jb_allocation_id job = Some a \<and> dispatches a = Some d \<and> dp_task_id d = k))"

definition dispatch_ok :: "(string \<rightharpoonup> scheduled_job) \<Rightarrow> int \<Rightarrow> string \<Rightarrow> scheduler_dispatch \<Rightarrow> bool" where
  "dispatch_ok jobs revision a d \<longleftrightarrow>
     dp_allocation_id d = a \<and> (\<exists>n. 1 \<le> n \<and> n \<le> revision \<and> a = allocation_name n) \<and>
     (\<exists>job. jobs (dp_task_id d) = Some job \<and> jb_state job = SCHEDULED \<and> jb_allocation_id job = Some a \<and> jb_node_id job = Some (dp_node_id d) \<and>
        int (length (dp_cpu_ids d)) = cpu_cores (jb_resources job) \<and> int (length (dp_gpu_ids d)) = gpu_count (jb_resources job))"

definition apart :: "scheduler_dispatch \<Rightarrow> scheduler_dispatch \<Rightarrow> bool" where
  "apart d d' \<longleftrightarrow> (dp_node_id d = dp_node_id d' \<longrightarrow>
     set (dp_cpu_ids d) \<inter> set (dp_cpu_ids d') = {} \<and> set (dp_gpu_ids d) \<inter> set (dp_gpu_ids d') = {})"

definition scheduler_ok :: "sigraft_scheduler \<Rightarrow> bool" where
  "scheduler_ok s \<longleftrightarrow>
     0 \<le> sc_revision s \<and> distinct (dict_keys (sc_nodes s)) \<and> distinct (dict_keys (sc_jobs s)) \<and> distinct (dict_keys (sc_dispatches s)) \<and>
     (\<forall>k n. map_of (sc_nodes s) k = Some n \<longrightarrow> nd_node_id n = k) \<and>
     (\<forall>k job. map_of (sc_jobs s) k = Some job \<longrightarrow> job_ok (map_of (sc_dispatches s)) k job) \<and>
     (\<forall>a d. map_of (sc_dispatches s) a = Some d \<longrightarrow> dispatch_ok (map_of (sc_jobs s)) (sc_revision s) a d) \<and>
     (\<forall>a d a' d'. map_of (sc_dispatches s) a = Some d \<longrightarrow> map_of (sc_dispatches s) a' = Some d' \<longrightarrow> a \<noteq> a' \<longrightarrow> apart d d')"

lemma job_ok_mono: "job_ok f k job \<Longrightarrow> (\<And>a d. f a = Some d \<Longrightarrow> g a = Some d) \<Longrightarrow> job_ok g k job"
  unfolding job_ok_def by blast

lemma scheduler_okD:
  assumes "scheduler_ok s"
  shows "0 \<le> sc_revision s" "distinct (dict_keys (sc_nodes s))" "distinct (dict_keys (sc_jobs s))" "distinct (dict_keys (sc_dispatches s))"
    "\<And>k n. map_of (sc_nodes s) k = Some n \<Longrightarrow> nd_node_id n = k"
    "\<And>k job. map_of (sc_jobs s) k = Some job \<Longrightarrow> job_ok (map_of (sc_dispatches s)) k job"
    "\<And>a d. map_of (sc_dispatches s) a = Some d \<Longrightarrow> dispatch_ok (map_of (sc_jobs s)) (sc_revision s) a d"
    "\<And>a d a' d'. map_of (sc_dispatches s) a = Some d \<Longrightarrow> map_of (sc_dispatches s) a' = Some d' \<Longrightarrow> a \<noteq> a' \<Longrightarrow> apart d d'"
  using assms unfolding scheduler_ok_def by blast+

section \<open>What is used on a node\<close>

definition on_node :: "sigraft_scheduler \<Rightarrow> string \<Rightarrow> scheduler_dispatch list" where
  "on_node s node_id = filter (\<lambda>d. dp_node_id d = node_id) (dict_values (sc_dispatches s))"

definition memory_for :: "(string \<rightharpoonup> scheduled_job) \<Rightarrow> scheduler_dispatch \<Rightarrow> int" where
  "memory_for jobs d = (case jobs (dp_task_id d) of None \<Rightarrow> 0 | Some job \<Rightarrow> memory_mb (jb_resources job))"

definition memory_used :: "sigraft_scheduler \<Rightarrow> string \<Rightarrow> int" where
  "memory_used s node_id = sum_list (map (memory_for (map_of (sc_jobs s))) (on_node s node_id))"

definition cpus_used :: "sigraft_scheduler \<Rightarrow> string \<Rightarrow> int set" where
  "cpus_used s node_id = (\<Union>d \<in> set (on_node s node_id). set (dp_cpu_ids d))"

definition gpus_used :: "sigraft_scheduler \<Rightarrow> string \<Rightarrow> string set" where
  "gpus_used s node_id = (\<Union>d \<in> set (on_node s node_id). set (dp_gpu_ids d))"

definition fits :: "sigraft_scheduler \<Rightarrow> scheduler_resources \<Rightarrow> scheduler_node \<Rightarrow> bool" where
  "fits s r n \<longleftrightarrow> static_fit r n \<and>
     cpu_cores r \<le> int (length (filter (\<lambda>cpu. cpu \<notin> cpus_used s (nd_node_id n)) (eligible_cpus r n))) \<and>
     memory_mb r \<le> nd_memory_mb n - memory_used s (nd_node_id n) \<and>
     gpu_count r \<le> int (length (filter (\<lambda>g. gd_device_id g \<notin> gpus_used s (nd_node_id n)) (eligible_gpus r n)))"

lemma memory_of_total:
  "(\<And>d. d \<in> set ds \<Longrightarrow> jobs (dp_task_id d) \<noteq> None) \<Longrightarrow> map_of js = jobs \<Longrightarrow>
   memory_of js ds = Inr (sum_list (map (memory_for jobs) ds))"
  by (induction ds) (fastforce simp: memory_for_def)+

lemma on_node_dispatch:
  assumes "scheduler_ok s" "d \<in> set (on_node s n)"
  shows "\<exists>a. map_of (sc_dispatches s) a = Some d" "dp_node_id d = n"
  using assms dict_values_map_of [of "sc_dispatches s" d] by (auto simp: on_node_def scheduler_ok_def)

lemma rekeyed:
  assumes "\<forall>(k, v) \<in> set d. f v = k" "distinct (dict_keys d)"
  shows "fold (\<lambda>v. AList.update (f v) v) (dict_values d) [] = d"
proof -
  have "fold (\<lambda>v. AList.update (f v) v) (dict_values d) acc = acc @ d" if "set (dict_keys acc) \<inter> set (dict_keys d) = {}" for acc
    using assms that
  proof (induction d arbitrary: acc)
    case (Cons p d)
    obtain k v where p: "p = (k, v)" by fastforce
    with Cons.prems have "f v = k" "k \<notin> set (dict_keys acc)" by auto
    then have "AList.update (f v) v acc = acc @ [(k, v)]" by (simp add: update_fresh del: set_map)
    moreover have "set (dict_keys (acc @ [(k, v)])) \<inter> set (dict_keys d) = {}" using Cons.prems p by auto
    ultimately show ?case using Cons p by simp
  qed simp
  from this [of "[]"] show ?thesis by simp
qed

lemma used_total:
  assumes ok: "scheduler_ok s"
  shows "used s n = Inr (cpus_used s n, memory_used s n, gpus_used s n)"
proof -
  note d = scheduler_okD [OF ok]
  have "\<forall>(k, job) \<in> set (sc_jobs s). jb_task_id job = k"
    using d(6) map_of_is_SomeI [OF d(3)] by (fastforce simp: job_ok_def)
  then have jobs: "fold (\<lambda>job. AList.update (jb_task_id job) job) (dict_values (sc_jobs s)) [] = sc_jobs s"
    using d(3) by (rule rekeyed)
  have "map_of (sc_jobs s) (dp_task_id x) \<noteq> None" if "x \<in> set (on_node s n)" for x
    using on_node_dispatch(1) [OF ok that] d(7) by (fastforce simp: dispatch_ok_def)
  from memory_of_total [OF this refl] show ?thesis
    unfolding used_def Let_def jobs on_node_def [symmetric] by (simp add: cpus_used_def gpus_used_def memory_used_def)
qed

lemma available_fit_total: "scheduler_ok s \<Longrightarrow> available_fit r n s = Inr (fits s r n)"
  by (simp add: available_fit_def used_total fits_def)

lemma candidates_total:
  "scheduler_ok s \<Longrightarrow> candidates r now s ns = Inr (filter (\<lambda>n. now - nd_heartbeat_at n \<le> sc_heartbeat_timeout s \<and> fits s r n) ns)"
  by (induction ns) (simp_all add: available_fit_total)

lemma scored_total: "scheduler_ok s \<Longrightarrow> \<exists>k. scored r s ns = Inr (map (\<lambda>n. (k n, n)) ns)"
proof (induction ns)
  case (Cons n ns)
  obtain k where "\<And>n. score r n s = Inr (k n)"
    using Cons.prems by (simp add: score_def used_total)
  then have "scored r s ns = Inr (map (\<lambda>n. (k n, n)) ns)" for ns by (induction ns) simp_all
  then show ?case by blast
qed simp

text \<open>Placing one job: nothing happens, or the job is reserved on a live node where it fits.\<close>

lemma place_cases:
  assumes ok: "scheduler_ok s"
  shows "(\<exists>n d. n \<in> set (dict_values (sc_nodes s)) \<and> now - nd_heartbeat_at n \<le> sc_heartbeat_timeout s \<and> fits s (jb_resources job) n \<and>
        reserve job n now lease s = (Inr d, snd (place job now lease s)) \<and> fst (place job now lease s) = Inr (Some d)) \<or>
    place job now lease s = (Inr None, s) \<and>
      (\<forall>n \<in> set (dict_values (sc_nodes s)). now - nd_heartbeat_at n \<le> sc_heartbeat_timeout s \<longrightarrow> \<not> fits s (jb_resources job) n)"
proof -
  let ?found = "filter (\<lambda>n. now - nd_heartbeat_at n \<le> sc_heartbeat_timeout s \<and> fits s (jb_resources job) n) (dict_values (sc_nodes s))"
  obtain k where k: "scored (jb_resources job) s ?found = Inr (map (\<lambda>n. (k n, n)) ?found)" using scored_total [OF ok] by blast
  show ?thesis
  proof (cases "min_key fst (map (\<lambda>n. (k n, n)) ?found)")
    case None
    then have "?found = []" by simp
    with None k show ?thesis by (auto simp: place_def candidates_total [OF ok] filter_empty_conv)
  next
    case (Some p)
    with min_key_Some [OF Some] obtain n where n: "p = (k n, n)" "n \<in> set ?found" by auto
    obtain d s' where "reserve job n now lease s = (Inr d, s')"
      by (simp add: reserve_def used_total [OF ok] Let_def)
    with n Some k show ?thesis by (intro disjI1 exI [of _ n] exI [of _ d]) (auto simp: place_def candidates_total [OF ok])
  qed
qed

lemma allocation_fresh:
  assumes "scheduler_ok s"
  shows "map_of (sc_dispatches s) (allocation_name (sc_revision s + 1)) = None"
proof (rule ccontr)
  assume "map_of (sc_dispatches s) (allocation_name (sc_revision s + 1)) \<noteq> None"
  then obtain d where "map_of (sc_dispatches s) (allocation_name (sc_revision s + 1)) = Some d" by blast
  from scheduler_okD(7) [OF assms this] obtain n where "1 \<le> n" "n \<le> sc_revision s" "allocation_name (sc_revision s + 1) = allocation_name n"
    by (auto simp: dispatch_ok_def)
  with scheduler_okD(1) [OF assms] show False by (simp add: allocation_name_def show_int_inject_nonneg)
qed

lemma dispatch_values: "scheduler_ok s \<Longrightarrow> d \<in> set (on_node s n) \<longleftrightarrow> dp_node_id d = n \<and> (\<exists>a. map_of (sc_dispatches s) a = Some d)"
  using dict_values_map_of [of "sc_dispatches s" d] by (auto simp: on_node_def scheduler_ok_def)

lemma take_fit: "0 \<le> n \<Longrightarrow> n \<le> int (length xs) \<Longrightarrow> int (length (take (nat n) xs)) = n"
  by simp

text \<open>The state after a reservation: a new dispatch, and the job's new record.\<close>

lemma reserve_dispatch_ok:
  assumes ok: "scheduler_ok s" and job: "map_of (sc_jobs s) k = Some job" "jb_state job = QUEUED"
    and fit: "fits s (jb_resources job) n" and res: "reserve job n now lease s = (Inr d, s')"
  shows "scheduler_ok s' \<and> sc_nodes s' = sc_nodes s \<and> sc_heartbeat_timeout s' = sc_heartbeat_timeout s \<and> sc_leader_id s' = sc_leader_id s \<and>
    sc_dispatches s' = sc_dispatches s @ [(dp_allocation_id d, d)] \<and> dp_node_id d = nd_node_id n \<and> dp_task_id d = k \<and>
    (\<exists>job'. sc_jobs s' = AList.update k job' (sc_jobs s) \<and> jb_state job' = SCHEDULED \<and> jb_resources job' = jb_resources job)"
proof -
  note d = scheduler_okD [OF ok]
  have jk: "jb_task_id job = k" "resources_check (jb_resources job) = Inr ()" "0 \<le> jb_attempts job" "jb_attempts job < jb_max_attempts job"
    "jb_allocation_id job = None" using d(6) [OF job(1)] job(2) by (auto simp: job_ok_def)
  let ?a = "allocation_name (sc_revision s + 1)" and ?r = "jb_resources job"
  let ?cpus = "take (nat (cpu_cores ?r)) (filter (\<lambda>cpu. cpu \<notin> cpus_used s (nd_node_id n)) (eligible_cpus ?r n))"
  let ?gpus = "take (nat (gpu_count ?r)) (filter (\<lambda>g. g \<notin> gpus_used s (nd_node_id n)) (map gd_device_id (eligible_gpus ?r n)))"
  let ?job = "job\<lparr>jb_attempts := jb_attempts job + 1, jb_state := SCHEDULED, jb_allocation_id := Some ?a, jb_node_id := Some (nd_node_id n),
      jb_lease_expires_at := Some (now + lease)\<rparr>"
  have fresh: "map_of (sc_dispatches s) ?a = None" by (rule allocation_fresh [OF ok])
  then have "?a \<notin> set (dict_keys (sc_dispatches s))" by (metis map_of_eq_None_iff list.set_map)
  then have up: "AList.update ?a x (sc_dispatches s) = sc_dispatches s @ [(?a, x)]" for x by (rule update_fresh)
  from res have dd: "dp_allocation_id d = ?a" "dp_task_id d = k" "dp_node_id d = nd_node_id n" "dp_cpu_ids d = ?cpus" "dp_gpu_ids d = ?gpus"
    and s': "s' = s\<lparr>sc_revision := sc_revision s + 1, sc_dispatches := sc_dispatches s @ [(?a, d)], sc_jobs := AList.update k ?job (sc_jobs s)\<rparr>"
    by (auto simp: reserve_def used_total [OF ok] Let_def up jk(1))
  have pos: "0 \<le> cpu_cores ?r" "0 \<le> gpu_count ?r" using jk(2) by (auto simp: resources_check_def split: if_splits)
  have cpus: "int (length ?cpus) = cpu_cores ?r" using fit pos(1) unfolding fits_def by (intro take_fit) auto
  have gpus: "int (length ?gpus) = gpu_count ?r"
    using fit pos(2) unfolding fits_def filter_map comp_def length_map by (intro take_fit) auto
  have disps: "map_of (sc_dispatches s') = (map_of (sc_dispatches s))(?a \<mapsto> d)" using fresh by (auto simp: s' map_add_def fun_eq_iff split: option.split)
  have jobs: "map_of (sc_jobs s') = (map_of (sc_jobs s))(k \<mapsto> ?job)" by (simp add: s' update_conv')
  have new_apart: "apart d x" if "map_of (sc_dispatches s) a = Some x" for a x
  proof -
    have "x \<in> set (on_node s (dp_node_id x))" using that dispatch_values [OF ok] by blast
    then have "set (dp_cpu_ids x) \<subseteq> cpus_used s (dp_node_id x)" "set (dp_gpu_ids x) \<subseteq> gpus_used s (dp_node_id x)"
      unfolding cpus_used_def gpus_used_def by blast+
    moreover have "set ?cpus \<inter> cpus_used s (nd_node_id n) = {}" "set ?gpus \<inter> gpus_used s (nd_node_id n) = {}"
      by (auto dest: in_set_takeD)
    ultimately show ?thesis unfolding apart_def dd by (intro impI conjI; simp only:; blast)
  qed
  have sym: "apart x y \<Longrightarrow> apart y x" for x y by (auto simp: apart_def)
  have "scheduler_ok s'"
    unfolding scheduler_ok_def disps jobs
  proof (intro conjI allI impI)
    show "distinct (dict_keys (sc_jobs s'))" using d(3) by (simp add: s' distinct_update)
    show "distinct (dict_keys (sc_dispatches s'))" using d(4) \<open>?a \<notin> set (dict_keys (sc_dispatches s))\<close> by (simp add: s')
    fix k' j assume kj: "((map_of (sc_jobs s))(k \<mapsto> ?job)) k' = Some j"
    show "job_ok ((map_of (sc_dispatches s))(?a \<mapsto> d)) k' j"
    proof (cases "k' = k")
      case True
      with kj have "j = ?job" by simp
      with True jk dd(2) show ?thesis by (simp add: job_ok_def)
    next
      case False
      with kj d(6) have "job_ok (map_of (sc_dispatches s)) k' j" by simp
      moreover have "((map_of (sc_dispatches s))(?a \<mapsto> d)) a = Some x" if "map_of (sc_dispatches s) a = Some x" for a x
        using fresh that by auto
      ultimately show ?thesis by (rule job_ok_mono)
    qed
  next
    fix a x assume ax: "((map_of (sc_dispatches s))(?a \<mapsto> d)) a = Some x"
    show "dispatch_ok ((map_of (sc_jobs s))(k \<mapsto> ?job)) (sc_revision s') a x"
    proof (cases "a = ?a")
      case True
      with ax have "x = d" by simp
      have "sc_revision s' = sc_revision s + 1" by (simp add: s')
      moreover have "int (length (dp_cpu_ids d)) = cpu_cores ?r" "int (length (dp_gpu_ids d)) = gpu_count ?r" unfolding dd by (rule cpus gpus)+
      ultimately show ?thesis using d(1) True dd(1-3) unfolding dispatch_ok_def \<open>x = d\<close>
        by (intro conjI exI [of _ "sc_revision s + 1"] exI [of _ ?job]) simp_all
    next
      case False
      with ax have "map_of (sc_dispatches s) a = Some x" by simp
      from d(7) [OF this] job(1) jk(5) show ?thesis by (fastforce simp: dispatch_ok_def s')
    qed
  next
    fix a x a' x' assume "((map_of (sc_dispatches s))(?a \<mapsto> d)) a = Some x" "((map_of (sc_dispatches s))(?a \<mapsto> d)) a' = Some x'" "a \<noteq> a'"
    then show "apart x x'" using d(8) new_apart sym by (auto split: if_splits)
  qed (use d(1,2,5) in \<open>auto simp: s'\<close>)
  then show ?thesis using dd unfolding s' by (intro conjI exI [of _ ?job]) simp_all
qed

lemma memory_reserve:
  assumes "sc_dispatches s' = sc_dispatches s @ [(a, d)]" "sc_jobs s' = AList.update k job' (sc_jobs s)" "dp_task_id d = k"
    "map_of (sc_jobs s) k = Some job" "jb_resources job' = jb_resources job"
  shows "memory_used s' n = memory_used s n + (if dp_node_id d = n then memory_mb (jb_resources job) else 0)"
    "cpus_used s n \<subseteq> cpus_used s' n" "gpus_used s n \<subseteq> gpus_used s' n"
proof -
  have same: "memory_for (map_of (sc_jobs s')) = memory_for (map_of (sc_jobs s))"
    using assms(2,4,5) by (auto simp: memory_for_def update_conv' fun_eq_iff)
  have "memory_for (map_of (sc_jobs s)) d = memory_mb (jb_resources job)" using assms(3,4) by (simp add: memory_for_def)
  then show "memory_used s' n = memory_used s n + (if dp_node_id d = n then memory_mb (jb_resources job) else 0)"
    unfolding memory_used_def same on_node_def assms(1) by simp
  show "cpus_used s n \<subseteq> cpus_used s' n" "gpus_used s n \<subseteq> gpus_used s' n"
    unfolding cpus_used_def gpus_used_def on_node_def assms(1) by auto
qed

lemma length_filter_mono: "(\<And>x. P x \<Longrightarrow> Q x) \<Longrightarrow> length (filter P xs) \<le> length (filter Q xs)"
  by (induction xs) auto

lemma fits_antimono:
  assumes "fits s' r n" "cpus_used s (nd_node_id n) \<subseteq> cpus_used s' (nd_node_id n)" "gpus_used s (nd_node_id n) \<subseteq> gpus_used s' (nd_node_id n)"
    "memory_used s (nd_node_id n) \<le> memory_used s' (nd_node_id n)"
  shows "fits s r n"
proof -
  have "length (filter (\<lambda>cpu. cpu \<notin> cpus_used s' (nd_node_id n)) (eligible_cpus r n)) \<le>
      length (filter (\<lambda>cpu. cpu \<notin> cpus_used s (nd_node_id n)) (eligible_cpus r n))"
    "length (filter (\<lambda>g. gd_device_id g \<notin> gpus_used s' (nd_node_id n)) (eligible_gpus r n)) \<le>
      length (filter (\<lambda>g. gd_device_id g \<notin> gpus_used s (nd_node_id n)) (eligible_gpus r n))"
    using assms(2,3) by (auto intro!: length_filter_mono)
  with assms(1,4) show ?thesis unfolding fits_def by linarith
qed

section \<open>A scheduling round\<close>

definition grows :: "sigraft_scheduler \<Rightarrow> sigraft_scheduler \<Rightarrow> bool" where
  "grows s s' \<longleftrightarrow> sc_nodes s' = sc_nodes s \<and> sc_heartbeat_timeout s' = sc_heartbeat_timeout s \<and> sc_leader_id s' = sc_leader_id s \<and>
     (\<forall>n. cpus_used s n \<subseteq> cpus_used s' n \<and> gpus_used s n \<subseteq> gpus_used s' n \<and> memory_used s n \<le> memory_used s' n)"

definition memory_kept :: "sigraft_scheduler \<Rightarrow> sigraft_scheduler \<Rightarrow> bool" where
  "memory_kept s s' \<longleftrightarrow> (\<forall>k n. map_of (sc_nodes s) k = Some n \<and> memory_used s k \<le> nd_memory_mb n \<longrightarrow> memory_used s' k \<le> nd_memory_mb n)"

lemma memory_kept_refl [simp]: "memory_kept s s"
  by (simp add: memory_kept_def)

lemma memory_kept_trans: "memory_kept s s1 \<Longrightarrow> sc_nodes s1 = sc_nodes s \<Longrightarrow> memory_kept s1 s2 \<Longrightarrow> memory_kept s s2"
  by (simp add: memory_kept_def)

definition waits :: "int \<Rightarrow> sigraft_scheduler \<Rightarrow> scheduler_resources \<Rightarrow> bool" where
  "waits now s r \<longleftrightarrow> (\<forall>n \<in> set (dict_values (sc_nodes s)). now - nd_heartbeat_at n \<le> sc_heartbeat_timeout s \<longrightarrow> \<not> fits s r n)"

lemma later_refl: "grows s s"
  by (simp add: grows_def)

lemma later_trans: "grows s s1 \<Longrightarrow> grows s1 s2 \<Longrightarrow> grows s s2"
  unfolding grows_def by (metis order_trans)

lemma waits_grows: "waits now s r \<Longrightarrow> grows s s' \<Longrightarrow> waits now s' r"
  unfolding waits_def grows_def using fits_antimono [of s' r _ s] by auto

lemma place_ok:
  assumes ok: "scheduler_ok s" and job: "map_of (sc_jobs s) k = Some job" "jb_state job = QUEUED"
  shows "\<exists>placed s'. place job now lease s = (Inr placed, s') \<and> scheduler_ok s' \<and> grows s s' \<and> memory_kept s s' \<and>
    (\<forall>k'. k' \<noteq> k \<longrightarrow> map_of (sc_jobs s') k' = map_of (sc_jobs s) k') \<and>
    (\<exists>job'. map_of (sc_jobs s') k = Some job' \<and> (jb_state job' = SCHEDULED \<or> job' = job \<and> waits now s' (jb_resources job)))"
proof -
  let ?s = "snd (place job now lease s)"
  consider (placed) n d where "n \<in> set (dict_values (sc_nodes s))" "fits s (jb_resources job) n"
      "reserve job n now lease s = (Inr d, ?s)" "fst (place job now lease s) = Inr (Some d)"
    | (none) "place job now lease s = (Inr None, s)" "waits now s (jb_resources job)"
    using place_cases [OF ok, of now job lease] unfolding waits_def by blast
  then show ?thesis
  proof cases
    case placed
    note r = reserve_dispatch_ok [OF ok job placed(2,3)]
    then obtain job' where job': "sc_jobs ?s = AList.update k job' (sc_jobs s)" "jb_state job' = SCHEDULED" "jb_resources job' = jb_resources job"
      by blast
    from r have dd: "sc_dispatches ?s = sc_dispatches s @ [(dp_allocation_id d, d)]" "dp_task_id d = k" "dp_node_id d = nd_node_id n" by blast+
    note mem = memory_reserve [OF dd(1) job'(1) dd(2) job(1) job'(3)]
    have "resources_check (jb_resources job) = Inr ()" using scheduler_okD(6) [OF ok job(1)] by (simp add: job_ok_def)
    then have "1 \<le> memory_mb (jb_resources job)" by (auto simp: resources_check_def split: if_splits)
    then have g: "grows s ?s" using r mem unfolding grows_def by auto
    have "memory_kept s ?s"
      unfolding memory_kept_def
    proof (intro allI impI)
      fix k' n' assume "map_of (sc_nodes s) k' = Some n' \<and> memory_used s k' \<le> nd_memory_mb n'"
      then have n': "map_of (sc_nodes s) k' = Some n'" and fine: "memory_used s k' \<le> nd_memory_mb n'" by simp_all
      show "memory_used ?s k' \<le> nd_memory_mb n'"
      proof (cases "k' = nd_node_id n")
        case True
        obtain kn where "map_of (sc_nodes s) kn = Some n" using placed(1) dict_values_map_of [OF scheduler_okD(2) [OF ok]] by blast
        with scheduler_okD(5) [OF ok] have "map_of (sc_nodes s) (nd_node_id n) = Some n" by blast
        with n' True have "n' = n" by simp
        with True placed(2) mem(1) [of k'] dd(3) show ?thesis by (simp add: fits_def)
      next
        case False
        with fine mem(1) [of k'] dd(3) show ?thesis by simp
      qed
    qed
    moreover have "place job now lease s = (Inr (Some d), ?s)" using placed(4) by (cases "place job now lease s") simp
    ultimately show ?thesis
      using r g job' by (intro exI [of _ "Some d"] exI [of _ ?s]) (simp add: update_conv')
  next
    case none
    with ok job show ?thesis by (intro exI [of _ None] exI [of _ s]) (simp add: later_refl)
  qed
qed

lemma place_all_ok:
  "scheduler_ok s \<Longrightarrow> distinct (map jb_task_id jobs) \<Longrightarrow>
   (\<And>job. job \<in> set jobs \<Longrightarrow> map_of (sc_jobs s) (jb_task_id job) = Some job \<and> jb_state job = QUEUED) \<Longrightarrow>
   \<exists>ds s'. place_all jobs now lease s = (Inr ds, s') \<and> scheduler_ok s' \<and> grows s s' \<and> memory_kept s s' \<and>
     (\<forall>k. k \<notin> jb_task_id ` set jobs \<longrightarrow> map_of (sc_jobs s') k = map_of (sc_jobs s) k) \<and>
     (\<forall>job \<in> set jobs. \<exists>job'. map_of (sc_jobs s') (jb_task_id job) = Some job' \<and>
        (jb_state job' = SCHEDULED \<or> job' = job \<and> waits now s' (jb_resources job)))"
proof (induction jobs arbitrary: s)
  case Nil
  then show ?case by (simp add: later_refl)
next
  case (Cons job jobs)
  let ?k = "jb_task_id job"
  have job: "map_of (sc_jobs s) ?k = Some job" "jb_state job = QUEUED" using Cons.prems(3) by auto
  from place_ok [OF Cons.prems(1) job, of now lease] obtain placed s1 job1 where s1: "place job now lease s = (Inr placed, s1)" "scheduler_ok s1"
    "grows s s1" "memory_kept s s1" "\<And>k'. k' \<noteq> ?k \<Longrightarrow> map_of (sc_jobs s1) k' = map_of (sc_jobs s) k'"
    "map_of (sc_jobs s1) ?k = Some job1" "jb_state job1 = SCHEDULED \<or> job1 = job \<and> waits now s1 (jb_resources job)" by blast
  have jobs: "map_of (sc_jobs s1) (jb_task_id j) = Some j \<and> jb_state j = QUEUED" if "j \<in> set jobs" for j
  proof -
    from that Cons.prems(2) have "jb_task_id j \<noteq> ?k" by (metis distinct.simps(2) image_eqI list.map(2) list.set_map)
    with s1(5) Cons.prems(3) [of j] that show ?thesis by auto
  qed
  have "distinct (map jb_task_id jobs)" using Cons.prems(2) by simp
  from Cons.IH [OF s1(2) this jobs] obtain ds s' where s': "place_all jobs now lease s1 = (Inr ds, s')" "scheduler_ok s'" "grows s1 s'"
    "memory_kept s1 s'" "\<And>k. k \<notin> jb_task_id ` set jobs \<Longrightarrow> map_of (sc_jobs s') k = map_of (sc_jobs s1) k"
    "\<And>j. j \<in> set jobs \<Longrightarrow> \<exists>job'. map_of (sc_jobs s') (jb_task_id j) = Some job' \<and> (jb_state job' = SCHEDULED \<or> job' = j \<and> waits now s' (jb_resources j))"
    by blast
  have "?k \<notin> jb_task_id ` set jobs" using Cons.prems(2) by simp
  then have "map_of (sc_jobs s') ?k = Some job1" using s'(5) s1(6) by simp
  moreover have "jb_state job1 = SCHEDULED \<or> job1 = job \<and> waits now s' (jb_resources job)" using s1(7) waits_grows [OF _ s'(3)] by blast
  moreover have "map_of (sc_jobs s') k = map_of (sc_jobs s) k" if "k \<notin> jb_task_id ` set (job # jobs)" for k
    using that s'(5) [of k] s1(5) [of k] by auto
  moreover have "place_all (job # jobs) now lease s = (Inr (case placed of None \<Rightarrow> ds | Some d \<Rightarrow> d # ds), s')"
    using s1(1) s'(1) by simp
  ultimately show ?case
    using s'(2,6) memory_kept_trans [OF s1(4) _ s'(4)] s1(3) later_trans [OF s1(3) s'(3)]
    by (intro exI conjI) (assumption | (fastforce simp: grows_def))+
qed

section \<open>Leases that run out\<close>

lemma recover_job_ok:
  assumes ok: "scheduler_ok s" and job: "map_of (sc_jobs s) k = Some job"
  shows "scheduler_ok (recover_job now (k, job) s) \<and> sc_nodes (recover_job now (k, job) s) = sc_nodes s \<and>
    sc_leader_id (recover_job now (k, job) s) = sc_leader_id s \<and>
    sc_heartbeat_timeout (recover_job now (k, job) s) = sc_heartbeat_timeout s \<and>
    (\<forall>k'. k' \<noteq> k \<longrightarrow> map_of (sc_jobs (recover_job now (k, job) s)) k' = map_of (sc_jobs s) k') \<and>
    memory_kept s (recover_job now (k, job) s)"
proof (cases "jb_state job \<in> {SCHEDULED, RUNNING} \<and> (case jb_lease_expires_at job of None \<Rightarrow> False | Some t \<Rightarrow> t \<le> now)")
  case False
  then have "recover_job now (k, job) s = s" by (simp only: recover_job_def prod.case if_False)
  with ok show ?thesis by simp
next
  case True
  note d = scheduler_okD [OF ok]
  from True d(6) [OF job] obtain a x where j: "jb_task_id job = k" "resources_check (jb_resources job) = Inr ()" "0 \<le> jb_attempts job"
    "jb_attempts job \<le> jb_max_attempts job" "jb_allocation_id job = Some a" "map_of (sc_dispatches s) a = Some x" "dp_task_id x = k"
    by (auto simp: job_ok_def)
  let ?job = "job\<lparr>jb_state := if jb_attempts job < jb_max_attempts job then QUEUED else FAILED,
      jb_allocation_id := None, jb_node_id := None, jb_lease_expires_at := None\<rparr>"
  let ?s = "s\<lparr>sc_jobs := AList.update k ?job (sc_jobs s), sc_dispatches := AList.delete a (sc_dispatches s), sc_revision := sc_revision s + 1\<rparr>"
  have run: "recover_job now (k, job) s = ?s" using True j(5) by (simp add: recover_job_def)
  have jobs: "map_of (sc_jobs ?s) = (map_of (sc_jobs s))(k \<mapsto> ?job)" by (simp add: update_conv')
  have disps: "map_of (sc_dispatches ?s) = (map_of (sc_dispatches s))(a := None)" by (simp add: delete_conv')
  have owner: "k' = k" if "map_of (sc_jobs s) k' = Some job'" "jb_allocation_id job' = Some a" for k' job'
    using d(6) [OF that(1)] that(2) j(6,7) by (cases "jb_state job' = SCHEDULED") (auto simp: job_ok_def)
  have only: "a' = a" if "map_of (sc_dispatches s) a' = Some y" "dp_task_id y = k" for a' y
    using d(7) [OF that(1)] that(2) job j(5) by (auto simp: dispatch_ok_def)
  have "scheduler_ok ?s"
    unfolding scheduler_ok_def jobs disps
  proof (intro conjI allI impI)
    show "distinct (dict_keys (sc_jobs ?s))" using d(3) by (simp add: distinct_update)
    show "distinct (dict_keys (sc_dispatches ?s))" using d(4) by (simp add: distinct_delete)
    fix k' j' assume kj: "((map_of (sc_jobs s))(k \<mapsto> ?job)) k' = Some j'"
    show "job_ok ((map_of (sc_dispatches s))(a := None)) k' j'"
    proof (cases "k' = k")
      case True
      with kj have "j' = ?job" by simp
      with True j show ?thesis by (simp add: job_ok_def)
    next
      case False
      with kj have old: "map_of (sc_jobs s) k' = Some j'" by simp
      have "jb_allocation_id j' \<noteq> Some a" using owner [OF old] False by blast
      with d(6) [OF old] show ?thesis unfolding job_ok_def by auto
    qed
  next
    fix a' y assume "((map_of (sc_dispatches s))(a := None)) a' = Some y"
    then have y: "map_of (sc_dispatches s) a' = Some y" "a' \<noteq> a" by (auto split: if_splits)
    then have "dp_task_id y \<noteq> k" using only by blast
    with d(7) [OF y(1)] show "dispatch_ok ((map_of (sc_jobs s))(k \<mapsto> ?job)) (sc_revision ?s) a' y" by (fastforce simp: dispatch_ok_def)
  next
    fix a' y a'' y' assume "((map_of (sc_dispatches s))(a := None)) a' = Some y" "((map_of (sc_dispatches s))(a := None)) a'' = Some y'" "a' \<noteq> a''"
    with d(8) show "apart y y'" by (auto split: if_splits)
  qed (use d(1,2,5) in auto)
  moreover have "memory_kept s ?s"
  proof -
    have less: "memory_used ?s n \<le> memory_used s n" for n
    proof -
      have same: "memory_for (map_of (sc_jobs ?s)) = memory_for (map_of (sc_jobs s))"
        unfolding memory_for_def jobs using job by (auto simp: fun_eq_iff)
      have pos: "0 \<le> memory_for (map_of (sc_jobs s)) y" if "y \<in> set (dict_values (sc_dispatches s))" for y
      proof (cases "map_of (sc_jobs s) (dp_task_id y)")
        case (Some jy)
        with d(6) [OF Some] show ?thesis by (auto simp: memory_for_def job_ok_def resources_check_def split: if_splits)
      qed (simp add: memory_for_def)
      have "AList.delete a ds = filter (\<lambda>p. fst p \<noteq> a) ds" for ds :: "(string \<times> scheduler_dispatch) list" by (induction ds) auto
      then have "on_node ?s n = map snd (filter (\<lambda>p. fst p \<noteq> a) (filter (\<lambda>p. dp_node_id (snd p) = n) (sc_dispatches s)))"
        unfolding on_node_def by (simp add: filter_map comp_def conj_commute)
      moreover have "on_node s n = map snd (filter (\<lambda>p. dp_node_id (snd p) = n) (sc_dispatches s))"
        unfolding on_node_def by (simp add: filter_map comp_def)
      ultimately show ?thesis unfolding memory_used_def same
        using pos by (simp only: map_map) (intro sum_list_filter_le, auto)
    qed
    then show ?thesis unfolding memory_kept_def by (meson order_trans)
  qed
  ultimately show ?thesis unfolding run using jobs by simp
qed

lemma recover_ok:
  assumes "scheduler_ok s"
  shows "scheduler_ok (recover now s) \<and> sc_nodes (recover now s) = sc_nodes s \<and> sc_leader_id (recover now s) = sc_leader_id s \<and>
    sc_heartbeat_timeout (recover now s) = sc_heartbeat_timeout s \<and> memory_kept s (recover now s)"
proof -
  have "scheduler_ok s1 \<Longrightarrow> distinct (dict_keys js) \<Longrightarrow> (\<And>k job. (k, job) \<in> set js \<Longrightarrow> map_of (sc_jobs s1) k = Some job) \<Longrightarrow>
      scheduler_ok (fold (recover_job now) js s1) \<and> sc_nodes (fold (recover_job now) js s1) = sc_nodes s1 \<and>
      sc_leader_id (fold (recover_job now) js s1) = sc_leader_id s1 \<and>
      sc_heartbeat_timeout (fold (recover_job now) js s1) = sc_heartbeat_timeout s1 \<and> memory_kept s1 (fold (recover_job now) js s1)" for js s1
  proof (induction js arbitrary: s1)
    case (Cons p js)
    obtain k job where p: "p = (k, job)" by fastforce
    have job: "map_of (sc_jobs s1) k = Some job" using Cons.prems(3) p by simp
    note r = recover_job_ok [OF Cons.prems(1) job, of now]
    have "map_of (sc_jobs (recover_job now (k, job) s1)) k' = Some job'" if "(k', job') \<in> set js" for k' job'
    proof -
      have "k' \<noteq> k" using Cons.prems(2) that p by force
      with r Cons.prems(3) [of k' job'] that show ?thesis by simp
    qed
    moreover have "distinct (dict_keys js)" using Cons.prems(2) by simp
    ultimately show ?case using Cons.IH [of "recover_job now (k, job) s1"] r by (auto simp: p intro: memory_kept_trans)
  qed simp
  from this [OF assms, of "sc_jobs s"] map_of_is_SomeI [OF scheduler_okD(3) [OF assms]] scheduler_okD(3) [OF assms]
  show ?thesis unfolding recover_def by blast
qed

lemma heartbeat_ok:
  assumes ok: "scheduler_ok s"
  shows "scheduler_ok (snd (heartbeat node s))"
proof (cases "snd (heartbeat node s) = s")
  case False
  then have s': "snd (heartbeat node s) = s\<lparr>sc_nodes := AList.update (nd_node_id node) node (sc_nodes s)\<rparr>"
    by (auto simp: heartbeat_def split: option.splits if_splits)
  note d = scheduler_okD [OF ok]
  show ?thesis unfolding s' scheduler_ok_def
  proof (intro conjI)
    show "\<forall>k n. map_of (sc_nodes (s\<lparr>sc_nodes := AList.update (nd_node_id node) node (sc_nodes s)\<rparr>)) k = Some n \<longrightarrow> nd_node_id n = k"
      using d(5) by (simp add: update_conv')
  qed (use ok in \<open>simp_all add: scheduler_ok_def distinct_update\<close>)
qed (use ok in simp)

lemma submit_job_ok:
  assumes ok: "scheduler_ok s" and valid: "resources_check r = Inr ()"
  shows "scheduler_ok (snd (submit task_id project r priority max_attempts s))"
proof (cases "\<exists>job. fst (submit task_id project r priority max_attempts s) = Inr job")
  case False
  then have "snd (submit task_id project r priority max_attempts s) = s" by (auto simp: submit_def Let_def split: sum.splits)
  with ok show ?thesis by simp
next
  case True
  let ?job = "\<lparr>jb_task_id = task_id, jb_project = strip project, jb_resources = r, jb_priority = priority,
      jb_sequence = sc_sequence s + 1, jb_max_attempts = max_attempts, jb_attempts = 0, jb_state = QUEUED,
      jb_allocation_id = None, jb_node_id = None, jb_lease_expires_at = None\<rparr>"
  let ?s = "s\<lparr>sc_sequence := sc_sequence s + 1, sc_revision := sc_revision s + 1, sc_jobs := AList.update task_id ?job (sc_jobs s)\<rparr>"
  from True have new: "task_id \<notin> set (dict_keys (sc_jobs s))" "1 \<le> max_attempts" and s': "snd (submit task_id project r priority max_attempts s) = ?s"
    by (auto simp: submit_def Let_def split: sum.splits if_splits simp del: set_map)
  have fresh: "map_of (sc_jobs s) task_id = None" using new(1) by (metis map_of_eq_None_iff list.set_map)
  note d = scheduler_okD [OF ok]
  have jobs: "map_of (sc_jobs ?s) = (map_of (sc_jobs s))(task_id \<mapsto> ?job)" by (simp add: update_conv')
  show ?thesis unfolding s' scheduler_ok_def jobs
  proof (intro conjI allI impI)
    show "distinct (dict_keys (sc_jobs ?s))" using d(3) by (simp add: distinct_update)
    fix k job assume "((map_of (sc_jobs s))(task_id \<mapsto> ?job)) k = Some job"
    then show "job_ok (map_of (sc_dispatches ?s)) k job"
      using d(6) valid new(2) by (cases "k = task_id") (auto simp: job_ok_def)
  next
    fix a x assume "map_of (sc_dispatches ?s) a = Some x"
    then have "dispatch_ok (map_of (sc_jobs s)) (sc_revision s) a x" using d(7) by simp
    with fresh show "dispatch_ok ((map_of (sc_jobs s))(task_id \<mapsto> ?job)) (sc_revision ?s) a x" by (fastforce simp: dispatch_ok_def)
  qed (use d in auto)
qed

lemma queued_jobs_current:
  assumes "scheduler_ok s"
  shows "distinct (map jb_task_id (queued_jobs s))"
    "job \<in> set (queued_jobs s) \<longleftrightarrow> map_of (sc_jobs s) (jb_task_id job) = Some job \<and> jb_state job = QUEUED"
proof -
  note d = scheduler_okD [OF assms]
  have id: "jb_task_id v = k" if "(k, v) \<in> set (sc_jobs s)" for k v using d(6) [OF map_of_is_SomeI [OF d(3) that]] by (simp add: job_ok_def)
  then have "map (jb_task_id \<circ> snd) (sc_jobs s) = dict_keys (sc_jobs s)" by (intro map_cong) auto
  then have "distinct (map jb_task_id (dict_values (sc_jobs s)))" using d(3) unfolding map_map by (simp only:)
  then show "distinct (map jb_task_id (queued_jobs s))"
    unfolding queued_jobs_def by (intro distinct_map_sort_key) (auto simp: distinct_map inj_on_def)
  have "job \<in> set (dict_values (sc_jobs s)) \<longleftrightarrow> map_of (sc_jobs s) (jb_task_id job) = Some job"
    unfolding dict_values_map_of [OF d(3)] using d(6) by (auto simp: job_ok_def)
  then show "job \<in> set (queued_jobs s) \<longleftrightarrow> map_of (sc_jobs s) (jb_task_id job) = Some job \<and> jb_state job = QUEUED"
    unfolding queued_jobs_def by auto
qed

lemma schedule_round:
  assumes ok: "scheduler_ok s" and lease: "1 \<le> lease"
  shows "\<exists>ds s'. schedule (sc_leader_id s) now lease s = (Inr ds, s') \<and> scheduler_ok s' \<and> sc_nodes s' = sc_nodes s \<and>
    sc_heartbeat_timeout s' = sc_heartbeat_timeout s \<and> memory_kept s s' \<and>
    (\<forall>k job. map_of (sc_jobs s') k = Some job \<and> jb_state job = QUEUED \<longrightarrow> waits now s' (jb_resources job))"
proof -
  let ?s = "recover now s"
  note r = recover_ok [OF ok, of now]
  then have rok: "scheduler_ok ?s" by blast
  note q = queued_jobs_current [OF rok]
  from place_all_ok [OF rok q(1), of now lease] q(2) obtain ds s' where p: "place_all (queued_jobs ?s) now lease ?s = (Inr ds, s')" "scheduler_ok s'"
    "grows ?s s'" "memory_kept ?s s'" "\<And>k. k \<notin> jb_task_id ` set (queued_jobs ?s) \<Longrightarrow> map_of (sc_jobs s') k = map_of (sc_jobs ?s) k"
    "\<And>job. job \<in> set (queued_jobs ?s) \<Longrightarrow> \<exists>job'. map_of (sc_jobs s') (jb_task_id job) = Some job' \<and>
        (jb_state job' = SCHEDULED \<or> job' = job \<and> waits now s' (jb_resources job))" by blast
  have "waits now s' (jb_resources job)" if job: "map_of (sc_jobs s') k = Some job" "jb_state job = QUEUED" for k job
  proof (cases "k \<in> jb_task_id ` set (queued_jobs ?s)")
    case True
    then obtain j where j: "j \<in> set (queued_jobs ?s)" "k = jb_task_id j" by blast
    from p(6) [OF j(1)] job j(2) show ?thesis by auto
  next
    case False
    with p(5) job have "map_of (sc_jobs ?s) k = Some job" by simp
    moreover from scheduler_okD(6) [OF rok this] have "jb_task_id job = k" by (simp add: job_ok_def)
    ultimately have "job \<in> set (queued_jobs ?s)" using q(2) job(2) by simp
    with False \<open>jb_task_id job = k\<close> show ?thesis by blast
  qed
  moreover have "schedule (sc_leader_id s) now lease s = (Inr ds, s')" using lease p(1) by (simp add: schedule_def Let_def)
  moreover have "memory_kept s s'" using r p(4) by (blast intro: memory_kept_trans)
  ultimately show ?thesis using r p(2,3) unfolding grows_def by auto
qed

lemma schedule_round_ok:
  assumes "scheduler_ok s"
  shows "scheduler_ok (snd (schedule caller_id now lease s))"
proof (cases "caller_id = sc_leader_id s \<and> 1 \<le> lease")
  case True
  with schedule_round [OF assms, of lease now] show ?thesis by auto
next
  case False
  with assms show ?thesis by (auto simp: schedule_def)
qed

text \<open>A round adds no job.\<close>

lemma recover_keys: "set (dict_keys (sc_jobs (recover now s))) \<subseteq> set (dict_keys (sc_jobs s))"
proof -
  have "set (dict_keys (sc_jobs (fold (recover_job now) js s1))) \<subseteq> set (dict_keys (sc_jobs s1)) \<union> set (dict_keys js)" for js s1
  proof (induction js arbitrary: s1)
    case (Cons p js)
    have "set (dict_keys (sc_jobs (recover_job now p s1))) \<subseteq> insert (fst p) (set (dict_keys (sc_jobs s1)))"
      by (cases p) (auto simp: recover_job_def set_dict_keys_update simp del: set_map)
    with Cons [of "recover_job now p s1"] show ?case by (auto simp del: set_map)
  qed simp
  from this [of "sc_jobs s" s] show ?thesis unfolding recover_def by blast
qed

lemma place_keys: "set (dict_keys (sc_jobs (snd (place job now lease s)))) \<subseteq> insert (jb_task_id job) (set (dict_keys (sc_jobs s)))"
  by (auto simp: place_def reserve_def Let_def set_dict_keys_update simp del: set_map split: sum.split option.split prod.splits)

lemma place_all_keys: "set (dict_keys (sc_jobs (snd (place_all jobs now lease s)))) \<subseteq> set (dict_keys (sc_jobs s)) \<union> jb_task_id ` set jobs"
proof (induction jobs arbitrary: s)
  case (Cons job jobs)
  obtain r s1 where r: "place job now lease s = (r, s1)" by fastforce
  with place_keys [of job now lease s] Cons [of s1] show ?case
    by (cases r) (auto simp del: set_map split: prod.split sum.split)
qed simp

lemma schedule_keys:
  assumes "scheduler_ok s"
  shows "set (dict_keys (sc_jobs (snd (schedule caller_id now lease s)))) \<subseteq> set (dict_keys (sc_jobs s))"
proof -
  have rok: "scheduler_ok (recover now s)" using recover_ok [OF assms] by blast
  have "jb_task_id job \<in> set (dict_keys (sc_jobs (recover now s)))" if "job \<in> set (queued_jobs (recover now s))" for job
    using that queued_jobs_current(2) [OF rok] by (metis domI dom_map_of_conv_image_fst list.set_map)
  with place_all_keys [of "queued_jobs (recover now s)" now lease "recover now s"] recover_keys [of now s] show ?thesis
    unfolding schedule_def Let_def by (auto simp del: set_map)
qed

interpretation scheduler: machine "\<lambda>s. s = new_scheduler" scheduler_step scheduler_ok
proof (unfold_locales, goal_cases)
  case (1 s)
  then show ?case by (simp add: scheduler_ok_def new_scheduler_def)
next
  case (2 s call)
  then show ?case by (cases call) (simp_all add: heartbeat_ok submit_job_ok schedule_round_ok recover_ok)
qed

section \<open>Properties\<close>

text \<open>Property C22. Compute is never shared or lost track of: after any heartbeats, submissions, rounds and
  expiries, two reservations on a node have no CPU and no GPU in common, each holds exactly the cores and GPUs
  its job asked for and belongs to the one job that names it, every scheduled job has its reservation, and a
  job fails only when its attempts are used up.\<close>
theorem compute_never_shared:
  assumes "s = fold scheduler_step calls new_scheduler"
  shows "(\<forall>a d a' d'. map_of (sc_dispatches s) a = Some d \<and> map_of (sc_dispatches s) a' = Some d' \<and> a \<noteq> a' \<and> dp_node_id d = dp_node_id d' \<longrightarrow>
      set (dp_cpu_ids d) \<inter> set (dp_cpu_ids d') = {} \<and> set (dp_gpu_ids d) \<inter> set (dp_gpu_ids d') = {}) \<and>
    (\<forall>a d. map_of (sc_dispatches s) a = Some d \<longrightarrow> (\<exists>job. map_of (sc_jobs s) (dp_task_id d) = Some job \<and> jb_state job = SCHEDULED \<and>
      jb_allocation_id job = Some a \<and> int (length (dp_cpu_ids d)) = cpu_cores (jb_resources job) \<and>
      int (length (dp_gpu_ids d)) = gpu_count (jb_resources job))) \<and>
    (\<forall>k job. map_of (sc_jobs s) k = Some job \<longrightarrow> jb_attempts job \<le> jb_max_attempts job \<and>
      (jb_state job = FAILED \<longrightarrow> jb_attempts job = jb_max_attempts job) \<and>
      (jb_state job = SCHEDULED \<longrightarrow> (\<exists>a d. jb_allocation_id job = Some a \<and> map_of (sc_dispatches s) a = Some d \<and> dp_task_id d = k)))"
proof -
  have ok: "scheduler_ok s" unfolding assms by (rule scheduler.ok_run) simp
  note d = scheduler_okD [OF ok]
  have "set (dp_cpu_ids x) \<inter> set (dp_cpu_ids x') = {} \<and> set (dp_gpu_ids x) \<inter> set (dp_gpu_ids x') = {}"
    if "map_of (sc_dispatches s) a = Some x" "map_of (sc_dispatches s) a' = Some x'" "a \<noteq> a'" "dp_node_id x = dp_node_id x'" for a x a' x'
    using d(8) [OF that(1-3)] that(4) unfolding apart_def by blast
  moreover have "\<exists>job. map_of (sc_jobs s) (dp_task_id x) = Some job \<and> jb_state job = SCHEDULED \<and> jb_allocation_id job = Some a \<and>
      int (length (dp_cpu_ids x)) = cpu_cores (jb_resources job) \<and> int (length (dp_gpu_ids x)) = gpu_count (jb_resources job)"
    if "map_of (sc_dispatches s) a = Some x" for a x using d(7) [OF that] unfolding dispatch_ok_def by blast
  moreover have "jb_attempts job \<le> jb_max_attempts job \<and> (jb_state job = FAILED \<longrightarrow> jb_attempts job = jb_max_attempts job) \<and>
      (jb_state job = SCHEDULED \<longrightarrow> (\<exists>a x. jb_allocation_id job = Some a \<and> map_of (sc_dispatches s) a = Some x \<and> dp_task_id x = k))"
    if "map_of (sc_jobs s) k = Some job" for k job using d(6) [OF that] unfolding job_ok_def by blast
  ultimately show ?thesis by blast
qed

definition two_job_run :: "scheduler_call list" where
  "two_job_run =
     (let node = \<lparr>nd_node_id = ''n1'', nd_cpu_ids = [0, 1, 2], nd_memory_mb = 1024, nd_gpus = [], nd_numa_cpus = [(0, [0, 1, 2])],
        nd_labels = {}, nd_heartbeat_at = 0\<rparr>;
        r = \<lparr>cpu_cores = 1, memory_mb = 256, gpu_count = 0, gpu_class = None, wall_time_seconds = 60, numa_node = None, cpu_affinity = [],
          rq_labels = {}\<rparr>
      in [Heartbeat node, Submit_job ''task-1'' ''a'' r 0 1, Submit_job ''task-2'' ''b'' r 0 1, Schedule ''sigraft-scheduler'' 1 30])"

lemma compute_never_shared_witness:
  "\<exists>s d d'. fold scheduler_step two_job_run new_scheduler = s \<and> map_of (sc_dispatches s) ''allocation-3'' = Some d \<and>
     map_of (sc_dispatches s) ''allocation-4'' = Some d' \<and> dp_node_id d = dp_node_id d' \<and> dp_cpu_ids d = [0] \<and> dp_cpu_ids d' = [1] \<and>
     set (dp_cpu_ids d) \<inter> set (dp_cpu_ids d') = {}"
proof -
  let ?s = "fold scheduler_step two_job_run new_scheduler"
  have d: "map_option (\<lambda>d. (dp_node_id d, dp_cpu_ids d)) (map_of (sc_dispatches ?s) ''allocation-3'') = Some (''n1'', [0])" by code_simp
  have d': "map_option (\<lambda>d. (dp_node_id d, dp_cpu_ids d)) (map_of (sc_dispatches ?s) ''allocation-4'') = Some (''n1'', [1])" by code_simp
  from d d' compute_never_shared [OF refl, of two_job_run] show ?thesis by auto
qed

text \<open>Property C36. What a round of the leader does, in any state the scheduler can reach: with a lease that is not positive it
  raises ValueError and changes nothing.  Otherwise it never raises; every node whose reservations were within its memory
  keeps them within it, whatever the other nodes reported; and it is work-conserving: a job left in the queue fits on no live
  node in the state the round ends in.\<close>
theorem round_places_all_that_fits:
  assumes "s = fold scheduler_step calls new_scheduler"
  shows "if lease < 1 then schedule (sc_leader_id s) now lease s = (Inl (ValueError ''lease_seconds must be positive''), s)
    else \<exists>ds s'. schedule (sc_leader_id s) now lease s = (Inr ds, s') \<and> sc_nodes s' = sc_nodes s \<and>
      (\<forall>k n. map_of (sc_nodes s) k = Some n \<and> memory_used s k \<le> nd_memory_mb n \<longrightarrow> memory_used s' k \<le> nd_memory_mb n) \<and>
      (\<forall>k job k' n. map_of (sc_jobs s') k = Some job \<and> jb_state job = QUEUED \<and> map_of (sc_nodes s') k' = Some n \<and>
         now - nd_heartbeat_at n \<le> sc_heartbeat_timeout s' \<longrightarrow> available_fit (jb_resources job) n s' = Inr False)"
proof (cases "lease < 1")
  case True
  then show ?thesis by (simp add: schedule_def)
next
  case False
  have ok: "scheduler_ok s" unfolding assms by (rule scheduler.ok_run) simp
  from schedule_round [OF ok, of lease now] False obtain ds s' where r: "schedule (sc_leader_id s) now lease s = (Inr ds, s')" "scheduler_ok s'"
    "sc_nodes s' = sc_nodes s" "memory_kept s s'"
    "\<And>k job. map_of (sc_jobs s') k = Some job \<and> jb_state job = QUEUED \<Longrightarrow> waits now s' (jb_resources job)" by auto
  have "available_fit (jb_resources job) n s' = Inr False"
    if "map_of (sc_jobs s') k = Some job" "jb_state job = QUEUED" "map_of (sc_nodes s') k' = Some n"
      "now - nd_heartbeat_at n \<le> sc_heartbeat_timeout s'" for k job k' n
  proof -
    have "n \<in> set (dict_values (sc_nodes s'))" using that(3) dict_values_map_of [OF scheduler_okD(2) [OF r(2)]] by blast
    with r(5) [of k job] that have "\<not> fits s' (jb_resources job) n" unfolding waits_def by blast
    then show ?thesis by (simp add: available_fit_total [OF r(2)])
  qed
  with r(1,3,4) False show ?thesis unfolding memory_kept_def by auto
qed

text \<open>Two jobs run on a node of three cores; the third, which asks for two, waits.\<close>

definition waiting_run :: "scheduler_call list" where
  "waiting_run = two_job_run @ [Submit_job ''task-3'' ''a'' \<lparr>cpu_cores = 2, memory_mb = 256, gpu_count = 0, gpu_class = None,
     wall_time_seconds = 60, numa_node = None, cpu_affinity = [], rq_labels = {}\<rparr> 0 1]"

lemma round_places_all_that_fits_witness:
  "\<exists>s' job n. snd (schedule ''sigraft-scheduler'' 2 30 (fold scheduler_step waiting_run new_scheduler)) = s' \<and>
     map_of (sc_nodes s') ''n1'' = Some n \<and> memory_used s' ''n1'' \<le> nd_memory_mb n \<and>
     map_of (sc_jobs s') ''task-3'' = Some job \<and> jb_state job = QUEUED \<and> available_fit (jb_resources job) n s' = Inr False"
proof -
  let ?s = "fold scheduler_step waiting_run new_scheduler" and ?r = "schedule ''sigraft-scheduler'' 2 30 (fold scheduler_step waiting_run new_scheduler)"
  have leader: "sc_leader_id ?s = ''sigraft-scheduler''" and used: "memory_used ?s ''n1'' = 512" by code_simp+
  have after: "map_option (\<lambda>n. (nd_memory_mb n, nd_heartbeat_at n)) (map_of (sc_nodes ?s) ''n1'') = Some (1024, 0)"
    "map_option jb_state (map_of (sc_jobs (snd ?r)) ''task-3'') = Some QUEUED" "sc_heartbeat_timeout (snd ?r) = 30" by code_simp+
  obtain n job where n: "map_of (sc_nodes ?s) ''n1'' = Some n" "nd_heartbeat_at n = 0" "nd_memory_mb n = 1024"
    and job: "map_of (sc_jobs (snd ?r)) ''task-3'' = Some job" "jb_state job = QUEUED" using after by auto
  have "\<not> (30::int) < 1" by simp
  from round_places_all_that_fits [OF refl, of 30 waiting_run 2, unfolded leader if_not_P [OF this]] obtain ds s' where
    r: "?r = (Inr ds, s')" "sc_nodes s' = sc_nodes ?s"
      "\<forall>k n. map_of (sc_nodes ?s) k = Some n \<and> memory_used ?s k \<le> nd_memory_mb n \<longrightarrow> memory_used s' k \<le> nd_memory_mb n"
      "\<forall>k job k' n. map_of (sc_jobs s') k = Some job \<and> jb_state job = QUEUED \<and> map_of (sc_nodes s') k' = Some n \<and>
         2 - nd_heartbeat_at n \<le> sc_heartbeat_timeout s' \<longrightarrow> available_fit (jb_resources job) n s' = Inr False" by blast
  have s': "snd ?r = s'" using r(1) by simp
  have "map_of (sc_nodes s') ''n1'' = Some n" using n(1) r(2) by simp
  moreover from this have "available_fit (jb_resources job) n s' = Inr False"
    using r(4) job n(2) after(3) unfolding s' by fastforce
  moreover have "memory_used ?s ''n1'' \<le> nd_memory_mb n" using n(3) used by simp
  then have "memory_used s' ''n1'' \<le> nd_memory_mb n" using r(3) n(1) by blast
  ultimately show ?thesis using s' job unfolding s' by blast
qed

end
