(* ===== verification/ServiceApi.thy ===== *)
theory ServiceApi
  imports ClusterScheduler
begin

text \<open>
  Lab 39, the HTTP surface of \<open>sigraft_service.py\<close>: \<open>_route_request\<close> on a parsed path and a decoded body,
  over the task store and the scheduler, with the read-only inventory of \<open>redfish.py\<close> and the resolvers of
  \<open>graphql_api.py\<close>.  The GraphQL engine is an argument: it turns a request into resolver calls, each
  chosen on what the earlier ones gave, and formats the result.
\<close>

section \<open>Redfish inventory\<close>

record managed_system =
  ms_system_id :: string
  ms_name :: string
  ms_model :: string
  ms_manufacturer :: string
  ms_serial_number :: string
  ms_power_state :: string
  ms_health :: string

definition as_redfish :: "managed_system \<Rightarrow> json" where
  "as_redfish m = J_obj
     [(''@odata.id'', J_str (''/redfish/v1/Systems/'' @ ms_system_id m)),
      (''@odata.type'', J_str ''#ComputerSystem.v1_22_0.ComputerSystem''),
      (''Id'', J_str (ms_system_id m)), (''Name'', J_str (ms_name m)), (''Model'', J_str (ms_model m)),
      (''Manufacturer'', J_str (ms_manufacturer m)), (''SerialNumber'', J_str (ms_serial_number m)),
      (''PowerState'', J_str (ms_power_state m)), (''Status'', J_obj [(''Health'', J_str (ms_health m)), (''State'', J_str ''Enabled'')])]"

type_synonym inventory = "managed_system list"

definition new_inventory :: "managed_system list \<Rightarrow> inventory res" where
  "new_inventory systems =
     (if systems = [] then Inl (ValueError ''Redfish inventory requires at least one system'')
      else if \<not> distinct (map ms_system_id systems) then Inl (ValueError ''Redfish system ids must be unique'')
      else if \<exists>m \<in> set systems. ms_system_id m = [] \<or> CHR ''/'' \<in> set (ms_system_id m)
      then Inl (ValueError ''Redfish system ids must be non-empty path segments'')
      else Inr systems)"

definition service_root :: json where
  "service_root = J_obj
     [(''@odata.id'', J_str ''/redfish/v1/''), (''@odata.type'', J_str ''#ServiceRoot.v1_18_0.ServiceRoot''), (''Id'', J_str ''RootService''),
      (''Name'', J_str ''SigRaft read-only data-centre inventory''), (''RedfishVersion'', J_str ''1.20.0''),
      (''Systems'', J_obj [(''@odata.id'', J_str ''/redfish/v1/Systems'')])]"

definition systems_collection :: "inventory \<Rightarrow> json" where
  "systems_collection systems =
     (let members = map (\<lambda>m. J_obj [(''@odata.id'', J_str (''/redfish/v1/Systems/'' @ ms_system_id m))]) systems
      in J_obj [(''@odata.id'', J_str ''/redfish/v1/Systems''), (''@odata.type'', J_str ''#ComputerSystemCollection.ComputerSystemCollection''),
           (''Name'', J_str ''Managed systems''), (''Members@odata.count'', J_int (int (length members))), (''Members'', J_list members)])"

definition managed_system_of :: "inventory \<Rightarrow> string \<Rightarrow> json option" where
  "managed_system_of systems system_id = map_option as_redfish (map_of (map (\<lambda>m. (ms_system_id m, m)) systems) system_id)"

definition default_inventory :: "inventory res" where
  "default_inventory = new_inventory
     [\<lparr>ms_system_id = ''sigraft-node-1'', ms_name = ''SigRaft compute node 1'', ms_model = ''Virtual rack node'', ms_manufacturer = ''SigRaft lab'',
       ms_serial_number = ''SIGRAFT-LOCAL-001'', ms_power_state = ''On'', ms_health = ''OK''\<rparr>]"

section \<open>GraphQL resolvers\<close>

datatype graphql_call = Query_task string | Query_tasks int | Submit_mutation string "int option"

datatype graphql_result = Task_result "sigraft_task option" | Tasks_result "sigraft_task list" | Graphql_error string

definition require_scope :: "string set \<Rightarrow> string \<Rightarrow> string option" where
  "require_scope scopes required = (if required \<in> scopes then None else Some (''missing required scope: '' @ required))"

definition error_text :: "exn \<Rightarrow> string" where
  "error_text er = (case er of ValueError m \<Rightarrow> m | TypeError m \<Rightarrow> m | PermissionError m \<Rightarrow> m | KeyError m \<Rightarrow> m | _ \<Rightarrow> [])"

definition checkpoint_json :: "int option \<Rightarrow> json" where
  "checkpoint_json checkpoint = (case checkpoint of None \<Rightarrow> J_null | Some n \<Rightarrow> J_int n)"

fun resolve :: "int \<Rightarrow> string set \<Rightarrow> graphql_call \<Rightarrow> job_service \<Rightarrow> graphql_result \<times> job_service" where
  "resolve limit scopes (Query_task task_id) s =
     (case require_scope scopes ''tasks:read'' of Some m \<Rightarrow> (Graphql_error m, s) | None \<Rightarrow> (Task_result (get_task task_id s), s))"
| "resolve limit scopes (Query_tasks first) s =
     (case require_scope scopes ''tasks:read'' of
        Some m \<Rightarrow> (Graphql_error m, s)
      | None \<Rightarrow>
          (case list_tasks first s of Inl er \<Rightarrow> (Graphql_error (error_text er), s) | Inr tasks \<Rightarrow> (Tasks_result tasks, s)))"
| "resolve limit scopes (Submit_mutation action checkpoint) s =
     (case require_scope scopes ''tasks:write'' of
        Some m \<Rightarrow> (Graphql_error m, s)
      | None \<Rightarrow>
          (case submit_task limit (J_str action) (checkpoint_json checkpoint) s of
             (Inl er, s') \<Rightarrow> (Graphql_error (error_text er), s')
           | (Inr task, s') \<Rightarrow> (Task_result (Some task), s')))"

text \<open>
  What the engine does with a request: it finishes, with the formatted result, or calls a resolver and goes on
  with what that gave.  Errors of a document and of its resolvers are part of the formatted result, as
  \<open>graphql_sync\<close> documents.
\<close>

datatype resolution = Finished json | Call graphql_call "graphql_result \<Rightarrow> resolution"

type_synonym graphql_engine = "string \<Rightarrow> payload option \<Rightarrow> string option \<Rightarrow> resolution"

primrec execute_calls :: "int \<Rightarrow> string set \<Rightarrow> resolution \<Rightarrow> job_service \<Rightarrow> json \<times> job_service" where
  "execute_calls limit scopes (Finished data) s = (data, s)"
| "execute_calls limit scopes (Call call continue) s =
     (case resolve limit scopes call s of (result, s') \<Rightarrow> execute_calls limit scopes (continue result) s')"

definition execute_http_payload :: "graphql_engine \<Rightarrow> int \<Rightarrow> payload \<Rightarrow> string set \<Rightarrow> job_service \<Rightarrow> json res \<times> job_service" where
  "execute_http_payload engine limit body scopes s =
     (case get_item body ''query'' J_null of
        J_str query \<Rightarrow>
          if strip query = [] then (Inl (ValueError ''query must be non-empty text''), s)
          else
            (case (case get_item body ''variables'' J_null of J_null \<Rightarrow> Inr None | J_obj v \<Rightarrow> Inr (Some v) | _ \<Rightarrow> Inl (ValueError ''variables must be an object'')) of
               Inl er \<Rightarrow> (Inl er, s)
             | Inr variables \<Rightarrow>
                 (case (case get_item body ''operationName'' J_null of J_null \<Rightarrow> Inr None | J_str n \<Rightarrow> Inr (Some n)
                          | _ \<Rightarrow> Inl (ValueError ''operationName must be text'')) of
                    Inl er \<Rightarrow> (Inl er, s)
                  | Inr operation_name \<Rightarrow>
                      (case execute_calls limit scopes (engine query variables operation_name) s of (data, s') \<Rightarrow> (Inr data, s'))))
      | _ \<Rightarrow> (Inl (ValueError ''query must be non-empty text''), s))"

section \<open>Representations\<close>

definition optional :: "('a \<Rightarrow> json) \<Rightarrow> 'a option \<Rightarrow> json" where
  "optional f x = (case x of None \<Rightarrow> J_null | Some v \<Rightarrow> f v)"

definition task_json :: "sigraft_task \<Rightarrow> json" where
  "task_json t = J_obj [(''task_id'', J_str (tk_task_id t)), (''action'', J_str (tk_action t)), (''state'', J_str (tk_state t)),
     (''checkpoint'', optional J_int (tk_checkpoint t))]"

definition state_text :: "scheduled_state \<Rightarrow> string" where
  "state_text st = (case st of QUEUED \<Rightarrow> ''queued'' | SCHEDULED \<Rightarrow> ''scheduled'' | RUNNING \<Rightarrow> ''running'' | SUCCEEDED \<Rightarrow> ''succeeded''
     | FAILED \<Rightarrow> ''failed'' | CANCELLED \<Rightarrow> ''cancelled'')"

definition resources_json :: "scheduler_resources \<Rightarrow> json" where
  "resources_json r = J_obj [(''cpu_cores'', J_int (cpu_cores r)), (''memory_mb'', J_int (memory_mb r)), (''gpu_count'', J_int (gpu_count r)),
     (''gpu_class'', optional J_str (gpu_class r)), (''wall_time_seconds'', J_int (wall_time_seconds r)), (''numa_node'', optional J_int (numa_node r)),
     (''cpu_affinity'', J_list (map J_int (cpu_affinity r))), (''labels'', J_list (map J_str (sorted_list_of_set (rq_labels r))))]"

definition job_json :: "scheduled_job \<Rightarrow> json" where
  "job_json j = J_obj [(''task_id'', J_str (jb_task_id j)), (''project'', J_str (jb_project j)), (''resources'', resources_json (jb_resources j)),
     (''priority'', J_int (jb_priority j)), (''sequence'', J_int (jb_sequence j)), (''max_attempts'', J_int (jb_max_attempts j)),
     (''attempts'', J_int (jb_attempts j)), (''state'', J_str (state_text (jb_state j))), (''allocation_id'', optional J_str (jb_allocation_id j)),
     (''node_id'', optional J_str (jb_node_id j)), (''lease_expires_at'', optional J_int (jb_lease_expires_at j))]"

definition dispatch_json :: "scheduler_dispatch \<Rightarrow> json" where
  "dispatch_json d = J_obj [(''allocation_id'', J_str (dp_allocation_id d)), (''task_id'', J_str (dp_task_id d)), (''node_id'', J_str (dp_node_id d)),
     (''queue'', J_str (dp_queue d)), (''cpu_ids'', J_list (map J_int (dp_cpu_ids d))), (''memory_max_bytes'', J_int (dp_memory_max_bytes d)),
     (''gpu_ids'', J_list (map J_str (dp_gpu_ids d))), (''numa_node'', optional J_int (dp_numa_node d)),
     (''environment'', J_obj (map (\<lambda>(k, v). (k, J_str v)) (dp_environment d)))]"

section \<open>Routing\<close>

datatype reply = Json json | Html string

record api_state =
  ap_ready :: bool
  ap_jobs :: job_service
  ap_scheduler :: sigraft_scheduler

record api_context =
  cx_max_action_chars :: int
  cx_metadata :: json
  cx_report :: "string option"
  cx_redfish :: inventory
  cx_graphql :: graphql_engine

type_synonym response = "int \<times> reply"

definition error_reply :: "string \<Rightarrow> reply" where
  "error_reply message = Json (J_obj [(''error'', J_str message)])"

text \<open>\<open>except (TypeError, ValueError)\<close>; other exceptions pass.\<close>

definition bad_request :: "exn \<Rightarrow> response res" where
  "bad_request er = (case er of ValueError m \<Rightarrow> Inr (400, error_reply m) | TypeError m \<Rightarrow> Inr (400, error_reply m) | _ \<Rightarrow> Inl er)"

definition slashes :: "string \<Rightarrow> nat" where
  "slashes path = length (filter (\<lambda>c. c = CHR ''/'') path)"

definition last_segment :: "string \<Rightarrow> string" where
  "last_segment path = rev (takeWhile (\<lambda>c. c \<noteq> CHR ''/'') (rev path))"

definition begins :: "string \<Rightarrow> string \<Rightarrow> bool" where
  "begins p s \<longleftrightarrow> take (length p) s = p"

definition body_payload :: "payload option \<Rightarrow> payload" where
  "body_payload body = (case body of None \<Rightarrow> [] | Some b \<Rightarrow> b)"

definition required_body_integer :: "payload \<Rightarrow> string \<Rightarrow> int res" where
  "required_body_integer p key = integer_item p key J_null"

definition optional_body_integer :: "payload \<Rightarrow> string \<Rightarrow> int \<Rightarrow> int res" where
  "optional_body_integer p key fallback = integer_item p key (J_int fallback)"

definition require_value :: "bool \<Rightarrow> string \<Rightarrow> unit res" where
  "require_value b message = (if b then Inr () else Inl (ValueError message))"

definition post_node :: "payload \<Rightarrow> api_state \<Rightarrow> response res \<times> api_state" where
  "post_node p s =
     (case node_from_mapping p of
        Inl er \<Rightarrow> (bad_request er, s)
      | Inr node \<Rightarrow>
          (case heartbeat node (ap_scheduler s) of
             (Inl er, sc) \<Rightarrow> (bad_request er, s\<lparr>ap_scheduler := sc\<rparr>)
           | (Inr u, sc) \<Rightarrow> (Inr (202, Json (J_obj [(''status'', J_str ''recorded'')])), s\<lparr>ap_scheduler := sc\<rparr>)))"

text \<open>The checks of \<open>POST /scheduler/jobs\<close> before anything is stored.\<close>

definition scheduled_request :: "payload \<Rightarrow> sigraft_scheduler \<Rightarrow> (string \<times> string \<times> int \<times> int \<times> scheduler_resources) res" where
  "scheduled_request p sc =
     (case get_item p ''resources'' J_null of
        J_obj resources \<Rightarrow>
          (case (get_item p ''action'' J_null, get_item p ''project'' J_null) of
             (J_str action, J_str project) \<Rightarrow>
               and_then (optional_body_integer p ''priority'' 0) (\<lambda>priority.
               and_then (optional_body_integer p ''max_attempts'' 1) (\<lambda>max_attempts.
               and_then (require_value (strip project \<noteq> [] \<and> 0 \<le> priority \<and> priority \<le> 100 \<and> 1 \<le> max_attempts)
                 ''project, priority or max_attempts is invalid'') (\<lambda>_.
               and_then (resources_from_mapping resources) (\<lambda>request.
               and_then (validate_request request sc) (\<lambda>_.
               Inr (action, project, priority, max_attempts, request))))))
           | _ \<Rightarrow> Inl (ValueError ''action and project must be text''))
      | _ \<Rightarrow> Inl (ValueError ''resources must be an object''))"

definition post_job :: "int \<Rightarrow> payload \<Rightarrow> api_state \<Rightarrow> response res \<times> api_state" where
  "post_job limit p s =
     (case scheduled_request p (ap_scheduler s) of
        Inl er \<Rightarrow> (bad_request er, s)
      | Inr (action, project, priority, max_attempts, request) \<Rightarrow>
          (case submit_task limit (J_str action) J_null (ap_jobs s) of
             (Inl er, jobs) \<Rightarrow> (bad_request er, s\<lparr>ap_jobs := jobs\<rparr>)
           | (Inr task, jobs) \<Rightarrow>
               (case submit (tk_task_id task) project request priority max_attempts (ap_scheduler s) of
                  (Inl er, sc) \<Rightarrow> (bad_request er, s\<lparr>ap_jobs := jobs, ap_scheduler := sc\<rparr>)
                | (Inr job, sc) \<Rightarrow> (Inr (202, Json (job_json job)), s\<lparr>ap_jobs := jobs, ap_scheduler := sc\<rparr>))))"

definition post_run :: "payload \<Rightarrow> api_state \<Rightarrow> response res \<times> api_state" where
  "post_run p s =
     (case (case get_item p ''caller_id'' J_null of
              J_str caller_id \<Rightarrow>
                and_then (required_body_integer p ''now'') (\<lambda>now.
                and_then (optional_body_integer p ''lease_seconds'' 30) (\<lambda>lease_seconds. Inr (caller_id, now, lease_seconds)))
            | _ \<Rightarrow> Inl (ValueError ''caller_id must be text'')) of
        Inl er \<Rightarrow> (bad_request er, s)
      | Inr (caller_id, now, lease_seconds) \<Rightarrow>
          (case schedule caller_id now lease_seconds (ap_scheduler s) of
             (Inl (PermissionError m), sc) \<Rightarrow> (Inr (409, error_reply m), s\<lparr>ap_scheduler := sc\<rparr>)
           | (Inl er, sc) \<Rightarrow> (bad_request er, s\<lparr>ap_scheduler := sc\<rparr>)
           | (Inr plans, sc) \<Rightarrow> (Inr (200, Json (J_obj [(''dispatches'', J_list (map dispatch_json plans))])), s\<lparr>ap_scheduler := sc\<rparr>)))"

definition post_task :: "int \<Rightarrow> payload \<Rightarrow> api_state \<Rightarrow> response res \<times> api_state" where
  "post_task limit p s =
     (let invalid = Inr (400, error_reply ''action and checkpoint must be valid'') in
      case get_item p ''checkpoint'' J_null of
        J_bool b \<Rightarrow> (invalid, s)
      | J_float x \<Rightarrow> (invalid, s)
      | J_str t \<Rightarrow> (invalid, s)
      | J_list l \<Rightarrow> (invalid, s)
      | J_obj e \<Rightarrow> (invalid, s)
      | checkpoint \<Rightarrow>
          (case submit_task limit (get_item p ''action'' (J_str [])) checkpoint (ap_jobs s) of
             (Inl er, jobs) \<Rightarrow> (and_then (bad_request er) (\<lambda>_. invalid), s\<lparr>ap_jobs := jobs\<rparr>)
           | (Inr task, jobs) \<Rightarrow> (Inr (202, Json (task_json task)), s\<lparr>ap_jobs := jobs\<rparr>)))"

definition post_graphql :: "api_context \<Rightarrow> payload \<Rightarrow> string set \<Rightarrow> api_state \<Rightarrow> response res \<times> api_state" where
  "post_graphql cx p scopes s =
     (case execute_http_payload (cx_graphql cx) (cx_max_action_chars cx) p scopes (ap_jobs s) of
        (Inl (ValueError m), jobs) \<Rightarrow> (Inr (400, error_reply m), s\<lparr>ap_jobs := jobs\<rparr>)
      | (Inl er, jobs) \<Rightarrow> (Inl er, s\<lparr>ap_jobs := jobs\<rparr>)
      | (Inr data, jobs) \<Rightarrow> (Inr (200, Json data), s\<lparr>ap_jobs := jobs\<rparr>))"

definition found :: "json option \<Rightarrow> string \<Rightarrow> response" where
  "found value message = (case value of None \<Rightarrow> (404, error_reply message) | Some v \<Rightarrow> (200, Json v))"

definition route_get :: "api_context \<Rightarrow> string \<Rightarrow> api_state \<Rightarrow> response" where
  "route_get cx path s =
     (if path = ''/livez'' then (200, Json (J_obj [(''status'', J_str ''alive'')]))
      else if path = ''/readyz'' then
        (if ap_ready s then (200, Json (J_obj [(''status'', J_str ''ready'')])) else (503, Json (J_obj [(''status'', J_str ''starting'')])))
      else if path = ''/metadata'' then (200, Json (cx_metadata cx))
      else if begins ''/scheduler/jobs/'' path \<and> slashes path = 3 then
        found (map_option job_json (map_of (sc_jobs (ap_scheduler s)) (last_segment path))) ''scheduled job not found''
      else if path = ''/analysis'' then
        (case cx_report cx of None \<Rightarrow> (503, error_reply ''analysis unavailable'') | Some html \<Rightarrow> (200, Html html))
      else if path = ''/redfish/v1/'' then (200, Json service_root)
      else if path = ''/redfish/v1/Systems'' then (200, Json (systems_collection (cx_redfish cx)))
      else if begins ''/redfish/v1/Systems/'' path \<and> slashes path = 4 then
        found (managed_system_of (cx_redfish cx) (last_segment path)) ''managed system not found''
      else if begins ''/tasks/'' path \<and> slashes path = 2 then
        found (map_option task_json (get_task (last_segment path) (ap_jobs s))) ''task not found''
      else (404, error_reply ''not found''))"

definition route_request ::
  "api_context \<Rightarrow> string \<Rightarrow> string \<Rightarrow> payload option \<Rightarrow> string set \<Rightarrow> api_state \<Rightarrow> response res \<times> api_state" where
  "route_request cx request_method path body scopes s =
     (let p = body_payload body in
      if request_method = ''GET'' then (Inr (route_get cx path s), s)
      else if request_method \<noteq> ''POST'' then (Inr (404, error_reply ''not found''), s)
      else if path = ''/graphql'' then post_graphql cx p scopes s
      else if path = ''/scheduler/nodes'' then post_node p s
      else if path = ''/scheduler/jobs'' then post_job (cx_max_action_chars cx) p s
      else if path = ''/scheduler/run'' then post_run p s
      else if path = ''/tasks'' then post_task (cx_max_action_chars cx) p s
      else (Inr (404, error_reply ''not found''), s))"

definition route_template :: "string \<Rightarrow> string" where
  "route_template path =
     (if begins ''/tasks/'' path \<and> slashes path = 2 then ''/tasks/{task_id}''
      else if begins ''/redfish/v1/Systems/'' path \<and> slashes path = 4 then ''/redfish/v1/Systems/{system_id}''
      else if begins ''/scheduler/jobs/'' path \<and> slashes path = 3 then ''/scheduler/jobs/{task_id}''
      else if path \<in> {''/tasks'', ''/metadata'', ''/graphql'', ''/scheduler/nodes'', ''/scheduler/jobs'', ''/scheduler/run'', ''/analysis'',
        ''/redfish/v1/'', ''/redfish/v1/Systems''} then path
      else ''unmatched'')"

section \<open>The invariant of the service\<close>

datatype api_call =
    Request api_context string string "payload option" "string set"
  | Jobs job_call

type_synonym api_run = "api_state \<times> (nat \<Rightarrow> job_event list)"

text \<open>
  Calls of the task store itself stand for the trusted executor and for observers; submissions of theirs are
  the same call that the routes make.
\<close>

fun api_step :: "api_call \<Rightarrow> api_run \<Rightarrow> api_run" where
  "api_step (Request cx request_method path body scopes) (s, received) = (snd (route_request cx request_method path body scopes s), received)"
| "api_step (Jobs call) (s, received) = (case job_step call (ap_jobs s, received) of (jobs, received') \<Rightarrow> (s\<lparr>ap_jobs := jobs\<rparr>, received'))"

definition new_api :: api_state where
  "new_api = \<lparr>ap_ready = True, ap_jobs = new_job_service, ap_scheduler = new_scheduler\<rparr>"

definition api_ok :: "api_run \<Rightarrow> bool" where
  "api_ok = (\<lambda>(s, received). jobs_run_ok (ap_jobs s, received) \<and> scheduler_ok (ap_scheduler s) \<and>
     set (dict_keys (sc_jobs (ap_scheduler s))) \<subseteq> set (dict_keys (sv_tasks (ap_jobs s))))"

lemma submit_task_cases:
  assumes "jobs_run_ok (s, received)"
  obtains (fails) m where "submit_task limit action checkpoint s = (Inl (ValueError m), s)"
    | (stores) task s' where "submit_task limit action checkpoint s = (Inr task, s')" "tk_task_id task \<notin> set (dict_keys (sv_tasks s))"
      "set (dict_keys (sv_tasks s')) = insert (tk_task_id task) (set (dict_keys (sv_tasks s)))" "jobs_run_ok (s', received)"
proof (cases "fst (submit_task limit action checkpoint s)")
  case (Inl er)
  then have "\<exists>m. submit_task limit action checkpoint s = (Inl (ValueError m), s)"
    by (auto simp: submit_task_def Let_def checkpoint_of_def split: json.splits sum.splits if_splits)
  with fails show ?thesis by blast
next
  case (Inr task)
  then obtain s' where s': "submit_task limit action checkpoint s = (Inr task, s')" by (metis prod.collapse)
  note d = jobs_run_okD [OF assms]
  have name: "tk_task_id task = task_name (sv_next_id s)" "sv_tasks s' = AList.update (tk_task_id task) task (sv_tasks s)"
    using s' by (auto simp: submit_task_def Let_def split: json.splits sum.splits if_splits)
  have "tk_task_id task \<notin> set (dict_keys (sv_tasks s))" using fresh_task_name [OF d(1)] unfolding name(1) d(2) by blast
  moreover have "jobs_run_ok (s', received)" using submit_task_ok [OF assms, of limit action checkpoint] s' by simp
  moreover have "set (dict_keys (sv_tasks s')) = insert (tk_task_id task) (set (dict_keys (sv_tasks s)))"
    unfolding name(2) by (rule set_dict_keys_update)
  ultimately show ?thesis using stores s' by blast
qed

lemma submit_jobs_keys:
  assumes "submit task_id project r priority max_attempts s = (Inr job, s')"
  shows "set (dict_keys (sc_jobs s')) = insert task_id (set (dict_keys (sc_jobs s)))"
proof -
  from assms have "\<exists>job. sc_jobs s' = AList.update task_id job (sc_jobs s)"
    by (auto simp: submit_def Let_def split: if_splits sum.splits)
  then show ?thesis using set_dict_keys_update by metis
qed

lemma resolve_ok: "jobs_run_ok (s, received) \<Longrightarrow> jobs_run_ok (snd (resolve limit scopes call s), received) \<and>
  set (dict_keys (sv_tasks s)) \<subseteq> set (dict_keys (sv_tasks (snd (resolve limit scopes call s))))"
proof (cases call)
  case (Submit_mutation action checkpoint)
  assume ok: "jobs_run_ok (s, received)"
  then show ?thesis
  proof (cases rule: submit_task_cases [where limit = limit and action = "J_str action" and checkpoint = "checkpoint_json checkpoint"])
    case (fails m)
    with ok show ?thesis by (auto simp: Submit_mutation split: option.splits)
  next
    case (stores task s')
    with ok show ?thesis by (auto simp: Submit_mutation split: option.splits)
  qed
qed (auto split: option.splits sum.splits)

lemma execute_calls_ok: "jobs_run_ok (s, received) \<Longrightarrow> jobs_run_ok (snd (execute_calls limit scopes r s), received) \<and>
  set (dict_keys (sv_tasks s)) \<subseteq> set (dict_keys (sv_tasks (snd (execute_calls limit scopes r s))))"
proof (induction r arbitrary: s)
  case (Call call continue)
  obtain result s1 where r: "resolve limit scopes call s = (result, s1)" by fastforce
  with resolve_ok [OF Call.prems, of limit scopes call]
  have s1: "jobs_run_ok (s1, received)" "set (dict_keys (sv_tasks s)) \<subseteq> set (dict_keys (sv_tasks s1))" by simp_all
  from Call.IH [OF rangeI s1(1), of result] s1(2) r show ?case by (auto simp del: set_map)
qed simp

section \<open>Every request is answered\<close>

definition value_error :: "exn \<Rightarrow> bool" where
  "value_error er \<longleftrightarrow> (\<exists>m. er = ValueError m)"

lemma value_error_ValueError [simp]: "value_error (ValueError m)"
  by (simp add: value_error_def)

lemma bad_request_value_error: "value_error er \<Longrightarrow> \<exists>m. bad_request er = Inr (400, error_reply m)"
  by (auto simp: value_error_def bad_request_def)

lemma integer_item_Inl: "integer_item p k d = Inl er \<Longrightarrow> value_error er"
  by (auto simp: integer_item_def split: json.splits)

lemma integer_values_Inl: "integer_values v l = Inl er \<Longrightarrow> value_error er"
  by (auto simp: integer_values_def split: json.splits option.splits)

lemma integer_tuple_Inl: "integer_tuple p k r = Inl er \<Longrightarrow> value_error er"
  by (auto simp: integer_tuple_def Let_def dest: integer_values_Inl split: if_splits)

lemma text_set_Inl: "text_set p k = Inl er \<Longrightarrow> value_error er"
  by (auto simp: text_set_def split: json.splits option.splits)

lemma optional_integer_Inl: "optional_integer p k = Inl er \<Longrightarrow> value_error er"
  by (auto simp: optional_integer_def split: json.splits)

lemma optional_text_Inl: "optional_text p k = Inl er \<Longrightarrow> value_error er"
  by (auto simp: optional_text_def split: json.splits if_splits)

lemma int_of_text_Inl: "int_of_text s = Inl er \<Longrightarrow> value_error er"
  by (auto simp: int_of_text_def Let_def split: if_splits)

lemma gpu_from_mapping_Inl: "gpu_from_mapping v = Inl er \<Longrightarrow> value_error er"
  by (auto simp: gpu_from_mapping_def split: json.splits)

lemma gpus_from_Inl: "gpus_from items = Inl er \<Longrightarrow> value_error er"
  by (induction items) (auto simp: and_then_Inl dest: gpu_from_mapping_Inl)

lemma numa_from_Inl: "numa_from items numa = Inl er \<Longrightarrow> value_error er"
  by (induction items numa rule: numa_from.induct) (auto simp: and_then_Inl dest: int_of_text_Inl integer_values_Inl)

lemma resources_check_Inl: "resources_check r = Inl er \<Longrightarrow> value_error er"
  by (auto simp: resources_check_def split: if_splits)

lemmas reading_errors = integer_item_Inl integer_values_Inl integer_tuple_Inl text_set_Inl optional_integer_Inl optional_text_Inl
  gpus_from_Inl numa_from_Inl resources_check_Inl

lemma node_from_mapping_Inl: "node_from_mapping p = Inl er \<Longrightarrow> value_error er"
  by (auto simp: node_from_mapping_def and_then_Inl dest: reading_errors split: json.splits if_splits)

lemma resources_from_mapping_Inl: "resources_from_mapping p = Inl er \<Longrightarrow> value_error er"
  by (auto simp: resources_from_mapping_def and_then_Inl Let_def dest: reading_errors split: if_splits)

lemma resources_from_mapping_Inr: "resources_from_mapping p = Inr r \<Longrightarrow> resources_check r = Inr ()"
  by (auto simp: resources_from_mapping_def and_then_Inr Let_def split: if_splits)

lemma scheduled_request_Inl: "scheduled_request p sc = Inl er \<Longrightarrow> value_error er"
  by (auto simp: scheduled_request_def and_then_Inl optional_body_integer_def require_value_def validate_request_def
      dest: reading_errors resources_from_mapping_Inl split: json.splits if_splits)

lemma scheduled_request_Inr:
  "scheduled_request p sc = Inr (action, project, priority, max_attempts, r) \<Longrightarrow>
   strip project \<noteq> [] \<and> 0 \<le> priority \<and> priority \<le> 100 \<and> 1 \<le> max_attempts \<and> resources_check r = Inr () \<and> validate_request r sc = Inr ()"
  by (auto simp: scheduled_request_def and_then_Inr require_value_def dest: resources_from_mapping_Inr split: json.splits if_splits)

definition answered :: "(nat \<Rightarrow> job_event list) \<Rightarrow> api_state \<Rightarrow> response res \<times> api_state \<Rightarrow> bool" where
  "answered received s r \<longleftrightarrow> (\<exists>code reply. fst r = Inr (code, reply) \<and> (code \<notin> {200, 202} \<longrightarrow> snd r = s)) \<and> api_ok (snd r, received)"

lemma answered_error: "api_ok (s, received) \<Longrightarrow> value_error er \<Longrightarrow> answered received s (bad_request er, s)"
  using bad_request_value_error by (fastforce simp: answered_def)

lemma post_node_answered:
  assumes ok: "api_ok (s, received)"
  shows "answered received s (post_node p s)"
proof (cases "node_from_mapping p")
  case (Inl er)
  with answered_error [OF ok node_from_mapping_Inl [OF Inl]] show ?thesis by (simp add: post_node_def)
next
  case (Inr node)
  have sok: "scheduler_ok (snd (heartbeat node (ap_scheduler s)))" using ok heartbeat_ok by (simp add: api_ok_def)
  have keys: "sc_jobs (snd (heartbeat node (ap_scheduler s))) = sc_jobs (ap_scheduler s)" by (auto simp: heartbeat_def split: option.split)
  show ?thesis
  proof (cases "fst (heartbeat node (ap_scheduler s))")
    case (Inl er)
    then have "value_error er" "snd (heartbeat node (ap_scheduler s)) = ap_scheduler s"
      by (auto simp: heartbeat_def split: option.splits if_splits)
    with answered_error [OF ok] Inr Inl show ?thesis by (cases "heartbeat node (ap_scheduler s)") (simp add: post_node_def)
  next
    case acc: (Inr u)
    with ok sok keys Inr show ?thesis
      by (cases "heartbeat node (ap_scheduler s)") (simp add: post_node_def answered_def api_ok_def)
  qed
qed

lemma post_job_answered:
  assumes ok: "api_ok (s, received)"
  shows "answered received s (post_job limit p s)"
proof (cases "scheduled_request p (ap_scheduler s)")
  case (Inl er)
  with answered_error [OF ok scheduled_request_Inl [OF Inl]] show ?thesis by (simp add: post_job_def)
next
  case (Inr q)
  obtain action project priority max_attempts r where q: "q = (action, project, priority, max_attempts, r)" by (cases q) auto
  note checks = scheduled_request_Inr [OF Inr [unfolded q]]
  have jok: "jobs_run_ok (ap_jobs s, received)" and sok: "scheduler_ok (ap_scheduler s)"
    and sub: "set (dict_keys (sc_jobs (ap_scheduler s))) \<subseteq> set (dict_keys (sv_tasks (ap_jobs s)))" using ok by (auto simp: api_ok_def)
  from jok show ?thesis
  proof (cases rule: submit_task_cases [where limit = limit and action = "J_str action" and checkpoint = J_null])
    case (fails m)
    then show ?thesis using answered_error [OF ok, of "ValueError m"] Inr by (simp add: post_job_def q)
  next
    case (stores task jobs)
    have fresh: "tk_task_id task \<notin> set (dict_keys (sc_jobs (ap_scheduler s)))" using stores(2) sub by blast
    then obtain job sc where sc: "submit (tk_task_id task) project r priority max_attempts (ap_scheduler s) = (Inr job, sc)"
      using checks by (simp add: submit_def Let_def del: set_map)
    have "scheduler_ok sc" using submit_job_ok [OF sok, of r "tk_task_id task" project priority max_attempts] checks sc by simp
    moreover have "set (dict_keys (sc_jobs sc)) \<subseteq> set (dict_keys (sv_tasks jobs))"
      unfolding submit_jobs_keys [OF sc] stores(3) using sub by blast
    ultimately show ?thesis using Inr stores(1,4) sc by (simp add: post_job_def q answered_def api_ok_def)
  qed
qed

lemma post_run_answered:
  assumes ok: "api_ok (s, received)"
  shows "answered received s (post_run p s)"
proof -
  let ?checked = "case get_item p ''caller_id'' J_null of
      J_str caller_id \<Rightarrow>
        and_then (required_body_integer p ''now'') (\<lambda>now.
        and_then (optional_body_integer p ''lease_seconds'' 30) (\<lambda>lease_seconds. Inr (caller_id, now, lease_seconds)))
    | _ \<Rightarrow> Inl (ValueError ''caller_id must be text'')"
  show ?thesis
  proof (cases ?checked)
    case (Inl er)
    then have "value_error er" by (auto simp: and_then_Inl required_body_integer_def optional_body_integer_def dest: reading_errors split: json.splits)
    with answered_error [OF ok] Inl show ?thesis unfolding post_run_def by (simp only: sum.case)
  next
    case (Inr q)
    obtain caller_id now lease where q: "q = (caller_id, now, lease)" by (cases q) auto
    have sok: "scheduler_ok (ap_scheduler s)" using ok by (simp add: api_ok_def)
    have post: "post_run p s = (case schedule caller_id now lease (ap_scheduler s) of
             (Inl (PermissionError m), sc) \<Rightarrow> (Inr (409, error_reply m), s\<lparr>ap_scheduler := sc\<rparr>)
           | (Inl er, sc) \<Rightarrow> (bad_request er, s\<lparr>ap_scheduler := sc\<rparr>)
           | (Inr plans, sc) \<Rightarrow> (Inr (200, Json (J_obj [(''dispatches'', J_list (map dispatch_json plans))])), s\<lparr>ap_scheduler := sc\<rparr>))"
      unfolding post_run_def Inr q by (simp only: sum.case prod.case)
    consider (other) "caller_id \<noteq> sc_leader_id (ap_scheduler s)" | (lease) "caller_id = sc_leader_id (ap_scheduler s)" "lease < 1"
      | (run) "caller_id = sc_leader_id (ap_scheduler s)" "1 \<le> lease" by linarith
    then show ?thesis
    proof cases
      case other
      with ok show ?thesis unfolding post by (simp add: schedule_def answered_def)
    next
      case lease
      with answered_error [OF ok, of "ValueError ''lease_seconds must be positive''"] show ?thesis unfolding post by (simp add: schedule_def)
    next
      case run
      from schedule_round [OF sok run(2), of now] obtain ds sc where sc: "schedule caller_id now lease (ap_scheduler s) = (Inr ds, sc)" "scheduler_ok sc"
        unfolding run(1) by blast
      have "set (dict_keys (sc_jobs sc)) \<subseteq> set (dict_keys (sc_jobs (ap_scheduler s)))"
        using schedule_keys [OF sok, of caller_id now lease] sc(1) by simp
      then have "set (dict_keys (sc_jobs sc)) \<subseteq> set (dict_keys (sv_tasks (ap_jobs s)))" using ok unfolding api_ok_def by fast
      with ok sc show ?thesis unfolding post by (simp add: answered_def api_ok_def)
    qed
  qed
qed

lemma post_task_answered:
  assumes ok: "api_ok (s, received)"
  shows "answered received s (post_task limit p s)"
proof -
  have jok: "jobs_run_ok (ap_jobs s, received)" and sok: "scheduler_ok (ap_scheduler s)"
    and sub: "set (dict_keys (sc_jobs (ap_scheduler s))) \<subseteq> set (dict_keys (sv_tasks (ap_jobs s)))" using ok by (auto simp: api_ok_def)
  have submitted: "answered received s (case submit_task limit (get_item p ''action'' (J_str [])) checkpoint (ap_jobs s) of
      (Inl er, jobs) \<Rightarrow> (and_then (bad_request er) (\<lambda>_. Inr (400, error_reply m)), s\<lparr>ap_jobs := jobs\<rparr>)
    | (Inr task, jobs) \<Rightarrow> (Inr (202, Json (task_json task)), s\<lparr>ap_jobs := jobs\<rparr>))" for checkpoint m
    using jok
  proof (cases rule: submit_task_cases [where limit = limit and action = "get_item p ''action'' (J_str [])" and checkpoint = checkpoint])
    case (fails m)
    with ok show ?thesis by (simp add: bad_request_def answered_def)
  next
    case (stores task jobs)
    with sok sub show ?thesis by (auto simp: answered_def api_ok_def)
  qed
  show ?thesis
    using submitted ok by (auto simp: post_task_def Let_def answered_def split: json.split)
qed

lemma post_graphql_answered:
  assumes ok: "api_ok (s, received)"
  shows "answered received s (post_graphql cx p scopes s)"
proof -
  have jok: "jobs_run_ok (ap_jobs s, received)" and sok: "scheduler_ok (ap_scheduler s)"
    and sub: "set (dict_keys (sc_jobs (ap_scheduler s))) \<subseteq> set (dict_keys (sv_tasks (ap_jobs s)))" using ok by (auto simp: api_ok_def)
  obtain res jobs where r: "execute_http_payload (cx_graphql cx) (cx_max_action_chars cx) p scopes (ap_jobs s) = (res, jobs)" by fastforce
  show ?thesis
  proof (cases res)
    case (Inl er)
    with r have "value_error er" "jobs = ap_jobs s" by (auto simp: execute_http_payload_def split: json.splits if_splits prod.splits)
    with ok r Inl show ?thesis by (auto simp: post_graphql_def answered_def value_error_def)
  next
    case (Inr data)
    with r obtain q data where "execute_calls (cx_max_action_chars cx) scopes q (ap_jobs s) = (data, jobs)"
      by (auto simp: execute_http_payload_def split: json.splits if_splits prod.splits sum.splits)
    with execute_calls_ok [OF jok, of "cx_max_action_chars cx" scopes q]
    have "jobs_run_ok (jobs, received)" "set (dict_keys (sv_tasks (ap_jobs s))) \<subseteq> set (dict_keys (sv_tasks jobs))" by simp_all
    with sok sub r Inr show ?thesis by (auto simp: post_graphql_def answered_def api_ok_def simp del: set_map)
  qed
qed

lemma route_answered:
  assumes "api_ok (s, received)"
  shows "answered received s (route_request cx request_method path body scopes s)"
proof -
  have "answered received s (Inr r, s)" for r using assms by (cases r) (simp add: answered_def)
  then show ?thesis
    unfolding route_request_def Let_def
    using post_graphql_answered [OF assms] post_node_answered [OF assms] post_job_answered [OF assms] post_run_answered [OF assms] post_task_answered [OF assms]
    by simp
qed

lemma job_step_tasks:
  assumes "jobs_run_ok (s, received)"
  shows "set (dict_keys (sv_tasks s)) \<subseteq> set (dict_keys (sv_tasks (fst (job_step call (s, received)))))"
proof (cases call)
  case (Submit limit action checkpoint)
  from assms show ?thesis
    by (cases rule: submit_task_cases [where limit = limit and action = action and checkpoint = checkpoint]) (auto simp: Submit simp del: set_map)
next
  case (Transition task_id state)
  then show ?thesis
    by (auto simp: transition_task_def Let_def set_dict_keys_update simp del: set_map allowed_states.simps split: option.split)
next
  case (Receive i)
  then show ?thesis by (auto split: option.splits)
qed (auto simp: subscribe_task_def unsubscribe_task_def Let_def split: option.split)

interpretation api: machine "\<lambda>r. r = (new_api, \<lambda>i. [])" api_step api_ok
proof (unfold_locales, goal_cases)
  case (1 r)
  then show ?case by (simp add: api_ok_def new_api_def scheduler_ok_def new_scheduler_def jobs_run_ok_def new_job_service_def)
next
  case (2 r call)
  obtain s received where r: "r = (s, received)" by fastforce
  show ?case
  proof (cases call)
    case (Request cx request_method path body scopes)
    with route_answered [of s received cx request_method path body scopes] 2 r show ?thesis by (simp add: answered_def)
  next
    case (Jobs c)
    obtain jobs received' where step: "job_step c (ap_jobs s, received) = (jobs, received')" by fastforce
    have "jobs_run_ok (jobs, received')" using jobs.ok_step [of "(ap_jobs s, received)" c] 2 r step by (simp add: api_ok_def)
    moreover have "set (dict_keys (sv_tasks (ap_jobs s))) \<subseteq> set (dict_keys (sv_tasks jobs))"
      using job_step_tasks [of "ap_jobs s" received c] 2 r step by (simp add: api_ok_def)
    ultimately show ?thesis using 2 r Jobs step by (auto simp: api_ok_def simp del: set_map)
  qed
qed

text \<open>
  Property C24.  After any requests, transitions and observers' calls, whatever request comes next: it is
  answered with a status and a body, and no exception of the store or the scheduler escapes; an answer other
  than 200 or 202 left the service as it was, and so does every GET; and each job of the scheduler is a stored task.
\<close>
theorem requests_always_answered:
  assumes "(s, received) = fold api_step calls (new_api, \<lambda>i. [])"
  shows "\<exists>code reply s'. route_request cx request_method path body scopes s = (Inr (code, reply), s') \<and>
    (code \<notin> {200, 202} \<or> request_method = ''GET'' \<longrightarrow> s' = s) \<and>
    set (dict_keys (sc_jobs (ap_scheduler s'))) \<subseteq> set (dict_keys (sv_tasks (ap_jobs s')))"
proof -
  have ok: "api_ok (s, received)" unfolding assms by (rule api.ok_run) simp
  obtain r s' where r: "route_request cx request_method path body scopes s = (r, s')" by fastforce
  moreover have "request_method = ''GET'' \<Longrightarrow> s' = s" using r by (simp add: route_request_def)
  ultimately show ?thesis
    using route_answered [OF ok, of cx request_method path body scopes] unfolding answered_def api_ok_def by auto
qed

definition quiet_engine :: graphql_engine where
  "quiet_engine query variables operation_name = Finished J_null"

definition quiet_context :: api_context where
  "quiet_context = \<lparr>cx_max_action_chars = 500, cx_metadata = J_null, cx_report = None, cx_redfish = [], cx_graphql = quiet_engine\<rparr>"

definition accepted_calls :: "api_call list" where
  "accepted_calls = [Request quiet_context ''POST'' ''/scheduler/jobs'' (Some [(''action'', J_str ''build''), (''project'', J_str ''web''),
     (''resources'', J_obj [(''cpu_cores'', J_int 1), (''memory_mb'', J_int 256), (''wall_time_seconds'', J_int 60)])]) {}]"

lemma requests_always_answered_witness:
  "\<exists>s received s'. fold api_step accepted_calls (new_api, \<lambda>i. []) = (s, received) \<and> dict_keys (sc_jobs (ap_scheduler s)) = [''task-1''] \<and>
     route_request quiet_context ''POST'' ''/scheduler/run'' (Some [(''caller_id'', J_str ''other''), (''now'', J_int 0)]) {} s =
       (Inr (409, error_reply ''only the elected scheduler may place jobs''), s') \<and> s' = s"
proof -
  let ?run = "fold api_step accepted_calls (new_api, \<lambda>i. [])" and ?body = "Some [(''caller_id'', J_str ''other''), (''now'', J_int 0)]"
  obtain s received where r: "?run = (s, received)" by fastforce
  have "dict_keys (sc_jobs (ap_scheduler (fst ?run))) = [''task-1'']" by code_simp
  moreover have "fst (route_request quiet_context ''POST'' ''/scheduler/run'' ?body {} (fst ?run)) =
      Inr (409, error_reply ''only the elected scheduler may place jobs'')" by code_simp
  ultimately show ?thesis using requests_always_answered [OF r [symmetric], of quiet_context "''POST''" "''/scheduler/run''" ?body "{}"] r
    by (intro exI [where x = s] exI [where x = received] exI [where x = s]) auto
qed

end
