(* ===== verification/JobSession.thy ===== *)
theory JobSession
  imports ServiceApi
begin

text \<open>
  Lab 39, \<open>lab_39_sigraft_service/websocket_transport.py\<close>: credentials, the message envelope, and one
  authenticated session, a loop over the messages of a connection.  A message is what \<open>json.loads\<close> gave or
  raised; \<open>url_path\<close> is the path of \<open>urlparse\<close>, which may raise.  The thread that forwards events
  takes them from the mailbox as the calls \<open>Receive\<close> of the task store do.  A session is one run: calls of other
  connections between its commands are not interleaved with it.
\<close>

section \<open>Credentials\<close>

definition known_scopes :: "string set" where
  "known_scopes = {''tasks:read'', ''tasks:write''}"

definition valid_token :: "string \<Rightarrow> bool" where
  "valid_token token \<longleftrightarrow> 32 \<le> length token \<and> length token \<le> 256 \<and> (\<forall>c \<in> set token. 33 \<le> (of_char c :: nat) \<and> (of_char c :: nat) \<le> 126)"

fun credential_entries :: "(string \<times> json) list \<Rightarrow> (string \<times> string set) list \<Rightarrow> (string \<times> string set) list res" where
  "credential_entries [] result = Inr result"
| "credential_entries ((token, scopes) # entries) result =
     (case scopes of
        J_list items \<Rightarrow>
          (case texts_of items of
             Some names \<Rightarrow>
               if valid_token token \<and> names \<noteq> [] \<and> set names \<subseteq> known_scopes
               then credential_entries entries (AList.update token (set names) result)
               else Inl (ValueError ''invalid token or scopes in credential file'')
           | None \<Rightarrow> Inl (ValueError ''invalid token or scopes in credential file''))
      | _ \<Rightarrow> Inl (ValueError ''invalid token or scopes in credential file''))"

definition load_credentials :: "nat \<Rightarrow> nat \<Rightarrow> json res \<Rightarrow> (string \<times> string set) list res" where
  "load_credentials mode file_size values =
     (if mode mod 64 \<noteq> 0 then Inl (ValueError ''credential file must not be accessible to group or others'')
      else if file_size > 65536 then Inl (ValueError ''credential file exceeds 64 KiB'')
      else case values of
             Inr (J_obj entries) \<Rightarrow>
               if 1 \<le> length entries \<and> length entries \<le> 32 then credential_entries entries []
               else Inl (ValueError ''credentials must contain between 1 and 32 token entries'')
           | Inr _ \<Rightarrow> Inl (ValueError ''credentials must contain between 1 and 32 token entries'')
           | Inl er \<Rightarrow> Inl er)"

definition identity :: "string list \<Rightarrow> (string \<times> string set) list \<Rightarrow> string set" where
  "identity headers credentials =
     (case headers of
        [header] \<Rightarrow>
          if begins ''Bearer '' header
          then (case find (\<lambda>(token, scopes). drop 7 header = token) credentials of None \<Rightarrow> {} | Some (token, scopes) \<Rightarrow> scopes)
          else {}
      | _ \<Rightarrow> {})"

section \<open>A session\<close>

datatype raw_message = Text_message "json res" | Binary_message

definition decode_message :: "raw_message \<Rightarrow> (string \<times> payload) res" where
  "decode_message raw =
     (case raw of
        Binary_message \<Rightarrow> Inl (ValueError ''messages must be JSON text'')
      | Text_message (Inl er) \<Rightarrow> Inl er
      | Text_message (Inr (J_obj message)) \<Rightarrow>
          (case get_item message ''id'' J_null of
             J_str identifier \<Rightarrow>
               if 1 \<le> length identifier \<and> length identifier \<le> 64 then Inr (identifier, message)
               else Inl (ValueError ''id must contain 1 to 64 characters'')
           | _ \<Rightarrow> Inl (ValueError ''id must contain 1 to 64 characters''))
      | Text_message (Inr _) \<Rightarrow> Inl (ValueError ''message must be an object''))"

datatype outgoing = Answer string int reply | Refused string int string | Closed int string

record web_session =
  ws_scopes :: "string set"
  ws_subscription :: "nat option"

definition stop_watch :: "web_session \<times> api_state \<Rightarrow> web_session \<times> api_state" where
  "stop_watch = (\<lambda>(w, s).
     (case ws_subscription w of
        None \<Rightarrow> (w, s)
      | Some i \<Rightarrow> (w\<lparr>ws_subscription := None\<rparr>, s\<lparr>ap_jobs := unsubscribe_task i (ap_jobs s)\<rparr>)))"

definition watching :: "string \<Rightarrow> bool \<Rightarrow> outgoing" where
  "watching identifier b = Answer identifier 200 (Json (J_obj [(''watching'', J_bool b)]))"

definition start_watch :: "string \<Rightarrow> payload \<Rightarrow> web_session \<times> api_state \<Rightarrow> outgoing res \<times> web_session \<times> api_state" where
  "start_watch identifier message = (\<lambda>(w, s).
     (if ''tasks:read'' \<notin> ws_scopes w then (Inl (PermissionError []), w, s)
      else case get_item message ''task_id'' J_null of
             J_str task_id \<Rightarrow>
               if ws_subscription w \<noteq> None then (Inl (ValueError ''unwatch before starting another subscription''), w, s)
               else
                 (case subscribe_task task_id (ap_jobs s) of
                    (Inl er, jobs) \<Rightarrow> (Inl er, w, s\<lparr>ap_jobs := jobs\<rparr>)
                  | (Inr (i, sub), jobs) \<Rightarrow> (Inr (watching identifier True), w\<lparr>ws_subscription := Some i\<rparr>, s\<lparr>ap_jobs := jobs\<rparr>))
           | _ \<Rightarrow> (Inl (ValueError ''task_id must be text''), w, s)))"

text \<open>The scope a route needs; None for GraphQL, whose resolvers check their own.\<close>

definition required_scope :: "string \<Rightarrow> string \<Rightarrow> string option res" where
  "required_scope request_method path =
     (if (request_method, path) = (''POST'', ''/tasks'') then Inr (Some ''tasks:write'')
      else if (request_method, path) = (''GET'', ''/metadata'') \<or> (request_method = ''GET'' \<and> begins ''/tasks/'' path \<and> slashes path = 2)
      then Inr (Some ''tasks:read'')
      else if (request_method, path) = (''POST'', ''/graphql'') then Inr None
      else Inl (ValueError ''unsupported route''))"

definition do_request ::
  "api_context \<Rightarrow> (string \<Rightarrow> string res) \<Rightarrow> string \<Rightarrow> payload \<Rightarrow> web_session \<times> api_state \<Rightarrow> outgoing res \<times> web_session \<times> api_state" where
  "do_request cx url_path identifier message = (\<lambda>(w, s).
     (case (get_item message ''method'' J_null, get_item message ''path'' J_null) of
        (J_str request_method, J_str path) \<Rightarrow>
          (case (case get_item message ''body'' J_null of J_null \<Rightarrow> Inr None | J_obj body \<Rightarrow> Inr (Some body) | _ \<Rightarrow> Inl (ValueError ''body must be an object'')) of
             Inl er \<Rightarrow> (Inl er, w, s)
           | Inr body \<Rightarrow>
               (case required_scope request_method path of
                  Inl er \<Rightarrow> (Inl er, w, s)
                | Inr required \<Rightarrow>
                    if (case required of None \<Rightarrow> False | Some scope \<Rightarrow> scope \<notin> ws_scopes w) then (Inl (PermissionError []), w, s)
                    else
                      (case url_path path of
                         Inl er \<Rightarrow> (Inl er, w, s)
                       | Inr parsed \<Rightarrow>
                           (case route_request cx request_method parsed body (ws_scopes w) s of
                              (Inl er, s') \<Rightarrow> (Inl er, w, s')
                            | (Inr (status, data), s') \<Rightarrow> (Inr (Answer identifier status data), w, s')))))
      | _ \<Rightarrow> (Inl (ValueError ''method and path must be text''), w, s)))"

definition dispatch ::
  "api_context \<Rightarrow> (string \<Rightarrow> string res) \<Rightarrow> string \<Rightarrow> payload \<Rightarrow> web_session \<times> api_state \<Rightarrow> outgoing res \<times> web_session \<times> api_state" where
  "dispatch cx url_path identifier message ws =
     (let operation = get_item message ''operation'' J_null in
      if operation = J_str ''unwatch'' then (Inr (watching identifier False), stop_watch ws)
      else if operation = J_str ''watch'' then start_watch identifier message ws
      else if operation = J_str ''request'' then do_request cx url_path identifier message ws
      else (Inl (ValueError ''unknown operation''), ws))"

text \<open>The loop of \<open>run\<close>; an exception it does not handle, such as a RecursionError of \<open>json.loads\<close>, ends it.\<close>

definition bad_envelope :: "exn \<Rightarrow> bool" where
  "bad_envelope er = (case er of ValueError m \<Rightarrow> True | JSONDecodeError m \<Rightarrow> True | UnicodeDecodeError m \<Rightarrow> True | _ \<Rightarrow> False)"

definition refusal :: "string \<Rightarrow> exn \<Rightarrow> outgoing option" where
  "refusal identifier er =
     (case er of
        PermissionError m \<Rightarrow> Some (Refused identifier 403 ''operation forbidden'')
      | KeyError m \<Rightarrow> Some (Refused identifier 404 ''job not found'')
      | ValueError m \<Rightarrow> Some (Refused identifier 400 ''invalid command'')
      | TypeError m \<Rightarrow> Some (Refused identifier 400 ''invalid command'')
      | _ \<Rightarrow> None)"

fun session_loop ::
  "api_context \<Rightarrow> (string \<Rightarrow> string res) \<Rightarrow> raw_message list \<Rightarrow> string list \<Rightarrow> web_session \<times> api_state \<Rightarrow> outgoing list \<times> web_session \<times> api_state" where
  "session_loop cx url_path [] seen ws = ([], ws)"
| "session_loop cx url_path (raw # raws) seen ws =
     (case decode_message raw of
        Inl er \<Rightarrow> (if bad_envelope er then [Closed 1008 ''invalid JSON command envelope''] else [], ws)
      | Inr (identifier, message) \<Rightarrow>
          if identifier \<in> set seen then
            (case session_loop cx url_path raws seen ws of (out, ws') \<Rightarrow> (Refused identifier 409 ''duplicate request id'' # out, ws'))
          else if length seen \<ge> 1024 then ([Closed 1013 ''command limit reached; open a new connection''], ws)
          else
            (case dispatch cx url_path identifier message ws of
               (Inr answer, ws') \<Rightarrow> (case session_loop cx url_path raws (identifier # seen) ws' of (out, ws'') \<Rightarrow> (answer # out, ws''))
             | (Inl er, ws') \<Rightarrow>
                 (case refusal identifier er of
                    None \<Rightarrow> ([], ws')
                  | Some refused \<Rightarrow> (case session_loop cx url_path raws (identifier # seen) ws' of (out, ws'') \<Rightarrow> (refused # out, ws'')))))"

definition run_session ::
  "api_context \<Rightarrow> (string \<Rightarrow> string res) \<Rightarrow> string set \<Rightarrow> raw_message list \<Rightarrow> api_state \<Rightarrow> outgoing list \<times> api_state" where
  "run_session cx url_path scopes raws s =
     (case session_loop cx url_path raws [] (\<lparr>ws_scopes = scopes, ws_subscription = None\<rparr>, s) of
        (out, ws) \<Rightarrow> (out, snd (stop_watch ws)))"

section \<open>What a session may do\<close>

text \<open>
  \<open>base\<close> are the subscriptions of others, \<open>start\<close> the service when the session began; \<open>scopes\<close> never changes.
\<close>

definition store_same :: "api_state \<Rightarrow> api_state \<Rightarrow> bool" where
  "store_same a b \<longleftrightarrow> sv_tasks (ap_jobs b) = sv_tasks (ap_jobs a) \<and> sv_next_id (ap_jobs b) = sv_next_id (ap_jobs a) \<and>
     sv_sequence (ap_jobs b) = sv_sequence (ap_jobs a)"

definition session_ok :: "string set \<Rightarrow> (nat \<times> job_subscription) list \<Rightarrow> api_state \<Rightarrow> web_session \<times> api_state \<Rightarrow> bool" where
  "session_ok scopes base start = (\<lambda>(w, s).
     ws_scopes w = scopes \<and> ap_scheduler s = ap_scheduler start \<and> (''tasks:write'' \<notin> scopes \<longrightarrow> store_same start s) \<and>
     (\<forall>i \<in> fst ` set base. i < sv_fresh (ap_jobs s)) \<and>
     (case ws_subscription w of
        None \<Rightarrow> sv_subscriptions (ap_jobs s) = base
      | Some i \<Rightarrow> i \<notin> fst ` set base \<and> (\<exists>sub. sv_subscriptions (ap_jobs s) = base @ [(i, sub)])))"

lemma filter_others: "i \<notin> fst ` set base \<Longrightarrow> filter (\<lambda>(j, sub). j \<noteq> i) base = base"
  by (induction base) auto

lemma stop_watch_ok: "session_ok scopes base start ws \<Longrightarrow> session_ok scopes base start (stop_watch ws) \<and> ws_subscription (fst (stop_watch ws)) = None"
  by (cases ws) (auto simp: session_ok_def stop_watch_def unsubscribe_task_def filter_others store_same_def split: option.splits)

lemma start_watch_ok: "session_ok scopes base start ws \<Longrightarrow> session_ok scopes base start (snd (start_watch identifier message ws))"
  by (cases ws) (auto simp: session_ok_def start_watch_def subscribe_task_def Let_def store_same_def split: json.split option.splits)

lemma submit_same_subscriptions:
  "sv_subscriptions (snd (submit_task limit action checkpoint s)) = sv_subscriptions s \<and> sv_fresh (snd (submit_task limit action checkpoint s)) = sv_fresh s"
  by (auto simp: submit_task_def Let_def split: json.split sum.split)

lemma resolve_same:
  "sv_subscriptions (snd (resolve limit scopes call s)) = sv_subscriptions s \<and> sv_fresh (snd (resolve limit scopes call s)) = sv_fresh s \<and>
   (''tasks:write'' \<notin> scopes \<longrightarrow> snd (resolve limit scopes call s) = s)"
proof (cases call)
  case (Submit_mutation action checkpoint)
  with submit_same_subscriptions [of limit "J_str action" "checkpoint_json checkpoint" s] show ?thesis
    by (auto simp: require_scope_def split: prod.splits sum.splits)
qed (auto split: option.split sum.split)

lemma execute_calls_same:
  "sv_subscriptions (snd (execute_calls limit scopes r s)) = sv_subscriptions s \<and>
   sv_fresh (snd (execute_calls limit scopes r s)) = sv_fresh s \<and>
   (''tasks:write'' \<notin> scopes \<longrightarrow> snd (execute_calls limit scopes r s) = s)"
proof (induction r arbitrary: s)
  case (Call call continue)
  obtain result s1 where r: "resolve limit scopes call s = (result, s1)" by fastforce
  with resolve_same [of limit scopes call s] Call.IH [OF rangeI, of result s1] show ?case by auto
qed simp

lemma post_graphql_same:
  "ap_scheduler (snd (post_graphql cx p scopes s)) = ap_scheduler s \<and>
   sv_subscriptions (ap_jobs (snd (post_graphql cx p scopes s))) = sv_subscriptions (ap_jobs s) \<and>
   sv_fresh (ap_jobs (snd (post_graphql cx p scopes s))) = sv_fresh (ap_jobs s) \<and>
   (''tasks:write'' \<notin> scopes \<longrightarrow> ap_jobs (snd (post_graphql cx p scopes s)) = ap_jobs s)"
proof -
  obtain res jobs where r: "execute_http_payload (cx_graphql cx) (cx_max_action_chars cx) p scopes (ap_jobs s) = (res, jobs)" by fastforce
  then have "jobs = ap_jobs s \<or> (\<exists>q. jobs = snd (execute_calls (cx_max_action_chars cx) scopes q (ap_jobs s)))"
    by (auto simp: execute_http_payload_def split: json.splits if_splits prod.splits sum.splits) (metis snd_conv)+
  with execute_calls_same [of "cx_max_action_chars cx" scopes _ "ap_jobs s"] r show ?thesis
    by (auto simp: post_graphql_def split: sum.split exn.split)
qed

lemma post_task_same:
  "ap_scheduler (snd (post_task limit p s)) = ap_scheduler s \<and>
   sv_subscriptions (ap_jobs (snd (post_task limit p s))) = sv_subscriptions (ap_jobs s) \<and>
   sv_fresh (ap_jobs (snd (post_task limit p s))) = sv_fresh (ap_jobs s)"
proof -
  have *: "sv_subscriptions jobs = sv_subscriptions (ap_jobs s) \<and> sv_fresh jobs = sv_fresh (ap_jobs s)"
    if "submit_task limit action checkpoint (ap_jobs s) = (r, jobs)" for action checkpoint r jobs
    using submit_same_subscriptions [of limit action checkpoint "ap_jobs s"] that by simp
  show ?thesis by (auto simp: post_task_def Let_def dest: * split: json.split prod.split sum.split)
qed

lemma answer_state:
  "snd (case r of (Inl er, s') \<Rightarrow> (Inl er, w, s') | (Inr (status, data), s') \<Rightarrow> (Inr (Answer i status data), w, s')) = (w, snd r)"
  by (cases r) (simp split: sum.split prod.split)

lemma do_request_state:
  assumes "url_path ''/graphql'' = Inr ''/graphql''" "url_path ''/tasks'' = Inr ''/tasks''"
  obtains (same) "snd (do_request cx url_path key message (w, s)) = (w, s)"
    | (graphql) p where "snd (do_request cx url_path key message (w, s)) = (w, snd (post_graphql cx p (ws_scopes w) s))"
    | (task) p where "''tasks:write'' \<in> ws_scopes w" "snd (do_request cx url_path key message (w, s)) = (w, snd (post_task (cx_max_action_chars cx) p s))"
proof (cases "snd (do_request cx url_path key message (w, s)) = (w, s)")
  case False
  then obtain request_method path body required parsed where
    c: "required_scope request_method path = Inr required" "\<not> (case required of None \<Rightarrow> False | Some scope \<Rightarrow> scope \<notin> ws_scopes w)"
      "url_path path = Inr parsed"
    and eq: "snd (do_request cx url_path key message (w, s)) = (w, snd (route_request cx request_method parsed body (ws_scopes w) s))"
    unfolding do_request_def prod.case
    by (auto simp: answer_state split: json.split_asm sum.split_asm if_split_asm)
  from False eq have "request_method = ''POST''" by (auto simp: route_request_def Let_def split: if_split_asm)
  with c assms have "parsed = ''/tasks'' \<and> ''tasks:write'' \<in> ws_scopes w \<or> parsed = ''/graphql''"
    by (auto simp: required_scope_def split: if_splits)
  with eq graphql task \<open>request_method = ''POST''\<close> show ?thesis by (auto simp: route_request_def Let_def)
qed (rule same)

lemma dispatch_ok:
  assumes "url_path ''/graphql'' = Inr ''/graphql''" "url_path ''/tasks'' = Inr ''/tasks''" "session_ok scopes base start ws"
  shows "session_ok scopes base start (snd (dispatch cx url_path key message ws))"
proof -
  obtain w s where ws: "ws = (w, s)" by fastforce
  have "session_ok scopes base start (snd (do_request cx url_path key message (w, s)))"
    using assms(1,2)
  proof (cases rule: do_request_state [where cx = cx and key = key and message = message and w = w and s = s])
    case same
    with assms(3) ws show ?thesis by simp
  next
    case (graphql p)
    with assms(3) ws post_graphql_same [of cx p "ws_scopes w" s] show ?thesis
      by (auto simp: session_ok_def store_same_def split: option.splits)
  next
    case (task p)
    with assms(3) ws post_task_same [of "cx_max_action_chars cx" p s] show ?thesis
      by (auto simp: session_ok_def split: option.splits)
  qed
  with assms(3) ws stop_watch_ok start_watch_ok show ?thesis by (simp add: dispatch_def Let_def)
qed

lemma session_loop_ok:
  assumes "url_path ''/graphql'' = Inr ''/graphql''" "url_path ''/tasks'' = Inr ''/tasks''"
  shows "session_ok scopes base start ws \<Longrightarrow> session_ok scopes base start (snd (session_loop cx url_path raws seen ws))"
proof (induction raws arbitrary: seen ws)
  case (Cons raw raws)
  note step = dispatch_ok [where cx = cx, OF assms Cons.prems]
  show ?case
  proof (cases "decode_message raw")
    case (Inr p)
    obtain key message where p: "p = (key, message)" by fastforce
    obtain res ws' where d: "dispatch cx url_path key message ws = (res, ws')" by (cases "dispatch cx url_path key message ws") auto
    with step [of key message] have ok: "session_ok scopes base start ws'" by simp
    from Inr p d Cons.IH [OF Cons.prems] Cons.IH [OF ok] ok Cons.prems show ?thesis
      by (auto split: prod.split sum.split option.split) (metis snd_conv)+
  qed (use Cons.prems in simp)
qed simp

text \<open>
  Property C25.  What a connection may do, whatever it sends: when its session ends no mailbox is left behind
  and none of another connection is touched, the scheduler is as it was, and without the scope
  \<open>tasks:write\<close> so are the tasks.  \<open>url_path\<close> is only asked to leave the two plain paths as they are.
\<close>
theorem session_is_contained:
  assumes "url_path ''/graphql'' = Inr ''/graphql''" "url_path ''/tasks'' = Inr ''/tasks''"
    "\<forall>i \<in> set (dict_keys (sv_subscriptions (ap_jobs s))). i < sv_fresh (ap_jobs s)"
    "run_session cx url_path scopes raws s = (out, s')"
  shows "sv_subscriptions (ap_jobs s') = sv_subscriptions (ap_jobs s) \<and> ap_scheduler s' = ap_scheduler s \<and>
    (''tasks:write'' \<notin> scopes \<longrightarrow> sv_tasks (ap_jobs s') = sv_tasks (ap_jobs s) \<and> sv_next_id (ap_jobs s') = sv_next_id (ap_jobs s) \<and>
       sv_sequence (ap_jobs s') = sv_sequence (ap_jobs s))"
proof -
  let ?ws = "(\<lparr>ws_scopes = scopes, ws_subscription = None\<rparr>, s)" and ?base = "sv_subscriptions (ap_jobs s)"
  have "session_ok scopes ?base s ?ws" using assms(3) by (simp add: session_ok_def store_same_def)
  from session_loop_ok [OF assms(1,2) this, of cx raws "[]"]
  have "session_ok scopes ?base s (snd (session_loop cx url_path raws [] ?ws))" .
  from stop_watch_ok [OF this] assms(4) show ?thesis
    by (cases "stop_watch (snd (session_loop cx url_path raws [] ?ws))")
      (auto simp: run_session_def session_ok_def store_same_def split: prod.splits)
qed

definition reading_session :: "raw_message list" where
  "reading_session = map (\<lambda>m. Text_message (Inr (J_obj m)))
     [[(''id'', J_str ''1''), (''operation'', J_str ''watch''), (''task_id'', J_str ''task-1'')],
      [(''id'', J_str ''2''), (''operation'', J_str ''request''), (''method'', J_str ''POST''), (''path'', J_str ''/tasks'')],
      [(''id'', J_str ''2''), (''operation'', J_str ''unwatch'')]]"

definition one_task :: api_state where
  "one_task = new_api\<lparr>ap_jobs := snd (submit_task 500 (J_str ''build'') J_null new_job_service)\<rparr>"

lemma session_is_contained_witness:
  "\<exists>s'. run_session quiet_context Inr {''tasks:read''} reading_session one_task =
      ([watching ''1'' True, Refused ''2'' 403 ''operation forbidden'', Refused ''2'' 409 ''duplicate request id''], s') \<and>
     sv_subscriptions (ap_jobs s') = [] \<and> sv_tasks (ap_jobs s') = sv_tasks (ap_jobs one_task)"
proof -
  let ?r = "run_session quiet_context Inr {''tasks:read''} reading_session one_task"
  have out: "fst ?r = [watching ''1'' True, Refused ''2'' 403 ''operation forbidden'', Refused ''2'' 409 ''duplicate request id'']" by code_simp
  have subs: "sv_subscriptions (ap_jobs one_task) = []" by code_simp
  obtain o0 s' where r: "?r = (o0, s')" by fastforce
  from session_is_contained [OF refl refl _ r] subs out r show ?thesis by simp
qed

end
