(* ===== verification/Spec2Isabelle.thy ===== *)
theory Spec2Isabelle
  imports Quorum RaftElection DistributedLock ResourceScheduler ReplicatedLog KvStore BinarySearchTree RelayPlan PartitionedStore FramedProtocol LogicalClocks RiscV MiniVm LoadShedding DagEngine ConfigReload JobSession
begin

text \<open>
  A verification development for the programs of the Python labs in this repository.

  The repository holds 39 labs around one running example, a relay service that carries tasks.  Each
  lab is a package under \<open>src/labs/NN-name/src/lab_NN_name\<close>; the labs do not import one another, but many
  carry the same ideas from one to the next: the quorum register's connectivity groups come back in the
  election and in the replicated log, the frames of one lab travel over the sockets of the next, and the
  scheduler of lab 38 becomes part of the capstone service.  The theories model the labs whose logic is
  their own: distributed protocols, stores, schedulers, data structures, codecs and small machines.

  Layout.  \<open>Prelude\<close> holds the values and containers of Python that the models use (exceptions as values
  of \<open>exn\<close>, results as \<open>exn + 'a\<close>, dictionaries as association lists in insertion order, \<open>str.strip\<close>,
  \<open>isdigit\<close> and decimal numerals, minimum and maximum by key, majorities) with their lemmas, and the locale
  \<open>machine\<close>: a start predicate, a step function and an invariant that holds in every run.  Every
  component with state interprets it on its own step function, and the properties about all runs rest
  on that interpretation.  The other theories are one per component:

    \<^item> \<open>Partition\<close>, \<open>Quorum\<close> (lab 23, simulation.py): connectivity groups, versions, the quorum register and
      its reads and writes.  Freshness of overlapping quorums, reading one's own write, the least
      intersecting majority.
    \<^item> \<open>RaftElection\<close> (lab 24): votes, terms, heartbeats and the deterministic cluster.  One vote per term
      and election safety; and that a candidate that stepped down behind its majority is still made leader.
    \<^item> \<open>ReplicatedLog\<close> (lab 25): the leader's log, append and vote messages, commit by quorum, the state
      machine.  Well-formed logs, commitment with a majority, and how the commit index of a
      follower goes back and applied entries leave its state machine.
    \<^item> \<open>DistributedLock\<close> (lab 26): the compare-and-delete lock, leases with fences, the fenced store and the
      interval scheduler in a simulation of workers.
    \<^item> \<open>KvStore\<close> (lab 29): the container of items with ETags, time to live and conditional writes, as a map
      of live items.
    \<^item> \<open>PartitionedStore\<close> (lab 28): the hash ring over any hash function, replicated writes and reads with
      version vectors, repair and rebalancing.
    \<^item> \<open>ResourceScheduler\<close> (lab 38): nodes, quotas, placement, leases and the life of a job.
    \<^item> \<open>LogicalClocks\<close> (lab 22, clocks.py and relay.py): Lamport and vector clocks and replicas exchanging
      updates; vectors are causality and the logical order extends it.
    \<^item> \<open>LoadShedding\<close> (lab 33): admission control, the circuit breaker and the retrying consumer.
    \<^item> \<open>DagEngine\<close> (lab 30): the workflow scheduler, with retries and skipping, on \<open>TopologicalSorter\<close>, the model
      of the standard library's \<open>graphlib\<close>.  Attempts in dependency order, runs that always end, cycles detected.
    \<^item> \<open>ConfigReload\<close> (lab 39, config.py, with the parts of telemetry.py, analytics_service.py and
      sigraft_service.py that take part): the checked configuration, the two-phase reload over any subsystems
      that keep the contract of the locale \<open>reload_contract\<close>, the file watcher, and the reloadable sampler,
      request limits and analytics runtime that the service registers.
    \<^item> \<open>JobService\<close> (lab 39, sigraft_service.py and job_events.py): tasks, their life cycle and the mailboxes of
      their observers.
    \<^item> \<open>ClusterScheduler\<close> (lab 39, scheduler.py): payload checks, placement, reservations, expiry and retry.  It
      differs from the scheduler of lab 38 in its scoring, its queues and its JSON surface.
    \<^item> \<open>ServiceApi\<close> (lab 39, \<open>_route_request\<close>, redfish.py and the resolvers of graphql_api.py): every route
      over the task store and the scheduler together, with \<open>api_ok\<close> for the two.
    \<^item> \<open>JobSession\<close> (lab 39, websocket_transport.py): credentials, the message envelope and an authenticated
      session that calls the same routes with the scopes of its token.
    \<^item> \<open>FramedProtocol\<close> (lab 16, framing.py): the ring buffer, the frame codec and the incremental reader.
    \<^item> \<open>RiscV\<close> and \<open>MiniVm\<close> (lab 10): the RV32I ADD simulator and the stack machine.
    \<^item> \<open>OrderedMap\<close>, \<open>BinarySearchTree\<close>, \<open>RedBlack\<close>, \<open>DirectedGraph\<close>, \<open>RelayPlan\<close> (lab 06): the search trees,
      whose common contract is the locale \<open>ordered_map\<close>, the dependency graph with its searches and sort, and
      the plan that keeps a graph and a red-black index together.

  What the lemmas show.  Each theory opens with the definitions in the order of the source, then an
  invariant with the lemmas that every operation keeps it, then the functional lemmas of the operations on
  every branch, then the properties.  A property is stated over the model's own operations and, where
  it speaks of all runs, over \<open>fold\<close> of the component's step function from its constructor, with failing
  calls included.  Ghost state (the causal past of an update, the list of accepted messages) is kept
  beside the model's state and never read by it.

  Conventions and bounds.  An object that a method mutates is returned updated, also when the call raises.
  A \<open>str\<close> is a list of characters below code point 256.  Python integers are \<open>int\<close> (\<open>nat\<close> for
  indices that are never negative) and bytes are \<open>8 word\<close>; no integer is narrower than in the source.
  Loops are recursive functions with a proof of termination; where termination depends on an invariant
  (\<open>path_back\<close> of the shortest path, \<open>owners_loop\<close> of the ring, \<open>feed_loop\<close> of the frame reader, \<open>run_loop\<close>
  of the workflow engine) the loop is a
  partial function into an option and the properties prove that it returns.  There is no fuel.  Hash
  functions, writers of bytes and random delays are arguments of the definitions that use them; in lab 39 so
  are the digest of a configuration file, the TOML reader, the path of \<open>urlparse\<close> and the GraphQL engine,
  which chooses the resolver calls.  A float is a rational or not finite (\<open>None\<close>), compared and never computed with.

  Not modelled.  Float arithmetic: weighted graphs (\<open>weighted_graph.py\<close>, \<open>routing.py\<close>), the retry budget
  and the backoff policy of lab 33, ratios in reports.  Libraries and the outside world: UTF-8, JSON, protobuf
  and pydantic codecs, sockets, gRPC, ZeroMQ and WebSocket transports, HTTP services, SQL, the Azure, AWS and
  Kubernetes adapters, subprocesses, profilers, telemetry exporters and pandas reports.  Of lab 39: the release
  tool, the control client, the exporters, the building of the analytics report, the socket layers of HTTP and
  WebSocket, and the forwarding threads beyond taking an event from a mailbox.  The labs left out altogether
  are those whose code is almost only such calls; the record types and dictionaries around them carry no
  invariant that the modelled components do not already have.  In labs 22, 24, 25, 28 and 33 the rendering of
  an object as JSON is left out wherever it only copies fields.  PROJECT.json lists every part with its reason.
\<close>

section \<open>Properties across components\<close>

text \<open>
  Property C39.  The red-black tree and the unbalanced search tree are interchangeable: after the same
  puts, in any order and with any repetitions, they list the same items and have the same len().
\<close>
theorem search_trees_agree:
  "\<exists>t. rb_puts kvs new_rb_tree = Inr t \<and>
     rb_items t = inorder (fold (\<lambda>(k, v). tree_put k v) kvs new_search_tree) \<and>
     rb_size t = st_size (fold (\<lambda>(k, v). tree_put k v) kvs new_search_tree)"
proof -
  have run: "rb_puts kvs new_rb_tree = Inr (rbt.puts kvs)"
    using rb_puts_store [OF rbt.inv_empty] by (simp add: rbt.puts_def)
  have "rb_items (rbt.puts kvs) = inorder (bst.puts kvs)"
  proof (rule sorted_items_unique)
    show "sorted_wrt (<) (map fst (rb_items (rbt.puts kvs)))" by (intro rbt.items_sorted rbt.inv_puts)
    show "sorted_wrt (<) (map fst (inorder (bst.puts kvs)))" by (intro bst.items_sorted bst.inv_puts)
    show "map_of (rb_items (rbt.puts kvs)) = map_of (inorder (bst.puts kvs))"
      by (rule ext) (simp only: rbt.items_look [OF rbt.inv_puts] bst.items_look [OF bst.inv_puts] rbt.look_puts bst.look_puts)
  qed
  with run show ?thesis
    using rbt.count_puts [of kvs] bst.count_puts [of kvs] by (simp add: bst.puts_def)
qed

end
